(* ===== verification/CPrelude.thy ===== *)
theory CPrelude
  imports Main "HOL-Library.Word"
begin

text \<open>
  The shared layer of the development: the machine types of the C sources, the
  outcomes a C function can have besides returning, the sequential composition of
  fallible steps, and the arithmetic of 32-bit sequence numbers that every KCP
  component relies on.

  Conventions. A C unsigned integer of \<open>w\<close> bits is a \<open>w word\<close>, so that its
  arithmetic wraps. A C \<open>int\<close> or \<open>long\<close> is an \<open>int\<close>; a conversion of an unsigned
  value to \<open>int\<close> is \<open>sint\<close> (the two's complement reading every supported
  compiler uses), a conversion of an \<open>int\<close> to unsigned is \<open>word_of_int\<close>, and the
  narrowing of a \<open>long\<close> to a 32-bit \<open>int\<close> is \<open>wrap_i32\<close>. Signed arithmetic that overflows, undefined in C,
  is given its two's complement value where the sources do not exclude it, as with \<open>-fwrapv\<close>.
\<close>

unbundle bit_operations_syntax

named_theorems seqno \<open>order facts on sequence numbers relative to a base\<close>
named_theorems frame \<open>fields that an operation leaves unchanged\<close>

type_synonym u8 = "8 word"
type_synonym u16 = "16 word"
type_synonym u32 = "32 word"
type_synonym u64 = "64 word"
type_synonym bytes = "u8 list"

subsection \<open>Outcomes of C code\<close>

text \<open>
  A run of a C function either returns (\<open>Inr\<close>) or ends the program or leaves
  the defined behaviour of C (\<open>Inl\<close>).
\<close>

datatype c_error =
    Assert_Failed
  | Abort_Called
  | Null_Deref
  | Out_Of_Bounds
  | Div_By_Zero
  | No_Return \<comment> \<open>a loop that never ends\<close>
  | Missing_Return \<comment> \<open>the end of a function that has a result, whose caller uses it\<close>
  | Wild_Pointer \<comment> \<open>an access through an uninitialised or dangling pointer\<close>
  | Uninitialised \<comment> \<open>a read of an object that was never assigned\<close>
  | Bad_Free \<comment> \<open>\<open>free\<close> of what is not an allocated block\<close>

type_synonym 'a cresult = "c_error + 'a"

definition rbind :: "'a cresult \<Rightarrow> ('a \<Rightarrow> 'b cresult) \<Rightarrow> 'b cresult" where
  "rbind m f = (case m of Inl e \<Rightarrow> Inl e | Inr x \<Rightarrow> f x)"

lemma rbind_simps [simp]:
  "rbind (Inl e) f = Inl e"
  "rbind (Inr x) f = f x"
  by (simp_all add: rbind_def)

lemma rbind_Inr_iff: "rbind m f = Inr y \<longleftrightarrow> (\<exists>x. m = Inr x \<and> f x = Inr y)"
  by (cases m) auto

lemma rbind_cong [fundef_cong]:
  "m = m' \<Longrightarrow> (\<And>x. m' = Inr x \<Longrightarrow> f x = f' x) \<Longrightarrow> rbind m f = rbind m' f'"
  by (cases m') auto

definition rguard :: "bool \<Rightarrow> c_error \<Rightarrow> unit cresult" where
  "rguard b e = (if b then Inr () else Inl e)"

lemma rguard_simps [simp]:
  "rguard True e = Inr ()"
  "rguard False e = Inl e"
  by (simp_all add: rguard_def)

lemma rguard_Inr_iff [simp]: "rguard b e = Inr x \<longleftrightarrow> b"
  by (simp add: rguard_def)

text \<open>Sequencing of functions that may also fail to return (\<open>None\<close>).\<close>

definition obind :: "'a cresult option \<Rightarrow> ('a \<Rightarrow> 'b cresult option) \<Rightarrow> 'b cresult option" where
  "obind m f = Option.bind m (\<lambda>r. case r of Inl e \<Rightarrow> Some (Inl e) | Inr x \<Rightarrow> f x)"

lemma obind_simps [simp]:
  "obind None f = None" "obind (Some (Inl e)) f = Some (Inl e)" "obind (Some (Inr x)) f = f x"
  by (simp_all add: obind_def)

lemma obind_Inr_iff: "obind m f = Some (Inr y) \<longleftrightarrow> (\<exists>x. m = Some (Inr x) \<and> f x = Some (Inr y))"
  by (cases m) (auto simp: obind_def split: sum.splits)

subsection \<open>Memory\<close>

text \<open>
  The outcome of the \<open>i\<close>-th allocation a function call performs: \<open>None\<close> is \<open>NULL\<close>;
  \<open>Some junk\<close> is a block whose cell at offset \<open>k\<close> initially holds the unspecified
  value \<open>junk k\<close>. The operations take the allocator as an argument, so every statement
  holds for every behaviour of \<open>malloc\<close> (and of the hook that replaces it).
\<close>

type_synonym 'a allocator = "nat \<Rightarrow> (nat \<Rightarrow> 'a) option"

definition block :: "(nat \<Rightarrow> 'a) \<Rightarrow> nat \<Rightarrow> 'a list" where
  "block junk n = map junk [0..<n]"

text \<open>\<open>memcpy\<close> of \<open>src\<close> onto offset \<open>off\<close> of a block.\<close>

definition memcpy_at :: "'a list \<Rightarrow> nat \<Rightarrow> 'a list \<Rightarrow> 'a list" where
  "memcpy_at dst off src = take off dst @ src @ drop (off + length src) dst"

lemma length_block [simp]: "length (block junk n) = n"
  by (simp add: block_def)

lemma block_0 [simp]: "block junk 0 = []"
  by (simp add: block_def)

lemma length_memcpy_at [simp]:
  "off + length src \<le> length dst \<Longrightarrow> length (memcpy_at dst off src) = length dst"
  by (simp add: memcpy_at_def)

lemma memcpy_at_full: "length src = length dst \<Longrightarrow> memcpy_at dst 0 src = src"
  by (simp add: memcpy_at_def)

text \<open>Reading and writing a cell of an array by index.\<close>

definition load :: "'a list \<Rightarrow> nat \<Rightarrow> 'a cresult" where
  "load xs i = (if i < length xs then Inr (xs ! i) else Inl Out_Of_Bounds)"

definition store :: "'a list \<Rightarrow> nat \<Rightarrow> 'a \<Rightarrow> 'a list cresult" where
  "store xs i v = (if i < length xs then Inr (xs[i := v]) else Inl Out_Of_Bounds)"

lemma load_ok [simp]: "i < length xs \<Longrightarrow> load xs i = Inr (xs ! i)"
  by (simp add: load_def)

lemma store_ok [simp]: "i < length xs \<Longrightarrow> store xs i v = Inr (xs[i := v])"
  by (simp add: store_def)

lemma load_Inr_iff: "load xs i = Inr v \<longleftrightarrow> i < length xs \<and> v = xs ! i"
  by (auto simp: load_def)

lemma store_Inr_iff: "store xs i v = Inr ys \<longleftrightarrow> i < length xs \<and> ys = xs[i := v]"
  by (auto simp: store_def)

subsection \<open>Integer conversions\<close>

text \<open>C division truncates towards zero.\<close>

definition c_div :: "int \<Rightarrow> int \<Rightarrow> int" where
  "c_div a b = (if (a < 0) = (b < 0) then \<bar>a\<bar> div \<bar>b\<bar> else - (\<bar>a\<bar> div \<bar>b\<bar>))"

lemma c_div_nonneg [simp]: "0 \<le> a \<Longrightarrow> 0 < b \<Longrightarrow> c_div a b = a div b"
  by (simp add: c_div_def)

definition wrap_i32 :: "int \<Rightarrow> int" where
  "wrap_i32 x = sint (word_of_int x :: u32)"

lemma sint_word_of_int_id:
  "- (2 ^ 31) \<le> z \<Longrightarrow> z < 2 ^ 31 \<Longrightarrow> sint (word_of_int z :: u32) = z"
  by (simp add: signed_of_int signed_take_bit_int_eq_self)

lemma wrap_i32_id [simp]: "- (2 ^ 31) \<le> x \<Longrightarrow> x < 2 ^ 31 \<Longrightarrow> wrap_i32 x = x"
  unfolding wrap_i32_def by (rule sint_word_of_int_id)

lemma wrap_i32_range: "- (2 ^ 31) \<le> wrap_i32 x \<and> wrap_i32 x < 2 ^ 31"
  using sint_range_size [of "word_of_int x :: u32"] by (simp add: wrap_i32_def word_size)

lemma uint_less_iff_unat: "uint w < int n \<longleftrightarrow> unat w < n"
  by (metis of_nat_less_iff of_nat_unat)

lemma sint_u32_cases:
  "sint (w :: u32) = (if unat w < 2 ^ 31 then int (unat w) else int (unat w) - 2 ^ 32)"
proof -
  have lt: "uint w < 4294967296" and ge: "0 \<le> uint w"
    using uint_lt2p [of w] by simp_all
  have "sint w = (uint w + 2147483648) mod 4294967296 - 2147483648"
    using int_word_sint [where 'a = 32, of "uint w"] by simp
  also have "\<dots> = (if uint w < 2147483648 then uint w else uint w - 4294967296)"
  proof (cases "uint w < 2147483648")
    case True
    then show ?thesis using ge by simp
  next
    case False
    have "(uint w + 2147483648) mod 4294967296 = (uint w + 2147483648 - 4294967296) mod 4294967296"
      by (rule minus_mod_self2 [symmetric])
    with False lt show ?thesis by simp
  qed
  finally show ?thesis
    using uint_less_iff_unat [of w 2147483648] by simp
qed

lemma sint_small: "unat (w :: u32) < 2 ^ 31 \<Longrightarrow> sint w = int (unat w)"
  by (simp add: sint_u32_cases)

lemma sint_nonneg_unat: "0 \<le> sint (w :: u32) \<Longrightarrow> sint w = int (unat w)"
proof -
  assume "0 \<le> sint w"
  moreover have "int (unat w) < 4294967296" using unsigned_less [of w, where 'a = int] by simp
  ultimately show ?thesis by (simp add: sint_u32_cases split: if_splits)
qed

lemma unat_ucast_u16: "unat (ucast (w :: u16) :: u32) = unat w"
proof -
  have "unat w < 2 ^ 32" using unsigned_less [of w, where 'a = nat] by simp
  then show ?thesis by (simp only: unsigned_ucast_eq) (simp add: take_bit_nat_eq_self)
qed

lemma sint_of_nat_u32: "n < 2 ^ 31 \<Longrightarrow> sint (of_nat n :: u32) = int n"
  using sint_word_of_int_id [of "int n"] by simp

lemma unat_of_nat_u32 [simp]: "n < 4294967296 \<Longrightarrow> unat (of_nat n :: u32) = n"
  by (simp add: unat_of_nat)

lemma unat_u32_less [simp]: "unat (w :: u32) < 4294967296"
  using unsigned_less [of w] by simp

lemma unat_Suc_u32: "unat (w :: u32) < 4294967295 \<Longrightarrow> unat (w + 1) = Suc (unat w)"
  using unat_word_ariths(1) [of w 1] by simp

lemma unat_pred_u32: "w \<noteq> 0 \<Longrightarrow> unat (w - 1 :: u32) = unat w - 1"
  by (simp add: unat_minus_one)

subsection \<open>Sequence numbers\<close>

text \<open>
  \<open>seq_off b x\<close> is the distance from \<open>b\<close> forward to \<open>x\<close> on the circle of 32-bit
  sequence numbers. Where two numbers are less than half the circle ahead of a common
  base, the signed difference that \<open>_itimediff\<close> computes orders them as their
  distances from the base do; this is what makes the code's comparisons correct across
  the wrap-around of the counters.
\<close>

definition seq_off :: "u32 \<Rightarrow> u32 \<Rightarrow> nat" where
  "seq_off b x = unat (x - b)"

definition itimediff :: "u32 \<Rightarrow> u32 \<Rightarrow> int" where
  "itimediff later earlier = sint (later - earlier)"

lemma seq_off_self [simp]: "seq_off b b = 0"
  by (simp add: seq_off_def)

lemma seq_off_0_iff [simp]: "seq_off b x = 0 \<longleftrightarrow> x = b"
  by (simp add: seq_off_def unat_eq_zero)

lemma seq_off_inj: "seq_off b x = seq_off b y \<longleftrightarrow> x = y"
  unfolding seq_off_def by (metis diff_add_cancel word_unat_eq_iff)

lemma seq_off_less [simp]: "seq_off b x < 4294967296"
  by (simp add: seq_off_def)

lemma sint_diff_small:
  assumes "unat p < 2 ^ 31" and "unat q < 2 ^ 31"
  shows "sint (p - q :: u32) = int (unat p) - int (unat q)"
proof -
  have "- (2 ^ 31) \<le> int (unat p) - int (unat q)" "int (unat p) - int (unat q) < 2 ^ 31"
    using assms unat_u32_less [of p] unat_u32_less [of q] by (simp_all del: of_nat_unat)
  then have "sint (word_of_int (int (unat p) - int (unat q)) :: u32) = int (unat p) - int (unat q)"
    by (rule sint_word_of_int_id)
  then show ?thesis by simp
qed

lemma itimediff_off [seqno]:
  assumes "seq_off b x < 2 ^ 31" and "seq_off b y < 2 ^ 31"
  shows "itimediff x y = int (seq_off b x) - int (seq_off b y)"
  using sint_diff_small [of "x - b" "y - b"] assms
  by (simp add: itimediff_def seq_off_def)

lemma itimediff_self [simp]: "itimediff x x = 0"
  by (simp add: itimediff_def)

lemma itimediff_nonneg_iff: "0 \<le> itimediff x b \<longleftrightarrow> seq_off b x < 2 ^ 31"
  by (simp add: itimediff_def seq_off_def sint_u32_cases not_le del: of_nat_unat)

text \<open>From here on unsigned values are read as \<open>nat\<close> and never turned back into \<open>uint\<close>.\<close>

declare of_nat_unat [simp del]

lemma of_nat_unat_id [simp]: "(of_nat (unat w) :: 'w::len word) = w"
  by (simp add: of_nat_unat)

lemma seq_off_Suc: "seq_off b x < 4294967295 \<Longrightarrow> seq_off b (x + 1) = Suc (seq_off b x)"
  using unat_Suc_u32 [of "x - b"] by (simp add: seq_off_def algebra_simps)

lemma seq_off_base_Suc: "x \<noteq> b \<Longrightarrow> seq_off (b + 1) x = seq_off b x - 1"
  using unat_pred_u32 [of "x - b"] by (simp add: seq_off_def algebra_simps)

lemma seq_off_rebase: "seq_off b b' \<le> seq_off b x \<Longrightarrow> seq_off b' x = seq_off b x - seq_off b b'"
  using unat_sub [of "b' - b" "x - b"] by (simp add: seq_off_def word_le_nat_alt)

lemma seq_off_of_nat: "m \<le> n \<Longrightarrow> n - m < 4294967296 \<Longrightarrow> seq_off (of_nat m) (of_nat n) = n - m"
  by (simp add: seq_off_def flip: of_nat_diff)

subsection \<open>State machines\<close>

text \<open>
  The states a program can reach when its operations are interleaved in any order, and the
  interface by which the components establish invariants of them: an invariant holds
  initially and is kept by every step.
\<close>

inductive reachable :: "('s \<Rightarrow> bool) \<Rightarrow> ('s \<Rightarrow> 's \<Rightarrow> bool) \<Rightarrow> 's \<Rightarrow> bool"
  for init :: "'s \<Rightarrow> bool" and step :: "'s \<Rightarrow> 's \<Rightarrow> bool" where
  start: "init s \<Longrightarrow> reachable init step s"
| extend: "reachable init step s \<Longrightarrow> step s s' \<Longrightarrow> reachable init step s'"

locale invariant_system =
  fixes init :: "'s \<Rightarrow> bool"
    and step :: "'s \<Rightarrow> 's \<Rightarrow> bool"
    and inv :: "'s \<Rightarrow> bool"
  assumes init_inv: "init s \<Longrightarrow> inv s"
    and step_inv: "inv s \<Longrightarrow> step s s' \<Longrightarrow> inv s'"
begin

lemma reachable_inv: "reachable init step s \<Longrightarrow> inv s"
  by (induction rule: reachable.induct) (auto intro: init_inv step_inv)

lemma steps_inv: "step\<^sup>*\<^sup>* s s' \<Longrightarrow> inv s \<Longrightarrow> inv s'"
  by (induction rule: rtranclp_induct) (auto intro: step_inv)

end

text \<open>
  A concrete system that simulates an abstract one: under an invariant of its own, each of its
  steps is a sequence of abstract steps between the views of its states. What holds of the
  abstract states then holds of the views.
\<close>

locale simulation = invariant_system init step inv
  for init :: "'s \<Rightarrow> bool" and step :: "'s \<Rightarrow> 's \<Rightarrow> bool" and inv :: "'s \<Rightarrow> bool" +
  fixes view :: "'c \<Rightarrow> 's"
    and cstep :: "'c \<Rightarrow> 'c \<Rightarrow> bool"
    and cinv :: "'c \<Rightarrow> bool"
  assumes simulates: "cinv c \<Longrightarrow> inv (view c) \<Longrightarrow> cstep c c' \<Longrightarrow> step\<^sup>*\<^sup>* (view c) (view c')"
begin

lemma view_inv: "cinv c \<Longrightarrow> inv (view c) \<Longrightarrow> cstep c c' \<Longrightarrow> inv (view c')"
  by (blast intro: steps_inv simulates)

end

end
