(* ===== verification/KcpCodec.thy ===== *)
theory KcpCodec
  imports CPrelude
begin

text \<open>
  The wire format of KCP (\<open>src/kcp_learn/ikcp.c\<close>, encode / decode and
  \<open>ikcp_encode_seg\<close>; \<open>struct IKCPSEG\<close> of \<open>ikcp.h\<close>): the byte encoders and decoders
  of 8-, 16- and 32-bit integers in both preprocessor branches, the protocol constants,
  the small arithmetic helpers, and the 24-byte segment header.

  An encoder returns the bytes it writes at the pointer, a decoder reads from a byte
  string and returns the value and the rest; reading past the end is \<open>Out_Of_Bounds\<close>.
\<close>

subsection \<open>Protocol constants\<close>

definition IKCP_RTO_NDL :: u32 where "IKCP_RTO_NDL = 30"
definition IKCP_RTO_MIN :: u32 where "IKCP_RTO_MIN = 100"
definition IKCP_RTO_DEF :: u32 where "IKCP_RTO_DEF = 200"
definition IKCP_RTO_MAX :: u32 where "IKCP_RTO_MAX = 60000"
definition IKCP_CMD_PUSH :: u32 where "IKCP_CMD_PUSH = 81"
definition IKCP_CMD_ACK :: u32 where "IKCP_CMD_ACK = 82"
definition IKCP_CMD_WASK :: u32 where "IKCP_CMD_WASK = 83"
definition IKCP_CMD_WINS :: u32 where "IKCP_CMD_WINS = 84"
definition IKCP_ASK_SEND :: u32 where "IKCP_ASK_SEND = 1"
definition IKCP_ASK_TELL :: u32 where "IKCP_ASK_TELL = 2"
definition IKCP_WND_SND :: u32 where "IKCP_WND_SND = 32"
definition IKCP_WND_RCV :: u32 where "IKCP_WND_RCV = 128"
definition IKCP_MTU_DEF :: u32 where "IKCP_MTU_DEF = 1400"
definition IKCP_INTERVAL :: u32 where "IKCP_INTERVAL = 100"
definition IKCP_OVERHEAD :: u32 where "IKCP_OVERHEAD = 24"
definition IKCP_DEADLINK :: u32 where "IKCP_DEADLINK = 20"
definition IKCP_THRESH_INIT :: u32 where "IKCP_THRESH_INIT = 2"
definition IKCP_THRESH_MIN :: u32 where "IKCP_THRESH_MIN = 2"
definition IKCP_PROBE_INIT :: u32 where "IKCP_PROBE_INIT = 7000"
definition IKCP_PROBE_LIMIT :: u32 where "IKCP_PROBE_LIMIT = 120000"
definition IKCP_FASTACK_LIMIT :: u32 where "IKCP_FASTACK_LIMIT = 5"

lemmas kcp_consts =
  IKCP_RTO_NDL_def IKCP_RTO_MIN_def IKCP_RTO_DEF_def IKCP_RTO_MAX_def
  IKCP_CMD_PUSH_def IKCP_CMD_ACK_def IKCP_CMD_WASK_def IKCP_CMD_WINS_def
  IKCP_ASK_SEND_def IKCP_ASK_TELL_def IKCP_WND_SND_def IKCP_WND_RCV_def
  IKCP_MTU_DEF_def IKCP_INTERVAL_def IKCP_OVERHEAD_def IKCP_DEADLINK_def
  IKCP_THRESH_INIT_def IKCP_THRESH_MIN_def IKCP_PROBE_INIT_def
  IKCP_PROBE_LIMIT_def IKCP_FASTACK_LIMIT_def

subsection \<open>Arithmetic helpers\<close>

definition imin :: "u32 \<Rightarrow> u32 \<Rightarrow> u32" where
  "imin a b = (if a \<le> b then a else b)"

definition imax :: "u32 \<Rightarrow> u32 \<Rightarrow> u32" where
  "imax a b = (if a \<ge> b then a else b)"

definition ibound :: "u32 \<Rightarrow> u32 \<Rightarrow> u32 \<Rightarrow> u32" where
  "ibound lower middle upper = imin (imax lower middle) upper"

lemma imin_eq_min: "imin a b = min a b"
  by (simp add: imin_def min_def)

lemma imax_eq_max: "imax a b = max a b"
  by (auto simp: imax_def max_def)

lemma ibound_range: "lower \<le> upper \<Longrightarrow> lower \<le> ibound lower m upper \<and> ibound lower m upper \<le> upper"
  by (simp add: ibound_def imin_eq_min imax_eq_max)

subsection \<open>Integers on the wire\<close>

definition ikcp_encode8u :: "u8 \<Rightarrow> bytes" where
  "ikcp_encode8u c = [c]"

fun ikcp_decode8u :: "bytes \<Rightarrow> (u8 \<times> bytes) cresult" where
  "ikcp_decode8u (b # p) = Inr (b, p)"
| "ikcp_decode8u _ = Inl Out_Of_Bounds"

definition ikcp_encode16u :: "u16 \<Rightarrow> bytes" where
  "ikcp_encode16u w = [ucast (w AND 255), ucast (drop_bit 8 w)]"

fun ikcp_decode16u :: "bytes \<Rightarrow> (u16 \<times> bytes) cresult" where
  "ikcp_decode16u (b0 # b1 # p) =
     (let w = (ucast b1 :: u16); w = ucast b0 + push_bit 8 w in Inr (w, p))"
| "ikcp_decode16u _ = Inl Out_Of_Bounds"

definition ikcp_encode32u :: "u32 \<Rightarrow> bytes" where
  "ikcp_encode32u l =
     [ucast (drop_bit 0 l AND 0xff), ucast (drop_bit 8 l AND 0xff),
      ucast (drop_bit 16 l AND 0xff), ucast (drop_bit 24 l AND 0xff)]"

fun ikcp_decode32u :: "bytes \<Rightarrow> (u32 \<times> bytes) cresult" where
  "ikcp_decode32u (b0 # b1 # b2 # b3 # p) =
     (let l = (ucast b3 :: u32);
          l = ucast b2 + push_bit 8 l;
          l = ucast b1 + push_bit 8 l;
          l = ucast b0 + push_bit 8 l
      in Inr (l, p))"
| "ikcp_decode32u _ = Inl Out_Of_Bounds"

text \<open>
  The other preprocessor branch copies the object representation with
  \<open>memcpy\<close>; it is compiled only where \<open>IWORDS_BIG_ENDIAN\<close> is 0, on a
  little-endian machine, whose byte \<open>k\<close> of an integer holds bits \<open>8k\<close> to \<open>8k+7\<close>.
\<close>

definition object_bytes :: "nat \<Rightarrow> 'w::len word \<Rightarrow> bytes" where
  "object_bytes n w = map (\<lambda>k. ucast (drop_bit (8 * k) w)) [0..<n]"

definition memcpy_encode16u :: "u16 \<Rightarrow> bytes" where
  "memcpy_encode16u w = object_bytes 2 w"

definition memcpy_encode32u :: "u32 \<Rightarrow> bytes" where
  "memcpy_encode32u l = object_bytes 4 l"

definition object_value :: "bytes \<Rightarrow> 'w::len word" where
  "object_value bs = sum_list (map (\<lambda>(k, b). push_bit (8 * k) (ucast b)) (enumerate 0 bs))"

definition memcpy_decode16u :: "bytes \<Rightarrow> (u16 \<times> bytes) cresult" where
  "memcpy_decode16u p =
     rbind (rguard (2 \<le> length p) Out_Of_Bounds) (\<lambda>_. Inr (object_value (take 2 p), drop 2 p))"

definition memcpy_decode32u :: "bytes \<Rightarrow> (u32 \<times> bytes) cresult" where
  "memcpy_decode32u p =
     rbind (rguard (4 \<le> length p) Out_Of_Bounds) (\<lambda>_. Inr (object_value (take 4 p), drop 4 p))"

lemma mask_byte: "(x :: 'w::len word) AND 255 = take_bit 8 x"
  by (simp add: take_bit_eq_mask mask_eq_exp_minus_1)

lemma ucast_low_byte: "(ucast (ucast x :: u8) :: 'w::len word) = take_bit 8 (x :: 'w word)"
  by (rule bit_word_eqI) (auto simp: bit_simps)

lemma ucast_take_byte: "(ucast (take_bit 8 x :: 'w::len word) :: u8) = ucast x"
  by (rule bit_word_eqI) (auto simp: bit_simps)

lemma split_byte: "take_bit 8 (x :: 'w::len word) + push_bit 8 (drop_bit 8 x) = x"
  using bits_ident [of 8 x] by (simp add: add.commute)

lemma top_byte:
  "take_bit 8 (drop_bit 24 (l :: u32)) = drop_bit 24 l"
  "take_bit 8 (drop_bit 8 (w :: u16)) = drop_bit 8 w"
  by (rule bit_word_eqI, auto simp: bit_simps dest: bit_imp_le_length)+

lemma split_byte_at:
  "take_bit 8 (drop_bit 16 (l :: u32)) + push_bit 8 (drop_bit 24 l) = drop_bit 16 l"
  "take_bit 8 (drop_bit 8 (l :: u32)) + push_bit 8 (drop_bit 16 l) = drop_bit 8 l"
  using split_byte [of "drop_bit 16 l"] split_byte [of "drop_bit 8 l"]
  by (simp_all add: drop_bit_drop_bit)

lemmas byte_simps = mask_byte ucast_low_byte ucast_take_byte split_byte top_byte split_byte_at

lemma decode8u_encode [simp]: "ikcp_decode8u (ikcp_encode8u c @ p) = Inr (c, p)"
  by (simp add: ikcp_encode8u_def)

lemma decode16u_encode [simp]: "ikcp_decode16u (ikcp_encode16u w @ p) = Inr (w, p)"
  by (simp add: ikcp_encode16u_def Let_def byte_simps)

lemma decode32u_encode [simp]: "ikcp_decode32u (ikcp_encode32u l @ p) = Inr (l, p)"
  by (simp add: ikcp_encode32u_def Let_def byte_simps)

lemma length_encode [simp]:
  "length (ikcp_encode8u c) = 1"
  "length (ikcp_encode16u w) = 2"
  "length (ikcp_encode32u l) = 4"
  by (simp_all add: ikcp_encode8u_def ikcp_encode16u_def ikcp_encode32u_def)

lemma memcpy_branch16: "memcpy_encode16u w = ikcp_encode16u w"
  by (simp add: memcpy_encode16u_def object_bytes_def ikcp_encode16u_def upt_rec byte_simps)

lemma memcpy_branch32: "memcpy_encode32u l = ikcp_encode32u l"
  by (simp add: memcpy_encode32u_def object_bytes_def ikcp_encode32u_def upt_rec byte_simps)

lemma memcpy_branch_decode16: "memcpy_decode16u p = ikcp_decode16u p"
  by (cases p rule: ikcp_decode16u.cases)
     (simp_all add: memcpy_decode16u_def object_value_def push_bit_eq_mult)

lemma memcpy_branch_decode32: "memcpy_decode32u p = ikcp_decode32u p"
  by (cases p rule: ikcp_decode32u.cases)
     (simp_all add: memcpy_decode32u_def object_value_def push_bit_eq_mult algebra_simps)

lemmas memcpy_branches =
  memcpy_branch16 memcpy_branch32 memcpy_branch_decode16 memcpy_branch_decode32

subsection \<open>Segments\<close>

text \<open>
  \<open>struct IKCPSEG\<close> without its queue node, which lists replace (see \<open>IQueue\<close>). The
  flexible array \<open>data\<close> is the bytes of the block behind the struct.
\<close>

record ikcpseg =
  s_conv :: u32
  s_cmd :: u32
  s_frg :: u32
  s_wnd :: u32
  s_ts :: u32
  s_sn :: u32
  s_una :: u32
  s_len :: u32
  s_resendts :: u32
  s_rto :: u32
  s_fastack :: u32
  s_xmit :: u32
  s_data :: bytes

definition ikcp_encode_seg :: "ikcpseg \<Rightarrow> bytes" where
  "ikcp_encode_seg seg =
     ikcp_encode32u (s_conv seg) @ ikcp_encode8u (ucast (s_cmd seg)) @
     ikcp_encode8u (ucast (s_frg seg)) @ ikcp_encode16u (ucast (s_wnd seg)) @
     ikcp_encode32u (s_ts seg) @ ikcp_encode32u (s_sn seg) @
     ikcp_encode32u (s_una seg) @ ikcp_encode32u (s_len seg)"

text \<open>
  The header fields \<open>ikcp_input\<close> reads after \<open>conv\<close>, in the order it reads them.
\<close>

record seg_header =
  h_cmd :: u8
  h_frg :: u8
  h_wnd :: u16
  h_ts :: u32
  h_sn :: u32
  h_una :: u32
  h_len :: u32

definition decode_header :: "bytes \<Rightarrow> (seg_header \<times> bytes) cresult" where
  "decode_header data =
     rbind (ikcp_decode8u data) (\<lambda>(cmd, data).
     rbind (ikcp_decode8u data) (\<lambda>(frg, data).
     rbind (ikcp_decode16u data) (\<lambda>(wnd, data).
     rbind (ikcp_decode32u data) (\<lambda>(ts, data).
     rbind (ikcp_decode32u data) (\<lambda>(sn, data).
     rbind (ikcp_decode32u data) (\<lambda>(una, data).
     rbind (ikcp_decode32u data) (\<lambda>(len, data).
     Inr (\<lparr>h_cmd = cmd, h_frg = frg, h_wnd = wnd, h_ts = ts, h_sn = sn,
           h_una = una, h_len = len\<rparr>, data))))))))"

text \<open>What the receiver's header of an encoded segment is: \<open>cmd\<close>, \<open>frg\<close> and \<open>wnd\<close> narrowed.\<close>

definition header_of :: "ikcpseg \<Rightarrow> seg_header" where
  "header_of seg =
     \<lparr>h_cmd = ucast (s_cmd seg), h_frg = ucast (s_frg seg), h_wnd = ucast (s_wnd seg),
      h_ts = s_ts seg, h_sn = s_sn seg, h_una = s_una seg, h_len = s_len seg\<rparr>"

lemma length_encode_seg [simp]: "length (ikcp_encode_seg seg) = 24"
  by (simp add: ikcp_encode_seg_def)

lemma decode_encode_seg:
  "ikcp_decode32u (ikcp_encode_seg seg @ p) = Inr (s_conv seg, drop 4 (ikcp_encode_seg seg) @ p)"
  by (simp add: ikcp_encode_seg_def)

lemma decode_header_encode_seg:
  "decode_header (drop 4 (ikcp_encode_seg seg) @ p) = Inr (header_of seg, p)"
  by (simp add: ikcp_encode_seg_def decode_header_def header_of_def)

lemma decode8u_ok: "1 \<le> length p \<Longrightarrow> \<exists>c. ikcp_decode8u p = Inr (c, drop 1 p)"
  by (cases p rule: ikcp_decode8u.cases) auto

lemma decode16u_ok: "2 \<le> length p \<Longrightarrow> \<exists>w. ikcp_decode16u p = Inr (w, drop 2 p)"
  by (cases p rule: ikcp_decode16u.cases) (auto simp: Let_def)

lemma decode32u_ok: "4 \<le> length p \<Longrightarrow> \<exists>l. ikcp_decode32u p = Inr (l, drop 4 p)"
  by (cases p rule: ikcp_decode32u.cases) (auto simp: Let_def)

lemma ucast_narrow8: "unat (w :: u32) < 256 \<Longrightarrow> (ucast (ucast w :: u8) :: u32) = w"
  unfolding ucast_low_byte by (simp add: word_unat_eq_iff unsigned_take_bit_eq take_bit_nat_eq_self)

lemma ucast_narrow16: "unat (w :: u32) < 65536 \<Longrightarrow> (ucast (ucast w :: u16) :: u32) = w"
proof -
  assume "unat w < 65536"
  moreover have "(ucast (ucast w :: u16) :: u32) = take_bit 16 w"
    by (rule bit_word_eqI) (auto simp: bit_simps)
  ultimately show ?thesis
    by (simp add: word_unat_eq_iff unsigned_take_bit_eq take_bit_nat_eq_self)
qed

subsection \<open>Properties of the wire format\<close>

text \<open>
  C37. The two preprocessor branches of the integer encoders and decoders agree: on a
  little-endian machine the \<open>memcpy\<close> branch writes the bytes the portable branch
  writes and reads what it reads, also at the end of the data.
\<close>

theorem codec_branches_agree:
  "memcpy_encode16u w = ikcp_encode16u w \<and> memcpy_encode32u l = ikcp_encode32u l \<and>
   memcpy_decode16u p = ikcp_decode16u p \<and> memcpy_decode32u p = ikcp_decode32u p"
  by (simp only: memcpy_branches)

text \<open>
  C34. Segment round trip. \<open>ikcp_encode_seg\<close> writes exactly 24 bytes, and the reads of
  \<open>ikcp_input\<close> on them return the fields that were encoded and stop at the
  byte after the header, when the command and the fragment number fit 8 bits and the window
  fits 16 bits, the widths they travel in.
\<close>

theorem segment_roundtrip:
  assumes "unat (s_cmd seg) < 256" and "unat (s_frg seg) < 256" and "unat (s_wnd seg) < 65536"
  shows "length (ikcp_encode_seg seg) = 24 \<and>
    (\<exists>rest h. ikcp_decode32u (ikcp_encode_seg seg @ p) = Inr (s_conv seg, rest) \<and>
       decode_header rest = Inr (h, p) \<and>
       ucast (h_cmd h) = s_cmd seg \<and> ucast (h_frg h) = s_frg seg \<and> ucast (h_wnd h) = s_wnd seg \<and>
       h_ts h = s_ts seg \<and> h_sn h = s_sn seg \<and> h_una h = s_una seg \<and> h_len h = s_len seg)"
  using assms
  by (intro conjI exI) (rule length_encode_seg decode_encode_seg decode_header_encode_seg |
    simp add: header_of_def ucast_narrow8 ucast_narrow16)+

theorem segment_roundtrip_witness:
  "\<exists>seg. s_cmd seg = 81 \<and> s_frg seg = 3 \<and> s_wnd seg = 128 \<and>
     length (ikcp_encode_seg seg) = 24"
proof -
  let ?seg = "\<lparr>s_conv = 1, s_cmd = 81, s_frg = 3, s_wnd = 128, s_ts = 5, s_sn = 7, s_una = 2,
    s_len = 2, s_resendts = 0, s_rto = 0, s_fastack = 0, s_xmit = 0, s_data = [9, 9]\<rparr>"
  have "length (ikcp_encode_seg ?seg) = 24"
    by (rule segment_roundtrip [of ?seg "[9, 9]", THEN conjunct1]) simp_all
  then show ?thesis by (intro exI [of _ ?seg]) simp
qed

end
