(* ===== verification/KcpState.thy ===== *)
theory KcpState
  imports KcpCodec
begin

text \<open>
  The KCP control block (\<open>struct IKCPCB\<close> of \<open>src/kcp_learn/ikcp.h\<close>), its creation
  and release, the configuration calls and the queries of \<open>ikcp.c\<close>, and the
  well-formedness invariants of the control block that the other KCP theories preserve.

  The four intrusive queues are lists of segments from head to tail. A function pointer
  or opaque pointer is an address, \<open>None\<close> for \<open>NULL\<close>. The output buffer is known by its
  capacity, the block of acknowledgements by its cells.
\<close>

subsection \<open>The control block\<close>

record ikcpcb =
  k_conv :: u32
  k_mtu :: u32
  k_mss :: u32
  k_state :: u32
  k_snd_una :: u32
  k_snd_nxt :: u32
  k_rcv_nxt :: u32
  k_ts_recent :: u32
  k_ts_lastack :: u32
  k_ssthresh :: u32
  k_rx_rttval :: int
  k_rx_srtt :: int
  k_rx_rto :: int
  k_rx_minrto :: int
  k_snd_wnd :: u32
  k_rcv_wnd :: u32
  k_rmt_wnd :: u32
  k_cwnd :: u32
  k_probe :: u32
  k_current :: u32
  k_interval :: u32
  k_ts_flush :: u32
  k_xmit :: u32
  k_nrcv_buf :: u32
  k_nsnd_buf :: u32
  k_nrcv_que :: u32
  k_nsnd_que :: u32
  k_nodelay :: u32
  k_updated :: u32
  k_ts_probe :: u32
  k_probe_wait :: u32
  k_dead_link :: u32
  k_incr :: u32
  k_snd_queue :: "ikcpseg list"
  k_rcv_queue :: "ikcpseg list"
  k_snd_buf :: "ikcpseg list"
  k_rcv_buf :: "ikcpseg list"
  k_acklist :: "u32 list option"
  k_ackcount :: u32
  k_ackblock :: u32
  k_user :: nat
  k_buffer :: "nat option"
  k_fastresend :: int
  k_fastlimit :: int
  k_nocwnd :: int
  k_stream :: int
  k_logmask :: int
  k_output :: "nat option"
  k_writelog :: "nat option"

definition buffer_size :: "u32 \<Rightarrow> nat" where
  "buffer_size mtu = unat ((mtu + IKCP_OVERHEAD) * 3)"

definition ikcp_create :: "u8 allocator \<Rightarrow> u32 \<Rightarrow> nat \<Rightarrow> ikcpcb option" where
  "ikcp_create alloc conv user =
     (if alloc 0 = None then None
      else if alloc 1 = None then None
      else Some
       \<lparr>k_conv = conv, k_mtu = IKCP_MTU_DEF, k_mss = IKCP_MTU_DEF - IKCP_OVERHEAD, k_state = 0,
        k_snd_una = 0, k_snd_nxt = 0, k_rcv_nxt = 0, k_ts_recent = 0, k_ts_lastack = 0,
        k_ssthresh = IKCP_THRESH_INIT, k_rx_rttval = 0, k_rx_srtt = 0,
        k_rx_rto = sint IKCP_RTO_DEF, k_rx_minrto = sint IKCP_RTO_MIN,
        k_snd_wnd = IKCP_WND_SND, k_rcv_wnd = IKCP_WND_RCV, k_rmt_wnd = IKCP_WND_RCV,
        k_cwnd = 0, k_probe = 0, k_current = 0, k_interval = IKCP_INTERVAL,
        k_ts_flush = IKCP_INTERVAL, k_xmit = 0, k_nrcv_buf = 0, k_nsnd_buf = 0,
        k_nrcv_que = 0, k_nsnd_que = 0, k_nodelay = 0, k_updated = 0, k_ts_probe = 0,
        k_probe_wait = 0, k_dead_link = IKCP_DEADLINK, k_incr = 0, k_snd_queue = [],
        k_rcv_queue = [], k_snd_buf = [], k_rcv_buf = [], k_acklist = None, k_ackcount = 0,
        k_ackblock = 0, k_user = user, k_buffer = Some (buffer_size IKCP_MTU_DEF),
        k_fastresend = 0, k_fastlimit = sint IKCP_FASTACK_LIMIT, k_nocwnd = 0, k_stream = 0,
        k_logmask = 0, k_output = None, k_writelog = None\<rparr>)"

subsection \<open>Release\<close>

text \<open>
  The blocks of memory a control block owns. \<open>ikcp_release\<close> returns the blocks it
  hands to \<open>ikcp_free\<close>, in order; each loop frees the head of a queue until the queue is
  empty.
\<close>

datatype kcp_block = Seg_Block ikcpseg | Buffer_Block | Acklist_Block | Control_Block

fun release_queue :: "ikcpseg list \<Rightarrow> kcp_block list" where
  "release_queue [] = []"
| "release_queue (seg # rest) = Seg_Block seg # release_queue rest"

definition ikcp_release :: "ikcpcb \<Rightarrow> kcp_block list" where
  "ikcp_release kcp =
     release_queue (k_snd_buf kcp) @ release_queue (k_rcv_buf kcp) @
     release_queue (k_snd_queue kcp) @ release_queue (k_rcv_queue kcp) @
     (if k_buffer kcp \<noteq> None then [Buffer_Block] else []) @
     (if k_acklist kcp \<noteq> None then [Acklist_Block] else []) @ [Control_Block]"

subsection \<open>Configuration and queries\<close>

definition ikcp_setoutput :: "ikcpcb \<Rightarrow> nat option \<Rightarrow> ikcpcb" where
  "ikcp_setoutput kcp output = kcp\<lparr>k_output := output\<rparr>"

definition ikcp_canlog :: "ikcpcb \<Rightarrow> int \<Rightarrow> int" where
  "ikcp_canlog kcp m = (if m AND k_logmask kcp = 0 \<or> k_writelog kcp = None then 0 else 1)"

definition ikcp_setmtu :: "u8 allocator \<Rightarrow> ikcpcb \<Rightarrow> int \<Rightarrow> int \<times> ikcpcb" where
  "ikcp_setmtu alloc kcp mtu =
     (if mtu < 50 \<or> mtu < sint IKCP_OVERHEAD then (-1, kcp)
      else if alloc 0 = None then (-2, kcp)
      else (0, kcp\<lparr>k_mtu := word_of_int mtu, k_mss := word_of_int mtu - IKCP_OVERHEAD,
                    k_buffer := Some (buffer_size (word_of_int mtu))\<rparr>))"

definition clamp_interval :: "int \<Rightarrow> int" where
  "clamp_interval interval =
     (if interval > 5000 then 5000 else if interval < 10 then 10 else interval)"

definition ikcp_interval :: "ikcpcb \<Rightarrow> int \<Rightarrow> int \<times> ikcpcb" where
  "ikcp_interval kcp interval =
     (0, kcp\<lparr>k_interval := word_of_int (clamp_interval interval)\<rparr>)"

definition ikcp_nodelay :: "ikcpcb \<Rightarrow> int \<Rightarrow> int \<Rightarrow> int \<Rightarrow> int \<Rightarrow> int \<times> ikcpcb" where
  "ikcp_nodelay kcp nodelay interval resend nc =
     (let kcp = (if nodelay \<ge> 0
                 then kcp\<lparr>k_nodelay := word_of_int nodelay,
                          k_rx_minrto := sint (if nodelay \<noteq> 0 then IKCP_RTO_NDL else IKCP_RTO_MIN)\<rparr>
                 else kcp);
          kcp = (if interval \<ge> 0
                 then kcp\<lparr>k_interval := word_of_int (clamp_interval interval)\<rparr> else kcp);
          kcp = (if resend \<ge> 0 then kcp\<lparr>k_fastresend := resend\<rparr> else kcp);
          kcp = (if nc \<ge> 0 then kcp\<lparr>k_nocwnd := nc\<rparr> else kcp)
      in (0, kcp))"

definition ikcp_wndsize :: "ikcpcb \<Rightarrow> int \<Rightarrow> int \<Rightarrow> int \<times> ikcpcb" where
  "ikcp_wndsize kcp sndwnd rcvwnd =
     (let kcp = (if sndwnd > 0 then kcp\<lparr>k_snd_wnd := word_of_int sndwnd\<rparr> else kcp);
          kcp = (if rcvwnd > 0
                 then kcp\<lparr>k_rcv_wnd := imax (word_of_int rcvwnd) IKCP_WND_RCV\<rparr> else kcp)
      in (0, kcp))"

definition ikcp_waitsnd :: "ikcpcb \<Rightarrow> int" where
  "ikcp_waitsnd kcp = sint (k_nsnd_buf kcp + k_nsnd_que kcp)"

definition ikcp_getconv :: "bytes \<Rightarrow> u32 cresult" where
  "ikcp_getconv ptr = rbind (ikcp_decode32u ptr) (\<lambda>(conv, _). Inr conv)"

definition ikcp_wnd_unused :: "ikcpcb \<Rightarrow> int" where
  "ikcp_wnd_unused kcp =
     (if k_nrcv_que kcp < k_rcv_wnd kcp then sint (k_rcv_wnd kcp - k_nrcv_que kcp) else 0)"

subsection \<open>Invariants of the control block\<close>

text \<open>
  Each invariant is a predicate over the fields it constrains and an abbreviation that
  applies it to a control block, so that an operation that leaves those fields alone
  preserves it by rewriting.

  Sending side: the counters count, the unacknowledged segments are numbered upwards from
  \<open>snd_una\<close> and below \<open>snd_nxt\<close>, and never more than 65535 numbers are in flight (a
  window travels in 16 bits).
\<close>

definition snd_ok ::
  "u32 \<Rightarrow> ikcpseg list \<Rightarrow> u32 \<Rightarrow> ikcpseg list \<Rightarrow> u32 \<Rightarrow> u32 \<Rightarrow> u32 \<Rightarrow> bool" where
  "snd_ok nque que nbuf buf una nxt rmt \<longleftrightarrow>
     nque = of_nat (length que) \<and> nbuf = of_nat (length buf) \<and>
     sorted_wrt (<) (map (\<lambda>s. seq_off una (s_sn s)) buf) \<and>
     (\<forall>s \<in> set buf. seq_off una (s_sn s) < seq_off una nxt) \<and>
     seq_off una nxt \<le> 65535 \<and> unat rmt \<le> 65535 \<and>
     (case buf of [] \<Rightarrow> una = nxt | s # _ \<Rightarrow> s_sn s = una)"

abbreviation snd_inv :: "ikcpcb \<Rightarrow> bool" where
  "snd_inv k \<equiv> snd_ok (k_nsnd_que k) (k_snd_queue k) (k_nsnd_buf k) (k_snd_buf k)
                  (k_snd_una k) (k_snd_nxt k) (k_rmt_wnd k)"

text \<open>
  Receiving side: the out-of-order segments are numbered strictly upwards, less than half
  the sequence space ahead of \<open>rcv_nxt\<close>.
\<close>

definition rcv_ok ::
  "u32 \<Rightarrow> ikcpseg list \<Rightarrow> u32 \<Rightarrow> ikcpseg list \<Rightarrow> u32 \<Rightarrow> u32 \<Rightarrow> bool" where
  "rcv_ok nque que nbuf buf nxt wnd \<longleftrightarrow>
     nque = of_nat (length que) \<and> length que < 2 ^ 31 \<and> nbuf = of_nat (length buf) \<and>
     sorted_wrt (<) (map (\<lambda>s. seq_off nxt (s_sn s)) buf) \<and>
     (\<forall>s \<in> set buf. seq_off nxt (s_sn s) < 2 ^ 31) \<and>
     128 \<le> unat wnd \<and> unat wnd < 2 ^ 31"

abbreviation rcv_inv :: "ikcpcb \<Rightarrow> bool" where
  "rcv_inv k \<equiv> rcv_ok (k_nrcv_que k) (k_rcv_queue k) (k_nrcv_buf k) (k_rcv_buf k)
                  (k_rcv_nxt k) (k_rcv_wnd k)"

text \<open>The acknowledgement array holds \<open>ackblock\<close> pairs, of which \<open>ackcount\<close> are in use.\<close>

definition ack_ok :: "u32 list option \<Rightarrow> u32 \<Rightarrow> u32 \<Rightarrow> bool" where
  "ack_ok acklist ackcount ackblock \<longleftrightarrow>
     (case acklist of
        None \<Rightarrow> ackblock = 0
      | Some cells \<Rightarrow> length cells = 2 * unat ackblock) \<and>
     ackcount \<le> ackblock"

abbreviation ack_inv :: "ikcpcb \<Rightarrow> bool" where
  "ack_inv k \<equiv> ack_ok (k_acklist k) (k_ackcount k) (k_ackblock k)"

text \<open>The maximum segment size and the output buffer go with the \<open>mtu\<close>.\<close>

definition mtu_ok :: "u32 \<Rightarrow> u32 \<Rightarrow> nat option \<Rightarrow> bool" where
  "mtu_ok mtu mss buf \<longleftrightarrow>
     50 \<le> unat mtu \<and> unat mtu < 2 ^ 30 \<and> mss = mtu - IKCP_OVERHEAD \<and>
     buf = Some ((unat mtu + 24) * 3)"

abbreviation mtu_inv :: "ikcpcb \<Rightarrow> bool" where
  "mtu_inv k \<equiv> mtu_ok (k_mtu k) (k_mss k) (k_buffer k)"

text \<open>Payloads: a segment's length field is the length of its data, and fits the \<open>mss\<close>.\<close>

definition seg_fits :: "u32 \<Rightarrow> ikcpseg \<Rightarrow> bool" where
  "seg_fits mss s \<longleftrightarrow> unat (s_len s) = length (s_data s) \<and> s_len s \<le> mss"

abbreviation payload_inv :: "ikcpcb \<Rightarrow> bool" where
  "payload_inv k \<equiv> list_all (seg_fits (k_mss k)) (k_snd_queue k) \<and>
                    list_all (seg_fits (k_mss k)) (k_snd_buf k)"

definition seg_sized :: "ikcpseg \<Rightarrow> bool" where
  "seg_sized s \<longleftrightarrow> unat (s_len s) = length (s_data s)"

abbreviation recv_payload_inv :: "ikcpcb \<Rightarrow> bool" where
  "recv_payload_inv k \<equiv> list_all seg_sized (k_rcv_queue k) \<and> list_all seg_sized (k_rcv_buf k)"

text \<open>
  Timers: the retransmission timeout and the flush interval stay within their limits. The library
  sets the least timeout to 30 or 100 ms; \<open>test.cpp\<close> writes 10 into the field.
\<close>

definition timer_ok :: "int \<Rightarrow> int \<Rightarrow> u32 \<Rightarrow> bool" where
  "timer_ok minrto rto interval \<longleftrightarrow>
     10 \<le> minrto \<and> minrto \<le> 100 \<and> 10 \<le> rto \<and> rto \<le> 60000 \<and>
     10 \<le> unat interval \<and> unat interval \<le> 5000"

abbreviation timer_inv :: "ikcpcb \<Rightarrow> bool" where
  "timer_inv k \<equiv> timer_ok (k_rx_minrto k) (k_rx_rto k) (k_interval k)"

definition kcp_inv :: "ikcpcb \<Rightarrow> bool" where
  "kcp_inv k \<longleftrightarrow>
     snd_inv k \<and> rcv_inv k \<and> ack_inv k \<and> mtu_inv k \<and> payload_inv k \<and>
     recv_payload_inv k \<and> timer_inv k"

lemmas kcp_ok_defs =
  snd_ok_def rcv_ok_def ack_ok_def mtu_ok_def seg_fits_def seg_sized_def timer_ok_def

lemma ikcp_create_inv: "ikcp_create alloc conv user = Some k \<Longrightarrow> kcp_inv k"
  by (auto simp: ikcp_create_def kcp_inv_def kcp_ok_defs kcp_consts buffer_size_def
        split: if_splits)

lemma clamp_interval_range: "10 \<le> clamp_interval i \<and> clamp_interval i \<le> 5000"
  by (simp add: clamp_interval_def)

lemma unat_word_of_int_u32: "0 \<le> i \<Longrightarrow> i < 2 ^ 32 \<Longrightarrow> unat (word_of_int i :: u32) = nat i"
  by (simp add: unat_eq_nat_uint uint_word_of_int_eq take_bit_int_eq_self)

lemma unat_clamp_interval:
  "unat (word_of_int (clamp_interval i) :: u32) = nat (clamp_interval i)"
  using clamp_interval_range [of i] by (simp add: unat_word_of_int_u32)

lemma timer_ok_clamp:
  "timer_ok m r i \<Longrightarrow> timer_ok m r (word_of_int (clamp_interval j))"
  using clamp_interval_range [of j] by (auto simp: timer_ok_def unat_clamp_interval)

lemma timer_ok_minrto:
  "timer_ok m r i \<Longrightarrow> timer_ok (sint IKCP_RTO_NDL) r i"
  "timer_ok m r i \<Longrightarrow> timer_ok (sint IKCP_RTO_MIN) r i"
  by (simp_all add: timer_ok_def kcp_consts)

lemma rcv_ok_wndsize:
  assumes "rcv_ok nque que nbuf buf nxt wnd" and "0 < w" and "w < 2 ^ 31"
  shows "rcv_ok nque que nbuf buf nxt (imax (word_of_int w) IKCP_WND_RCV)"
proof -
  have "unat (word_of_int w :: u32) < 2 ^ 31"
    using assms(2,3) by (simp add: unat_word_of_int_u32)
  with assms(1) show ?thesis
    by (auto simp: rcv_ok_def imax_def kcp_consts word_le_nat_alt)
qed

lemma ikcp_setoutput_inv: "kcp_inv k \<Longrightarrow> kcp_inv (ikcp_setoutput k f)"
  by (simp add: ikcp_setoutput_def kcp_inv_def)

lemma ikcp_interval_inv: "kcp_inv k \<Longrightarrow> kcp_inv (snd (ikcp_interval k i))"
  by (auto simp: ikcp_interval_def kcp_inv_def intro: timer_ok_clamp)

lemma ikcp_nodelay_inv: "kcp_inv k \<Longrightarrow> kcp_inv (snd (ikcp_nodelay k nd i rs nc))"
  by (auto simp: ikcp_nodelay_def kcp_inv_def Let_def intro: timer_ok_clamp timer_ok_minrto)

lemma ikcp_wndsize_inv:
  "kcp_inv k \<Longrightarrow> rcvwnd < 2 ^ 31 \<Longrightarrow> kcp_inv (snd (ikcp_wndsize k sndwnd rcvwnd))"
  by (auto simp: ikcp_wndsize_def kcp_inv_def Let_def intro: rcv_ok_wndsize)

lemma mtu_ok_setmtu:
  assumes "50 \<le> mtu" and "mtu < 2 ^ 30"
  shows "mtu_ok (word_of_int mtu) (word_of_int mtu - IKCP_OVERHEAD)
           (Some (buffer_size (word_of_int mtu)))"
  using assms
  by (auto simp: mtu_ok_def buffer_size_def kcp_consts unat_word_ariths unat_word_of_int_u32)

lemma ikcp_setmtu_inv:
  assumes inv: "kcp_inv k" and mtu: "mtu < 2 ^ 30"
    and fits: "\<forall>s \<in> set (k_snd_queue k) \<union> set (k_snd_buf k). int (length (s_data s)) \<le> mtu - 24"
  shows "kcp_inv (snd (ikcp_setmtu alloc k mtu))"
proof (cases "mtu < 50 \<or> alloc 0 = None")
  case True
  with inv show ?thesis by (auto simp: ikcp_setmtu_def)
next
  case False
  then have ge: "50 \<le> mtu" by simp
  then have u: "unat (word_of_int mtu :: u32) = nat mtu"
    using mtu by (simp add: unat_word_of_int_u32)
  then have m: "unat (word_of_int mtu - 24 :: u32) = nat mtu - 24"
    using unat_sub [of "24 :: u32" "word_of_int mtu"] ge by (simp add: word_le_nat_alt)
  have refit: "seg_fits (word_of_int mtu - IKCP_OVERHEAD) s"
    if "seg_fits (k_mss k) s" "int (length (s_data s)) \<le> mtu - 24" for s
    using that m by (simp add: seg_fits_def kcp_consts word_le_nat_alt nat_le_eq_zle)
  have "list_all (seg_fits (word_of_int mtu - IKCP_OVERHEAD)) (k_snd_queue k)"
    using inv fits by (auto simp: kcp_inv_def list_all_iff intro: refit)
  moreover have "list_all (seg_fits (word_of_int mtu - IKCP_OVERHEAD)) (k_snd_buf k)"
    using inv fits by (auto simp: kcp_inv_def list_all_iff intro: refit)
  ultimately show ?thesis
    using inv False mtu_ok_setmtu [OF ge mtu]
    by (auto simp: ikcp_setmtu_def kcp_inv_def kcp_consts)
qed

text \<open>A freshly created control block, on which the properties are exercised.\<close>

definition example_kcp :: ikcpcb where
  "example_kcp = the (ikcp_create (\<lambda>_. Some (\<lambda>_. 0)) 1 0)"

lemma example_kcp_inv: "kcp_inv example_kcp"
  by (rule ikcp_create_inv [of "\<lambda>_. Some (\<lambda>_. 0)" 1 0]) (simp add: example_kcp_def ikcp_create_def)

end
