(* ===== verification/KcpSend.thy ===== *)
theory KcpSend
  imports KcpState
begin

text \<open>
  \<open>ikcp_send\<close> of \<open>src/kcp_learn/ikcp.c\<close>: the division of a user message into segments on
  the send queue, in message mode and in stream mode, against its reference, the list of
  chunks of a byte string.

  A fresh segment has unspecified header fields and payload bytes until the code
  assigns them: the allocator returns both.
\<close>

type_synonym seg_allocator = "nat \<Rightarrow> (ikcpseg \<times> (nat \<Rightarrow> u8)) option"

definition ikcp_segment_new :: "seg_allocator \<Rightarrow> nat \<Rightarrow> int \<Rightarrow> ikcpseg option" where
  "ikcp_segment_new alloc i sz =
     map_option (\<lambda>(hdr, junk). hdr\<lparr>s_data := block junk (nat sz)\<rparr>) (alloc i)"

text \<open>\<open>memcpy(dst + off, buffer, n)\<close> and \<open>buffer += n\<close>, where \<open>buffer\<close> may be \<open>NULL\<close>.\<close>

definition copy_from :: "bytes option \<Rightarrow> int \<Rightarrow> bytes \<Rightarrow> nat \<Rightarrow> bytes cresult" where
  "copy_from buffer n dst off =
     (case buffer of
        None \<Rightarrow> Inr dst
      | Some b \<Rightarrow> rbind (rguard (nat n \<le> length b) Out_Of_Bounds)
                    (\<lambda>_. Inr (memcpy_at dst off (take (nat n) b))))"

definition advance :: "bytes option \<Rightarrow> int \<Rightarrow> bytes option" where
  "advance buffer n = map_option (drop (nat n)) buffer"

subsection \<open>Stream mode: filling the last segment\<close>

definition send_stream_extend ::
  "seg_allocator \<Rightarrow> ikcpcb \<Rightarrow> bytes option \<Rightarrow> int \<Rightarrow> (ikcpcb \<times> bytes option \<times> int) cresult" where
  "send_stream_extend alloc kcp buffer len =
     (if k_snd_queue kcp = [] then Inr (kcp, buffer, len)
      else
        let old = last (k_snd_queue kcp) in
        if s_len old < k_mss kcp then
          let capacity = sint (k_mss kcp - s_len old);
              extend = (if len < capacity then len else capacity)
          in case ikcp_segment_new alloc 0 (sint (s_len old + word_of_int extend)) of
               None \<Rightarrow> Inl Assert_Failed
             | Some seg \<Rightarrow>
                 let data = memcpy_at (s_data seg) 0 (take (unat (s_len old)) (s_data old)) in
                 rbind (copy_from buffer extend data (unat (s_len old))) (\<lambda>data.
                   let seg = seg\<lparr>s_data := data, s_len := s_len old + word_of_int extend, s_frg := 0\<rparr>
                   in Inr (kcp\<lparr>k_snd_queue := butlast (k_snd_queue kcp) @ [seg]\<rparr>,
                           advance buffer extend, len - extend))
        else Inr (kcp, buffer, len))"

subsection \<open>Fragmentation\<close>

definition fragment_count :: "u32 \<Rightarrow> int \<Rightarrow> int" where
  "fragment_count mss len =
     (if len \<le> sint mss then 1 else sint ((word_of_int len + mss - 1) div mss))"

fun send_fragments ::
  "seg_allocator \<Rightarrow> nat \<Rightarrow> ikcpcb \<Rightarrow> bytes option \<Rightarrow> int \<Rightarrow> nat \<Rightarrow> ikcpcb cresult" where
  "send_fragments alloc i kcp buffer len 0 = Inr kcp"
| "send_fragments alloc i kcp buffer len (Suc remaining) =
     (let sz = (if len > sint (k_mss kcp) then sint (k_mss kcp) else len) in
      case ikcp_segment_new alloc i sz of
        None \<Rightarrow> Inl Assert_Failed
      | Some seg \<Rightarrow>
          rbind (if len > 0 then copy_from buffer sz (s_data seg) 0 else Inr (s_data seg)) (\<lambda>data.
            let seg = seg\<lparr>s_data := data, s_len := word_of_int sz,
                          s_frg := (if k_stream kcp = 0 then of_nat remaining else 0)\<rparr>;
                kcp = kcp\<lparr>k_snd_queue := k_snd_queue kcp @ [seg], k_nsnd_que := k_nsnd_que kcp + 1\<rparr>
            in send_fragments alloc (Suc i) kcp (advance buffer sz) (len - sz) remaining))"

definition send_rest ::
  "seg_allocator \<Rightarrow> ikcpcb \<Rightarrow> bytes option \<Rightarrow> int \<Rightarrow> (int \<times> ikcpcb) cresult" where
  "send_rest alloc kcp buffer len =
     (let count = fragment_count (k_mss kcp) len in
      if count \<ge> sint IKCP_WND_RCV then Inr (-2, kcp)
      else
        let count = (if count = 0 then 1 else count) in
        rbind (send_fragments alloc 1 kcp buffer len (nat count)) (\<lambda>kcp. Inr (0, kcp)))"

definition ikcp_send ::
  "seg_allocator \<Rightarrow> ikcpcb \<Rightarrow> bytes option \<Rightarrow> int \<Rightarrow> (int \<times> ikcpcb) cresult" where
  "ikcp_send alloc kcp buffer len =
     rbind (rguard (k_mss kcp > 0) Assert_Failed) (\<lambda>_.
       if len < 0 then Inr (-1, kcp)
       else if k_stream kcp \<noteq> 0 then
         rbind (send_stream_extend alloc kcp buffer len) (\<lambda>(kcp, buffer, len).
           if len \<le> 0 then Inr (0, kcp) else send_rest alloc kcp buffer len)
       else send_rest alloc kcp buffer len)"

subsection \<open>Reference: the fragments of a message\<close>

fun chunks :: "nat \<Rightarrow> nat \<Rightarrow> 'a list \<Rightarrow> 'a list list" where
  "chunks 0 m xs = []"
| "chunks (Suc n) m xs = take m xs # chunks n m (drop m xs)"

definition chunk_count :: "nat \<Rightarrow> nat \<Rightarrow> nat" where
  "chunk_count m n = (if n \<le> m then 1 else (n + m - 1) div m)"

definition payload :: "ikcpseg \<Rightarrow> u32 \<times> bytes" where
  "payload seg = (s_frg seg, s_data seg)"

text \<open>The fragments of a message, numbered downwards to 0, and of a stream, all numbered 0.\<close>

definition message_fragments :: "nat \<Rightarrow> bytes \<Rightarrow> (u32 \<times> bytes) list" where
  "message_fragments m msg =
     (let n = chunk_count m (length msg) in zip (map of_nat (rev [0..<n])) (chunks n m msg))"

definition stream_fragments :: "nat \<Rightarrow> bytes \<Rightarrow> (u32 \<times> bytes) list" where
  "stream_fragments m msg = map (Pair 0) (chunks (chunk_count m (length msg)) m msg)"

lemma length_chunks [simp]: "length (chunks n m xs) = n"
  by (induction n arbitrary: xs) auto

lemma concat_chunks: "concat (chunks n m xs) = take (n * m) xs"
proof (induction n arbitrary: xs)
  case (Suc n)
  then show ?case by (simp add: take_add)
qed simp

lemma chunks_bound: "c \<in> set (chunks n m xs) \<Longrightarrow> length c \<le> m"
  by (induction n arbitrary: xs) auto

lemma chunk_count_pos: "0 < m \<Longrightarrow> 0 < chunk_count m n"
  by (auto simp: chunk_count_def div_greater_zero_iff)

lemma chunk_count_covers: "0 < m \<Longrightarrow> n \<le> chunk_count m n * m"
proof (cases "n \<le> m")
  case False
  assume "0 < m"
  have "n + m - 1 < m + (n + m - 1) div m * m"
    using \<open>0 < m\<close> by (rule dividend_less_div_times)
  then show ?thesis using False by (simp add: chunk_count_def)
qed (simp add: chunk_count_def)

lemma concat_message_fragments: "0 < m \<Longrightarrow> concat (map snd (message_fragments m msg)) = msg"
  by (simp add: message_fragments_def Let_def concat_chunks chunk_count_covers)

lemma concat_stream_fragments: "0 < m \<Longrightarrow> concat (map snd (stream_fragments m msg)) = msg"
  by (simp add: stream_fragments_def comp_def concat_chunks chunk_count_covers)

subsection \<open>The fragmentation loop\<close>

lemma segment_new_data:
  "ikcp_segment_new alloc i sz = Some seg \<Longrightarrow> length (s_data seg) = nat sz"
  by (auto simp: ikcp_segment_new_def)

lemma segment_new_ok: "alloc i \<noteq> None \<Longrightarrow> \<exists>seg. ikcp_segment_new alloc i sz = Some seg"
  by (auto simp: ikcp_segment_new_def)

definition frag_numbers :: "int \<Rightarrow> nat \<Rightarrow> u32 list" where
  "frag_numbers stream n = (if stream = 0 then map of_nat (rev [0..<n]) else replicate n 0)"

lemma frag_numbers_Suc:
  "frag_numbers stream (Suc n) = (if stream = 0 then of_nat n else 0) # frag_numbers stream n"
  by (simp add: frag_numbers_def)

lemma send_fragments_spec:
  assumes "\<forall>j. alloc j \<noteq> None" and "unat (k_mss kcp) < 2 ^ 31" and "length b < 2 ^ 31"
  shows "\<exists>segs. send_fragments alloc i kcp (Some b) (int (length b)) r =
           Inr (kcp\<lparr>k_snd_queue := k_snd_queue kcp @ segs,
                    k_nsnd_que := k_nsnd_que kcp + of_nat r\<rparr>) \<and>
           map payload segs = zip (frag_numbers (k_stream kcp) r) (chunks r (unat (k_mss kcp)) b) \<and>
           list_all (seg_fits (k_mss kcp)) segs"
  using assms(2,3)
proof (induction r arbitrary: i kcp b)
  case 0
  then show ?case by (auto simp: frag_numbers_def intro!: exI [of _ "[]"])
next
  case (Suc r)
  let ?m = "unat (k_mss kcp)"
  define c where "c = min ?m (length b)"
  obtain fresh where new: "ikcp_segment_new alloc i (int c) = Some fresh"
    using assms(1) segment_new_ok by blast
  have fresh: "length (s_data fresh) = c" using segment_new_data [OF new] by simp
  have sz: "(if int (length b) > sint (k_mss kcp) then sint (k_mss kcp) else int (length b)) = int c"
    using Suc.prems(1) by (simp add: c_def sint_small min_def del: of_nat_unat)
  have tk: "take c b = take ?m b" "drop c b = drop ?m b"
    and rest: "int (length b) - int c = int (length (drop ?m b))"
    by (auto simp: c_def min_def)
  have cle: "c \<le> length b" by (simp add: c_def)
  have data: "(if int (length b) > 0 then copy_from (Some b) (int c) (s_data fresh) 0
               else Inr (s_data fresh)) = Inr (take ?m b)"
    using cle fresh by (auto simp: copy_from_def memcpy_at_full tk(1) [symmetric])
  define seg where "seg = fresh\<lparr>s_data := take ?m b, s_len := of_nat c,
    s_frg := (if k_stream kcp = 0 then of_nat r else 0)\<rparr>"
  let ?k = "kcp\<lparr>k_snd_queue := k_snd_queue kcp @ [seg], k_nsnd_que := k_nsnd_que kcp + 1\<rparr>"
  have step: "send_fragments alloc i kcp (Some b) (int (length b)) (Suc r) =
    send_fragments alloc (Suc i) ?k (Some (drop ?m b)) (int (length (drop ?m b))) r"
    unfolding send_fragments.simps Let_def sz rest new
    by (simp only: option.case data rbind_simps seg_def advance_def option.map nat_int tk of_int_of_nat_eq)
  have "\<exists>segs. send_fragments alloc (Suc i) ?k (Some (drop ?m b)) (int (length (drop ?m b))) r =
      Inr (?k\<lparr>k_snd_queue := k_snd_queue ?k @ segs, k_nsnd_que := k_nsnd_que ?k + of_nat r\<rparr>) \<and>
      map payload segs = zip (frag_numbers (k_stream ?k) r) (chunks r (unat (k_mss ?k)) (drop ?m b)) \<and>
      list_all (seg_fits (k_mss ?k)) segs"
    by (rule Suc.IH) (use Suc.prems in simp_all)
  then obtain segs where segs:
    "send_fragments alloc (Suc i) ?k (Some (drop ?m b)) (int (length (drop ?m b))) r =
      Inr (?k\<lparr>k_snd_queue := k_snd_queue ?k @ segs, k_nsnd_que := k_nsnd_que ?k + of_nat r\<rparr>)"
    "map payload segs = zip (frag_numbers (k_stream kcp) r) (chunks r ?m (drop ?m b))"
    "list_all (seg_fits (k_mss kcp)) segs"
    by auto
  have "seg_fits (k_mss kcp) seg"
    using Suc.prems(1) by (simp add: seg_def seg_fits_def word_le_nat_alt c_def min_def)
  moreover have "payload seg = (if k_stream kcp = 0 then of_nat r else 0, take ?m b)"
    by (simp add: payload_def seg_def)
  ultimately show ?case
    using segs
    by (intro exI [of _ "seg # segs"])
       (simp add: step frag_numbers_Suc algebra_simps del: send_fragments.simps)
qed

lemma fragment_count_eq:
  assumes "0 < unat mss" and "unat mss < 2 ^ 30" and "n < 2 ^ 31"
  shows "fragment_count mss (int n) = int (chunk_count (unat mss) n)"
proof (cases "n \<le> unat mss")
  case True
  with assms show ?thesis
    by (simp add: fragment_count_def chunk_count_def sint_small del: of_nat_unat)
next
  case False
  have "unat (of_nat n + mss - 1) = n + unat mss - 1"
    using assms unat_of_nat_u32 [of "n + unat mss - 1"] by (simp add: of_nat_diff)
  then have "unat ((of_nat n + mss - 1) div mss) = (n + unat mss - 1) div unat mss"
    by (simp add: unat_div)
  moreover have "(n + unat mss - 1) div unat mss < 2 ^ 31"
    using assms div_le_dividend [of "n + unat mss - 1" "unat mss"]
    by (cases "unat mss = 1") (simp_all add: div_less_iff_less_mult)
  ultimately show ?thesis
    using False assms
    by (simp add: fragment_count_def chunk_count_def sint_small del: of_nat_unat)
qed

lemma send_rest_spec:
  assumes alloc: "\<forall>j. alloc j \<noteq> None" and mss: "0 < unat (k_mss kcp)" "unat (k_mss kcp) < 2 ^ 30"
    and len: "length msg < 2 ^ 31"
    and count: "chunk_count (unat (k_mss kcp)) (length msg) < 128"
  shows "\<exists>segs. send_rest alloc kcp (Some msg) (int (length msg)) =
           Inr (0, kcp\<lparr>k_snd_queue := k_snd_queue kcp @ segs,
                       k_nsnd_que := k_nsnd_que kcp + of_nat (length segs)\<rparr>) \<and>
         map payload segs =
           (if k_stream kcp = 0 then message_fragments else stream_fragments) (unat (k_mss kcp)) msg \<and>
         list_all (seg_fits (k_mss kcp)) segs"
proof -
  let ?n = "chunk_count (unat (k_mss kcp)) (length msg)"
  obtain segs where segs:
    "send_fragments alloc 1 kcp (Some msg) (int (length msg)) ?n =
       Inr (kcp\<lparr>k_snd_queue := k_snd_queue kcp @ segs, k_nsnd_que := k_nsnd_que kcp + of_nat ?n\<rparr>)"
    "map payload segs = zip (frag_numbers (k_stream kcp) ?n) (chunks ?n (unat (k_mss kcp)) msg)"
    "list_all (seg_fits (k_mss kcp)) segs"
    using send_fragments_spec [OF alloc, of kcp msg 1 ?n] mss len by auto
  have "length segs = ?n"
    using arg_cong [OF segs(2), of length] by (simp add: frag_numbers_def)
  moreover have "map payload segs =
      (if k_stream kcp = 0 then message_fragments else stream_fragments) (unat (k_mss kcp)) msg"
    using segs(2)
    by (auto simp: message_fragments_def stream_fragments_def frag_numbers_def Let_def
          zip_replicate1 intro: map_cong)
  moreover have "0 < ?n" using mss(1) by (rule chunk_count_pos)
  ultimately show ?thesis
    using segs mss len count
    by (intro exI [of _ segs]) (simp add: send_rest_def fragment_count_eq Let_def kcp_consts)
qed

lemma send_rest_too_long:
  assumes "0 < unat (k_mss kcp)" and "unat (k_mss kcp) < 2 ^ 30" and "n < 2 ^ 31"
    and "128 \<le> chunk_count (unat (k_mss kcp)) n"
  shows "send_rest alloc kcp buffer (int n) = Inr (-2, kcp)"
  using assms by (simp add: send_rest_def fragment_count_eq kcp_consts)

lemma mtu_ok_mss:
  assumes "mtu_ok mtu mss buf"
  shows "unat mss = unat mtu - 24" and "26 \<le> unat mss" and "unat mss < 2 ^ 30"
proof -
  have "24 \<le> unat mtu" using assms by (simp add: mtu_ok_def)
  then show "unat mss = unat mtu - 24"
    using assms unat_sub [of "24 :: u32" mtu] by (simp add: mtu_ok_def kcp_consts word_le_nat_alt)
  then show "26 \<le> unat mss" and "unat mss < 2 ^ 30"
    using assms by (auto simp: mtu_ok_def)
qed

subsection \<open>Filling the last segment of a stream\<close>

definition stream_room :: "ikcpcb \<Rightarrow> nat" where
  "stream_room kcp =
     (if k_snd_queue kcp = [] then 0
      else unat (k_mss kcp) - length (s_data (last (k_snd_queue kcp))))"

text \<open>
  The one step of \<open>send_stream_extend\<close> that changes something: the last segment
  \<open>old\<close> is replaced by one that carries \<open>ext\<close> bytes more.
\<close>

lemma send_stream_extend_cases:
  assumes run: "send_stream_extend alloc kcp buffer len = Inr (kcp', buffer', len')"
    and fits: "list_all (seg_fits (k_mss kcp)) (k_snd_queue kcp)"
    and mss: "unat (k_mss kcp) < 2 ^ 30" and len: "0 \<le> len"
  obtains (same) "kcp' = kcp" "buffer' = buffer" "len' = len" "stream_room kcp = 0"
  | (extended) q old seg ext where
      "k_snd_queue kcp = q @ [old]" "kcp' = kcp\<lparr>k_snd_queue := q @ [seg]\<rparr>"
      "int ext = min len (int (unat (k_mss kcp)) - int (length (s_data old)))"
      "seg_fits (k_mss kcp) seg" "s_frg seg = 0"
      "buffer' = map_option (drop ext) buffer" "len' = len - int ext"
      "\<And>b. buffer = Some b \<Longrightarrow> ext \<le> length b \<and> s_data seg = s_data old @ take ext b"
proof (cases "k_snd_queue kcp = [] \<or> \<not> s_len (last (k_snd_queue kcp)) < k_mss kcp")
  case True
  then have "send_stream_extend alloc kcp buffer len = Inr (kcp, buffer, len)"
    by (cases "k_snd_queue kcp = []") (simp_all add: send_stream_extend_def Let_def)
  moreover have "stream_room kcp = 0"
    using True fits by (auto simp: stream_room_def seg_fits_def list_all_iff word_less_nat_alt)
  ultimately show ?thesis using run by (intro same) simp_all
next
  case False
  define q old where "q = butlast (k_snd_queue kcp)" and "old = last (k_snd_queue kcp)"
  have q: "k_snd_queue kcp = q @ [old]" using False by (simp add: q_def old_def)
  have old: "unat (s_len old) = length (s_data old)" "length (s_data old) < unat (k_mss kcp)"
    using fits False by (auto simp: q seg_fits_def word_less_nat_alt old_def [symmetric])
  define ext where "ext = nat (min len (int (unat (k_mss kcp)) - int (length (s_data old))))"
  have cap: "sint (k_mss kcp - s_len old) = int (unat (k_mss kcp)) - int (length (s_data old))"
    using sint_diff_small [of "k_mss kcp" "s_len old"] old mss by (simp del: of_nat_unat)
  have ext: "int ext = min len (int (unat (k_mss kcp)) - int (length (s_data old)))"
    using len old(2) by (simp add: ext_def)
  then have extend: "(if len < sint (k_mss kcp - s_len old) then len else sint (k_mss kcp - s_len old)) = int ext"
    unfolding cap by (auto simp: min_def)
  have le: "length (s_data old) + ext \<le> unat (k_mss kcp)" using ext old(2) by linarith
  have wlen: "s_len old + of_nat ext = of_nat (length (s_data old) + ext)"
    using old(1) by (simp flip: old(1))
  have ulen: "unat (s_len old + of_nat ext) = length (s_data old) + ext"
    unfolding wlen using le mss by (intro unat_of_nat_u32) simp
  have slen: "sint (s_len old + of_nat ext) = int (length (s_data old) + ext)"
    unfolding wlen using le mss by (intro sint_of_nat_u32) simp
  obtain fresh data where fresh: "ikcp_segment_new alloc 0 (int (length (s_data old) + ext)) = Some fresh"
    and data: "copy_from buffer (int ext) (memcpy_at (s_data fresh) 0 (s_data old)) (length (s_data old)) = Inr data"
    and k': "kcp' = kcp\<lparr>k_snd_queue := q @ [fresh\<lparr>s_data := data, s_len := s_len old + of_nat ext, s_frg := 0\<rparr>]\<rparr>"
    and rest: "buffer' = advance buffer (int ext)" "len' = len - int ext"
    using run False old(1)
    unfolding send_stream_extend_def
    by (simp add: Let_def old_def [symmetric] q_def [symmetric] extend slen rbind_Inr_iff split: option.splits) blast
  have fl: "length (s_data fresh) = length (s_data old) + ext"
    using segment_new_data [OF fresh] by simp
  have dl: "length data = length (s_data old) + ext"
    using data fl by (auto simp: copy_from_def rbind_Inr_iff memcpy_at_def split: option.splits)
  have db: "ext \<le> length b \<and> data = s_data old @ take ext b" if "buffer = Some b" for b
    using data fl that by (auto simp: copy_from_def rbind_Inr_iff memcpy_at_def)
  show ?thesis
    by (rule extended [OF q k' ext])
       (use db rest dl ulen le in \<open>auto simp: seg_fits_def word_le_nat_alt advance_def\<close>)
qed

subsection \<open>Every run of \<open>ikcp_send\<close> keeps the invariant\<close>

lemma copy_from_length:
  "copy_from buffer n dst off = Inr data \<Longrightarrow> off + nat n \<le> length dst \<Longrightarrow> length data = length dst"
  by (auto simp: copy_from_def rbind_Inr_iff split: option.splits)

lemma send_fragments_appends:
  assumes "send_fragments alloc i kcp buffer len r = Inr kcp'" and "0 \<le> len"
    and "unat (k_mss kcp) < 2 ^ 30"
  shows "\<exists>segs. kcp' = kcp\<lparr>k_snd_queue := k_snd_queue kcp @ segs,
                            k_nsnd_que := k_nsnd_que kcp + of_nat (length segs)\<rparr> \<and>
                list_all (seg_fits (k_mss kcp)) segs"
  using assms
proof (induction r arbitrary: i kcp buffer len)
  case 0
  then show ?case by (auto intro!: exI [of _ "[]"])
next
  case (Suc r)
  define sz where "sz = (if len > sint (k_mss kcp) then sint (k_mss kcp) else len)"
  obtain fresh data where new: "ikcp_segment_new alloc i sz = Some fresh"
    and data: "(if len > 0 then copy_from buffer sz (s_data fresh) 0 else Inr (s_data fresh)) = Inr data"
    and run: "send_fragments alloc (Suc i)
       (kcp\<lparr>k_snd_queue := k_snd_queue kcp @ [fresh\<lparr>s_data := data, s_len := word_of_int sz,
              s_frg := (if k_stream kcp = 0 then of_nat r else 0)\<rparr>],
            k_nsnd_que := k_nsnd_que kcp + 1\<rparr>) (advance buffer sz) (len - sz) r = Inr kcp'"
    using Suc.prems(1)
    by (simp add: sz_def [symmetric] Let_def rbind_Inr_iff split: option.splits) blast
  define seg where "seg = fresh\<lparr>s_data := data, s_len := word_of_int sz,
    s_frg := (if k_stream kcp = 0 then of_nat r else 0)\<rparr>"
  have sz: "0 \<le> sz" "sz \<le> len" "sz \<le> int (unat (k_mss kcp))"
    using Suc.prems(2,3) by (auto simp: sz_def sint_small)
  have "length data = nat sz"
    using data segment_new_data [OF new] by (auto split: if_splits dest: copy_from_length)
  then have fits: "seg_fits (k_mss kcp) seg"
    using sz Suc.prems(3)
    by (simp add: seg_def seg_fits_def word_le_nat_alt unat_word_of_int_u32 nat_le_iff)
  have "\<exists>segs. kcp' = kcp\<lparr>k_snd_queue := (k_snd_queue kcp @ [seg]) @ segs,
        k_nsnd_que := (k_nsnd_que kcp + 1) + of_nat (length segs)\<rparr> \<and>
      list_all (seg_fits (k_mss kcp)) segs"
    using Suc.IH [OF run] sz(2) Suc.prems(3) by (simp add: seg_def)
  then show ?case
    using fits by (elim exE) (rule_tac x = "seg # segs" in exI, simp add: algebra_simps)
qed

lemma snd_ok_enqueue:
  "snd_ok nque que nbuf buf una nxt rmt \<Longrightarrow>
   snd_ok (nque + of_nat (length segs)) (que @ segs) nbuf buf una nxt rmt"
  by (simp add: snd_ok_def)

lemma send_rest_inv:
  assumes "kcp_inv kcp" and "0 \<le> len" and "send_rest alloc kcp buffer len = Inr (ret, kcp')"
  shows "kcp_inv kcp'"
proof -
  have mss: "unat (k_mss kcp) < 2 ^ 30"
    using assms(1) mtu_ok_mss(3) by (auto simp: kcp_inv_def)
  consider "kcp' = kcp" | n where "send_fragments alloc 1 kcp buffer len n = Inr kcp'"
    using assms(3)
    by (auto simp: send_rest_def Let_def rbind_Inr_iff simp del: send_fragments.simps split: if_splits)
  then show ?thesis
  proof cases
    case 2
    from send_fragments_appends [OF this assms(2) mss] assms(1) show ?thesis
      by (auto simp: kcp_inv_def snd_ok_enqueue)
  qed (use assms(1) in simp)
qed

lemma ikcp_send_inv:
  assumes inv: "kcp_inv kcp" and run: "ikcp_send alloc kcp buffer len = Inr (ret, kcp')"
  shows "kcp_inv kcp'"
proof -
  consider "kcp' = kcp" | "0 \<le> len" "send_rest alloc kcp buffer len = Inr (ret, kcp')"
    | k b l where "0 \<le> len" "send_stream_extend alloc kcp buffer len = Inr (k, b, l)"
        "l \<le> 0 \<and> kcp' = k \<or> 0 \<le> l \<and> send_rest alloc k b l = Inr (ret, kcp')"
    using run by (fastforce simp: ikcp_send_def rbind_Inr_iff split: if_splits)
  then show ?thesis
  proof cases
    case 3
    have mss: "unat (k_mss kcp) < 2 ^ 30" and fits: "list_all (seg_fits (k_mss kcp)) (k_snd_queue kcp)"
      using inv mtu_ok_mss(3) by (auto simp: kcp_inv_def)
    from 3(2) fits mss 3(1) have "kcp_inv k"
      by (cases rule: send_stream_extend_cases) (use inv in \<open>auto simp: kcp_inv_def snd_ok_def\<close>)
    with 3(3) send_rest_inv show ?thesis by blast
  qed (use inv send_rest_inv in blast)+
qed

subsection \<open>Properties of \<open>ikcp_send\<close>\<close>

abbreviation stream_bytes :: "ikcpseg list \<Rightarrow> bytes" where
  "stream_bytes segs \<equiv> concat (map s_data segs)"

text \<open>The bytes behind the message in the caller's buffer are not looked at.\<close>

lemma copy_from_more: "copy_from (Some b) n dst off = Inr data \<Longrightarrow> copy_from (Some (b @ junk)) n dst off = Inr data"
  by (auto simp: copy_from_def rbind_Inr_iff)

lemma send_fragments_more:
  "send_fragments alloc i kcp (Some b) len r = Inr kcp' \<Longrightarrow> send_fragments alloc i kcp (Some (b @ junk)) len r = Inr kcp'"
proof (induction r arbitrary: i kcp b len)
  case (Suc r)
  define sz where "sz = (if len > sint (k_mss kcp) then sint (k_mss kcp) else len)"
  obtain seg data where seg: "ikcp_segment_new alloc i sz = Some seg"
    and data: "(if len > 0 then copy_from (Some b) sz (s_data seg) 0 else Inr (s_data seg)) = Inr data"
    and rest: "send_fragments alloc (Suc i)
       (kcp\<lparr>k_snd_queue := k_snd_queue kcp @ [seg\<lparr>s_data := data, s_len := word_of_int sz,
              s_frg := (if k_stream kcp = 0 then of_nat r else 0)\<rparr>],
            k_nsnd_que := k_nsnd_que kcp + 1\<rparr>) (Some (drop (nat sz) b)) (len - sz) r = Inr kcp'"
    using Suc.prems by (simp add: sz_def [symmetric] Let_def advance_def rbind_Inr_iff split: option.splits) blast
  have "nat sz \<le> length b \<or> nat sz = 0"
    using data by (auto simp: copy_from_def rbind_Inr_iff sz_def split: if_splits)
  then have "drop (nat sz) (b @ junk) = drop (nat sz) b @ junk" by auto
  moreover have "(if len > 0 then copy_from (Some (b @ junk)) sz (s_data seg) 0 else Inr (s_data seg)) = Inr data"
    using data by (auto intro: copy_from_more split: if_splits)
  ultimately show ?case
    using seg Suc.IH [OF rest] by (simp add: sz_def [symmetric] Let_def advance_def)
qed simp

lemma send_rest_more:
  assumes "send_rest alloc kcp (Some b) len = Inr r" shows "send_rest alloc kcp (Some (b @ junk)) len = Inr r"
proof -
  define n where "n = fragment_count (k_mss kcp) len"
  show ?thesis
    using assms send_fragments_more [where b = b and junk = junk]
    unfolding send_rest_def n_def [symmetric] Let_def
    by (cases "n \<ge> sint IKCP_WND_RCV") (auto simp: rbind_Inr_iff simp del: send_fragments.simps)
qed

lemma ikcp_send_more:
  assumes "ikcp_send alloc kcp (Some b) len = Inr r" and "k_stream kcp = 0"
  shows "ikcp_send alloc kcp (Some (b @ junk)) len = Inr r"
  using assms by (auto simp: ikcp_send_def rbind_Inr_iff intro: send_rest_more split: if_splits)

lemma ikcp_send_queues:
  assumes inv: "kcp_inv kcp" and mode: "k_stream kcp = 0" and alloc: "\<forall>i. alloc i \<noteq> None"
    and len: "length msg < 2 ^ 31" and few: "chunk_count (unat (k_mss kcp)) (length msg) < 128"
  obtains segs where "ikcp_send alloc kcp (Some (msg @ junk)) (int (length msg)) =
      Inr (0, kcp\<lparr>k_snd_queue := k_snd_queue kcp @ segs, k_nsnd_que := k_nsnd_que kcp + of_nat (length segs)\<rparr>)"
    "map payload segs = message_fragments (unat (k_mss kcp)) msg" "stream_bytes segs = msg"
proof -
  have mss: "26 \<le> unat (k_mss kcp)" "unat (k_mss kcp) < 2 ^ 30"
    using inv mtu_ok_mss(2,3) by (auto simp: kcp_inv_def)
  then obtain segs where segs: "send_rest alloc kcp (Some msg) (int (length msg)) =
      Inr (0, kcp\<lparr>k_snd_queue := k_snd_queue kcp @ segs,
                  k_nsnd_que := k_nsnd_que kcp + of_nat (length segs)\<rparr>)"
    "map payload segs = message_fragments (unat (k_mss kcp)) msg"
    using send_rest_spec [OF alloc, of kcp msg] mode len few by auto
  have "map s_data segs = map snd (map payload segs)" by (simp add: payload_def)
  then have bytes: "stream_bytes segs = msg"
    using segs(2) mss(1) concat_message_fragments by simp
  have "0 < k_mss kcp" using mss(1) by (simp add: word_less_nat_alt)
  then have "ikcp_send alloc kcp (Some msg) (int (length msg)) =
      Inr (0, kcp\<lparr>k_snd_queue := k_snd_queue kcp @ segs, k_nsnd_que := k_nsnd_que kcp + of_nat (length segs)\<rparr>)"
    using mode segs(1) by (simp add: ikcp_send_def)
  from that [OF ikcp_send_more [OF this mode] segs(2) bytes] show thesis .
qed

text \<open>
  C20. In message mode a message that needs fewer than 128 fragments is queued completely:
  \<open>ikcp_send\<close> returns 0 and appends exactly the fragments of the message, cut at the
  \<open>mss\<close> and numbered downwards to 0, whose payloads joined are the message; nothing else
  of the control block changes but the queue counter.
\<close>

theorem ikcp_send_message_mode:
  assumes "kcp_inv kcp" and "k_stream kcp = 0" and "\<forall>i. alloc i \<noteq> None"
    and "length msg < 2 ^ 31" and "chunk_count (unat (k_mss kcp)) (length msg) < 128"
  shows "\<exists>segs. ikcp_send alloc kcp (Some msg) (int (length msg)) =
           Inr (0, kcp\<lparr>k_snd_queue := k_snd_queue kcp @ segs,
                       k_nsnd_que := k_nsnd_que kcp + of_nat (length segs)\<rparr>) \<and>
         map payload segs = message_fragments (unat (k_mss kcp)) msg \<and>
         stream_bytes segs = msg"
  using ikcp_send_queues [OF assms, of "[]"] by auto

definition example_alloc :: seg_allocator where
  "example_alloc i = Some (\<lparr>s_conv = 0, s_cmd = 0, s_frg = 0, s_wnd = 0, s_ts = 0, s_sn = 0,
     s_una = 0, s_len = 0, s_resendts = 0, s_rto = 0, s_fastack = 0, s_xmit = 0, s_data = []\<rparr>,
     \<lambda>k. 0)"

lemma example_kcp_fields:
  "unat (k_mss example_kcp) = 1376" "k_stream example_kcp = 0" "k_nsnd_que example_kcp = 0"
  "k_snd_queue example_kcp = []"
  by (simp_all add: example_kcp_def ikcp_create_def kcp_consts)

lemma example_alloc_ok: "\<forall>i. example_alloc i \<noteq> None"
  by (simp add: example_alloc_def)

theorem ikcp_send_message_mode_witness:
  "\<exists>segs. ikcp_send example_alloc example_kcp (Some [1, 2, 3]) 3 =
      Inr (0, example_kcp\<lparr>k_snd_queue := segs, k_nsnd_que := of_nat (length segs)\<rparr>) \<and>
    map payload segs = [(0, [1, 2, 3])] \<and> stream_bytes segs = [1, 2, 3]"
proof -
  have frags: "message_fragments 1376 [1, 2, 3] = [(0, [1, 2, 3])]"
    and few: "chunk_count (unat (k_mss example_kcp)) (length [1, 2, 3 :: u8]) < 128"
    by (simp_all add: message_fragments_def chunk_count_def example_kcp_fields)
  have len: "int (length [1, 2, 3 :: u8]) = 3" "length [1, 2, 3 :: u8] < 2 ^ 31" by simp_all
  from ikcp_send_message_mode [OF example_kcp_inv example_kcp_fields(2) example_alloc_ok len(2) few]
  show ?thesis unfolding len(1) example_kcp_fields frags by (simp only: append_Nil add_0)
qed

text \<open>
  A message that needs 128 fragments or more is refused with -2 and a negative length
  with -1; in message mode the control block is left exactly as it was, whatever the
  allocator does.
\<close>

theorem ikcp_send_refuses:
  assumes "kcp_inv kcp" and "k_stream kcp = 0" and "n < 2 ^ 31"
    and "n < 0 \<or> 128 \<le> chunk_count (unat (k_mss kcp)) (nat n)"
  shows "ikcp_send alloc kcp buffer n = Inr (if n < 0 then -1 else -2, kcp)"
proof -
  have mss: "26 \<le> unat (k_mss kcp)" "unat (k_mss kcp) < 2 ^ 30"
    using assms(1) mtu_ok_mss(2,3) by (auto simp: kcp_inv_def)
  then have "0 < k_mss kcp" by (simp add: word_less_nat_alt)
  then show ?thesis
    using assms(2-4) mss send_rest_too_long [of kcp "nat n" alloc buffer]
    by (cases "n < 0") (simp_all add: ikcp_send_def)
qed

theorem ikcp_send_refuses_witness:
  "ikcp_send (\<lambda>_. None) example_kcp None 200000 = Inr (-2, example_kcp)"
proof -
  have "(200000 :: int) < 0 \<or> 128 \<le> chunk_count (unat (k_mss example_kcp)) (nat 200000)"
    by (simp add: example_kcp_fields chunk_count_def)
  from ikcp_send_refuses [OF example_kcp_inv example_kcp_fields(2) _ this, of "\<lambda>_. None" None]
  show ?thesis by simp
qed

lemma send_stream_extend_ok:
  assumes "\<forall>i. alloc i \<noteq> None" and "list_all (seg_fits (k_mss kcp)) (k_snd_queue kcp)"
    and "unat (k_mss kcp) < 2 ^ 30"
  shows "\<exists>r. send_stream_extend alloc kcp (Some b) (int (length b)) = Inr r"
proof (cases "k_snd_queue kcp = [] \<or> \<not> s_len (last (k_snd_queue kcp)) < k_mss kcp")
  case True
  then show ?thesis by (auto simp: send_stream_extend_def Let_def)
next
  case False
  define old where "old = last (k_snd_queue kcp)"
  have lt: "unat (s_len old) < unat (k_mss kcp)"
    using False by (simp add: old_def word_less_nat_alt)
  define cap where "cap = sint (k_mss kcp - s_len old)"
  have "0 \<le> cap"
    using lt assms(3) sint_diff_small [of "k_mss kcp" "s_len old"] by (simp add: cap_def)
  then have "nat (if int (length b) < cap then int (length b) else cap) \<le> length b" by auto
  moreover obtain seg where "ikcp_segment_new alloc 0
      (sint (s_len old + word_of_int (if int (length b) < cap then int (length b) else cap))) = Some seg"
    using assms(1) segment_new_ok by blast
  ultimately show ?thesis
    using False unfolding send_stream_extend_def
    by (simp add: Let_def old_def [symmetric] cap_def [symmetric] copy_from_def)
qed

lemma send_stream_extend_spec:
  assumes alloc: "\<forall>i. alloc i \<noteq> None" and fits: "list_all (seg_fits (k_mss kcp)) (k_snd_queue kcp)"
    and mss: "unat (k_mss kcp) < 2 ^ 30"
  shows "\<exists>q. send_stream_extend alloc kcp (Some msg) (int (length msg)) =
           Inr (kcp\<lparr>k_snd_queue := q\<rparr>, Some (drop (stream_room kcp) msg),
                int (length (drop (stream_room kcp) msg))) \<and>
         stream_bytes q = stream_bytes (k_snd_queue kcp) @ take (stream_room kcp) msg"
proof -
  obtain k b l where run:
    "send_stream_extend alloc kcp (Some msg) (int (length msg)) = Inr (k, b, l)"
    using send_stream_extend_ok [OF alloc fits mss, of msg] by auto
  have nonneg: "0 \<le> int (length msg)" by simp
  from run fits mss nonneg show ?thesis
  proof (cases rule: send_stream_extend_cases)
    case same
    then show ?thesis using run by (intro exI [of _ "k_snd_queue kcp"]) simp
  next
    case (extended q old seg ext)
    have "length (s_data old) \<le> unat (k_mss kcp)"
      using fits extended(1) by (simp add: seg_fits_def word_le_nat_alt)
    then have "ext = min (length msg) (stream_room kcp)"
      using extended(1,3) by (auto simp: stream_room_def min_def split: if_splits)
    then have "drop ext msg = drop (stream_room kcp) msg" "take ext msg = take (stream_room kcp) msg"
      "int (length msg) - int ext = int (length (drop (stream_room kcp) msg))"
      by (auto simp: min_def)
    then show ?thesis
      using run extended by (auto intro!: exI [of _ "q @ [seg]"])
  qed
qed

text \<open>
  C33. In stream mode the bytes waiting in the send queue after the call are those that were
  waiting followed by a prefix of the buffer, in order and without loss: the whole buffer
  when the call returns 0. When what remains after the last segment is filled up
  needs 128 fragments or more the call returns -2 although the bytes that filled the last
  segment have been queued already, so a caller that retries sends them twice.
\<close>

theorem ikcp_send_stream_mode:
  assumes "kcp_inv kcp" and "k_stream kcp \<noteq> 0" and "\<forall>i. alloc i \<noteq> None" and "length msg < 2 ^ 31"
  shows "\<exists>kcp'. ikcp_send alloc kcp (Some msg) (int (length msg)) =
           Inr (if stream_room kcp < length msg \<and>
                   128 \<le> chunk_count (unat (k_mss kcp)) (length msg - stream_room kcp)
                then -2 else 0, kcp') \<and>
         stream_bytes (k_snd_queue kcp') = stream_bytes (k_snd_queue kcp) @
           (if stream_room kcp < length msg \<and>
               128 \<le> chunk_count (unat (k_mss kcp)) (length msg - stream_room kcp)
            then take (stream_room kcp) msg else msg)"
proof -
  let ?rest = "drop (stream_room kcp) msg"
  have mss: "26 \<le> unat (k_mss kcp)" "unat (k_mss kcp) < 2 ^ 30"
    and fits: "list_all (seg_fits (k_mss kcp)) (k_snd_queue kcp)"
    using assms(1) mtu_ok_mss(2,3) by (auto simp: kcp_inv_def)
  obtain q where q: "send_stream_extend alloc kcp (Some msg) (int (length msg)) =
      Inr (kcp\<lparr>k_snd_queue := q\<rparr>, Some ?rest, int (length ?rest))"
    "stream_bytes q = stream_bytes (k_snd_queue kcp) @ take (stream_room kcp) msg"
    using send_stream_extend_spec [OF assms(3) fits mss(2)] by blast
  have "0 < k_mss kcp" using mss(1) by (simp add: word_less_nat_alt)
  then have run: "ikcp_send alloc kcp (Some msg) (int (length msg)) =
      (if ?rest = [] then Inr (0, kcp\<lparr>k_snd_queue := q\<rparr>)
       else send_rest alloc (kcp\<lparr>k_snd_queue := q\<rparr>) (Some ?rest) (int (length ?rest)))"
    using assms(2) q(1) by (simp add: ikcp_send_def)
  consider "?rest = []" | "?rest \<noteq> []" "128 \<le> chunk_count (unat (k_mss kcp)) (length ?rest)"
    | "?rest \<noteq> []" "chunk_count (unat (k_mss kcp)) (length ?rest) < 128"
    by linarith
  then show ?thesis
  proof cases
    case 2
    then show ?thesis
      using send_rest_too_long [of "kcp\<lparr>k_snd_queue := q\<rparr>" "length ?rest" alloc "Some ?rest"]
        mss assms(4) q(2) run by simp
  next
    case 3
    obtain segs where segs: "send_rest alloc (kcp\<lparr>k_snd_queue := q\<rparr>) (Some ?rest) (int (length ?rest)) =
        Inr (0, kcp\<lparr>k_snd_queue := q @ segs, k_nsnd_que := k_nsnd_que kcp + of_nat (length segs)\<rparr>)"
      "map payload segs = stream_fragments (unat (k_mss kcp)) ?rest"
      using send_rest_spec [OF assms(3), of "kcp\<lparr>k_snd_queue := q\<rparr>" ?rest] mss assms(2,4) 3
        less_imp_diff_less [OF assms(4), of "stream_room kcp"] by auto
    have "map s_data segs = map snd (map payload segs)" by (simp add: payload_def)
    then have "stream_bytes segs = ?rest"
      using segs(2) mss(1) concat_stream_fragments by simp
    then show ?thesis using run segs(1) q(2) 3 by simp
  qed (use run q(2) in simp)
qed

definition example_stream :: ikcpcb where
  "example_stream = example_kcp\<lparr>k_stream := 1\<rparr>"

lemma example_stream_inv: "kcp_inv example_stream"
  using example_kcp_inv by (simp add: example_stream_def kcp_inv_def)

theorem ikcp_send_stream_mode_witness:
  "\<exists>kcp'. ikcp_send example_alloc example_stream (Some [7, 8]) 2 = Inr (0, kcp') \<and>
          stream_bytes (k_snd_queue kcp') = [7, 8]"
proof -
  have room: "stream_room example_stream = 0" and "k_snd_queue example_stream = []"
    and mss: "unat (k_mss example_stream) = 1376" and "k_stream example_stream \<noteq> 0"
    by (simp_all add: stream_room_def example_stream_def example_kcp_fields)
  then show ?thesis
    using ikcp_send_stream_mode [OF example_stream_inv _ example_alloc_ok, of "[7, 8]"]
    by (simp add: chunk_count_def)
qed

end
