(* ===== verification/KcpRecv.thy ===== *)
theory KcpRecv
  imports KcpSend
begin

text \<open>
  The receiving side of \<open>src/kcp_learn/ikcp.c\<close>: \<open>ikcp_peeksize\<close>, \<open>ikcp_recv\<close> and
  \<open>ikcp_parse_data\<close>, against an abstract reassembly window, a map from sequence numbers
  to segments that releases the segment with the next number when the receive queue has room.
\<close>

subsection \<open>Size of the next message\<close>

fun peek_length :: "int \<Rightarrow> ikcpseg list \<Rightarrow> int" where
  "peek_length acc [] = acc"
| "peek_length acc (seg # p) =
     (let acc = sint (word_of_int acc + s_len seg) in
      if s_frg seg = 0 then acc else peek_length acc p)"

definition ikcp_peeksize :: "ikcpcb \<Rightarrow> int" where
  "ikcp_peeksize kcp =
     (case k_rcv_queue kcp of
        [] \<Rightarrow> -1
      | seg # _ \<Rightarrow>
          if s_frg seg = 0 then sint (s_len seg)
          else if k_nrcv_que kcp < s_frg seg + 1 then -1
          else peek_length 0 (k_rcv_queue kcp))"

subsection \<open>Moving segments from the buffer to the queue\<close>

text \<open>The loop that ends both \<open>ikcp_recv\<close> and \<open>ikcp_parse_data\<close>.\<close>

function move_ready :: "ikcpcb \<Rightarrow> ikcpcb" where
  "move_ready kcp =
     (case k_rcv_buf kcp of
        [] \<Rightarrow> kcp
      | seg # rest \<Rightarrow>
          if s_sn seg = k_rcv_nxt kcp \<and> k_nrcv_que kcp < k_rcv_wnd kcp then
            move_ready (kcp\<lparr>k_rcv_buf := rest, k_nrcv_buf := k_nrcv_buf kcp - 1,
                            k_rcv_queue := k_rcv_queue kcp @ [seg],
                            k_nrcv_que := k_nrcv_que kcp + 1, k_rcv_nxt := k_rcv_nxt kcp + 1\<rparr>)
          else kcp)"
  by pat_completeness auto
termination by (relation "measure (\<lambda>kcp. length (k_rcv_buf kcp))") auto

declare move_ready.simps [simp del]

subsection \<open>Reading a message\<close>

text \<open>
  The user's buffer is known by its capacity, \<open>None\<close> for \<open>NULL\<close>; the bytes written
  to it are returned.
\<close>

definition recv_copy :: "nat option \<Rightarrow> bytes \<Rightarrow> ikcpseg \<Rightarrow> bytes cresult" where
  "recv_copy capacity out seg =
     (case capacity of
        None \<Rightarrow> Inr out
      | Some c \<Rightarrow>
          rbind (rguard (unat (s_len seg) \<le> length (s_data seg) \<and>
                         length out + unat (s_len seg) \<le> c) Out_Of_Bounds)
            (\<lambda>_. Inr (out @ take (unat (s_len seg)) (s_data seg))))"

fun recv_merge ::
  "bool \<Rightarrow> nat option \<Rightarrow> ikcpseg list \<Rightarrow> int \<Rightarrow> bytes \<Rightarrow> ikcpcb \<Rightarrow> (int \<times> bytes \<times> ikcpcb) cresult" where
  "recv_merge ispeek capacity [] len out kcp = Inr (len, out, kcp)"
| "recv_merge ispeek capacity (seg # p) len out kcp =
     rbind (recv_copy capacity out seg) (\<lambda>out.
       let len = sint (word_of_int len + s_len seg);
           kcp = (if ispeek then kcp
                  else kcp\<lparr>k_rcv_queue := tl (k_rcv_queue kcp), k_nrcv_que := k_nrcv_que kcp - 1\<rparr>)
       in if s_frg seg = 0 then Inr (len, out, kcp)
          else recv_merge ispeek capacity p len out kcp)"

definition ikcp_recv :: "ikcpcb \<Rightarrow> nat option \<Rightarrow> int \<Rightarrow> (int \<times> bytes \<times> ikcpcb) cresult" where
  "ikcp_recv kcp buffer len =
     (let ispeek = (len < 0) in
      if k_rcv_queue kcp = [] then Inr (-1, [], kcp)
      else
        let len = (if len < 0 then - len else len);
            peeksize = ikcp_peeksize kcp
        in if peeksize < 0 then Inr (-2, [], kcp)
           else if peeksize > len then Inr (-3, [], kcp)
           else
             let recover = (k_nrcv_que kcp \<ge> k_rcv_wnd kcp) in
             rbind (recv_merge ispeek buffer (k_rcv_queue kcp) 0 [] kcp) (\<lambda>(len, out, kcp).
             rbind (rguard (len = peeksize) Assert_Failed) (\<lambda>_.
             let kcp = move_ready kcp;
                 kcp = (if k_nrcv_que kcp < k_rcv_wnd kcp \<and> recover
                        then kcp\<lparr>k_probe := k_probe kcp OR IKCP_ASK_TELL\<rparr> else kcp)
             in Inr (len, out, kcp))))"

subsection \<open>Accepting a data segment\<close>

text \<open>
  The backward scan of \<open>rcv_buf\<close> and the insertion behind the node it stops at, on the
  buffer read from tail to head; \<open>None\<close> when the number is already there.
\<close>

fun rcv_scan :: "u32 \<Rightarrow> ikcpseg \<Rightarrow> ikcpseg list \<Rightarrow> ikcpseg list option" where
  "rcv_scan sn newseg [] = Some [newseg]"
| "rcv_scan sn newseg (seg # prev) =
     (if s_sn seg = sn then None
      else if itimediff sn (s_sn seg) > 0 then Some (newseg # seg # prev)
      else map_option ((#) seg) (rcv_scan sn newseg prev))"

definition ikcp_parse_data :: "ikcpcb \<Rightarrow> ikcpseg \<Rightarrow> ikcpcb" where
  "ikcp_parse_data kcp newseg =
     (let sn = s_sn newseg in
      if itimediff sn (k_rcv_nxt kcp + k_rcv_wnd kcp) \<ge> 0 \<or> itimediff sn (k_rcv_nxt kcp) < 0
      then kcp
      else
        let kcp = (case rcv_scan sn newseg (rev (k_rcv_buf kcp)) of
                     Some r \<Rightarrow> kcp\<lparr>k_rcv_buf := rev r, k_nrcv_buf := k_nrcv_buf kcp + 1\<rparr>
                   | None \<Rightarrow> kcp)
        in move_ready kcp)"

subsection \<open>What a message is\<close>

fun take_message :: "ikcpseg list \<Rightarrow> ikcpseg list" where
  "take_message [] = []"
| "take_message (seg # p) = (if s_frg seg = 0 then [seg] else seg # take_message p)"

definition message_ready :: "ikcpcb \<Rightarrow> bool" where
  "message_ready kcp \<longleftrightarrow>
     (case k_rcv_queue kcp of
        [] \<Rightarrow> False
      | seg # _ \<Rightarrow> s_frg seg = 0 \<or> s_frg seg + 1 \<le> k_nrcv_que kcp)"

lemma take_message_prefix: "take (length (take_message q)) q = take_message q"
  by (induction q) auto

lemma length_take_message: "length (take_message q) \<le> length q"
  by (induction q) auto

lemma seg_sized_len: "seg_sized s \<Longrightarrow> s_len s = of_nat (length (s_data s))"
  by (metis seg_sized_def of_nat_unat_id)

lemma peek_length_eq:
  assumes "list_all seg_sized q"
  shows "peek_length (sint (w :: u32)) q = sint (w + of_nat (length (stream_bytes (take_message q))))"
  using assms
proof (induction q arbitrary: w)
  case (Cons seg p)
  then have "s_len seg = of_nat (length (s_data seg))" by (simp add: seg_sized_len)
  with Cons show ?case by (simp add: Let_def add.assoc)
qed simp

lemma recv_merge_eq:
  assumes "list_all seg_sized q" and "k_rcv_queue kcp = q \<or> ispeek"
    and "\<forall>c. capacity = Some c \<longrightarrow> length out + length (stream_bytes (take_message q)) \<le> c"
  shows "recv_merge ispeek capacity q (sint (w :: u32)) out kcp =
     Inr (sint (w + of_nat (length (stream_bytes (take_message q)))),
          out @ (if capacity = None then [] else stream_bytes (take_message q)),
          if ispeek then kcp
          else kcp\<lparr>k_rcv_queue := drop (length (take_message q)) (k_rcv_queue kcp),
                   k_nrcv_que := k_nrcv_que kcp - of_nat (length (take_message q))\<rparr>)"
  using assms
proof (induction q arbitrary: w out kcp)
  case (Cons seg p)
  have len: "s_len seg = of_nat (length (s_data seg))" "unat (s_len seg) = length (s_data seg)"
    using Cons.prems(1) by (auto intro: seg_sized_len) (simp add: seg_sized_def)
  have copy: "recv_copy capacity out seg = Inr (out @ (if capacity = None then [] else s_data seg))"
    using Cons.prems(3) len(2)
    by (cases capacity) (auto simp: recv_copy_def split: if_splits)
  let ?k = "if ispeek then kcp
    else kcp\<lparr>k_rcv_queue := tl (k_rcv_queue kcp), k_nrcv_que := k_nrcv_que kcp - 1\<rparr>"
  show ?case
  proof (cases "s_frg seg = 0")
    case True
    then show ?thesis using Cons.prems(2) copy len(1) by (auto simp: drop_Suc)
  next
    case False
    let ?out = "out @ (if capacity = None then [] else s_data seg)"
    have "recv_merge ispeek capacity p (sint (w + s_len seg)) ?out ?k =
       Inr (sint (w + s_len seg + of_nat (length (stream_bytes (take_message p)))),
          ?out @ (if capacity = None then [] else stream_bytes (take_message p)),
          if ispeek then ?k
          else ?k\<lparr>k_rcv_queue := drop (length (take_message p)) (k_rcv_queue ?k),
                   k_nrcv_que := k_nrcv_que ?k - of_nat (length (take_message p))\<rparr>)"
      using Cons.prems False by (intro Cons.IH) auto
    then show ?thesis
      using False copy len(1) by (auto simp: drop_Suc algebra_simps)
  qed
qed simp

lemma peeksize_eq:
  assumes "list_all seg_sized (k_rcv_queue kcp)"
  shows "ikcp_peeksize kcp =
    (if message_ready kcp then sint (of_nat (length (stream_bytes (take_message (k_rcv_queue kcp)))) :: u32)
     else -1)"
proof (cases "k_rcv_queue kcp")
  case (Cons seg p)
  then have "s_len seg = of_nat (length (s_data seg))" using assms by (simp add: seg_sized_len)
  with Cons assms peek_length_eq [of "k_rcv_queue kcp" 0] show ?thesis
    by (auto simp: ikcp_peeksize_def message_ready_def not_le)
qed (simp add: ikcp_peeksize_def message_ready_def)

subsection \<open>The loop that moves segments\<close>

text \<open>
  \<open>run_from n segs\<close>: the longest prefix of \<open>segs\<close> numbered \<open>n\<close>, \<open>n + 1\<close> and so on.
\<close>

fun run_from :: "u32 \<Rightarrow> ikcpseg list \<Rightarrow> ikcpseg list" where
  "run_from n [] = []"
| "run_from n (s # rest) = (if s_sn s = n then s # run_from (n + 1) rest else [])"

lemma run_from_prefix: "take (length (run_from n segs)) segs = run_from n segs"
  by (induction segs arbitrary: n) auto

lemma run_from_length: "length (run_from n segs) \<le> length segs"
  by (induction segs arbitrary: n) auto

lemma run_from_sn: "i < length (run_from n segs) \<Longrightarrow> s_sn (run_from n segs ! i) = n + of_nat i"
proof (induction segs arbitrary: n i)
  case (Cons s rest)
  then show ?case by (cases i) (auto simp: algebra_simps split: if_splits)
qed simp

lemma move_ready_eq:
  assumes "k_nrcv_que kcp = of_nat (length (k_rcv_queue kcp))"
    and "length (k_rcv_queue kcp) < 2 ^ 31" and "unat (k_rcv_wnd kcp) < 2 ^ 31"
  shows "move_ready kcp =
    (let j = min (length (run_from (k_rcv_nxt kcp) (k_rcv_buf kcp)))
                 (unat (k_rcv_wnd kcp) - length (k_rcv_queue kcp))
     in kcp\<lparr>k_rcv_buf := drop j (k_rcv_buf kcp), k_nrcv_buf := k_nrcv_buf kcp - of_nat j,
            k_rcv_queue := k_rcv_queue kcp @ take j (k_rcv_buf kcp),
            k_nrcv_que := k_nrcv_que kcp + of_nat j, k_rcv_nxt := k_rcv_nxt kcp + of_nat j\<rparr>)"
  using assms
proof (induction kcp rule: move_ready.induct)
  case (1 kcp)
  have unat_que: "unat (k_nrcv_que kcp) = length (k_rcv_queue kcp)" using 1(2,3) by simp
  show ?case
  proof (cases "k_rcv_buf kcp")
    case (Cons seg rest)
    note buf = Cons
    show ?thesis
    proof (cases "s_sn seg = k_rcv_nxt kcp \<and> k_nrcv_que kcp < k_rcv_wnd kcp")
      case True
      then have room: "length (k_rcv_queue kcp) < unat (k_rcv_wnd kcp)"
        using unat_que by (simp add: word_less_nat_alt)
      let ?k = "kcp\<lparr>k_rcv_buf := rest, k_nrcv_buf := k_nrcv_buf kcp - 1,
        k_rcv_queue := k_rcv_queue kcp @ [seg], k_nrcv_que := k_nrcv_que kcp + 1,
        k_rcv_nxt := k_rcv_nxt kcp + 1\<rparr>"
      define j where "j = min (length (run_from (k_rcv_nxt kcp + 1) rest))
        (unat (k_rcv_wnd kcp) - Suc (length (k_rcv_queue kcp)))"
      have "min (length (run_from (k_rcv_nxt kcp) (k_rcv_buf kcp)))
                 (unat (k_rcv_wnd kcp) - length (k_rcv_queue kcp)) = Suc j"
        using True room buf by (simp add: j_def)
      moreover have "move_ready kcp = move_ready ?k"
        using True buf by (subst move_ready.simps) simp
      moreover have "move_ready ?k = ?k\<lparr>k_rcv_buf := drop j rest,
          k_nrcv_buf := k_nrcv_buf kcp - 1 - of_nat j,
          k_rcv_queue := k_rcv_queue kcp @ [seg] @ take j rest,
          k_nrcv_que := k_nrcv_que kcp + 1 + of_nat j, k_rcv_nxt := k_rcv_nxt kcp + 1 + of_nat j\<rparr>"
        using 1(1) [OF buf True] 1(2-4) room by (simp add: Let_def j_def)
      ultimately show ?thesis using buf by (simp add: Let_def algebra_simps)
    next
      case False
      then have "min (length (run_from (k_rcv_nxt kcp) (k_rcv_buf kcp)))
                 (unat (k_rcv_wnd kcp) - length (k_rcv_queue kcp)) = 0"
        using buf unat_que by (auto simp: word_less_nat_alt)
      then show ?thesis using False buf by (subst move_ready.simps) (auto simp: Let_def)
    qed
  qed (subst move_ready.simps, simp add: Let_def)
qed

lemma move_ready_conserves [simp]:
  "k_rcv_queue (move_ready kcp) @ k_rcv_buf (move_ready kcp) = k_rcv_queue kcp @ k_rcv_buf kcp"
proof (induction kcp rule: move_ready.induct)
  case (1 kcp)
  then show ?case by (subst (1 2) move_ready.simps) (auto split: list.splits)
qed

lemma rcv_ok_move:
  assumes ok: "rcv_ok nque que nbuf buf nxt wnd" and run: "j \<le> length (run_from nxt buf)"
    and room: "j \<le> unat wnd - length que"
  shows "rcv_ok (nque + of_nat j) (que @ take j buf) (nbuf - of_nat j) (drop j buf) (nxt + of_nat j) wnd"
  using run room ok
proof (induction j arbitrary: nque que nbuf buf nxt)
  case 0
  then show ?case by simp
next
  case (Suc j)
  then obtain s rest where buf: "buf = s # rest" and sn: "s_sn s = nxt" by (cases buf) (auto split: if_splits)
  have tail: "seq_off nxt (s_sn t) = Suc (seq_off (nxt + 1) (s_sn t))" if "t \<in> set rest" for t
  proof -
    have "0 < seq_off nxt (s_sn t)"
      using Suc.prems(3) that by (auto simp: rcv_ok_def buf sn)
    then show ?thesis using seq_off_base_Suc [of "s_sn t" nxt] by (cases "s_sn t = nxt") auto
  qed
  have "sorted_wrt (\<lambda>t u. seq_off nxt (s_sn t) < seq_off nxt (s_sn u)) rest"
    using Suc.prems(3) by (simp add: rcv_ok_def buf sorted_wrt_map)
  then have "sorted_wrt (<) (map (\<lambda>t. seq_off (nxt + 1) (s_sn t)) rest)"
    unfolding sorted_wrt_map by (rule sorted_wrt_mono_rel [rotated]) (simp add: tail)
  with tail Suc.prems(2,3)
  have "rcv_ok (nque + 1) (que @ [s]) (nbuf - 1) rest (nxt + 1) wnd"
    by (auto simp: rcv_ok_def buf)
  from Suc.IH [OF _ _ this] Suc.prems(1,2) sn
  show ?case by (simp add: buf algebra_simps)
qed

lemma move_ready_inv:
  assumes "kcp_inv kcp" shows "kcp_inv (move_ready kcp)"
proof -
  have rcv: "rcv_inv kcp" and sized: "recv_payload_inv kcp" using assms by (simp_all add: kcp_inv_def)
  define j where "j = min (length (run_from (k_rcv_nxt kcp) (k_rcv_buf kcp)))
                 (unat (k_rcv_wnd kcp) - length (k_rcv_queue kcp))"
  have eq: "move_ready kcp = kcp\<lparr>k_rcv_buf := drop j (k_rcv_buf kcp), k_nrcv_buf := k_nrcv_buf kcp - of_nat j,
            k_rcv_queue := k_rcv_queue kcp @ take j (k_rcv_buf kcp),
            k_nrcv_que := k_nrcv_que kcp + of_nat j, k_rcv_nxt := k_rcv_nxt kcp + of_nat j\<rparr>"
    using move_ready_eq [of kcp] rcv by (simp add: rcv_ok_def Let_def j_def)
  have "rcv_inv (move_ready kcp)"
    using rcv_ok_move [OF rcv, of j] by (simp add: eq j_def)
  moreover have "recv_payload_inv (move_ready kcp)"
    using sized by (auto simp: eq list_all_iff dest: in_set_takeD in_set_dropD)
  ultimately show ?thesis using assms by (simp add: kcp_inv_def eq)
qed

subsection \<open>The insertion into the receive buffer\<close>

lemma rcv_scan_spec:
  assumes "sorted_wrt (>) (map (\<lambda>s. seq_off nxt (s_sn s)) r)"
    and "\<forall>s \<in> set r. seq_off nxt (s_sn s) < 2 ^ 31" and "seq_off nxt sn < 2 ^ 31" and "s_sn new = sn"
  shows "case rcv_scan sn new r of
      None \<Rightarrow> sn \<in> s_sn ` set r
    | Some r' \<Rightarrow> sn \<notin> s_sn ` set r \<and> set r' = insert new (set r) \<and> length r' = Suc (length r) \<and>
        sorted_wrt (>) (map (\<lambda>s. seq_off nxt (s_sn s)) r')"
  using assms
proof (induction r)
  case (Cons s prev)
  have diff: "itimediff sn (s_sn s) = int (seq_off nxt sn) - int (seq_off nxt (s_sn s))"
    using Cons.prems by (intro itimediff_off) simp_all
  consider "s_sn s = sn" | "s_sn s \<noteq> sn" "seq_off nxt (s_sn s) < seq_off nxt sn"
    | "s_sn s \<noteq> sn" "seq_off nxt sn < seq_off nxt (s_sn s)"
    using seq_off_inj [of nxt sn "s_sn s"] by fastforce
  then show ?case
  proof cases
    case 2
    have "sn \<notin> s_sn ` set prev" using 2 Cons.prems(1) by fastforce
    with 2 diff Cons.prems show ?thesis by fastforce
  next
    case 3
    have "\<not> itimediff sn (s_sn s) > 0" using 3 diff by simp
    with 3 Cons show ?thesis by (auto split: option.splits)
  qed simp
qed simp

lemma sorted_off_rev:
  "sorted_wrt (>) (map (\<lambda>s. seq_off nxt (s_sn s)) (rev r)) \<longleftrightarrow>
   sorted_wrt (<) (map (\<lambda>s. seq_off nxt (s_sn s)) r)"
  "sorted_wrt (<) (map (\<lambda>s. seq_off nxt (s_sn s)) (rev r)) \<longleftrightarrow>
   sorted_wrt (>) (map (\<lambda>s. seq_off nxt (s_sn s)) r)"
  by (simp_all add: sorted_wrt_rev flip: rev_map)

lemma rcv_ok_scan:
  assumes "rcv_ok nque que nbuf buf nxt wnd" and "seq_off nxt (s_sn new) < 2 ^ 31"
    and "rcv_scan (s_sn new) new (rev buf) = Some r"
  shows "rcv_ok nque que (nbuf + 1) (rev r) nxt wnd"
  using rcv_scan_spec [of nxt "rev buf" "s_sn new" new] assms
  by (auto simp: rcv_ok_def sorted_off_rev)

lemma ikcp_parse_data_inv:
  assumes inv: "kcp_inv kcp" and new: "seg_sized newseg"
  shows "kcp_inv (ikcp_parse_data kcp newseg)"
proof (cases "itimediff (s_sn newseg) (k_rcv_nxt kcp + k_rcv_wnd kcp) \<ge> 0 \<or>
              itimediff (s_sn newseg) (k_rcv_nxt kcp) < 0")
  case False
  have off: "seq_off (k_rcv_nxt kcp) (s_sn newseg) < 2 ^ 31"
    using False itimediff_nonneg_iff by fastforce
  show ?thesis
  proof (cases "rcv_scan (s_sn newseg) newseg (rev (k_rcv_buf kcp))")
    case None
    then show ?thesis using False inv move_ready_inv by (simp add: ikcp_parse_data_def)
  next
    case (Some r)
    have "set r = insert newseg (set (k_rcv_buf kcp))"
      using rcv_scan_spec [of "k_rcv_nxt kcp" "rev (k_rcv_buf kcp)" "s_sn newseg" newseg] inv off Some
      by (auto simp: kcp_inv_def rcv_ok_def sorted_off_rev)
    then have "kcp_inv (kcp\<lparr>k_rcv_buf := rev r, k_nrcv_buf := k_nrcv_buf kcp + 1\<rparr>)"
      using inv rcv_ok_scan [OF _ off Some] new by (auto simp: kcp_inv_def list_all_iff)
    then show ?thesis using False Some move_ready_inv by (simp add: ikcp_parse_data_def)
  qed
qed (auto simp: ikcp_parse_data_def inv)

subsection \<open>Reading a message\<close>

text \<open>What \<open>ikcp_recv\<close> leaves after the message is removed (or, when peeking, kept).\<close>

definition after_recv :: "ikcpcb \<Rightarrow> bool \<Rightarrow> ikcpcb" where
  "after_recv kcp ispeek =
     move_ready (if ispeek then kcp
       else kcp\<lparr>k_rcv_queue := drop (length (take_message (k_rcv_queue kcp))) (k_rcv_queue kcp),
                k_nrcv_que := k_nrcv_que kcp - of_nat (length (take_message (k_rcv_queue kcp)))\<rparr>)"

definition tell_window :: "ikcpcb \<Rightarrow> ikcpcb \<Rightarrow> ikcpcb" where
  "tell_window kcp kcp' =
     (if k_nrcv_que kcp' < k_rcv_wnd kcp' \<and> k_nrcv_que kcp \<ge> k_rcv_wnd kcp
      then kcp'\<lparr>k_probe := k_probe kcp' OR IKCP_ASK_TELL\<rparr> else kcp')"

lemma ikcp_recv_eq:
  assumes "list_all seg_sized (k_rcv_queue kcp)" and "message_ready kcp"
    and "length (stream_bytes (take_message (k_rcv_queue kcp))) < 2 ^ 31"
    and "\<forall>c. buffer = Some c \<longrightarrow> \<bar>len\<bar> \<le> int c"
  shows "ikcp_recv kcp buffer len =
    (if int (length (stream_bytes (take_message (k_rcv_queue kcp)))) > \<bar>len\<bar> then Inr (-3, [], kcp)
     else Inr (int (length (stream_bytes (take_message (k_rcv_queue kcp)))),
               if buffer = None then [] else stream_bytes (take_message (k_rcv_queue kcp)),
               tell_window kcp (after_recv kcp (len < 0))))"
proof -
  let ?msg = "stream_bytes (take_message (k_rcv_queue kcp))"
  have peek: "ikcp_peeksize kcp = int (length ?msg)"
    using assms(2,3) by (simp add: peeksize_eq [OF assms(1)] sint_of_nat_u32)
  have ne: "k_rcv_queue kcp \<noteq> []" using assms(2) by (auto simp: message_ready_def)
  show ?thesis
  proof (cases "int (length ?msg) > \<bar>len\<bar>")
    case True
    then show ?thesis using ne peek by (auto simp: ikcp_recv_def Let_def)
  next
    case False
    have "recv_merge (len < 0) buffer (k_rcv_queue kcp) (sint (0 :: u32)) [] kcp =
       Inr (sint (0 + of_nat (length ?msg) :: u32), [] @ (if buffer = None then [] else ?msg),
            if len < 0 then kcp
            else kcp\<lparr>k_rcv_queue := drop (length (take_message (k_rcv_queue kcp))) (k_rcv_queue kcp),
                     k_nrcv_que := k_nrcv_que kcp - of_nat (length (take_message (k_rcv_queue kcp)))\<rparr>)"
      using assms(1,4) False by (intro recv_merge_eq) auto
    then have merge: "recv_merge (len < 0) buffer (k_rcv_queue kcp) 0 [] kcp =
       Inr (int (length ?msg), if buffer = None then [] else ?msg,
            if len < 0 then kcp
            else kcp\<lparr>k_rcv_queue := drop (length (take_message (k_rcv_queue kcp))) (k_rcv_queue kcp),
                     k_nrcv_que := k_nrcv_que kcp - of_nat (length (take_message (k_rcv_queue kcp)))\<rparr>)"
      using assms(3) by (simp add: sint_of_nat_u32)
    show ?thesis
      using False ne unfolding ikcp_recv_def Let_def peek merge
      by (auto simp: after_recv_def tell_window_def)
  qed
qed

lemma ikcp_recv_not_ready:
  assumes "list_all seg_sized (k_rcv_queue kcp)" and "\<not> message_ready kcp"
  shows "ikcp_recv kcp buffer len = Inr (if k_rcv_queue kcp = [] then -1 else -2, [], kcp)"
  using assms by (simp add: ikcp_recv_def peeksize_eq Let_def)

lemma kcp_inv_drop_queue:
  assumes "kcp_inv kcp" and "n \<le> length (k_rcv_queue kcp)"
  shows "kcp_inv (kcp\<lparr>k_rcv_queue := drop n (k_rcv_queue kcp), k_nrcv_que := k_nrcv_que kcp - of_nat n\<rparr>)"
  using assms by (auto simp: kcp_inv_def rcv_ok_def of_nat_diff list_all_iff dest: in_set_dropD)

lemma after_recv_inv: "kcp_inv kcp \<Longrightarrow> kcp_inv (after_recv kcp ispeek)"
  unfolding after_recv_def
  by (intro move_ready_inv) (simp add: kcp_inv_drop_queue length_take_message)

lemma tell_window_inv: "kcp_inv kcp' \<Longrightarrow> kcp_inv (tell_window kcp kcp')"
  by (simp add: tell_window_def kcp_inv_def)

text \<open>The two comparisons with the window's ends accept exactly the numbers in it.\<close>

lemma in_window_iff:
  assumes "unat wnd < 2 ^ 31"
  shows "itimediff sn (nxt + wnd) < 0 \<and> 0 \<le> itimediff sn nxt \<longleftrightarrow> seq_off nxt sn < unat wnd"
proof (cases "seq_off nxt sn < 2 ^ 31")
  case True
  moreover have "seq_off nxt (nxt + wnd) = unat wnd" by (simp add: seq_off_def)
  ultimately have "itimediff sn (nxt + wnd) = int (seq_off nxt sn) - int (unat wnd)"
    using itimediff_off [of nxt sn "nxt + wnd"] assms by simp
  with True show ?thesis by (simp add: itimediff_nonneg_iff)
next
  case False
  with assms itimediff_nonneg_iff [of sn nxt] show ?thesis by simp
qed

lemma ikcp_parse_data_eq:
  assumes "unat (k_rcv_wnd k) < 2 ^ 31"
  shows "ikcp_parse_data k s =
    (if seq_off (k_rcv_nxt k) (s_sn s) < unat (k_rcv_wnd k)
     then move_ready (case rcv_scan (s_sn s) s (rev (k_rcv_buf k)) of
            Some r \<Rightarrow> k\<lparr>k_rcv_buf := rev r, k_nrcv_buf := k_nrcv_buf k + 1\<rparr> | None \<Rightarrow> k)
     else k)"
  using in_window_iff [OF assms, of "s_sn s" "k_rcv_nxt k"]
  by (auto simp: ikcp_parse_data_def Let_def)

subsection \<open>Abstract reassembly window\<close>

text \<open>
  What the receive buffer promises: a finite map from sequence numbers to segments, from
  which the segment numbered \<open>nxt\<close> is released to the queue while there is room.
\<close>

record window =
  w_nxt :: u32
  w_room :: nat
  w_out :: "ikcpseg list"
  w_held :: "u32 \<rightharpoonup> ikcpseg"

fun win_release :: "nat \<Rightarrow> window \<Rightarrow> window" where
  "win_release 0 w = w"
| "win_release (Suc n) w =
     (case w_held w (w_nxt w) of
        None \<Rightarrow> w
      | Some s \<Rightarrow> win_release n (w\<lparr>w_nxt := w_nxt w + 1, w_room := w_room w - 1,
                                  w_out := w_out w @ [s], w_held := (w_held w)(w_nxt w := None)\<rparr>))"

definition win_accept :: "nat \<Rightarrow> ikcpseg \<Rightarrow> window \<Rightarrow> window" where
  "win_accept wnd s w =
     (if seq_off (w_nxt w) (s_sn s) < wnd then
        let w = (if w_held w (s_sn s) = None then w\<lparr>w_held := (w_held w)(s_sn s \<mapsto> s)\<rparr> else w)
        in win_release (w_room w) w
      else w)"

definition held_of :: "ikcpseg list \<Rightarrow> u32 \<rightharpoonup> ikcpseg" where
  "held_of buf = map_of (map (\<lambda>s. (s_sn s, s)) buf)"

definition window_of :: "ikcpcb \<Rightarrow> window" where
  "window_of k =
     \<lparr>w_nxt = k_rcv_nxt k, w_room = unat (k_rcv_wnd k) - length (k_rcv_queue k),
      w_out = k_rcv_queue k, w_held = held_of (k_rcv_buf k)\<rparr>"

lemma held_of_simps [simp]:
  "held_of [] = Map.empty"
  "held_of (s # buf) = (held_of buf)(s_sn s \<mapsto> s)"
  by (simp_all add: held_of_def)

lemma held_of_None_iff: "held_of buf n = None \<longleftrightarrow> n \<notin> s_sn ` set buf"
  by (auto simp: held_of_def map_of_eq_None_iff image_image)

lemma held_of_eq_iff:
  "distinct (map s_sn buf) \<Longrightarrow> held_of buf n = Some s \<longleftrightarrow> s \<in> set buf \<and> s_sn s = n"
  unfolding held_of_def by (subst map_of_eq_Some_iff) (auto simp: comp_def)

lemma rcv_ok_distinct: "rcv_ok nque que nbuf buf nxt wnd \<Longrightarrow> distinct (map s_sn buf)"
proof -
  assume "rcv_ok nque que nbuf buf nxt wnd"
  then have "distinct (map (seq_off nxt) (map s_sn buf))"
    by (simp add: rcv_ok_def comp_def strict_sorted_iff)
  then show ?thesis by (simp only: distinct_map)
qed

lemma held_of_set:
  assumes "distinct (map s_sn buf)" and "distinct (map s_sn buf')" and "set buf = set buf'"
  shows "held_of buf = held_of buf'"
proof
  show "held_of buf n = held_of buf' n" for n
    using held_of_eq_iff [OF assms(1), of n] held_of_eq_iff [OF assms(2), of n] assms(3)
    by (cases "held_of buf n"; cases "held_of buf' n") auto
qed

lemma win_release_run:
  assumes "rcv_ok nque que nbuf buf nxt wnd" and "w_held w = held_of buf" and "w_nxt w = nxt"
    and "w_room w = n" and "n \<le> unat wnd - length que"
  shows "win_release n w = (let j = min (length (run_from nxt buf)) n in
      w\<lparr>w_nxt := nxt + of_nat j, w_room := w_room w - j, w_out := w_out w @ take j buf,
         w_held := held_of (drop j buf)\<rparr>)"
  using assms
proof (induction n arbitrary: w nque que nbuf buf nxt)
  case 0
  then show ?case by simp
next
  case (Suc n)
  show ?case
  proof (cases "held_of buf nxt")
    case None
    then have "run_from nxt buf = []" by (cases buf) (auto split: if_splits)
    then show ?thesis using Suc.prems None by simp
  next
    case (Some s)
    have dist: "distinct (map s_sn buf)" using Suc.prems(1) by (rule rcv_ok_distinct)
    have s: "s \<in> set buf" "s_sn s = nxt" using Some held_of_eq_iff [OF dist] by auto
    obtain rest where buf: "buf = s # rest"
    proof (cases buf)
      case (Cons t rest)
      have "t = s"
        using Suc.prems(1) s by (auto simp: Cons rcv_ok_def)
      with Cons that show ?thesis by blast
    qed (use s in simp)
    let ?w = "w\<lparr>w_nxt := nxt + 1, w_room := n, w_out := w_out w @ [s], w_held := held_of rest\<rparr>"
    have "(held_of buf)(nxt := None) = held_of rest"
      using dist s(2) by (auto simp: buf fun_eq_iff held_of_None_iff eq_commute [of None])
    then have step: "win_release (Suc n) w = win_release n ?w"
      using Some Suc.prems(2-4) by simp
    have "rcv_ok (nque + 1) (que @ [s]) (nbuf - 1) rest (nxt + 1) wnd"
      using rcv_ok_move [OF Suc.prems(1), of 1] s(2) Suc.prems(5) by (simp add: buf)
    from Suc.IH [OF this, of ?w] Suc.prems(5) show ?thesis
      unfolding step using s(2) Suc.prems(4) by (simp add: buf Let_def algebra_simps)
  qed
qed

lemma window_of_move_ready:
  assumes "rcv_inv k"
  shows "window_of (move_ready k) = win_release (w_room (window_of k)) (window_of k)"
proof -
  have "k_nrcv_que k = of_nat (length (k_rcv_queue k))" "length (k_rcv_queue k) < 2 ^ 31"
    "unat (k_rcv_wnd k) < 2 ^ 31"
    using assms by (simp_all add: rcv_ok_def)
  from move_ready_eq [OF this] win_release_run [OF assms, of "window_of k" "w_room (window_of k)"]
  show ?thesis
    using run_from_length [of "k_rcv_nxt k" "k_rcv_buf k"]
    by (simp add: window_of_def Let_def min_absorb2 min.coboundedI1)
qed

subsection \<open>Properties of the receiving side\<close>

text \<open>
  C7. \<open>ikcp_parse_data\<close> implements the abstract reassembly window: on a well-formed
  control block, the backward scan of the sorted list, the duplicate check, the two signed window
  comparisons and the move loop do to the map from sequence numbers to segments exactly
  what accepting a segment and releasing the consecutive ones does, across the
  wrap-around of the sequence numbers.
\<close>

theorem ikcp_parse_data_refines_window:
  assumes "kcp_inv k"
  shows "window_of (ikcp_parse_data k s) = win_accept (unat (k_rcv_wnd k)) s (window_of k)"
proof -
  have rcv: "rcv_inv k" using assms by (simp add: kcp_inv_def)
  then have wnd: "unat (k_rcv_wnd k) < 2 ^ 31" by (simp add: rcv_ok_def)
  note eq = ikcp_parse_data_eq [OF wnd, of s]
  show ?thesis
  proof (cases "seq_off (k_rcv_nxt k) (s_sn s) < unat (k_rcv_wnd k)")
    case False
    then show ?thesis by (simp add: eq win_accept_def window_of_def)
  next
    case True
    let ?scan = "rcv_scan (s_sn s) s (rev (k_rcv_buf k))"
    have off: "seq_off (k_rcv_nxt k) (s_sn s) < 2 ^ 31" using True wnd by simp
    have scan: "case ?scan of None \<Rightarrow> s_sn s \<in> s_sn ` set (k_rcv_buf k)
        | Some r \<Rightarrow> s_sn s \<notin> s_sn ` set (k_rcv_buf k) \<and> set r = insert s (set (k_rcv_buf k))"
      using rcv_scan_spec [of "k_rcv_nxt k" "rev (k_rcv_buf k)" "s_sn s" s] rcv off
      by (auto simp: rcv_ok_def sorted_off_rev split: option.splits)
    show ?thesis
    proof (cases ?scan)
      case None
      then have "held_of (k_rcv_buf k) (s_sn s) \<noteq> None" using scan by (simp add: held_of_None_iff)
      then show ?thesis
        using None True window_of_move_ready [OF rcv]
        by (auto simp: eq win_accept_def window_of_def Let_def)
    next
      case (Some r)
      let ?k = "k\<lparr>k_rcv_buf := rev r, k_nrcv_buf := k_nrcv_buf k + 1\<rparr>"
      have rcv': "rcv_inv ?k" using rcv_ok_scan [OF rcv off Some] by simp
      have "distinct (map s_sn (s # k_rcv_buf k))" "set (rev r) = set (s # k_rcv_buf k)"
        using scan Some rcv_ok_distinct [OF rcv] by auto
      then have "held_of (rev r) = (held_of (k_rcv_buf k))(s_sn s \<mapsto> s)"
        using held_of_set [of "rev r" "s # k_rcv_buf k"] rcv_ok_distinct [OF rcv'] by simp
      moreover have "held_of (k_rcv_buf k) (s_sn s) = None"
        using scan Some by (simp add: held_of_None_iff)
      ultimately show ?thesis
        using Some True window_of_move_ready [OF rcv']
        by (simp add: eq win_accept_def window_of_def Let_def)
    qed
  qed
qed

theorem ikcp_parse_data_refines_window_witness:
  "window_of (ikcp_parse_data example_kcp (fst (the (example_alloc 0)))) =
     win_accept 128 (fst (the (example_alloc 0))) (window_of example_kcp)"
proof -
  have "unat (k_rcv_wnd example_kcp) = 128"
    by (simp add: example_kcp_def ikcp_create_def kcp_consts)
  with ikcp_parse_data_refines_window [OF example_kcp_inv, of "fst (the (example_alloc 0))"]
  show ?thesis by simp
qed

text \<open>
  C8. Reading a message. When the message at the head of the receive queue is complete and
  the caller's buffer holds it, \<open>ikcp_recv\<close> writes exactly the joined payloads of its
  fragments and returns their length; its assertion on the peeked size holds; no segment is lost, as the
  queue and the buffer together keep all that followed the message, in order; and
  the control block stays well-formed.
\<close>

theorem ikcp_recv_delivers:
  assumes "kcp_inv kcp" and "message_ready kcp" and "0 \<le> len" and "len \<le> int c" and "len < 2 ^ 31"
    and "int (length (stream_bytes (take_message (k_rcv_queue kcp)))) \<le> len"
  shows "\<exists>kcp'. ikcp_recv kcp (Some c) len =
           Inr (int (length (stream_bytes (take_message (k_rcv_queue kcp)))),
                stream_bytes (take_message (k_rcv_queue kcp)), kcp') \<and>
         k_rcv_queue kcp = take_message (k_rcv_queue kcp) @
           drop (length (take_message (k_rcv_queue kcp))) (k_rcv_queue kcp) \<and>
         k_rcv_queue kcp' @ k_rcv_buf kcp' =
           drop (length (take_message (k_rcv_queue kcp))) (k_rcv_queue kcp) @ k_rcv_buf kcp \<and>
         kcp_inv kcp'"
proof -
  have sized: "list_all seg_sized (k_rcv_queue kcp)" using assms(1) by (simp add: kcp_inv_def)
  have msg: "length (stream_bytes (take_message (k_rcv_queue kcp))) < 2 ^ 31" using assms(5,6) by simp
  have room: "\<forall>c'. Some c = Some c' \<longrightarrow> \<bar>len\<bar> \<le> int c'" using assms(3,4) by simp
  let ?k = "tell_window kcp (after_recv kcp False)"
  have "k_rcv_queue ?k @ k_rcv_buf ?k =
      drop (length (take_message (k_rcv_queue kcp))) (k_rcv_queue kcp) @ k_rcv_buf kcp"
    by (simp add: tell_window_def after_recv_def move_ready_conserves)
  moreover have "kcp_inv ?k" using assms(1) by (intro tell_window_inv after_recv_inv)
  moreover have "k_rcv_queue kcp = take_message (k_rcv_queue kcp) @
      drop (length (take_message (k_rcv_queue kcp))) (k_rcv_queue kcp)"
    using append_take_drop_id [of "length (take_message (k_rcv_queue kcp))" "k_rcv_queue kcp"]
    by (simp add: take_message_prefix)
  ultimately show ?thesis
    using ikcp_recv_eq [OF sized assms(2) msg room] assms(3,6) by (intro exI [of _ ?k]) simp
qed

definition example_message :: ikcpcb where
  "example_message = example_kcp\<lparr>
     k_rcv_queue := map (\<lambda>(f, d). (fst (the (example_alloc 0)))\<lparr>s_frg := f, s_len := of_nat (length d), s_data := d\<rparr>)
       [(1, [5, 6]), (0, [7]), (0, [8])],
     k_nrcv_que := 3\<rparr>"

lemma example_message_inv: "kcp_inv example_message"
  using example_kcp_inv
  by (simp add: example_message_def example_alloc_def kcp_inv_def rcv_ok_def seg_sized_def)

theorem ikcp_recv_delivers_witness:
  "\<exists>kcp'. ikcp_recv example_message (Some 10) 10 = Inr (3, [5, 6, 7], kcp') \<and> kcp_inv kcp'"
proof -
  have msg: "stream_bytes (take_message (k_rcv_queue example_message)) = [5, 6, 7]"
    and ready: "message_ready example_message"
    by (simp_all add: example_message_def example_alloc_def message_ready_def)
  from ikcp_recv_delivers [OF example_message_inv ready, of 10 10] show ?thesis
    unfolding msg by auto
qed

text \<open>
  C35. A read that cannot be served changes nothing: \<open>ikcp_recv\<close> returns -1 on an empty
  queue, -2 when the message at the head is not complete, and -3 when it does not fit the
  caller's buffer, writes no byte and leaves the control block as it was.
\<close>

theorem ikcp_recv_refuses:
  assumes "kcp_inv kcp" and "length (stream_bytes (take_message (k_rcv_queue kcp))) < 2 ^ 31"
    and "\<forall>c. buffer = Some c \<longrightarrow> \<bar>len\<bar> \<le> int c"
    and "\<not> message_ready kcp \<or> \<bar>len\<bar> < int (length (stream_bytes (take_message (k_rcv_queue kcp))))"
  shows "ikcp_recv kcp buffer len =
    Inr (if k_rcv_queue kcp = [] then -1 else if \<not> message_ready kcp then -2 else -3, [], kcp)"
proof -
  have "list_all seg_sized (k_rcv_queue kcp)" using assms(1) by (simp add: kcp_inv_def)
  then show ?thesis
    using assms(2-4) ikcp_recv_eq [of kcp buffer len] ikcp_recv_not_ready [of kcp buffer len]
    by (cases "message_ready kcp") (auto simp: message_ready_def)
qed

theorem ikcp_recv_refuses_witness:
  "ikcp_recv example_message (Some 2) 2 = Inr (-3, [], example_message)"
proof -
  have msg: "stream_bytes (take_message (k_rcv_queue example_message)) = [5, 6, 7]"
    and ready: "message_ready example_message" and ne: "k_rcv_queue example_message \<noteq> []"
    by (simp_all add: example_message_def example_alloc_def message_ready_def)
  from ikcp_recv_refuses [OF example_message_inv, of "Some 2" 2] show ?thesis
    unfolding msg using ready ne by simp
qed

end
