(* ===== verification/KcpAck.thy ===== *)
theory KcpAck
  imports KcpState
begin

text \<open>
  Acknowledgements in \<open>src/kcp_learn/ikcp.c\<close>: the estimate of the round-trip time
  (\<open>ikcp_update_ack\<close>), the removal of acknowledged segments from the send buffer
  (\<open>ikcp_parse_ack\<close>, \<open>ikcp_parse_una\<close>, \<open>ikcp_shrink_buf\<close>), the counting of skipped
  segments (\<open>ikcp_parse_fastack\<close>, in the default build, where \<open>IKCP_FASTACK_CONSERVE\<close>
  is not defined), and the growing array of acknowledgements to be sent
  (\<open>ikcp_ack_push\<close>, \<open>ikcp_ack_get\<close>).
\<close>

subsection \<open>Round-trip time\<close>

text \<open>
  The arithmetic is that of the C types: \<open>delta\<close> is a \<open>long\<close>, the rest 32-bit
  integers, and the sum with \<open>_imax_\<close> is unsigned. Where the signed arithmetic overflows, which C leaves
  undefined and a peer can bring about with the time it sends, the model has the two's complement value that a compiler gives with
  \<open>-fwrapv\<close>; the statements on the estimates are for values at which nothing overflows.
\<close>

definition ikcp_update_ack :: "ikcpcb \<Rightarrow> int \<Rightarrow> ikcpcb" where
  "ikcp_update_ack kcp rtt =
     (let kcp =
        (if k_rx_srtt kcp = 0 then kcp\<lparr>k_rx_srtt := rtt, k_rx_rttval := c_div rtt 2\<rparr>
         else
           let delta = wrap_i32 (rtt - k_rx_srtt kcp);
               delta = (if delta < 0 then - delta else delta);
               rttval = wrap_i32 (c_div (wrap_i32 (3 * k_rx_rttval kcp) + delta) 4);
               srtt = c_div (wrap_i32 (wrap_i32 (7 * k_rx_srtt kcp) + rtt)) 8;
               srtt = (if srtt < 1 then 1 else srtt)
           in kcp\<lparr>k_rx_rttval := rttval, k_rx_srtt := srtt\<rparr>);
        rto = sint (word_of_int (k_rx_srtt kcp) +
                    imax (k_interval kcp) (word_of_int (wrap_i32 (4 * k_rx_rttval kcp))))
      in kcp\<lparr>k_rx_rto := sint (ibound (word_of_int (k_rx_minrto kcp)) (word_of_int rto) IKCP_RTO_MAX)\<rparr>)"

subsection \<open>The send buffer\<close>

definition ikcp_shrink_buf :: "ikcpcb \<Rightarrow> ikcpcb" where
  "ikcp_shrink_buf kcp =
     (case k_snd_buf kcp of
        seg # _ \<Rightarrow> kcp\<lparr>k_snd_una := s_sn seg\<rparr>
      | [] \<Rightarrow> kcp\<lparr>k_snd_una := k_snd_nxt kcp\<rparr>)"

text \<open>The loop of \<open>ikcp_parse_ack\<close>: the buffer without the segment, \<open>None\<close> if there is none.\<close>

fun ack_loop :: "u32 \<Rightarrow> ikcpseg list \<Rightarrow> ikcpseg list option" where
  "ack_loop sn [] = None"
| "ack_loop sn (seg # p) =
     (if sn = s_sn seg then Some p
      else if itimediff sn (s_sn seg) < 0 then None
      else map_option ((#) seg) (ack_loop sn p))"

definition ikcp_parse_ack :: "ikcpcb \<Rightarrow> u32 \<Rightarrow> ikcpcb" where
  "ikcp_parse_ack kcp sn =
     (if itimediff sn (k_snd_una kcp) < 0 \<or> itimediff sn (k_snd_nxt kcp) \<ge> 0 then kcp
      else case ack_loop sn (k_snd_buf kcp) of
             Some buf \<Rightarrow> kcp\<lparr>k_snd_buf := buf, k_nsnd_buf := k_nsnd_buf kcp - 1\<rparr>
           | None \<Rightarrow> kcp)"

fun una_loop :: "u32 \<Rightarrow> ikcpseg list \<Rightarrow> u32 \<Rightarrow> ikcpseg list \<times> u32" where
  "una_loop una [] nsnd_buf = ([], nsnd_buf)"
| "una_loop una (seg # p) nsnd_buf =
     (if itimediff una (s_sn seg) > 0 then una_loop una p (nsnd_buf - 1) else (seg # p, nsnd_buf))"

definition ikcp_parse_una :: "ikcpcb \<Rightarrow> u32 \<Rightarrow> ikcpcb" where
  "ikcp_parse_una kcp una =
     (let (buf, n) = una_loop una (k_snd_buf kcp) (k_nsnd_buf kcp)
      in kcp\<lparr>k_snd_buf := buf, k_nsnd_buf := n\<rparr>)"

fun fastack_loop :: "u32 \<Rightarrow> ikcpseg list \<Rightarrow> ikcpseg list" where
  "fastack_loop sn [] = []"
| "fastack_loop sn (seg # p) =
     (if itimediff sn (s_sn seg) < 0 then seg # p
      else if sn \<noteq> s_sn seg then seg\<lparr>s_fastack := s_fastack seg + 1\<rparr> # fastack_loop sn p
      else seg # fastack_loop sn p)"

definition ikcp_parse_fastack :: "ikcpcb \<Rightarrow> u32 \<Rightarrow> u32 \<Rightarrow> ikcpcb" where
  "ikcp_parse_fastack kcp sn ts =
     (if itimediff sn (k_snd_una kcp) < 0 \<or> itimediff sn (k_snd_nxt kcp) \<ge> 0 then kcp
      else kcp\<lparr>k_snd_buf := fastack_loop sn (k_snd_buf kcp)\<rparr>)"

subsection \<open>The list of acknowledgements\<close>

text \<open>The loop that doubles the capacity; beyond \<open>2 ^ 31\<close> entries it would never end.\<close>

partial_function (option) grow_block :: "u32 \<Rightarrow> u32 \<Rightarrow> u32 option" where
  "grow_block newblock newsize =
     (if newblock < newsize then grow_block (push_bit 1 newblock) newsize else Some newblock)"

declare grow_block.simps [code]

fun ack_copy :: "u32 list \<Rightarrow> nat \<Rightarrow> u32 \<Rightarrow> u32 list \<Rightarrow> u32 list cresult" where
  "ack_copy old 0 x new = Inr new"
| "ack_copy old (Suc n) x new =
     rbind (load old (unat (x * 2 + 0))) (\<lambda>a.
     rbind (store new (unat (x * 2 + 0)) a) (\<lambda>new.
     rbind (load old (unat (x * 2 + 1))) (\<lambda>b.
     rbind (store new (unat (x * 2 + 1)) b) (\<lambda>new.
     ack_copy old n (x + 1) new))))"

definition ack_grow :: "u32 allocator \<Rightarrow> nat \<Rightarrow> ikcpcb \<Rightarrow> ikcpcb cresult" where
  "ack_grow alloc i kcp =
     (case grow_block 8 (k_ackcount kcp + 1) of
        None \<Rightarrow> Inl No_Return
      | Some newblock \<Rightarrow>
          (case alloc i of
             None \<Rightarrow> Inl Assert_Failed
           | Some junk \<Rightarrow>
               rbind (case k_acklist kcp of
                        None \<Rightarrow> Inr (block junk (2 * unat newblock))
                      | Some old \<Rightarrow>
                          ack_copy old (unat (k_ackcount kcp)) 0 (block junk (2 * unat newblock)))
                 (\<lambda>acklist. Inr (kcp\<lparr>k_acklist := Some acklist, k_ackblock := newblock\<rparr>))))"

definition ikcp_ack_push :: "u32 allocator \<Rightarrow> nat \<Rightarrow> ikcpcb \<Rightarrow> u32 \<Rightarrow> u32 \<Rightarrow> ikcpcb cresult" where
  "ikcp_ack_push alloc i kcp sn ts =
     rbind (if k_ackcount kcp + 1 > k_ackblock kcp then ack_grow alloc i kcp else Inr kcp) (\<lambda>kcp.
       case k_acklist kcp of
         None \<Rightarrow> Inl Null_Deref
       | Some cells \<Rightarrow>
           rbind (store cells (unat (k_ackcount kcp * 2)) sn) (\<lambda>cells.
           rbind (store cells (unat (k_ackcount kcp * 2) + 1) ts) (\<lambda>cells.
           Inr (kcp\<lparr>k_acklist := Some cells, k_ackcount := k_ackcount kcp + 1\<rparr>))))"

definition ikcp_ack_get :: "ikcpcb \<Rightarrow> int \<Rightarrow> (u32 \<times> u32) cresult" where
  "ikcp_ack_get kcp p =
     (case k_acklist kcp of
        None \<Rightarrow> Inl Null_Deref
      | Some cells \<Rightarrow>
          rbind (rguard (0 \<le> p) Out_Of_Bounds) (\<lambda>_.
          rbind (load cells (nat (p * 2 + 0))) (\<lambda>sn.
          rbind (load cells (nat (p * 2 + 1))) (\<lambda>ts. Inr (sn, ts)))))"

subsection \<open>The timeout stays within its bounds\<close>

lemma ikcp_update_ack_range:
  assumes t: "timer_inv kcp"
  shows "k_rx_minrto kcp \<le> k_rx_rto (ikcp_update_ack kcp rtt) \<and> k_rx_rto (ikcp_update_ack kcp rtt) \<le> 60000"
proof -
  have clamp: "m \<le> sint (ibound (word_of_int m) w IKCP_RTO_MAX) \<and>
      sint (ibound (word_of_int m) w IKCP_RTO_MAX) \<le> 60000" if "10 \<le> m" "m \<le> 100" for m w
  proof -
    have m: "unat (word_of_int m :: u32) = nat m" using that by (simp add: unat_word_of_int_u32)
    then have "(word_of_int m :: u32) \<le> IKCP_RTO_MAX"
      using that by (simp add: kcp_consts word_le_nat_alt)
    from ibound_range [OF this, of w] m that
    have "nat m \<le> unat (ibound (word_of_int m) w IKCP_RTO_MAX)"
      "unat (ibound (word_of_int m) w IKCP_RTO_MAX) \<le> 60000"
      by (auto simp: kcp_consts word_le_nat_alt)
    then show ?thesis by (simp add: sint_small)
  qed
  show ?thesis
    using t clamp [of "k_rx_minrto kcp"] by (simp add: ikcp_update_ack_def Let_def timer_ok_def)
qed

lemma ikcp_update_ack_timer: "timer_inv kcp \<Longrightarrow> timer_inv (ikcp_update_ack kcp rtt)"
  using ikcp_update_ack_range [of kcp rtt] by (simp add: ikcp_update_ack_def Let_def timer_ok_def)

lemma ikcp_update_ack_frame:
  obtains srtt rttval rto where
    "ikcp_update_ack kcp rtt = kcp\<lparr>k_rx_srtt := srtt, k_rx_rttval := rttval, k_rx_rto := rto\<rparr>"
proof (rule that)
  show "ikcp_update_ack kcp rtt =
     kcp\<lparr>k_rx_srtt := k_rx_srtt (ikcp_update_ack kcp rtt),
         k_rx_rttval := k_rx_rttval (ikcp_update_ack kcp rtt),
         k_rx_rto := k_rx_rto (ikcp_update_ack kcp rtt)\<rparr>"
    by (simp add: ikcp_update_ack_def Let_def)
qed

lemma ikcp_update_ack_inv: "kcp_inv kcp \<Longrightarrow> kcp_inv (ikcp_update_ack kcp rtt)"
proof -
  assume inv: "kcp_inv kcp"
  obtain a b c where eq:
    "ikcp_update_ack kcp rtt = kcp\<lparr>k_rx_srtt := a, k_rx_rttval := b, k_rx_rto := c\<rparr>"
    by (rule ikcp_update_ack_frame)
  have "timer_inv (ikcp_update_ack kcp rtt)"
    using inv by (intro ikcp_update_ack_timer) (simp add: kcp_inv_def)
  with inv show ?thesis unfolding eq by (simp add: kcp_inv_def)
qed

subsection \<open>Removal of acknowledged segments\<close>

text \<open>The sending invariant between the removal of segments and \<open>ikcp_shrink_buf\<close>.\<close>

definition snd_mid ::
  "u32 \<Rightarrow> ikcpseg list \<Rightarrow> u32 \<Rightarrow> ikcpseg list \<Rightarrow> u32 \<Rightarrow> u32 \<Rightarrow> u32 \<Rightarrow> bool" where
  "snd_mid nque que nbuf buf una nxt rmt \<longleftrightarrow>
     nque = of_nat (length que) \<and> nbuf = of_nat (length buf) \<and>
     sorted_wrt (<) (map (\<lambda>s. seq_off una (s_sn s)) buf) \<and>
     (\<forall>s \<in> set buf. seq_off una (s_sn s) < seq_off una nxt) \<and>
     seq_off una nxt \<le> 65535 \<and> unat rmt \<le> 65535"

lemma snd_ok_mid: "snd_ok nque que nbuf buf una nxt rmt \<Longrightarrow> snd_mid nque que nbuf buf una nxt rmt"
  by (simp add: snd_ok_def snd_mid_def)

lemma snd_ok_shrink:
  assumes "snd_mid nque que nbuf buf una nxt rmt"
  shows "snd_ok nque que nbuf buf (case buf of s # _ \<Rightarrow> s_sn s | [] \<Rightarrow> nxt) nxt rmt"
proof (cases buf)
  case (Cons s rest)
  have le: "seq_off una (s_sn s) \<le> seq_off una (s_sn t)" if "t \<in> set buf" for t
    using assms that by (auto simp: snd_mid_def Cons)
  have lt: "seq_off una (s_sn t) < seq_off una nxt" if "t \<in> set buf" for t
    using assms that by (simp add: snd_mid_def)
  have nxt: "seq_off (s_sn s) nxt = seq_off una nxt - seq_off una (s_sn s)"
    using lt [of s] by (intro seq_off_rebase) (simp add: Cons)
  have off: "seq_off (s_sn s) (s_sn t) = seq_off una (s_sn t) - seq_off una (s_sn s)" if "t \<in> set buf" for t
    using le [OF that] by (rule seq_off_rebase)
  have "sorted_wrt (\<lambda>t u. seq_off una (s_sn t) < seq_off una (s_sn u)) buf"
    using assms by (simp add: snd_mid_def sorted_wrt_map)
  then have "sorted_wrt (\<lambda>t u. seq_off (s_sn s) (s_sn t) < seq_off (s_sn s) (s_sn u)) buf"
    by (rule sorted_wrt_mono_rel [rotated]) (use le off in \<open>auto intro: diff_less_mono\<close>)
  moreover have "seq_off (s_sn s) (s_sn t) < seq_off (s_sn s) nxt" if "t \<in> set buf" for t
    using le [OF that] lt [OF that] by (simp add: off [OF that] nxt)
  ultimately show ?thesis
    using assms nxt by (auto simp: snd_mid_def snd_ok_def sorted_wrt_map Cons)
qed (use assms in \<open>simp add: snd_mid_def snd_ok_def\<close>)

lemma ikcp_shrink_buf_inv:
  assumes "snd_mid (k_nsnd_que k) (k_snd_queue k) (k_nsnd_buf k) (k_snd_buf k)
             (k_snd_una k) (k_snd_nxt k) (k_rmt_wnd k)"
    and "rcv_inv k" "ack_inv k" "mtu_inv k" "payload_inv k" "recv_payload_inv k" "timer_inv k"
  shows "kcp_inv (ikcp_shrink_buf k)"
  using snd_ok_shrink [OF assms(1)] assms(2-)
  by (cases "k_snd_buf k") (simp_all add: ikcp_shrink_buf_def kcp_inv_def)

lemma una_loop_eq:
  "una_loop una buf n =
     (dropWhile (\<lambda>s. itimediff una (s_sn s) > 0) buf,
      n - of_nat (length (takeWhile (\<lambda>s. itimediff una (s_sn s) > 0) buf)))"
  by (induction buf arbitrary: n) (auto simp: algebra_simps)

lemma snd_mid_suffix:
  "snd_mid nque que nbuf (xs @ ys) una nxt rmt \<Longrightarrow>
   snd_mid nque que (nbuf - of_nat (length xs)) ys una nxt rmt"
  by (auto simp: snd_mid_def sorted_wrt_append)

lemma parse_una_shrink_inv:
  assumes "kcp_inv k" shows "kcp_inv (ikcp_shrink_buf (ikcp_parse_una k una))"
proof (rule ikcp_shrink_buf_inv)
  let ?P = "\<lambda>s. itimediff una (s_sn s) > 0"
  have mid: "snd_mid (k_nsnd_que k) (k_snd_queue k) (k_nsnd_buf k)
      (takeWhile ?P (k_snd_buf k) @ dropWhile ?P (k_snd_buf k)) (k_snd_una k) (k_snd_nxt k) (k_rmt_wnd k)"
    using assms by (simp add: kcp_inv_def snd_ok_mid)
  let ?k = "ikcp_parse_una k una"
  show "snd_mid (k_nsnd_que ?k) (k_snd_queue ?k) (k_nsnd_buf ?k) (k_snd_buf ?k)
             (k_snd_una ?k) (k_snd_nxt ?k) (k_rmt_wnd ?k)"
    using snd_mid_suffix [OF mid] by (simp add: ikcp_parse_una_def una_loop_eq)
  show "payload_inv (ikcp_parse_una k una)"
    using assms by (auto simp: ikcp_parse_una_def una_loop_eq kcp_inv_def list_all_iff dest: set_dropWhileD)
qed (use assms in \<open>simp_all add: ikcp_parse_una_def una_loop_eq kcp_inv_def\<close>)

lemma dropWhile_sorted:
  "sorted_wrt (\<lambda>x y. (f x :: nat) < f y) xs \<Longrightarrow> dropWhile (\<lambda>x. \<not> n \<le> f x) xs = filter (\<lambda>x. n \<le> f x) xs"
proof (induction xs)
  case (Cons x xs)
  show ?case
  proof (cases "n \<le> f x")
    case True
    then have "filter (\<lambda>x. n \<le> f x) xs = xs" using Cons.prems by (intro filter_True) auto
    with True show ?thesis by simp
  qed (use Cons in simp)
qed simp

lemma ack_loop_eq:
  assumes "sorted_wrt (<) (map (\<lambda>s. seq_off una (s_sn s)) buf)"
    and "\<forall>s \<in> set buf. seq_off una (s_sn s) < 2 ^ 31" and "seq_off una sn < 2 ^ 31"
  shows "ack_loop sn buf =
    (if sn \<in> s_sn ` set buf then Some (filter (\<lambda>s. s_sn s \<noteq> sn) buf) else None)"
  using assms
proof (induction buf)
  case (Cons s p)
  have diff: "itimediff sn (s_sn s) = int (seq_off una sn) - int (seq_off una (s_sn s))"
    using Cons.prems by (intro itimediff_off) simp_all
  consider "s_sn s = sn" | "s_sn s \<noteq> sn" "seq_off una sn < seq_off una (s_sn s)"
    | "s_sn s \<noteq> sn" "seq_off una (s_sn s) < seq_off una sn"
    using seq_off_inj [of una sn "s_sn s"] by fastforce
  then show ?case
  proof cases
    case 1
    then have "filter (\<lambda>s. s_sn s \<noteq> sn) p = p"
      using Cons.prems(1) by (intro filter_True) fastforce
    with 1 show ?thesis by simp
  next
    case 2
    then have "sn \<notin> s_sn ` set p" using Cons.prems(1) by fastforce
    with 2 diff show ?thesis by simp
  next
    case 3
    then have "\<not> itimediff sn (s_sn s) < 0" using diff by simp
    with 3 Cons show ?thesis by simp
  qed
qed simp

lemma snd_mid_bounds:
  assumes "snd_mid nque que nbuf buf una nxt rmt"
  shows "\<forall>s \<in> set buf. seq_off una (s_sn s) < 2 ^ 31" and "seq_off una nxt < 2 ^ 31"
  using assms by (auto simp: snd_mid_def)

text \<open>The guard of \<open>ikcp_parse_ack\<close> and \<open>ikcp_parse_fastack\<close>: the number is in flight.\<close>

lemma in_flight_iff:
  assumes "seq_off una nxt \<le> 65535"
  shows "(itimediff sn una < 0 \<or> itimediff sn nxt \<ge> 0) \<longleftrightarrow> \<not> seq_off una sn < seq_off una nxt"
proof (cases "seq_off una sn < 2 ^ 31")
  case True
  then show ?thesis
    using assms itimediff_off [of una sn nxt] itimediff_nonneg_iff [of sn una] by auto
next
  case False
  then show ?thesis using assms itimediff_nonneg_iff [of sn una] by auto
qed

lemma ikcp_parse_ack_eq:
  assumes "snd_mid (k_nsnd_que k) (k_snd_queue k) (k_nsnd_buf k) (k_snd_buf k)
             (k_snd_una k) (k_snd_nxt k) (k_rmt_wnd k)"
  shows "ikcp_parse_ack k sn =
    (if sn \<in> s_sn ` set (k_snd_buf k)
     then k\<lparr>k_snd_buf := filter (\<lambda>s. s_sn s \<noteq> sn) (k_snd_buf k), k_nsnd_buf := k_nsnd_buf k - 1\<rparr>
     else k)"
proof (cases "seq_off (k_snd_una k) sn < seq_off (k_snd_una k) (k_snd_nxt k)")
  case True
  have "ack_loop sn (k_snd_buf k) =
    (if sn \<in> s_sn ` set (k_snd_buf k) then Some (filter (\<lambda>s. s_sn s \<noteq> sn) (k_snd_buf k)) else None)"
    using assms snd_mid_bounds [OF assms] True by (intro ack_loop_eq) (auto simp: snd_mid_def)
  then show ?thesis
    using True in_flight_iff [of "k_snd_una k" "k_snd_nxt k" sn] assms
    by (simp add: ikcp_parse_ack_def snd_mid_def)
next
  case False
  then have "sn \<notin> s_sn ` set (k_snd_buf k)" using assms by (auto simp: snd_mid_def)
  with False show ?thesis
    using in_flight_iff [of "k_snd_una k" "k_snd_nxt k" sn] assms
    by (simp add: ikcp_parse_ack_def snd_mid_def)
qed

lemma length_filter_sn:
  "distinct (map f xs) \<Longrightarrow> n \<in> f ` set xs \<Longrightarrow> Suc (length (filter (\<lambda>x. f x \<noteq> n) xs)) = length xs"
proof (induction xs)
  case (Cons x xs)
  show ?case
  proof (cases "f x = n")
    case True
    then have "filter (\<lambda>x. f x \<noteq> n) xs = xs"
      using Cons.prems(1) by (intro filter_True) (metis distinct.simps(2) image_eqI list.simps(9) set_map)
    with True show ?thesis by simp
  qed (use Cons in auto)
qed simp

lemma snd_mid_distinct: "snd_mid nque que nbuf buf una nxt rmt \<Longrightarrow> distinct (map s_sn buf)"
proof -
  assume "snd_mid nque que nbuf buf una nxt rmt"
  then have "distinct (map (seq_off una) (map s_sn buf))"
    by (simp add: snd_mid_def comp_def strict_sorted_iff)
  then show ?thesis by (simp only: distinct_map)
qed

lemma snd_mid_remove:
  assumes mid: "snd_mid nque que nbuf buf una nxt rmt" and sn: "sn \<in> s_sn ` set buf"
  shows "snd_mid nque que (nbuf - 1) (filter (\<lambda>s. s_sn s \<noteq> sn) buf) una nxt rmt"
proof -
  have "length buf = Suc (length (filter (\<lambda>s. s_sn s \<noteq> sn) buf))"
    using length_filter_sn [OF snd_mid_distinct [OF mid] sn] by simp
  then have "nbuf - 1 = of_nat (length (filter (\<lambda>s. s_sn s \<noteq> sn) buf))"
    using mid by (simp add: snd_mid_def)
  then show ?thesis
    using mid by (auto simp: snd_mid_def sorted_wrt_map sorted_wrt_filter)
qed

lemma parse_ack_shrink_inv:
  assumes "kcp_inv k" shows "kcp_inv (ikcp_shrink_buf (ikcp_parse_ack k sn))"
proof -
  have mid: "snd_mid (k_nsnd_que k) (k_snd_queue k) (k_nsnd_buf k) (k_snd_buf k)
      (k_snd_una k) (k_snd_nxt k) (k_rmt_wnd k)"
    using assms by (simp add: kcp_inv_def snd_ok_mid)
  show ?thesis
  proof (cases "sn \<in> s_sn ` set (k_snd_buf k)")
    case True
    then show ?thesis
      unfolding ikcp_parse_ack_eq [OF mid] using assms snd_mid_remove [OF mid True]
      by (simp, intro ikcp_shrink_buf_inv) (auto simp: kcp_inv_def list_all_iff)
  next
    case False
    then show ?thesis
      unfolding ikcp_parse_ack_eq [OF mid] using assms mid
      by (simp, intro ikcp_shrink_buf_inv) (simp_all add: kcp_inv_def)
  qed
qed

lemma fastack_loop_eq:
  assumes "sorted_wrt (<) (map (\<lambda>s. seq_off una (s_sn s)) buf)"
    and "\<forall>s \<in> set buf. seq_off una (s_sn s) < 2 ^ 31" and "seq_off una sn < 2 ^ 31"
  shows "fastack_loop sn buf =
    map (\<lambda>s. if seq_off una (s_sn s) < seq_off una sn then s\<lparr>s_fastack := s_fastack s + 1\<rparr> else s) buf"
  using assms
proof (induction buf)
  case (Cons s p)
  have diff: "itimediff sn (s_sn s) = int (seq_off una sn) - int (seq_off una (s_sn s))"
    using Cons.prems by (intro itimediff_off) simp_all
  consider "s_sn s = sn" | "s_sn s \<noteq> sn" "seq_off una sn < seq_off una (s_sn s)"
    | "s_sn s \<noteq> sn" "seq_off una (s_sn s) < seq_off una sn"
    using seq_off_inj [of una sn "s_sn s"] by fastforce
  then show ?case
  proof cases
    case 2
    then have "map (\<lambda>s. if seq_off una (s_sn s) < seq_off una sn
        then s\<lparr>s_fastack := s_fastack s + 1\<rparr> else s) p = p"
      using Cons.prems(1) by (intro map_idI) fastforce
    with 2 diff show ?thesis by simp
  qed (use diff Cons in simp_all)
qed simp

lemma fastack_loop_same:
  "map s_sn (fastack_loop sn buf) = map s_sn buf"
  "list_all (seg_fits mss) (fastack_loop sn buf) = list_all (seg_fits mss) buf"
  by (induction buf) (auto simp: seg_fits_def)

lemma snd_ok_same_sn:
  assumes "map s_sn buf' = map s_sn buf"
  shows "snd_ok nque que nbuf buf' una nxt rmt = snd_ok nque que nbuf buf una nxt rmt"
proof -
  have "length buf' = length buf" using assms by (metis length_map)
  moreover have "map (\<lambda>s. seq_off una (s_sn s)) buf' = map (\<lambda>s. seq_off una (s_sn s)) buf"
    using arg_cong [OF assms, of "map (seq_off una)"] by (simp add: comp_def)
  moreover have "(\<forall>s \<in> set buf'. seq_off una (s_sn s) < seq_off una nxt) \<longleftrightarrow>
      (\<forall>s \<in> set buf. seq_off una (s_sn s) < seq_off una nxt)"
    using arg_cong [OF assms, of "list_all (\<lambda>n. seq_off una n < seq_off una nxt)"]
    by (simp add: list_all_iff)
  moreover have "(case buf' of [] \<Rightarrow> una = nxt | s # _ \<Rightarrow> s_sn s = una) \<longleftrightarrow>
      (case buf of [] \<Rightarrow> una = nxt | s # _ \<Rightarrow> s_sn s = una)"
    using assms by (cases buf; cases buf') auto
  ultimately show ?thesis unfolding snd_ok_def by simp
qed

lemma ikcp_parse_fastack_inv: "kcp_inv k \<Longrightarrow> kcp_inv (ikcp_parse_fastack k sn ts)"
  by (simp add: ikcp_parse_fastack_def kcp_inv_def fastack_loop_same
        snd_ok_same_sn [OF fastack_loop_same(1)])

subsection \<open>The array of acknowledgements is a list\<close>

definition acks_of :: "u32 list option \<Rightarrow> u32 \<Rightarrow> (u32 \<times> u32) list" where
  "acks_of acklist ackcount =
     (case acklist of
        None \<Rightarrow> []
      | Some cells \<Rightarrow> map (\<lambda>i. (cells ! (2 * i), cells ! (2 * i + 1))) [0..<unat ackcount])"

abbreviation acks :: "ikcpcb \<Rightarrow> (u32 \<times> u32) list" where
  "acks k \<equiv> acks_of (k_acklist k) (k_ackcount k)"

lemma unat_power_u32: "k < 32 \<Longrightarrow> unat ((2 :: u32) ^ k) = 2 ^ k"
  using unat_of_nat_u32 [of "2 ^ k"] power_strict_increasing [of k 32 "2 :: nat"] by simp

lemma grow_block_ok:
  assumes "k \<le> 31" and "unat n \<le> 2 ^ 31"
  shows "\<exists>b. grow_block (2 ^ k) n = Some b \<and> n \<le> b \<and> unat b \<le> 2 ^ 31"
  using assms(1)
proof (induction "31 - k" arbitrary: k)
  case 0
  then have "k = 31" by simp
  then have "\<not> (2 ^ k :: u32) < n" using assms(2) by (simp add: word_less_nat_alt)
  then show ?case using \<open>k = 31\<close> by (subst grow_block.simps) simp
next
  case (Suc d)
  show ?case
  proof (cases "(2 ^ k :: u32) < n")
    case True
    have "push_bit 1 (2 ^ k :: u32) = 2 ^ Suc k" by (simp add: push_bit_eq_mult)
    with True Suc.hyps(1) [of "Suc k"] Suc.hyps(2) show ?thesis
      by (subst grow_block.simps) (simp del: power_Suc)
  next
    case False
    moreover have "unat ((2 :: u32) ^ k) \<le> 2 ^ 31"
      using Suc.prems power_increasing [of k 31 "2 :: nat"] by (simp add: unat_power_u32)
    ultimately show ?thesis by (subst grow_block.simps) simp
  qed
qed

lemma unat_twice: "m < 2 ^ 31 \<Longrightarrow> unat (of_nat m * 2 + 0 :: u32) = 2 * m"
  "m < 2 ^ 31 \<Longrightarrow> unat (of_nat m * 2 + 1 :: u32) = 2 * m + 1"
  using unat_of_nat_u32 [of "2 * m"] unat_of_nat_u32 [of "2 * m + 1"] by (simp_all add: ac_simps)

lemma ack_copy_eq:
  assumes "2 * (m + n) \<le> length old" and "2 * (m + n) \<le> length new" and "m + n \<le> 2 ^ 31"
  shows "\<exists>r. ack_copy old n (of_nat m) new = Inr r \<and> length r = length new \<and>
           (\<forall>i < length new. r ! i = (if 2 * m \<le> i \<and> i < 2 * (m + n) then old ! i else new ! i))"
  using assms
proof (induction n arbitrary: m new)
  case (Suc n)
  let ?new = "new[2 * m := old ! (2 * m), 2 * m + 1 := old ! (2 * m + 1)]"
  have step: "ack_copy old (Suc n) (of_nat m) new = ack_copy old n (of_nat (Suc m)) ?new"
    using Suc.prems unat_twice [of m] by (simp add: add.commute del: add_0_right)
  obtain r where r: "ack_copy old n (of_nat (Suc m)) ?new = Inr r" "length r = length ?new"
    "\<forall>i < length ?new. r ! i = (if 2 * Suc m \<le> i \<and> i < 2 * (Suc m + n) then old ! i else ?new ! i)"
    using Suc.IH [of "Suc m" ?new] Suc.prems by auto
  have "r ! i = (if 2 * m \<le> i \<and> i < 2 * (m + Suc n) then old ! i else new ! i)" if "i < length new" for i
    using r(3) that by (auto simp: nth_list_update not_le less_Suc_eq)
  then show ?case using step r(1,2) by auto
qed auto

lemma acks_of_cong:
  assumes "\<forall>i < 2 * unat n. cells' ! i = cells ! i"
  shows "acks_of (Some cells') n = acks_of (Some cells) n"
  using assms by (auto simp: acks_of_def)

lemma ack_grow_ok:
  assumes inv: "ack_inv k" and room: "unat (k_ackcount k) < 2 ^ 31" and alloc: "alloc i \<noteq> None"
  shows "\<exists>cells b. ack_grow alloc i k = Inr (k\<lparr>k_acklist := Some cells, k_ackblock := b\<rparr>) \<and>
           length cells = 2 * unat b \<and> k_ackcount k < b \<and>
           acks_of (Some cells) (k_ackcount k) = acks k"
proof -
  have suc: "unat (k_ackcount k + 1) = Suc (unat (k_ackcount k))"
    using room by (simp add: unat_Suc_u32)
  obtain b where b: "grow_block 8 (k_ackcount k + 1) = Some b" "k_ackcount k + 1 \<le> b" "unat b \<le> 2 ^ 31"
    using grow_block_ok [of 3 "k_ackcount k + 1"] suc room by auto
  have lt: "unat (k_ackcount k) < unat b" using b(2) suc by (simp add: word_le_nat_alt)
  obtain junk where junk: "alloc i = Some junk" using alloc by auto
  let ?new = "block junk (2 * unat b)"
  show ?thesis
  proof (cases "k_acklist k")
    case None
    then have "unat (k_ackcount k) = 0" using inv by (auto simp: ack_ok_def word_le_nat_alt)
    then show ?thesis
      using None b(1) junk lt
      by (intro exI [of _ ?new] exI [of _ b]) (simp add: ack_grow_def acks_of_def word_less_nat_alt)
  next
    case (Some old)
    have "2 * unat (k_ackcount k) \<le> length old"
      using inv Some by (simp add: ack_ok_def word_le_nat_alt)
    then obtain r where r: "ack_copy old (unat (k_ackcount k)) 0 ?new = Inr r" "length r = 2 * unat b"
      "\<forall>i < 2 * unat (k_ackcount k). r ! i = old ! i"
      using ack_copy_eq [of 0 "unat (k_ackcount k)" old ?new] lt room by auto
    have "acks_of (Some r) (k_ackcount k) = acks k"
      using acks_of_cong [OF r(3)] Some by simp
    then show ?thesis
      using Some b(1) junk lt r
      by (intro exI [of _ r] exI [of _ b]) (simp add: ack_grow_def word_less_nat_alt)
  qed
qed

lemma ack_store:
  assumes "length cells = 2 * unat b" and "n < b" and "unat n < 2 ^ 31 - 1"
  shows "\<exists>cells'. rbind (store cells (unat (n * 2)) sn) (\<lambda>c. store c (unat (n * 2) + 1) ts) = Inr cells' \<and>
           length cells' = 2 * unat b \<and> acks_of (Some cells') (n + 1) = acks_of (Some cells) n @ [(sn, ts)]"
proof -
  have idx: "unat (n * 2) = 2 * unat n" using unat_twice(1) [of "unat n"] assms(3) by simp
  have lt: "2 * unat n + 1 < length cells" using assms(1,2) by (simp add: word_less_nat_alt)
  let ?cells = "cells[2 * unat n := sn, 2 * unat n + 1 := ts]"
  have suc: "unat (n + 1) = Suc (unat n)" using assms(3) by (simp add: unat_Suc_u32)
  have "acks_of (Some ?cells) (n + 1) = acks_of (Some ?cells) n @ [(sn, ts)]"
    using lt by (simp add: acks_of_def suc)
  also have "acks_of (Some ?cells) n = acks_of (Some cells) n" by (rule acks_of_cong) simp
  finally show ?thesis using lt assms(1) by (auto simp: idx)
qed

lemma ikcp_ack_push_ok:
  assumes "ack_inv k" and "unat (k_ackcount k) < 2 ^ 31 - 1" and "alloc i \<noteq> None"
  shows "\<exists>cells b. ikcp_ack_push alloc i k sn ts =
             Inr (k\<lparr>k_acklist := Some cells, k_ackblock := b, k_ackcount := k_ackcount k + 1\<rparr>) \<and>
           ack_ok (Some cells) (k_ackcount k + 1) b \<and>
           acks_of (Some cells) (k_ackcount k + 1) = acks k @ [(sn, ts)]"
proof -
  have suc: "unat (k_ackcount k + 1) = Suc (unat (k_ackcount k))"
    using assms(2) by (simp add: unat_Suc_u32)
  obtain cells b where grown:
    "(if k_ackcount k + 1 > k_ackblock k then ack_grow alloc i k else Inr k) =
       Inr (k\<lparr>k_acklist := Some cells, k_ackblock := b\<rparr>)"
    "length cells = 2 * unat b" "k_ackcount k < b" "acks_of (Some cells) (k_ackcount k) = acks k"
  proof (cases "k_ackcount k + 1 > k_ackblock k")
    case True
    have "unat (k_ackcount k) < 2 ^ 31" using assms(2) by simp
    from ack_grow_ok [where alloc = alloc and i = i, OF assms(1) this assms(3)] True that show ?thesis by auto
  next
    case False
    then have lt: "k_ackcount k < k_ackblock k" using suc by (simp add: not_less word_less_nat_alt word_le_nat_alt)
    then obtain cells where "k_acklist k = Some cells"
      using assms(1) by (auto simp: ack_ok_def split: option.splits)
    with assms(1) False lt show ?thesis by (intro that [where cells = cells and b = "k_ackblock k"]) (auto simp: ack_ok_def)
  qed
  obtain cells' where cells': "rbind (store cells (unat (k_ackcount k * 2)) sn)
      (\<lambda>c. store c (unat (k_ackcount k * 2) + 1) ts) = Inr cells'"
    "length cells' = 2 * unat b" "acks_of (Some cells') (k_ackcount k + 1) = acks k @ [(sn, ts)]"
    using ack_store [OF grown(2,3) assms(2), of sn ts] grown(4) by auto
  have "k_ackcount k + 1 \<le> b" using grown(3) suc by (simp add: word_less_nat_alt word_le_nat_alt)
  moreover obtain x where "store cells (unat (k_ackcount k * 2)) sn = Inr x"
    "store x (unat (k_ackcount k * 2) + 1) ts = Inr cells'"
    using cells'(1) by (auto simp: rbind_Inr_iff)
  ultimately show ?thesis
    using cells'(2,3) grown(1)
    by (intro exI [of _ cells'] exI [of _ b]) (simp add: ikcp_ack_push_def ack_ok_def)
qed

lemma ikcp_ack_get_ok:
  assumes "ack_inv k" and "i < unat (k_ackcount k)"
  shows "ikcp_ack_get k (int i) = Inr (acks k ! i)"
proof -
  have le: "unat (k_ackcount k) \<le> unat (k_ackblock k)" using assms(1) by (simp add: ack_ok_def word_le_nat_alt)
  then obtain cells where cells: "k_acklist k = Some cells" "length cells = 2 * unat (k_ackblock k)"
    using assms by (auto simp: ack_ok_def split: option.splits)
  have "nat (int i * 2 + 0) = 2 * i" "nat (int i * 2 + 1) = 2 * i + 1" by simp_all
  then show ?thesis
    using cells assms(2) le by (simp add: ikcp_ack_get_def acks_of_def)
qed

lemma length_acks: "ack_inv k \<Longrightarrow> length (acks k) = unat (k_ackcount k)"
  by (auto simp: ack_ok_def acks_of_def word_le_nat_alt split: option.splits)

subsection \<open>Properties of acknowledgements\<close>

definition smoothed :: "int \<Rightarrow> int \<Rightarrow> int \<Rightarrow> int \<times> int" where
  "smoothed srtt rttval rtt =
     (if srtt = 0 then (rtt, rtt div 2)
      else (max 1 ((7 * srtt + rtt) div 8), (3 * rttval + \<bar>rtt - srtt\<bar>) div 4))"

lemma word_of_int_max:
  assumes "0 \<le> a" "a < 2 ^ 31" "0 \<le> b" "b < 2 ^ 31"
  shows "imax (word_of_int a) (word_of_int b) = word_of_int (max a b)"
    and "imin (word_of_int a) (word_of_int b) = word_of_int (min a b)"
proof -
  have "(word_of_int a :: u32) \<le> word_of_int b \<longleftrightarrow> a \<le> b"
    "(word_of_int b :: u32) \<le> word_of_int a \<longleftrightarrow> b \<le> a"
    using assms by (simp_all add: word_le_nat_alt unat_word_of_int_u32 nat_le_eq_zle)
  then show "imax (word_of_int a) (word_of_int b) = word_of_int (max a b)"
    and "imin (word_of_int a) (word_of_int b) = word_of_int (min a b)"
    by (auto simp: imax_def imin_def max_def min_def)
qed

lemma rto_formula:
  assumes "0 \<le> srtt" "srtt \<le> 2 ^ 28" "0 \<le> var" "var \<le> 2 ^ 28" "unat interval \<le> 5000" "10 \<le> m" "m \<le> 100"
  shows "sint (ibound (word_of_int m) (word_of_int (sint (word_of_int srtt +
      imax interval (word_of_int (wrap_i32 (4 * var)))))) IKCP_RTO_MAX) =
    min (max m (srtt + max (int (unat interval)) (4 * var))) 60000"
proof -
  have iv: "interval = word_of_int (int (unat interval))" by simp
  have mx: "imax interval (word_of_int (4 * var)) = word_of_int (max (int (unat interval)) (4 * var))"
    using assms by (subst iv, intro word_of_int_max) auto
  have wrap: "wrap_i32 (4 * var) = 4 * var" using assms by simp
  have sum: "sint (word_of_int srtt + imax interval (word_of_int (wrap_i32 (4 * var)))) =
      srtt + max (int (unat interval)) (4 * var)"
    using assms sint_word_of_int_id [of "srtt + max (int (unat interval)) (4 * var)"]
    unfolding wrap mx by simp
  have "ibound (word_of_int m) (word_of_int r) IKCP_RTO_MAX = word_of_int (min (max m r) 60000)"
    if "0 \<le> r" "r < 2 ^ 31" for r
    using assms that word_of_int_max(2) [of "max m r" 60000]
    by (simp add: ibound_def kcp_consts word_of_int_max(1))
  moreover have "0 \<le> srtt + max (int (unat interval)) (4 * var)"
    "srtt + max (int (unat interval)) (4 * var) < 2 ^ 31"
    using assms by auto
  ultimately have "ibound (word_of_int m) (word_of_int (srtt + max (int (unat interval)) (4 * var))) IKCP_RTO_MAX =
      word_of_int (min (max m (srtt + max (int (unat interval)) (4 * var))) 60000)"
    by blast
  then show ?thesis
    unfolding sum using assms sint_word_of_int_id [of "min (max m (srtt + max (int (unat interval)) (4 * var))) 60000"]
    by simp
qed

lemma smoothed_range:
  assumes "0 \<le> srtt" "srtt \<le> 2 ^ 27" "0 \<le> var" "var \<le> 2 ^ 27" "0 \<le> rtt" "rtt \<le> 2 ^ 27"
  shows "0 \<le> fst (smoothed srtt var rtt) \<and> fst (smoothed srtt var rtt) \<le> 2 ^ 27 \<and>
         0 \<le> snd (smoothed srtt var rtt) \<and> snd (smoothed srtt var rtt) \<le> 2 ^ 27"
  using assms by (auto simp: smoothed_def)

lemma ikcp_update_ack_smoothed:
  assumes "0 \<le> k_rx_srtt kcp" "k_rx_srtt kcp \<le> 2 ^ 27" "0 \<le> k_rx_rttval kcp" "k_rx_rttval kcp \<le> 2 ^ 27"
    and "0 \<le> rtt" "rtt \<le> 2 ^ 27"
  shows "ikcp_update_ack kcp rtt =
    (let (srtt, var) = smoothed (k_rx_srtt kcp) (k_rx_rttval kcp) rtt
     in kcp\<lparr>k_rx_srtt := srtt, k_rx_rttval := var,
       k_rx_rto := sint (ibound (word_of_int (k_rx_minrto kcp)) (word_of_int (sint (word_of_int srtt +
         imax (k_interval kcp) (word_of_int (wrap_i32 (4 * var)))))) IKCP_RTO_MAX)\<rparr>)"
proof (cases "k_rx_srtt kcp = 0")
  case True
  then show ?thesis using assms by (simp add: ikcp_update_ack_def smoothed_def Let_def)
next
  case False
  have srtt: "c_div (wrap_i32 (wrap_i32 (7 * k_rx_srtt kcp) + rtt)) 8 = (7 * k_rx_srtt kcp + rtt) div 8"
    using assms by simp
  have mx: "(if x < 1 then 1 else x) = max 1 x" for x :: int by simp
  have delta: "wrap_i32 (rtt - k_rx_srtt kcp) = rtt - k_rx_srtt kcp" using assms by simp
  have ab: "(if x < 0 then - x else x) = \<bar>x\<bar>" for x :: int by simp
  have "\<bar>rtt - k_rx_srtt kcp\<bar> \<le> 2 ^ 27" using assms by (auto simp: abs_if)
  then have var: "wrap_i32 (c_div (wrap_i32 (3 * k_rx_rttval kcp) + \<bar>rtt - k_rx_srtt kcp\<bar>) 4) =
      (3 * k_rx_rttval kcp + \<bar>rtt - k_rx_srtt kcp\<bar>) div 4"
    using assms by simp
  show ?thesis
    using False unfolding ikcp_update_ack_def Let_def srtt delta ab var mx
    by (simp add: smoothed_def)
qed

text \<open>What the function computes: in the timeout the flush interval stands in for four deviations where it is larger.\<close>

lemma ikcp_update_ack_formula:
  assumes "timer_inv kcp"
    and "0 \<le> k_rx_srtt kcp" "k_rx_srtt kcp \<le> 2 ^ 27" "0 \<le> k_rx_rttval kcp" "k_rx_rttval kcp \<le> 2 ^ 27" "0 \<le> rtt" "rtt \<le> 2 ^ 27"
  shows "ikcp_update_ack kcp rtt =
    (let (srtt, rttval) = smoothed (k_rx_srtt kcp) (k_rx_rttval kcp) rtt
     in kcp\<lparr>k_rx_srtt := srtt, k_rx_rttval := rttval,
            k_rx_rto := min (max (k_rx_minrto kcp) (srtt + max (int (unat (k_interval kcp))) (4 * rttval))) 60000\<rparr>)"
proof -
  let ?s = "smoothed (k_rx_srtt kcp) (k_rx_rttval kcp) rtt"
  have range: "0 \<le> fst ?s" "fst ?s \<le> 2 ^ 28" "0 \<le> snd ?s" "snd ?s \<le> 2 ^ 28"
    using smoothed_range [OF assms(2-7)] by simp_all
  have t: "unat (k_interval kcp) \<le> 5000" "10 \<le> k_rx_minrto kcp" "k_rx_minrto kcp \<le> 100"
    using assms(1) by (simp_all add: timer_ok_def)
  show ?thesis
    unfolding ikcp_update_ack_smoothed [OF assms(2-7)] Let_def case_prod_beta rto_formula [OF range t] by (rule refl)
qed

text \<open>
  C27. The estimate of the round-trip time follows TCP. For estimates and measurements of up to \<open>2 ^ 27\<close> ms (37 hours), at which no
  arithmetic of \<open>ikcp_update_ack\<close> overflows: the smoothed time moves by an eighth of the difference (and is at least 1 after
  the first measurement), the deviation by a quarter, and both stay within that range, so that the next measurement finds it again; the
  retransmission timeout lies between \<open>rx_minrto\<close> and 60000 ms; and, whenever the flush interval is at most four
  deviations, it is the smoothed time plus four deviations, clamped to these limits.
\<close>

theorem ikcp_update_ack_rto:
  assumes "timer_inv kcp"
    and "0 \<le> k_rx_srtt kcp" "k_rx_srtt kcp \<le> 2 ^ 27" "0 \<le> k_rx_rttval kcp" "k_rx_rttval kcp \<le> 2 ^ 27" "0 \<le> rtt" "rtt \<le> 2 ^ 27"
    and k': "kcp' = ikcp_update_ack kcp rtt"
  shows "(k_rx_srtt kcp', k_rx_rttval kcp') = smoothed (k_rx_srtt kcp) (k_rx_rttval kcp) rtt \<and>
    k_rx_srtt kcp' \<in> {0..2 ^ 27} \<and> k_rx_rttval kcp' \<in> {0..2 ^ 27} \<and>
    k_rx_rto kcp' \<in> {k_rx_minrto kcp..60000} \<and>
    (int (unat (k_interval kcp)) \<le> 4 * k_rx_rttval kcp' \<longrightarrow>
       k_rx_rto kcp' = min (max (k_rx_minrto kcp) (k_rx_srtt kcp' + 4 * k_rx_rttval kcp')) 60000)"
proof -
  have "k_rx_rto kcp' \<in> {k_rx_minrto kcp..60000}" using ikcp_update_ack_range [OF assms(1), of rtt] by (simp add: k')
  then show ?thesis
    using smoothed_range [OF assms(2-7)] by (simp add: k' ikcp_update_ack_formula [OF assms(1-7)] Let_def case_prod_beta)
qed

theorem ikcp_update_ack_rto_witness:
  "k_rx_rto (ikcp_update_ack example_kcp 80) = 240"
proof -
  have t: "timer_inv example_kcp" using example_kcp_inv by (simp add: kcp_inv_def)
  have k: "k_rx_srtt example_kcp = 0" "k_rx_rttval example_kcp = 0" "unat (k_interval example_kcp) = 100"
    "k_rx_minrto example_kcp = 100"
    by (simp_all add: example_kcp_def ikcp_create_def kcp_consts)
  then show ?thesis using ikcp_update_ack_rto [OF t, of 80 "ikcp_update_ack example_kcp 80"] by (simp add: smoothed_def)
qed

text \<open>An acknowledgement whose time the peer chose can make the first estimate so large that the next sum exceeds 32 bits.\<close>

lemma ikcp_update_ack_overflow:
  "k_rx_srtt (ikcp_update_ack example_kcp (2 ^ 30)) = 2 ^ 30 \<and> 7 * k_rx_srtt (ikcp_update_ack example_kcp (2 ^ 30)) > 2 ^ 31"
  by (simp add: ikcp_update_ack_def example_kcp_def ikcp_create_def Let_def)

text \<open>
  C21. Cumulative and selective acknowledgement remove exactly what they acknowledge.
  For an \<open>una\<close> that is not more than half the sequence space ahead of \<open>snd_una\<close>,
  \<open>ikcp_parse_una\<close> keeps exactly the segments numbered from \<open>una\<close> on, and
  \<open>ikcp_parse_ack\<close> removes exactly the segment with the acknowledged number, if it is in
  flight; the order, the other segments and the counters are kept, and
  after \<open>ikcp_shrink_buf\<close> the control block is well-formed, with \<open>snd_una\<close> the number of
  the first segment that is left.
\<close>

theorem acknowledgement_removal:
  assumes "kcp_inv k"
  shows "(seq_off (k_snd_una k) una < 2 ^ 31 \<longrightarrow>
            k_snd_buf (ikcp_parse_una k una) =
              filter (\<lambda>s. seq_off (k_snd_una k) una \<le> seq_off (k_snd_una k) (s_sn s)) (k_snd_buf k)) \<and>
         k_snd_buf (ikcp_parse_ack k sn) = filter (\<lambda>s. s_sn s \<noteq> sn) (k_snd_buf k) \<and>
         kcp_inv (ikcp_shrink_buf (ikcp_parse_una k una)) \<and>
         kcp_inv (ikcp_shrink_buf (ikcp_parse_ack k sn))"
proof (intro conjI impI)
  have mid: "snd_mid (k_nsnd_que k) (k_snd_queue k) (k_nsnd_buf k) (k_snd_buf k)
      (k_snd_una k) (k_snd_nxt k) (k_rmt_wnd k)"
    using assms by (simp add: kcp_inv_def snd_ok_mid)
  show "kcp_inv (ikcp_shrink_buf (ikcp_parse_una k una))" "kcp_inv (ikcp_shrink_buf (ikcp_parse_ack k sn))"
    using assms by (rule parse_una_shrink_inv, rule parse_ack_shrink_inv)
  show "k_snd_buf (ikcp_parse_ack k sn) = filter (\<lambda>s. s_sn s \<noteq> sn) (k_snd_buf k)"
    unfolding ikcp_parse_ack_eq [OF mid] by (auto intro!: filter_True [symmetric])
  assume una: "seq_off (k_snd_una k) una < 2 ^ 31"
  have diff: "itimediff una (s_sn s) > 0 \<longleftrightarrow>
      \<not> seq_off (k_snd_una k) una \<le> seq_off (k_snd_una k) (s_sn s)" if "s \<in> set (k_snd_buf k)" for s
    using itimediff_off [OF una, of "s_sn s"] snd_mid_bounds(1) [OF mid] that by auto
  have "sorted_wrt (\<lambda>s t. seq_off (k_snd_una k) (s_sn s) < seq_off (k_snd_una k) (s_sn t)) (k_snd_buf k)"
    using mid by (simp add: snd_mid_def sorted_wrt_map)
  then have "dropWhile (\<lambda>s. \<not> seq_off (k_snd_una k) una \<le> seq_off (k_snd_una k) (s_sn s)) (k_snd_buf k) =
      filter (\<lambda>s. seq_off (k_snd_una k) una \<le> seq_off (k_snd_una k) (s_sn s)) (k_snd_buf k)"
    by (rule dropWhile_sorted)
  then show "k_snd_buf (ikcp_parse_una k una) =
      filter (\<lambda>s. seq_off (k_snd_una k) una \<le> seq_off (k_snd_una k) (s_sn s)) (k_snd_buf k)"
    using dropWhile_cong [OF refl, of "k_snd_buf k" "\<lambda>s. itimediff una (s_sn s) > 0"] diff
    by (simp add: ikcp_parse_una_def una_loop_eq)
qed

definition in_flight :: "u32 \<Rightarrow> ikcpseg" where
  "in_flight sn = \<lparr>s_conv = 1, s_cmd = 81, s_frg = 0, s_wnd = 128, s_ts = 0, s_sn = sn, s_una = 0,
     s_len = 1, s_resendts = 200, s_rto = 200, s_fastack = 0, s_xmit = 1, s_data = [7]\<rparr>"

text \<open>Three segments in flight across the wrap-around of the sequence numbers.\<close>

definition example_flight :: ikcpcb where
  "example_flight = example_kcp\<lparr>k_snd_buf := map in_flight [- 2, - 1, 0], k_nsnd_buf := 3,
     k_snd_una := - 2, k_snd_nxt := 1, k_ackcount := 0\<rparr>"

lemma example_flight_inv: "kcp_inv example_flight"
proof -
  have "snd_inv example_flight"
    by (simp add: example_flight_def example_kcp_def ikcp_create_def kcp_consts snd_ok_def in_flight_def seq_off_def)
  moreover have "payload_inv example_flight"
    by (simp add: example_flight_def example_kcp_def ikcp_create_def kcp_consts in_flight_def seg_fits_def)
  ultimately show ?thesis
    using example_kcp_inv by (simp add: kcp_inv_def) (simp add: example_flight_def ack_ok_def split: option.splits)
qed

theorem acknowledgement_removal_witness:
  "map s_sn (k_snd_buf (ikcp_parse_una example_flight 0)) = [0] \<and>
   map s_sn (k_snd_buf (ikcp_parse_ack example_flight (- 1))) = [- 2, 0]"
proof -
  have "seq_off (k_snd_una example_flight) 0 < 2 ^ 31"
    and buf: "k_snd_buf example_flight = map in_flight [- 2, - 1, 0]" "k_snd_una example_flight = - 2"
    by (simp_all add: example_flight_def seq_off_def)
  with acknowledgement_removal [OF example_flight_inv, of 0 "- 1"] show ?thesis
    by (simp add: in_flight_def seq_off_def)
qed

text \<open>
  The array behind \<open>ikcp_ack_push\<close> behaves as a list. On a well-formed control block with
  fewer than \<open>2 ^ 31 - 1\<close> pending acknowledgements and a successful allocation, the doubling
  loop ends, no cell outside the array is touched, the pair is appended to the pending ones, and every
  pending pair is what \<open>ikcp_ack_get\<close> returns at its position.
\<close>

theorem ikcp_ack_push_appends:
  assumes "kcp_inv k" and "unat (k_ackcount k) < 2 ^ 31 - 1" and "alloc i \<noteq> None"
  shows "\<exists>k'. ikcp_ack_push alloc i k sn ts = Inr k' \<and> kcp_inv k' \<and> acks k' = acks k @ [(sn, ts)] \<and>
           length (acks k') = unat (k_ackcount k') \<and>
           (\<forall>j < length (acks k'). ikcp_ack_get k' (int j) = Inr (acks k' ! j))"
proof -
  have inv: "ack_inv k" using assms(1) by (simp add: kcp_inv_def)
  from ikcp_ack_push_ok [where alloc = alloc and i = i, OF this assms(2,3), of sn ts]
  obtain cells b where push: "ikcp_ack_push alloc i k sn ts =
      Inr (k\<lparr>k_acklist := Some cells, k_ackblock := b, k_ackcount := k_ackcount k + 1\<rparr>)"
    (is "_ = Inr ?k") and ok: "ack_ok (Some cells) (k_ackcount k + 1) b"
    and acks: "acks_of (Some cells) (k_ackcount k + 1) = acks k @ [(sn, ts)]"
    by blast
  have inv': "ack_inv ?k" using ok by simp
  have "kcp_inv ?k" using assms(1) ok by (simp add: kcp_inv_def)
  with push acks length_acks [OF inv'] ikcp_ack_get_ok [OF inv'] show ?thesis
    by (intro exI [of _ ?k]) simp
qed

theorem ikcp_ack_push_appends_witness:
  "\<exists>k'. ikcp_ack_push (\<lambda>_. Some (\<lambda>_. 0)) 0 example_kcp 5 9 = Inr k' \<and> acks k' = [(5, 9)]"
proof -
  have "k_ackcount example_kcp = 0" "acks example_kcp = []"
    by (simp_all add: example_kcp_def ikcp_create_def acks_of_def)
  with ikcp_ack_push_appends [OF example_kcp_inv, of "\<lambda>_. Some (\<lambda>_. 0)" 0 5 9] show ?thesis by auto
qed

end
