(* ===== verification/KcpInput.thy ===== *)
theory KcpInput
  imports KcpRecv KcpAck
begin

text \<open>
  \<open>ikcp_input\<close> of \<open>src/kcp_learn/ikcp.c\<close>: the parsing of a datagram, the four commands, and
  the growth of the congestion window, in the default build, where
  \<open>IKCP_FASTACK_CONSERVE\<close> is not defined. \<open>data\<close> is the bytes the caller passes, \<open>None\<close> for
  \<open>NULL\<close>; the loop may read what is there and no more. The two allocators stand for the
  allocation of the acknowledgement array and of the segment in the \<open>i\<close>-th
  round of the loop.
\<close>

subsection \<open>Definitions\<close>

text \<open>The local variables \<open>flag\<close>, \<open>maxack\<close> and \<open>latest_ts\<close>.\<close>

record ack_mark =
  m_flag :: int
  m_maxack :: u32
  m_latest_ts :: u32

definition mark_ack :: "ack_mark \<Rightarrow> u32 \<Rightarrow> u32 \<Rightarrow> ack_mark" where
  "mark_ack m sn ts =
     (if m_flag m = 0 then \<lparr>m_flag = 1, m_maxack = sn, m_latest_ts = ts\<rparr>
      else if itimediff sn (m_maxack m) > 0 then m\<lparr>m_maxack := sn, m_latest_ts := ts\<rparr>
      else m)"

definition input_ack :: "ikcpcb \<Rightarrow> ack_mark \<Rightarrow> seg_header \<Rightarrow> ikcpcb \<times> ack_mark" where
  "input_ack kcp m h =
     (let kcp = (if itimediff (k_current kcp) (h_ts h) \<ge> 0
                 then ikcp_update_ack kcp (itimediff (k_current kcp) (h_ts h)) else kcp);
          kcp = ikcp_parse_ack kcp (h_sn h);
          kcp = ikcp_shrink_buf kcp
      in (kcp, mark_ack m (h_sn h) (h_ts h)))"

definition fill_segment :: "ikcpseg \<Rightarrow> u32 \<Rightarrow> seg_header \<Rightarrow> bytes \<Rightarrow> ikcpseg cresult" where
  "fill_segment seg conv h data =
     (let seg = seg\<lparr>s_conv := conv, s_cmd := ucast (h_cmd h), s_frg := ucast (h_frg h),
                    s_wnd := ucast (h_wnd h), s_ts := h_ts h, s_sn := h_sn h, s_una := h_una h,
                    s_len := h_len h\<rparr>
      in if h_len h > 0 then
           rbind (rguard (unat (h_len h) \<le> length data) Out_Of_Bounds) (\<lambda>_.
             Inr (seg\<lparr>s_data := memcpy_at (s_data seg) 0 (take (unat (h_len h)) data)\<rparr>))
         else Inr seg)"

definition input_push ::
  "u32 allocator \<Rightarrow> seg_allocator \<Rightarrow> nat \<Rightarrow> ikcpcb \<Rightarrow> u32 \<Rightarrow> seg_header \<Rightarrow> bytes \<Rightarrow> ikcpcb cresult" where
  "input_push alloc salloc i kcp conv h data =
     (if itimediff (h_sn h) (k_rcv_nxt kcp + k_rcv_wnd kcp) < 0 then
        rbind (ikcp_ack_push alloc i kcp (h_sn h) (h_ts h)) (\<lambda>kcp.
          if itimediff (h_sn h) (k_rcv_nxt kcp) \<ge> 0 then
            case ikcp_segment_new salloc i (sint (h_len h)) of
              None \<Rightarrow> Inl Null_Deref
            | Some seg \<Rightarrow>
                rbind (fill_segment seg conv h data) (\<lambda>seg. Inr (ikcp_parse_data kcp seg))
          else Inr kcp)
      else Inr kcp)"

definition input_segment ::
  "u32 allocator \<Rightarrow> seg_allocator \<Rightarrow> nat \<Rightarrow> ikcpcb \<Rightarrow> ack_mark \<Rightarrow> u32 \<Rightarrow> seg_header \<Rightarrow> bytes \<Rightarrow>
   (ikcpcb \<times> ack_mark) cresult" where
  "input_segment alloc salloc i kcp m conv h data =
     (let kcp = kcp\<lparr>k_rmt_wnd := ucast (h_wnd h)\<rparr>;
          kcp = ikcp_parse_una kcp (h_una h);
          kcp = ikcp_shrink_buf kcp
      in if ucast (h_cmd h) = IKCP_CMD_ACK then Inr (input_ack kcp m h)
         else if ucast (h_cmd h) = IKCP_CMD_PUSH then
           rbind (input_push alloc salloc i kcp conv h data) (\<lambda>kcp. Inr (kcp, m))
         else if ucast (h_cmd h) = IKCP_CMD_WASK then
           Inr (kcp\<lparr>k_probe := k_probe kcp OR IKCP_ASK_TELL\<rparr>, m)
         else Inr (kcp, m))"

text \<open>
  The loop ends with 0 when fewer than 24 bytes are left, and with the code of an early
  return otherwise.
\<close>

function input_loop ::
  "u32 allocator \<Rightarrow> seg_allocator \<Rightarrow> nat \<Rightarrow> ikcpcb \<Rightarrow> ack_mark \<Rightarrow> bytes \<Rightarrow> int \<Rightarrow>
   (int \<times> ikcpcb \<times> ack_mark) cresult" where
  "input_loop alloc salloc i kcp m data sz =
     (if sz < sint IKCP_OVERHEAD then Inr (0, kcp, m)
      else rbind (ikcp_decode32u data) (\<lambda>(conv, data).
        if conv \<noteq> k_conv kcp then Inr (-1, kcp, m)
        else rbind (decode_header data) (\<lambda>(h, data).
          if sz - 24 < int (unat (h_len h)) \<or> sint (h_len h) < 0 then Inr (-2, kcp, m)
          else if ucast (h_cmd h) \<noteq> IKCP_CMD_PUSH \<and> ucast (h_cmd h) \<noteq> IKCP_CMD_ACK \<and>
                  ucast (h_cmd h) \<noteq> IKCP_CMD_WASK \<and> ucast (h_cmd h) \<noteq> IKCP_CMD_WINS
          then Inr (-3, kcp, m)
          else rbind (input_segment alloc salloc i kcp m conv h data) (\<lambda>(kcp, m).
            input_loop alloc salloc (Suc i) kcp m (drop (unat (h_len h)) data)
              (sz - 24 - int (unat (h_len h)))))))"
  by pat_completeness auto
termination
  by (relation "measure (\<lambda>(_, _, _, _, _, _, sz). nat sz)") (auto simp: kcp_consts)

declare input_loop.simps [simp del]

definition input_cwnd :: "ikcpcb \<Rightarrow> u32 \<Rightarrow> ikcpcb cresult" where
  "input_cwnd kcp prev_una =
     (if itimediff (k_snd_una kcp) prev_una > 0 \<and> k_cwnd kcp < k_rmt_wnd kcp then
        let mss = k_mss kcp in
        rbind (if k_cwnd kcp < k_ssthresh kcp then
                 Inr (kcp\<lparr>k_cwnd := k_cwnd kcp + 1, k_incr := k_incr kcp + mss\<rparr>)
               else
                 let kcp = (if k_incr kcp < mss then kcp\<lparr>k_incr := mss\<rparr> else kcp) in
                 rbind (rguard (k_incr kcp \<noteq> 0) Div_By_Zero) (\<lambda>_.
                   let kcp = kcp\<lparr>k_incr := k_incr kcp + ((mss * mss) div k_incr kcp + mss div 16)\<rparr>
                   in Inr (if (k_cwnd kcp + 1) * mss \<le> k_incr kcp
                           then kcp\<lparr>k_cwnd := (k_incr kcp + mss - 1) div (if mss > 0 then mss else 1)\<rparr>
                           else kcp)))
          (\<lambda>kcp. Inr (if k_cwnd kcp > k_rmt_wnd kcp
                      then kcp\<lparr>k_cwnd := k_rmt_wnd kcp, k_incr := k_rmt_wnd kcp * mss\<rparr> else kcp))
      else Inr kcp)"

definition ikcp_input ::
  "u32 allocator \<Rightarrow> seg_allocator \<Rightarrow> ikcpcb \<Rightarrow> bytes option \<Rightarrow> int \<Rightarrow> (int \<times> ikcpcb) cresult" where
  "ikcp_input alloc salloc kcp data sz =
     (let prev_una = k_snd_una kcp in
      case data of
        None \<Rightarrow> Inr (-1, kcp)
      | Some data \<Rightarrow>
          if wrap_i32 sz < sint IKCP_OVERHEAD then Inr (-1, kcp)
          else rbind (input_loop alloc salloc 0 kcp \<lparr>m_flag = 0, m_maxack = 0, m_latest_ts = 0\<rparr> data sz)
            (\<lambda>(ret, kcp, m).
              if ret \<noteq> 0 then Inr (ret, kcp)
              else
                let kcp = (if m_flag m \<noteq> 0
                           then ikcp_parse_fastack kcp (m_maxack m) (m_latest_ts m) else kcp)
                in rbind (input_cwnd kcp prev_una) (\<lambda>kcp. Inr (0, kcp))))"

subsection \<open>What the steps leave alone\<close>

text \<open>
  The sending side of a step (removal of acknowledged segments, timer) and its receiving side
  (accepting data) touch disjoint fields.
\<close>

definition same_recv :: "ikcpcb \<Rightarrow> ikcpcb \<Rightarrow> bool" where
  "same_recv k k' \<longleftrightarrow>
     k_rcv_buf k' = k_rcv_buf k \<and> k_nrcv_buf k' = k_nrcv_buf k \<and> k_rcv_queue k' = k_rcv_queue k \<and>
     k_nrcv_que k' = k_nrcv_que k \<and> k_rcv_nxt k' = k_rcv_nxt k \<and> k_rcv_wnd k' = k_rcv_wnd k"

definition same_config :: "ikcpcb \<Rightarrow> ikcpcb \<Rightarrow> bool" where
  "same_config k k' \<longleftrightarrow>
     k_conv k' = k_conv k \<and> k_mtu k' = k_mtu k \<and> k_mss k' = k_mss k \<and> k_buffer k' = k_buffer k \<and>
     k_snd_queue k' = k_snd_queue k \<and> k_nsnd_que k' = k_nsnd_que k \<and> k_snd_nxt k' = k_snd_nxt k \<and>
     k_rcv_wnd k' = k_rcv_wnd k \<and> k_interval k' = k_interval k \<and> k_current k' = k_current k \<and>
     k_updated k' = k_updated k \<and> k_output k' = k_output k \<and> k_stream k' = k_stream k"

lemma same_recv_refl [simp]: "same_recv k k" and same_config_refl [simp]: "same_config k k"
  by (simp_all add: same_recv_def same_config_def)

lemma ikcp_shrink_buf_frame [frame]:
  "same_recv j (ikcp_shrink_buf k) = same_recv j k" "same_config j (ikcp_shrink_buf k) = same_config j k"
  "k_ackcount (ikcp_shrink_buf k) = k_ackcount k" "k_acklist (ikcp_shrink_buf k) = k_acklist k"
  by (simp_all add: same_recv_def same_config_def ikcp_shrink_buf_def split: list.splits)

lemma ikcp_parse_una_frame [frame]:
  "same_recv j (ikcp_parse_una k una) = same_recv j k" "same_config j (ikcp_parse_una k una) = same_config j k"
  "k_ackcount (ikcp_parse_una k una) = k_ackcount k" "k_acklist (ikcp_parse_una k una) = k_acklist k"
  by (simp_all add: same_recv_def same_config_def ikcp_parse_una_def case_prod_beta Let_def)

lemma ikcp_parse_ack_frame [frame]:
  "same_recv j (ikcp_parse_ack k sn) = same_recv j k" "same_config j (ikcp_parse_ack k sn) = same_config j k"
  "k_ackcount (ikcp_parse_ack k sn) = k_ackcount k" "k_acklist (ikcp_parse_ack k sn) = k_acklist k"
  by (simp_all add: same_recv_def same_config_def ikcp_parse_ack_def split: option.splits)

lemma ikcp_update_ack_fields [frame]:
  "same_recv j (ikcp_update_ack k rtt) = same_recv j k" "same_config j (ikcp_update_ack k rtt) = same_config j k"
  "k_ackcount (ikcp_update_ack k rtt) = k_ackcount k" "k_acklist (ikcp_update_ack k rtt) = k_acklist k"
  by (rule ikcp_update_ack_frame [of k rtt]; simp add: same_recv_def same_config_def)+

lemma ikcp_parse_fastack_frame [frame]:
  "same_recv j (ikcp_parse_fastack k sn ts) = same_recv j k" "same_config j (ikcp_parse_fastack k sn ts) = same_config j k"
  "k_ackcount (ikcp_parse_fastack k sn ts) = k_ackcount k"
  "k_acklist (ikcp_parse_fastack k sn ts) = k_acklist k"
  by (simp_all add: same_recv_def same_config_def ikcp_parse_fastack_def)

lemma move_ready_frame [frame]:
  "same_config j (move_ready k) = same_config j k \<and> k_ackcount (move_ready k) = k_ackcount k \<and>
   k_acklist (move_ready k) = k_acklist k"
proof (induction k rule: move_ready.induct)
  case (1 k)
  then show ?case by (subst (1 2 3) move_ready.simps) (auto simp: same_config_def split: list.splits)
qed

lemma same_config_rcv:
  "same_config j (k\<lparr>k_rcv_buf := a, k_nrcv_buf := b\<rparr>) = same_config j k"
  by (simp add: same_config_def)

lemma ikcp_parse_data_frame [frame]:
  "same_config j (ikcp_parse_data k s) = same_config j k" "k_ackcount (ikcp_parse_data k s) = k_ackcount k"
  "k_acklist (ikcp_parse_data k s) = k_acklist k"
  by (simp_all add: ikcp_parse_data_def Let_def move_ready_frame same_config_rcv split: option.splits)

lemma input_ack_frame [frame]:
  "same_recv j (fst (input_ack k m h)) = same_recv j k"
  "same_config j (fst (input_ack k m h)) = same_config j k"
  "k_ackcount (fst (input_ack k m h)) = k_ackcount k" "k_acklist (fst (input_ack k m h)) = k_acklist k"
  by (simp_all add: input_ack_def Let_def frame)

subsection \<open>Parsing arbitrary bytes\<close>

lemma decode_header_ok: "20 \<le> length p \<Longrightarrow> \<exists>h. decode_header p = Inr (h, drop 20 p)"
proof -
  assume len: "20 \<le> length p"
  then have L: "n \<le> length (drop m p)" if "n + m \<le> 20" for n m using that by simp
  obtain a where "ikcp_decode8u p = Inr (a, drop 1 p)" using decode8u_ok [OF L [of 1 0]] by auto
  moreover obtain b where "ikcp_decode8u (drop 1 p) = Inr (b, drop 2 p)"
    using decode8u_ok [OF L [of 1 1]] by (auto simp: numeral_2_eq_2)
  moreover obtain c where "ikcp_decode16u (drop 2 p) = Inr (c, drop 4 p)"
    using decode16u_ok [OF L [of 2 2]] by auto
  moreover obtain d where "ikcp_decode32u (drop 4 p) = Inr (d, drop 8 p)"
    using decode32u_ok [OF L [of 4 4]] by auto
  moreover obtain e where "ikcp_decode32u (drop 8 p) = Inr (e, drop 12 p)"
    using decode32u_ok [OF L [of 4 8]] by auto
  moreover obtain f where "ikcp_decode32u (drop 12 p) = Inr (f, drop 16 p)"
    using decode32u_ok [OF L [of 4 12]] by auto
  moreover obtain g where "ikcp_decode32u (drop 16 p) = Inr (g, drop 20 p)"
    using decode32u_ok [OF L [of 4 16]] by auto
  ultimately show ?thesis by (auto simp: decode_header_def)
qed

lemma fill_segment_ok:
  assumes "unat (h_len h) \<le> length data" and "0 \<le> sint (h_len h)"
    and "ikcp_segment_new salloc i (sint (h_len h)) = Some seg"
  shows "\<exists>seg'. fill_segment seg conv h data = Inr seg' \<and> seg_sized seg' \<and> s_sn seg' = h_sn h \<and>
           s_frg seg' = ucast (h_frg h) \<and> s_data seg' = take (unat (h_len h)) data"
proof -
  have len: "nat (sint (h_len h)) = unat (h_len h)"
    using sint_nonneg_unat [OF assms(2)] by simp
  have sd: "length (s_data seg) = unat (h_len h)"
    using assms(3) len by (auto simp: ikcp_segment_new_def)
  show ?thesis
  proof (cases "h_len h > 0")
    case True
    then show ?thesis
      using assms(1) sd by (simp add: fill_segment_def seg_sized_def memcpy_at_full)
  next
    case False
    then have "h_len h = 0" by (simp add: word_less_nat_alt unat_eq_zero)
    then show ?thesis using sd by (simp add: fill_segment_def seg_sized_def)
  qed
qed

lemma rmt_wnd_inv: "kcp_inv k \<Longrightarrow> kcp_inv (k\<lparr>k_rmt_wnd := ucast (w :: u16)\<rparr>)"
proof -
  assume "kcp_inv k"
  moreover have "unat (ucast w :: u32) \<le> 65535"
    using unsigned_less [of w, where 'a = nat] by (simp add: unat_ucast_u16)
  ultimately show ?thesis by (simp add: kcp_inv_def snd_ok_def)
qed

lemma input_push_ok:
  assumes inv: "kcp_inv k" and alloc: "\<forall>j. alloc j \<noteq> None" "\<forall>j. salloc j \<noteq> None"
    and room: "unat (k_ackcount k) < 2 ^ 31 - 1"
    and len: "unat (h_len h) \<le> length data" "0 \<le> sint (h_len h)"
  shows "\<exists>k'. input_push alloc salloc i k conv h data = Inr k' \<and> kcp_inv k' \<and>
           unat (k_ackcount k') \<le> Suc (unat (k_ackcount k)) \<and> k_conv k' = k_conv k"
proof (cases "itimediff (h_sn h) (k_rcv_nxt k + k_rcv_wnd k) < 0")
  case False
  then show ?thesis using inv by (simp add: input_push_def)
next
  case True
  have "alloc i \<noteq> None" using alloc(1) by simp
  with inv room obtain cells b where push0: "ikcp_ack_push alloc i k (h_sn h) (h_ts h) =
      Inr (k\<lparr>k_acklist := Some cells, k_ackblock := b, k_ackcount := k_ackcount k + 1\<rparr>)"
    and ok: "ack_ok (Some cells) (k_ackcount k + 1) b"
    using ikcp_ack_push_ok [of k alloc i "h_sn h" "h_ts h"] unfolding kcp_inv_def by blast
  define k1 where "k1 = k\<lparr>k_acklist := Some cells, k_ackblock := b, k_ackcount := k_ackcount k + 1\<rparr>"
  have push: "ikcp_ack_push alloc i k (h_sn h) (h_ts h) = Inr k1" using push0 by (simp only: k1_def)
  have k1: "kcp_inv k1" using inv ok by (simp add: k1_def kcp_inv_def)
  have cnt: "unat (k_ackcount k1) = Suc (unat (k_ackcount k))"
    using room by (simp add: k1_def unat_Suc_u32)
  have cfg: "same_config k k1" by (simp add: k1_def same_config_def)
  obtain seg where seg: "ikcp_segment_new salloc i (sint (h_len h)) = Some seg"
    using segment_new_ok [of salloc i "sint (h_len h)"] alloc(2) by auto
  obtain seg' where fill: "fill_segment seg conv h data = Inr seg'" and sized: "seg_sized seg'"
    using fill_segment_ok [OF len seg] by blast
  define k2 where "k2 = (if itimediff (h_sn h) (k_rcv_nxt k1) \<ge> 0 then ikcp_parse_data k1 seg' else k1)"
  have "input_push alloc salloc i k conv h data = Inr k2"
    unfolding input_push_def push seg if_P [OF True] k2_def by (simp add: fill)
  moreover have "kcp_inv k2" using k1 ikcp_parse_data_inv [OF k1 sized] unfolding k2_def by simp
  moreover have "k_ackcount k2 = k_ackcount k1" by (simp add: k2_def frame)
  moreover have "same_config k k2" using cfg by (simp add: k2_def frame)
  ultimately show ?thesis using cnt by (auto simp: same_config_def)
qed

lemma input_segment_ok:
  assumes inv: "kcp_inv k" and alloc: "\<forall>j. alloc j \<noteq> None" "\<forall>j. salloc j \<noteq> None"
    and room: "unat (k_ackcount k) < 2 ^ 31 - 1"
    and len: "unat (h_len h) \<le> length data" "0 \<le> sint (h_len h)"
  shows "\<exists>k' m'. input_segment alloc salloc i k m conv h data = Inr (k', m') \<and> kcp_inv k' \<and>
           unat (k_ackcount k') \<le> Suc (unat (k_ackcount k)) \<and> k_conv k' = k_conv k"
proof -
  let ?k = "ikcp_shrink_buf (ikcp_parse_una (k\<lparr>k_rmt_wnd := ucast (h_wnd h)\<rparr>) (h_una h))"
  have k: "kcp_inv ?k" using inv by (intro parse_una_shrink_inv rmt_wnd_inv)
  have same: "k_ackcount ?k = k_ackcount k" by (simp add: frame)
  have cfg: "same_config k ?k" by (simp add: frame) (simp add: same_config_def)
  then have conv: "k_conv ?k = k_conv k" by (simp add: same_config_def)
  have ack: "kcp_inv (fst (input_ack ?k m h))"
    using k by (auto simp: input_ack_def Let_def intro!: parse_ack_shrink_inv ikcp_update_ack_inv)
  have ack_frame: "k_ackcount (fst (input_ack ?k m h)) = k_ackcount k" "k_conv (fst (input_ack ?k m h)) = k_conv k"
    using input_ack_frame(2) [of k ?k m h] cfg same by (simp_all add: frame same_config_def)
  obtain k' where "input_push alloc salloc i ?k conv h data = Inr k'" "kcp_inv k'"
    "unat (k_ackcount k') \<le> Suc (unat (k_ackcount k))" "k_conv k' = k_conv k"
    using input_push_ok [OF k alloc _ len, of i conv] room same conv by auto
  moreover have "kcp_inv (?k\<lparr>k_probe := k_probe ?k OR IKCP_ASK_TELL\<rparr>)"
    using k by (simp add: kcp_inv_def)
  ultimately show ?thesis
    using k ack ack_frame same conv unfolding input_segment_def Let_def
    by (cases "input_ack ?k m h") simp
qed

lemma input_loop_ok:
  assumes "kcp_inv k" and "\<forall>j. alloc j \<noteq> None" "\<forall>j. salloc j \<noteq> None"
    and "sz = int (length data)" and "unat (k_ackcount k) + length data div 24 < 2 ^ 31"
  shows "\<exists>ret k' m'. input_loop alloc salloc i k m data sz = Inr (ret, k', m') \<and> kcp_inv k' \<and>
           ret \<in> {0, -1, -2, -3} \<and> unat (k_ackcount k') \<le> unat (k_ackcount k) + length data div 24"
  using assms
proof (induction alloc salloc i k m data sz rule: input_loop.induct)
  case (1 alloc salloc i k m data sz)
  show ?case
  proof (cases "length data < 24")
    case True
    with 1(2-) show ?thesis by (subst input_loop.simps) (simp add: kcp_consts)
  next
    case False
    then obtain conv where conv: "ikcp_decode32u data = Inr (conv, drop 4 data)"
      using decode32u_ok [of data] by auto
    obtain h where h: "decode_header (drop 4 data) = Inr (h, drop 24 data)"
    proof -
      have "20 \<le> length (drop 4 data)" using False by simp
      from decode_header_ok [OF this] that show ?thesis by auto
    qed
    let ?bad = "sz - 24 < int (unat (h_len h)) \<or> sint (h_len h) < 0"
    let ?unknown = "ucast (h_cmd h) \<noteq> IKCP_CMD_PUSH \<and> ucast (h_cmd h) \<noteq> IKCP_CMD_ACK \<and>
      ucast (h_cmd h) \<noteq> IKCP_CMD_WASK \<and> ucast (h_cmd h) \<noteq> IKCP_CMD_WINS"
    have sz: "\<not> sz < sint IKCP_OVERHEAD" using False 1(5) by (simp add: kcp_consts)
    have unfolded: "input_loop alloc salloc i k m data sz =
        (if conv \<noteq> k_conv k then Inr (-1, k, m) else if ?bad then Inr (-2, k, m)
         else if ?unknown then Inr (-3, k, m)
         else rbind (input_segment alloc salloc i k m conv h (drop 24 data)) (\<lambda>(k, m).
            input_loop alloc salloc (Suc i) k m (drop (unat (h_len h)) (drop 24 data))
              (sz - 24 - int (unat (h_len h)))))"
      by (subst input_loop.simps) (simp only: sz conv h if_False rbind_simps case_prod_conv)
    show ?thesis
    proof (cases "conv \<noteq> k_conv k \<or> ?bad \<or> ?unknown")
      case True
      then show ?thesis unfolding unfolded using 1(2) by (simp only: split: if_split) auto
    next
      case good: False
      have len: "unat (h_len h) \<le> length (drop 24 data)" "0 \<le> sint (h_len h)"
        using good 1(5) by auto
      have room: "unat (k_ackcount k) < 2 ^ 31 - 1"
        using 1(6) False div_le_mono [of 24 "length data" 24] by simp
      obtain k' m' where seg: "input_segment alloc salloc i k m conv h (drop 24 data) = Inr (k', m')"
        "kcp_inv k'" "unat (k_ackcount k') \<le> Suc (unat (k_ackcount k))"
        using input_segment_ok [OF 1(2-4) room len, of i m conv] by blast
      have acks: "unat (k_ackcount k') + (length data - 24 - unat (h_len h)) div 24 \<le> unat (k_ackcount k) + length data div 24"
        using seg(3) False div_le_mono [of "length data - 24 - unat (h_len h)" "length data - 24" 24]
          div_add_self2 [of 24 "length data - 24"] by simp
      then have "unat (k_ackcount k') + (length data - 24 - unat (h_len h)) div 24 < 2 ^ 31" using 1(6) by linarith
      moreover have "sz - 24 - int (unat (h_len h)) = int (length (drop (unat (h_len h)) (drop 24 data)))"
        using len(1) False 1(5) by (simp add: of_nat_diff)
      ultimately have "\<exists>ret k'' m''. input_loop alloc salloc (Suc i) k' m'
            (drop (unat (h_len h)) (drop 24 data)) (sz - 24 - int (unat (h_len h))) = Inr (ret, k'', m'') \<and>
          kcp_inv k'' \<and> ret \<in> {0, -1, -2, -3} \<and>
          unat (k_ackcount k'') \<le> unat (k_ackcount k') + length (drop (unat (h_len h)) (drop 24 data)) div 24"
        using good by (intro 1(1) [OF sz conv refl _ h refl _ _ seg(1) refl seg(2) 1(3,4)]) simp_all
      moreover have g: "\<not> conv \<noteq> k_conv k" "\<not> ?bad" "\<not> ?unknown" using good by blast+
      ultimately show ?thesis
        unfolding unfolded if_not_P [OF g(1)] if_not_P [OF g(2)] if_not_P [OF g(3)] seg(1) rbind_simps prod.case
        using acks by fastforce
    qed
  qed
qed

subsection \<open>The congestion window\<close>

lemma input_cwnd_ok:
  assumes "k_mss k \<noteq> 0"
  shows "\<exists>cwnd incr. input_cwnd k prev_una = Inr (k\<lparr>k_cwnd := cwnd, k_incr := incr\<rparr>) \<and>
           (cwnd \<le> k_rmt_wnd k \<or> cwnd = k_cwnd k)"
proof (cases "itimediff (k_snd_una k) prev_una > 0 \<and> k_cwnd k < k_rmt_wnd k")
  case False
  then have "input_cwnd k prev_una = Inr k" unfolding input_cwnd_def by (rule if_not_P)
  then show ?thesis by (intro exI [of _ "k_cwnd k"] exI [of _ "k_incr k"]) simp
next
  case True
  have settle: "\<exists>cwnd' incr'. (if cwnd > k_rmt_wnd k
         then k\<lparr>k_cwnd := k_rmt_wnd k, k_incr := k_rmt_wnd k * k_mss k\<rparr>
         else k\<lparr>k_cwnd := cwnd, k_incr := incr\<rparr>) = k\<lparr>k_cwnd := cwnd', k_incr := incr'\<rparr> \<and>
         (cwnd' \<le> k_rmt_wnd k \<or> cwnd' = k_cwnd k)" for cwnd incr
  proof (cases "cwnd > k_rmt_wnd k")
    case True
    show ?thesis unfolding if_P [OF True] by (intro exI conjI, rule refl) simp
  next
    case False
    then have "cwnd \<le> k_rmt_wnd k" by simp
    then show ?thesis unfolding if_not_P [OF False] by blast
  qed
  show ?thesis
  proof (cases "k_cwnd k < k_ssthresh k")
    case slow: True
    have "input_cwnd k prev_una = Inr (if k_cwnd k + 1 > k_rmt_wnd k
         then k\<lparr>k_cwnd := k_rmt_wnd k, k_incr := k_rmt_wnd k * k_mss k\<rparr>
         else k\<lparr>k_cwnd := k_cwnd k + 1, k_incr := k_incr k + k_mss k\<rparr>)"
      unfolding input_cwnd_def Let_def if_P [OF True] if_P [OF slow] by simp
    with settle [of "k_cwnd k + 1" "k_incr k + k_mss k"] show ?thesis by (simp only: sum.inject)
  next
    case avoid: False
    define base where "base = (if k_incr k < k_mss k then k_mss k else k_incr k)"
    define incr where "incr = base + (k_mss k * k_mss k div base + k_mss k div 16)"
    define cwnd where "cwnd = (if (k_cwnd k + 1) * k_mss k \<le> incr
      then (incr + k_mss k - 1) div k_mss k else k_cwnd k)"
    have pos: "base \<noteq> 0" "k_mss k > 0"
      using assms by (auto simp: base_def word_gt_0 split: if_splits)
    have b: "(if k_incr k < k_mss k then k\<lparr>k_incr := k_mss k\<rparr> else k) = k\<lparr>k_incr := base\<rparr>"
      by (simp add: base_def)
    have "input_cwnd k prev_una = Inr (if cwnd > k_rmt_wnd k
         then k\<lparr>k_cwnd := k_rmt_wnd k, k_incr := k_rmt_wnd k * k_mss k\<rparr>
         else k\<lparr>k_cwnd := cwnd, k_incr := incr\<rparr>)"
      using pos unfolding input_cwnd_def Let_def b if_P [OF True] if_not_P [OF avoid]
      by (simp add: cwnd_def incr_def)
    with settle [of cwnd incr] show ?thesis by (simp only: sum.inject)
  qed
qed

lemma kcp_inv_mss: "kcp_inv k \<Longrightarrow> k_mss k \<noteq> 0"
  using mtu_ok_mss(2) [of "k_mtu k" "k_mss k" "k_buffer k"] by (auto simp: kcp_inv_def)

lemma kcp_inv_cwnd: "kcp_inv k \<Longrightarrow> kcp_inv (k\<lparr>k_cwnd := c, k_incr := i\<rparr>)"
  by (simp add: kcp_inv_def)

subsection \<open>Properties of \<open>ikcp_input\<close>\<close>

lemma ikcp_input_ok:
  assumes inv: "kcp_inv k" and alloc: "\<forall>j. alloc j \<noteq> None" "\<forall>j. salloc j \<noteq> None"
    and len: "length data < 2 ^ 31" and room: "unat (k_ackcount k) + length data div 24 < 2 ^ 31"
  obtains ret k' where "ikcp_input alloc salloc k (Some data) (int (length data)) = Inr (ret, k')"
    "kcp_inv k'" "ret \<in> {0, -1, -2, -3}" "unat (k_ackcount k') \<le> unat (k_ackcount k) + length data div 24"
proof (cases "length data < 24")
  case True
  then show thesis using inv len by (intro that [of "-1" k]) (simp_all add: ikcp_input_def kcp_consts)
next
  case False
  have wrap: "\<not> wrap_i32 (int (length data)) < sint IKCP_OVERHEAD"
    using False len by (simp add: kcp_consts)
  let ?m = "\<lparr>m_flag = 0, m_maxack = 0, m_latest_ts = 0\<rparr>"
  obtain ret k' m' where loop: "input_loop alloc salloc 0 k ?m data (int (length data)) = Inr (ret, k', m')"
    and inv: "kcp_inv k'" and ret: "ret \<in> {0, -1, -2, -3}"
    and acks: "unat (k_ackcount k') \<le> unat (k_ackcount k) + length data div 24"
    using input_loop_ok [OF inv alloc refl room, of 0 ?m] by blast
  define k2 where "k2 = (if m_flag m' \<noteq> 0 then ikcp_parse_fastack k' (m_maxack m') (m_latest_ts m') else k')"
  have inv2: "kcp_inv k2" using inv by (simp add: k2_def ikcp_parse_fastack_inv)
  obtain c i where cwnd: "input_cwnd k2 (k_snd_una k) = Inr (k2\<lparr>k_cwnd := c, k_incr := i\<rparr>)"
    using input_cwnd_ok [OF kcp_inv_mss [OF inv2]] by blast
  have "ikcp_input alloc salloc k (Some data) (int (length data)) =
      (if ret \<noteq> 0 then Inr (ret, k') else Inr (0, k2\<lparr>k_cwnd := c, k_incr := i\<rparr>))"
    using wrap by (simp add: ikcp_input_def loop k2_def [symmetric] cwnd)
  moreover have "k_ackcount k2 = k_ackcount k'" by (simp add: k2_def frame)
  ultimately show thesis
    using inv ret acks kcp_inv_cwnd [OF inv2]
    by (intro that [of ret "if ret \<noteq> 0 then k' else k2\<lparr>k_cwnd := c, k_incr := i\<rparr>"]) auto
qed

text \<open>
  C5. \<open>ikcp_input\<close> is safe on arbitrary bytes. For any datagram from the
  network, of any length below \<open>2 ^ 31\<close>, a well-formed control block and successful
  allocations, the call returns with 0, -1, -2 or -3: it does not read behind the datagram, it does not write
  outside a segment or the acknowledgement array, it does not divide by zero, its
  loops end, and the control block is well-formed afterwards, also after an early return in the
  middle of the datagram.
\<close>

theorem ikcp_input_safe:
  assumes "kcp_inv k" and "\<forall>j. alloc j \<noteq> None" and "\<forall>j. salloc j \<noteq> None"
    and "length data < 2 ^ 31" and "unat (k_ackcount k) + length data div 24 < 2 ^ 31"
  shows "\<exists>ret k'. ikcp_input alloc salloc k (Some data) (int (length data)) = Inr (ret, k') \<and>
           kcp_inv k' \<and> ret \<in> {0, -1, -2, -3}"
  using ikcp_input_ok [OF assms] by metis

theorem ikcp_input_safe_witness:
  "\<exists>ret k'. ikcp_input (\<lambda>_. Some (\<lambda>_. 0)) example_alloc example_kcp (Some (replicate 100 7)) 100 = Inr (ret, k') \<and>
     kcp_inv k' \<and> ret \<in> {0, -1, -2, -3}"
proof -
  have "k_ackcount example_kcp = 0" by (simp add: example_kcp_def ikcp_create_def)
  then show ?thesis
    using ikcp_input_safe [OF example_kcp_inv _ example_alloc_ok, of "\<lambda>_. Some (\<lambda>_. 0)" "replicate 100 7"]
    by simp
qed

text \<open>
  A datagram whose first segment is not for this connection, is shorter than it says, or
  carries an unknown command is refused with -1, -2 or -3, in this order of
  precedence, before anything of the control block is changed; so is \<open>NULL\<close> or a datagram
  shorter than a header, with -1.
\<close>

theorem ikcp_input_rejects:
  assumes "length data < 2 ^ 31" and "ikcp_decode32u data = Inr (conv, rest)"
    and "decode_header rest = Inr (h, p)"
    and "length data < 24 \<or> conv \<noteq> k_conv k \<or>
         int (length data) - 24 < int (unat (h_len h)) \<or> sint (h_len h) < 0 \<or>
         ucast (h_cmd h) \<notin> {IKCP_CMD_PUSH, IKCP_CMD_ACK, IKCP_CMD_WASK, IKCP_CMD_WINS}"
  shows "ikcp_input alloc salloc k None n = Inr (-1, k) \<and>
    ikcp_input alloc salloc k (Some data) (int (length data)) =
      Inr (if length data < 24 \<or> conv \<noteq> k_conv k then -1
           else if int (length data) - 24 < int (unat (h_len h)) \<or> sint (h_len h) < 0 then -2
           else -3, k)"
proof (cases "length data < 24")
  case False
  then have "\<not> int (length data) < sint IKCP_OVERHEAD"
    "\<not> wrap_i32 (int (length data)) < sint IKCP_OVERHEAD"
    using assms(1) by (simp_all add: kcp_consts)
  with False assms(2-4) show ?thesis
    by (auto simp: ikcp_input_def input_loop.simps [of alloc salloc 0])
qed (use assms(1) in \<open>simp add: ikcp_input_def kcp_consts\<close>)

theorem ikcp_input_rejects_witness:
  "ikcp_input (\<lambda>_. None) (\<lambda>_. None) example_kcp (Some (replicate 24 0)) 24 = Inr (-1, example_kcp)"
proof -
  have conv: "k_conv example_kcp = 1" by (simp add: example_kcp_def ikcp_create_def)
  have rep: "replicate 24 (0 :: u8) = [0, 0, 0, 0] @ replicate 20 0" by (simp add: numeral_eq_Suc)
  have dec: "ikcp_decode32u (replicate 24 0) = Inr (0, replicate 20 0)"
    unfolding rep by simp
  obtain h p where h: "decode_header (replicate 20 0) = Inr (h, p)"
    using decode_header_ok [of "replicate 20 0"] by auto
  show ?thesis
    using ikcp_input_rejects [OF _ dec h, of example_kcp "\<lambda>_. None" "\<lambda>_. None" 0] conv by simp
qed

end
