(* ===== verification/KcpFlush.thy ===== *)
theory KcpFlush
  imports KcpInput
begin

text \<open>
  \<open>ikcp_flush\<close> of \<open>src/kcp_learn/ikcp.c\<close>: the packing of
  acknowledgements, window probes and data segments into datagrams, retransmission, and the
  congestion window after a loss.

  A flush returns the datagrams it hands to the output callback, in order. \<open>f_buf\<close> is
  what lies between \<open>buffer\<close> and \<open>ptr\<close>; a write that does not fit the allocated
  buffer is \<open>Out_Of_Bounds\<close>.
\<close>

subsection \<open>The output buffer\<close>

record flush_out =
  f_sent :: "bytes list"
  f_buf :: bytes

definition ikcp_output :: "ikcpcb \<Rightarrow> bytes list \<Rightarrow> bytes \<Rightarrow> bytes list cresult" where
  "ikcp_output kcp sent data =
     rbind (rguard (k_output kcp \<noteq> None) Assert_Failed) (\<lambda>_.
       if length data = 0 then Inr sent else Inr (sent @ [data]))"

definition make_room :: "ikcpcb \<Rightarrow> int \<Rightarrow> flush_out \<Rightarrow> flush_out cresult" where
  "make_room kcp need out =
     (if int (length (f_buf out)) + need > sint (k_mtu kcp) then
        rbind (ikcp_output kcp (f_sent out) (f_buf out)) (\<lambda>sent. Inr \<lparr>f_sent = sent, f_buf = []\<rparr>)
      else Inr out)"

definition put_bytes :: "ikcpcb \<Rightarrow> bytes \<Rightarrow> flush_out \<Rightarrow> flush_out cresult" where
  "put_bytes kcp bs out =
     (case k_buffer kcp of
        None \<Rightarrow> Inl Null_Deref
      | Some capacity \<Rightarrow>
          rbind (rguard (length (f_buf out) + length bs \<le> capacity) Out_Of_Bounds) (\<lambda>_.
            Inr (out\<lparr>f_buf := f_buf out @ bs\<rparr>)))"

definition put_header :: "ikcpcb \<Rightarrow> ikcpseg \<Rightarrow> flush_out \<Rightarrow> flush_out cresult" where
  "put_header kcp seg out =
     rbind (make_room kcp (sint IKCP_OVERHEAD) out) (put_bytes kcp (ikcp_encode_seg seg))"

subsection \<open>Acknowledgements and window probes\<close>

fun flush_acks ::
  "ikcpcb \<Rightarrow> nat \<Rightarrow> nat \<Rightarrow> ikcpseg \<Rightarrow> flush_out \<Rightarrow> (ikcpseg \<times> flush_out) cresult" where
  "flush_acks kcp i 0 seg out = Inr (seg, out)"
| "flush_acks kcp i (Suc n) seg out =
     rbind (make_room kcp (sint IKCP_OVERHEAD) out) (\<lambda>out.
     rbind (ikcp_ack_get kcp (int i)) (\<lambda>(sn, ts).
     let seg = seg\<lparr>s_sn := sn, s_ts := ts\<rparr> in
     rbind (put_bytes kcp (ikcp_encode_seg seg) out) (\<lambda>out.
     flush_acks kcp (Suc i) n seg out)))"

definition flush_probe :: "ikcpcb \<Rightarrow> ikcpcb" where
  "flush_probe kcp =
     (if k_rmt_wnd kcp = 0 then
        if k_probe_wait kcp = 0 then
          kcp\<lparr>k_probe_wait := IKCP_PROBE_INIT, k_ts_probe := k_current kcp + IKCP_PROBE_INIT\<rparr>
        else if itimediff (k_current kcp) (k_ts_probe kcp) \<ge> 0 then
          let wait = (if k_probe_wait kcp < IKCP_PROBE_INIT then IKCP_PROBE_INIT else k_probe_wait kcp);
              wait = wait + wait div 2;
              wait = (if wait > IKCP_PROBE_LIMIT then IKCP_PROBE_LIMIT else wait)
          in kcp\<lparr>k_probe_wait := wait, k_ts_probe := k_current kcp + wait,
                 k_probe := k_probe kcp OR IKCP_ASK_SEND\<rparr>
        else kcp
      else kcp\<lparr>k_ts_probe := 0, k_probe_wait := 0\<rparr>)"

definition flush_command ::
  "ikcpcb \<Rightarrow> u32 \<Rightarrow> u32 \<Rightarrow> ikcpseg \<Rightarrow> flush_out \<Rightarrow> (ikcpseg \<times> flush_out) cresult" where
  "flush_command kcp ask cmd seg out =
     (if k_probe kcp AND ask \<noteq> 0 then
        let seg = seg\<lparr>s_cmd := cmd\<rparr> in
        rbind (put_header kcp seg out) (\<lambda>out. Inr (seg, out))
      else Inr (seg, out))"

subsection \<open>Moving segments into the send buffer\<close>

definition flush_window :: "ikcpcb \<Rightarrow> u32" where
  "flush_window kcp =
     (let cwnd = imin (k_snd_wnd kcp) (k_rmt_wnd kcp) in
      if k_nocwnd kcp = 0 then imin (k_cwnd kcp) cwnd else cwnd)"

function flush_move :: "u32 \<Rightarrow> u32 \<Rightarrow> ikcpcb \<Rightarrow> ikcpcb" where
  "flush_move cwnd wnd kcp =
     (if itimediff (k_snd_nxt kcp) (k_snd_una kcp + cwnd) < 0 then
        case k_snd_queue kcp of
          [] \<Rightarrow> kcp
        | newseg # rest \<Rightarrow>
            let newseg = newseg\<lparr>s_conv := k_conv kcp, s_cmd := IKCP_CMD_PUSH, s_wnd := wnd,
                  s_ts := k_current kcp, s_sn := k_snd_nxt kcp, s_una := k_rcv_nxt kcp,
                  s_resendts := k_current kcp, s_rto := word_of_int (k_rx_rto kcp),
                  s_fastack := 0, s_xmit := 0\<rparr>
            in flush_move cwnd wnd
                 (kcp\<lparr>k_snd_queue := rest, k_snd_buf := k_snd_buf kcp @ [newseg],
                      k_nsnd_que := k_nsnd_que kcp - 1, k_nsnd_buf := k_nsnd_buf kcp + 1,
                      k_snd_nxt := k_snd_nxt kcp + 1\<rparr>)
      else kcp)"
  by pat_completeness auto
termination by (relation "measure (\<lambda>(_, _, kcp). length (k_snd_queue kcp))") auto

declare flush_move.simps [simp del]

subsection \<open>Sending and retransmitting\<close>

text \<open>Why a segment is sent in this flush: the three branches of the loop.\<close>

datatype send_reason = No_Send | First_Send | Timed_Out | Fast_Resend

definition resend_count :: "ikcpcb \<Rightarrow> u32" where
  "resend_count kcp = (if k_fastresend kcp > 0 then word_of_int (k_fastresend kcp) else 0xffffffff)"

definition rto_slack :: "ikcpcb \<Rightarrow> u32" where
  "rto_slack kcp = (if k_nodelay kcp = 0 then word_of_int (drop_bit 3 (k_rx_rto kcp)) else 0)"

definition flush_decide :: "ikcpcb \<Rightarrow> ikcpseg \<Rightarrow> send_reason \<times> ikcpseg" where
  "flush_decide kcp seg =
     (let current = k_current kcp in
      if s_xmit seg = 0 then
        let rto = word_of_int (k_rx_rto kcp) in
        (First_Send, seg\<lparr>s_xmit := s_xmit seg + 1, s_rto := rto,
                         s_resendts := current + rto + rto_slack kcp\<rparr>)
      else if itimediff current (s_resendts seg) \<ge> 0 then
        let rto = (if k_nodelay kcp = 0
                   then s_rto seg + imax (s_rto seg) (word_of_int (k_rx_rto kcp))
                   else let step = (if k_nodelay kcp < 2 then sint (s_rto seg) else k_rx_rto kcp)
                        in s_rto seg + word_of_int (c_div step 2))
        in (Timed_Out, seg\<lparr>s_xmit := s_xmit seg + 1, s_rto := rto, s_resendts := current + rto\<rparr>)
      else if s_fastack seg \<ge> resend_count kcp \<and>
              (sint (s_xmit seg) \<le> k_fastlimit kcp \<or> k_fastlimit kcp \<le> 0) then
        (Fast_Resend, seg\<lparr>s_xmit := s_xmit seg + 1, s_fastack := 0, s_resendts := current + s_rto seg\<rparr>)
      else (No_Send, seg))"

definition put_segment :: "ikcpcb \<Rightarrow> ikcpseg \<Rightarrow> flush_out \<Rightarrow> flush_out cresult" where
  "put_segment kcp seg out =
     rbind (make_room kcp (sint (IKCP_OVERHEAD + s_len seg)) out) (\<lambda>out.
     rbind (put_bytes kcp (ikcp_encode_seg seg) out) (\<lambda>out.
     if s_len seg > 0 then
       rbind (rguard (unat (s_len seg) \<le> length (s_data seg)) Out_Of_Bounds) (\<lambda>_.
         put_bytes kcp (take (unat (s_len seg)) (s_data seg)) out)
     else Inr out))"

text \<open>The loop over \<open>snd_buf\<close>; \<open>change\<close> and \<open>lost\<close> are its local counters.\<close>

record flush_state =
  fs_kcp :: ikcpcb
  fs_change :: int
  fs_lost :: bool
  fs_out :: flush_out

definition flush_segment :: "u32 \<Rightarrow> ikcpseg \<Rightarrow> flush_state \<Rightarrow> (ikcpseg \<times> flush_state) cresult" where
  "flush_segment wnd seg st =
     (let kcp = fs_kcp st;
          (reason, seg) = flush_decide kcp seg;
          st = (case reason of
                  Timed_Out \<Rightarrow> st\<lparr>fs_kcp := kcp\<lparr>k_xmit := k_xmit kcp + 1\<rparr>, fs_lost := True\<rparr>
                | Fast_Resend \<Rightarrow> st\<lparr>fs_change := fs_change st + 1\<rparr>
                | _ \<Rightarrow> st)
      in if reason = No_Send then Inr (seg, st)
         else
           let seg = seg\<lparr>s_ts := k_current kcp, s_wnd := wnd, s_una := k_rcv_nxt kcp\<rparr> in
           rbind (put_segment kcp seg (fs_out st)) (\<lambda>out.
             let st = st\<lparr>fs_out := out\<rparr>;
                 st = (if s_xmit seg \<ge> k_dead_link kcp
                       then st\<lparr>fs_kcp := (fs_kcp st)\<lparr>k_state := - 1\<rparr>\<rparr> else st)
             in Inr (seg, st)))"

fun flush_data :: "u32 \<Rightarrow> ikcpseg list \<Rightarrow> flush_state \<Rightarrow> (ikcpseg list \<times> flush_state) cresult" where
  "flush_data wnd [] st = Inr ([], st)"
| "flush_data wnd (seg # p) st =
     rbind (flush_segment wnd seg st) (\<lambda>(seg, st).
     rbind (flush_data wnd p st) (\<lambda>(segs, st). Inr (seg # segs, st)))"

definition flush_congestion :: "u32 \<Rightarrow> u32 \<Rightarrow> int \<Rightarrow> bool \<Rightarrow> ikcpcb \<Rightarrow> ikcpcb" where
  "flush_congestion cwnd resent change lost kcp =
     (let kcp = (if change \<noteq> 0 then
                   let inflight = k_snd_nxt kcp - k_snd_una kcp;
                       ssthresh = inflight div 2;
                       ssthresh = (if ssthresh < IKCP_THRESH_MIN then IKCP_THRESH_MIN else ssthresh)
                   in kcp\<lparr>k_ssthresh := ssthresh, k_cwnd := ssthresh + resent,
                          k_incr := (ssthresh + resent) * k_mss kcp\<rparr>
                 else kcp);
          kcp = (if lost then
                   let ssthresh = cwnd div 2;
                       ssthresh = (if ssthresh < IKCP_THRESH_MIN then IKCP_THRESH_MIN else ssthresh)
                   in kcp\<lparr>k_ssthresh := ssthresh, k_cwnd := 1, k_incr := k_mss kcp\<rparr>
                 else kcp)
      in if k_cwnd kcp < 1 then kcp\<lparr>k_cwnd := 1, k_incr := k_mss kcp\<rparr> else kcp)"

subsection \<open>\<open>ikcp_flush\<close>\<close>

text \<open>
  The segment \<open>seg\<close> on the stack: its fields \<open>resendts\<close>, \<open>rto\<close>, \<open>fastack\<close> and
  \<open>xmit\<close> and its data are never read.
\<close>

definition control_seg :: "ikcpcb \<Rightarrow> ikcpseg" where
  "control_seg kcp =
     \<lparr>s_conv = k_conv kcp, s_cmd = IKCP_CMD_ACK, s_frg = 0,
      s_wnd = word_of_int (ikcp_wnd_unused kcp), s_ts = 0, s_sn = 0, s_una = k_rcv_nxt kcp,
      s_len = 0, s_resendts = 0, s_rto = 0, s_fastack = 0, s_xmit = 0, s_data = []\<rparr>"

text \<open>Everything up to the data: acknowledgements, probing, window commands.\<close>

definition flush_control :: "ikcpcb \<Rightarrow> (ikcpcb \<times> flush_out) cresult" where
  "flush_control kcp =
     rbind (flush_acks kcp 0 (nat (sint (k_ackcount kcp))) (control_seg kcp)
              \<lparr>f_sent = [], f_buf = []\<rparr>) (\<lambda>(seg, out).
     let kcp = flush_probe (kcp\<lparr>k_ackcount := 0\<rparr>) in
     rbind (flush_command kcp IKCP_ASK_SEND IKCP_CMD_WASK seg out) (\<lambda>(seg, out).
     rbind (flush_command kcp IKCP_ASK_TELL IKCP_CMD_WINS seg out) (\<lambda>(seg, out).
     Inr (kcp\<lparr>k_probe := 0\<rparr>, out))))"

definition ikcp_flush :: "ikcpcb \<Rightarrow> (bytes list \<times> ikcpcb) cresult" where
  "ikcp_flush kcp =
     (if k_updated kcp = 0 then Inr ([], kcp)
      else
        let wnd = s_wnd (control_seg kcp) in
        rbind (flush_control kcp) (\<lambda>(kcp, out).
        let cwnd = flush_window kcp;
            kcp = flush_move cwnd wnd kcp
        in rbind (flush_data wnd (k_snd_buf kcp)
                    \<lparr>fs_kcp = kcp, fs_change = 0, fs_lost = False, fs_out = out\<rparr>) (\<lambda>(segs, st).
        let kcp = (fs_kcp st)\<lparr>k_snd_buf := segs\<rparr>; out = fs_out st in
        rbind (if length (f_buf out) > 0 then ikcp_output kcp (f_sent out) (f_buf out)
               else Inr (f_sent out)) (\<lambda>sent.
        Inr (sent, flush_congestion cwnd (resend_count kcp) (fs_change st) (fs_lost st) kcp)))))"

subsection \<open>What a flush sends\<close>

text \<open>
  The datagrams are described by the lists of segments packed into them: a packet is
  the header of a segment followed by its payload.
\<close>

definition packet :: "ikcpseg \<Rightarrow> bytes" where
  "packet seg = ikcp_encode_seg seg @ s_data seg"

definition datagram :: "ikcpseg list \<Rightarrow> bytes" where
  "datagram segs = concat (map packet segs)"

lemma datagram_simps [simp]:
  "datagram [] = []"
  "datagram (xs @ ys) = datagram xs @ datagram ys"
  "datagram (x # xs) = packet x @ datagram xs"
  by (simp_all add: datagram_def)

lemma datagram_Nil_iff [simp]: "datagram segs = [] \<longleftrightarrow> segs = []"
proof (cases segs)
  case (Cons s rest)
  have "ikcp_encode_seg s \<noteq> []" using length_encode_seg [of s] by (metis list.size(3) zero_neq_numeral)
  then show ?thesis by (simp add: Cons packet_def)
qed simp

text \<open>The flush has sent or buffered exactly the packets \<open>ps\<close>, in datagrams within the \<open>mtu\<close>.\<close>

definition out_is :: "nat \<Rightarrow> ikcpseg list \<Rightarrow> flush_out \<Rightarrow> bool" where
  "out_is mtu ps out \<longleftrightarrow>
     (\<exists>pss qs. f_sent out = map datagram pss \<and> f_buf out = datagram qs \<and> concat pss @ qs = ps \<and>
        (\<forall>d \<in> set (f_sent out). d \<noteq> [] \<and> length d \<le> mtu) \<and> length (f_buf out) \<le> mtu)"

lemma out_is_empty: "out_is mtu [] \<lparr>f_sent = [], f_buf = []\<rparr>"
  unfolding out_is_def by (intro exI [of _ "[]"]) simp

lemma mtu_inv_fields:
  assumes "mtu_inv k"
  shows "sint (k_mtu k) = int (unat (k_mtu k))" and "k_buffer k = Some ((unat (k_mtu k) + 24) * 3)"
    and "50 \<le> unat (k_mtu k)" and "unat (k_mtu k) < 2 ^ 30"
  using assms by (auto simp: mtu_ok_def sint_small)

lemma make_room_ok:
  assumes "mtu_inv k" and "k_output k \<noteq> None" and "out_is (unat (k_mtu k)) ps out"
    and "need \<le> int (unat (k_mtu k))"
  shows "\<exists>out'. make_room k need out = Inr out' \<and> out_is (unat (k_mtu k)) ps out' \<and>
           int (length (f_buf out')) + need \<le> int (unat (k_mtu k))"
proof (cases "int (length (f_buf out)) + need > sint (k_mtu k)")
  case False
  then show ?thesis using assms mtu_inv_fields(1) [OF assms(1)] by (auto simp: make_room_def)
next
  case True
  from assms(3) obtain pss qs where out: "f_sent out = map datagram pss" "f_buf out = datagram qs"
    "concat pss @ qs = ps" "\<forall>d \<in> set (f_sent out). d \<noteq> [] \<and> length d \<le> unat (k_mtu k)"
    "length (f_buf out) \<le> unat (k_mtu k)"
    by (auto simp: out_is_def)
  let ?sent = "if f_buf out = [] then f_sent out else f_sent out @ [f_buf out]"
  have "make_room k need out = Inr \<lparr>f_sent = ?sent, f_buf = []\<rparr>"
    using True assms(2) by (simp add: make_room_def ikcp_output_def)
  moreover have "out_is (unat (k_mtu k)) ps \<lparr>f_sent = ?sent, f_buf = []\<rparr>"
    unfolding out_is_def
    by (rule exI [of _ "if qs = [] then pss else pss @ [qs]"], rule exI [of _ "[]"]) (use out in auto)
  ultimately show ?thesis using assms(4) by simp
qed

lemma put_bytes_ok:
  assumes "mtu_inv k" and "length (f_buf out) + length bs \<le> unat (k_mtu k)"
  shows "put_bytes k bs out = Inr (out\<lparr>f_buf := f_buf out @ bs\<rparr>)"
  using assms mtu_inv_fields(2) [OF assms(1)] by (simp add: put_bytes_def)

lemma out_is_put:
  assumes "out_is mtu ps out" and "length (f_buf out) + length (packet seg) \<le> mtu"
  shows "out_is mtu (ps @ [seg]) (out\<lparr>f_buf := f_buf out @ packet seg\<rparr>)"
proof -
  from assms(1) obtain pss qs where "f_sent out = map datagram pss" "f_buf out = datagram qs"
    "concat pss @ qs = ps" "\<forall>d \<in> set (f_sent out). d \<noteq> [] \<and> length d \<le> mtu"
    by (auto simp: out_is_def)
  with assms(2) show ?thesis unfolding out_is_def
    by (intro exI [of _ pss] exI [of _ "qs @ [seg]"]) auto
qed

lemma control_packet: "s_data seg = [] \<Longrightarrow> packet seg = ikcp_encode_seg seg"
  by (simp add: packet_def)

lemma put_header_ok:
  assumes "mtu_inv k" "k_output k \<noteq> None" "out_is (unat (k_mtu k)) ps out" "s_data seg = []"
  shows "\<exists>out'. put_header k seg out = Inr out' \<and> out_is (unat (k_mtu k)) (ps @ [seg]) out'"
proof -
  obtain out' where room: "make_room k (sint IKCP_OVERHEAD) out = Inr out'" "out_is (unat (k_mtu k)) ps out'"
    "int (length (f_buf out')) + 24 \<le> int (unat (k_mtu k))"
    using make_room_ok [OF assms(1-3), of "sint IKCP_OVERHEAD"] mtu_inv_fields(3) [OF assms(1)]
    by (auto simp: kcp_consts)
  then have "length (f_buf out') + length (ikcp_encode_seg seg) \<le> unat (k_mtu k)" by simp
  with room put_bytes_ok [OF assms(1)] out_is_put [OF room(2), of seg] show ?thesis
    by (simp add: put_header_def control_packet [OF assms(4)])
qed

lemma put_segment_ok:
  assumes "mtu_inv k" "k_output k \<noteq> None" "out_is (unat (k_mtu k)) ps out" "seg_fits (k_mss k) seg"
  shows "\<exists>out'. put_segment k seg out = Inr out' \<and> out_is (unat (k_mtu k)) (ps @ [seg]) out'"
proof -
  have len: "unat (s_len seg) = length (s_data seg)" and fit: "length (s_data seg) + 24 \<le> unat (k_mtu k)"
    using assms(4) mtu_ok_mss(1) [OF assms(1)] mtu_inv_fields(3) [OF assms(1)]
    by (auto simp: seg_fits_def word_le_nat_alt)
  have need: "sint (IKCP_OVERHEAD + s_len seg) = 24 + int (length (s_data seg))"
  proof -
    have "IKCP_OVERHEAD + s_len seg = of_nat (24 + length (s_data seg))"
      using len by (simp add: kcp_consts flip: len)
    moreover have "24 + length (s_data seg) < 2 ^ 31"
      using fit mtu_inv_fields(4) [OF assms(1)] by simp
    ultimately show ?thesis by (simp only: sint_of_nat_u32)
  qed
  obtain out' where room: "make_room k (sint (IKCP_OVERHEAD + s_len seg)) out = Inr out'"
    "out_is (unat (k_mtu k)) ps out'"
    "int (length (f_buf out')) + (24 + int (length (s_data seg))) \<le> int (unat (k_mtu k))"
    using make_room_ok [OF assms(1-3), of "sint (IKCP_OVERHEAD + s_len seg)"] fit unfolding need by auto
  let ?out = "out'\<lparr>f_buf := f_buf out' @ ikcp_encode_seg seg\<rparr>"
  have hdr: "put_bytes k (ikcp_encode_seg seg) out' = Inr ?out"
    using room(3) by (intro put_bytes_ok [OF assms(1)]) simp
  have data: "put_bytes k (s_data seg) ?out = Inr (out'\<lparr>f_buf := f_buf out' @ packet seg\<rparr>)"
    using room(3) put_bytes_ok [OF assms(1), of ?out "s_data seg"] by (simp add: packet_def)
  have "put_segment k seg out = Inr (out'\<lparr>f_buf := f_buf out' @ packet seg\<rparr>)"
  proof (cases "s_len seg > 0")
    case True
    then show ?thesis using len by (simp add: put_segment_def room(1) hdr data)
  next
    case False
    then have "s_data seg = []" using len by (simp add: word_gt_0)
    with False show ?thesis by (simp add: put_segment_def room(1) hdr packet_def)
  qed
  with out_is_put [OF room(2), of seg] room(3) show ?thesis by (simp add: packet_def)
qed

text \<open>The acknowledgements, and the segment on the stack after them.\<close>

definition ack_packets :: "ikcpseg \<Rightarrow> (u32 \<times> u32) list \<Rightarrow> ikcpseg list" where
  "ack_packets seg as = map (\<lambda>(sn, ts). seg\<lparr>s_sn := sn, s_ts := ts\<rparr>) as"

lemma ack_packets_Cons:
  "ack_packets seg ((sn, ts) # as) =
     seg\<lparr>s_sn := sn, s_ts := ts\<rparr> # ack_packets (seg\<lparr>s_sn := sn, s_ts := ts\<rparr>) as"
  by (simp add: ack_packets_def)

lemma flush_acks_ok:
  assumes inv: "mtu_inv k" "ack_inv k" "k_output k \<noteq> None" and data: "s_data seg = []"
    and "i + n \<le> unat (k_ackcount k)" and "out_is (unat (k_mtu k)) ps out"
  shows "\<exists>out'. flush_acks k i n seg out =
             Inr (last (seg # ack_packets seg (take n (drop i (acks k)))), out') \<and>
           out_is (unat (k_mtu k)) (ps @ ack_packets seg (take n (drop i (acks k)))) out'"
  using assms(4-)
proof (induction n arbitrary: i seg ps out)
  case 0
  then show ?case by (simp add: ack_packets_def)
next
  case (Suc n)
  obtain sn ts where ack: "acks k ! i = (sn, ts)" by (cases "acks k ! i")
  have i: "i < length (acks k)" using Suc.prems(2) length_acks [OF inv(2)] by simp
  have get: "ikcp_ack_get k (int i) = Inr (sn, ts)"
    using ikcp_ack_get_ok [OF inv(2), of i] Suc.prems(2) ack by simp
  have acks: "take (Suc n) (drop i (acks k)) = (sn, ts) # take n (drop (Suc i) (acks k))"
    using Cons_nth_drop_Suc [OF i] ack by (metis take_Suc_Cons)
  let ?seg = "seg\<lparr>s_sn := sn, s_ts := ts\<rparr>"
  obtain out' where put: "put_header k ?seg out = Inr out'" "out_is (unat (k_mtu k)) (ps @ [?seg]) out'"
    using put_header_ok [OF inv(1,3) Suc.prems(3), of ?seg] Suc.prems(1) by auto
  have "flush_acks k i (Suc n) seg out = flush_acks k (Suc i) n ?seg out'"
    using put(1) get by (cases "make_room k (sint IKCP_OVERHEAD) out") (simp_all add: put_header_def)
  moreover have "\<exists>out''. flush_acks k (Suc i) n ?seg out' =
        Inr (last (?seg # ack_packets ?seg (take n (drop (Suc i) (acks k)))), out'') \<and>
      out_is (unat (k_mtu k)) ((ps @ [?seg]) @ ack_packets ?seg (take n (drop (Suc i) (acks k)))) out''"
    using Suc.prems put(2) by (intro Suc.IH) simp_all
  ultimately show ?case by (simp add: acks ack_packets_Cons)
qed

lemma flush_command_ok:
  assumes "mtu_inv k" "k_output k \<noteq> None" "out_is (unat (k_mtu k)) ps out" "s_data seg = []"
  shows "\<exists>out'. flush_command k ask cmd seg out =
      Inr (if k_probe k AND ask \<noteq> 0 then seg\<lparr>s_cmd := cmd\<rparr> else seg, out') \<and>
    out_is (unat (k_mtu k)) (ps @ (if k_probe k AND ask \<noteq> 0 then [seg\<lparr>s_cmd := cmd\<rparr>] else [])) out'"
proof (cases "k_probe k AND ask \<noteq> 0")
  case True
  obtain out' where "put_header k (seg\<lparr>s_cmd := cmd\<rparr>) out = Inr out'"
    "out_is (unat (k_mtu k)) (ps @ [seg\<lparr>s_cmd := cmd\<rparr>]) out'"
    using put_header_ok [OF assms(1-3), of "seg\<lparr>s_cmd := cmd\<rparr>"] assms(4) by auto
  with True show ?thesis by (simp add: flush_command_def)
qed (use assms in \<open>simp add: flush_command_def\<close>)

text \<open>All control packets of a flush, in the order they are sent.\<close>

definition control_packets :: "ikcpcb \<Rightarrow> ikcpseg list" where
  "control_packets k =
     (let acked = ack_packets (control_seg k) (acks k);
          seg = last (control_seg k # acked);
          probe = k_probe (flush_probe k);
          ask = (if probe AND IKCP_ASK_SEND \<noteq> 0 then [seg\<lparr>s_cmd := IKCP_CMD_WASK\<rparr>] else []);
          tell = (if probe AND IKCP_ASK_TELL \<noteq> 0 then [seg\<lparr>s_cmd := IKCP_CMD_WINS\<rparr>] else [])
      in acked @ ask @ tell)"

lemma flush_probe_frame [frame]:
  "\<exists>w t p. flush_probe k = k\<lparr>k_probe_wait := w, k_ts_probe := t, k_probe := p\<rparr>"
proof -
  have "flush_probe k = k\<lparr>k_probe_wait := k_probe_wait (flush_probe k),
      k_ts_probe := k_ts_probe (flush_probe k), k_probe := k_probe (flush_probe k)\<rparr>"
    by (simp add: flush_probe_def Let_def)
  then show ?thesis by blast
qed

lemma flush_probe_ackcount: "k_probe (flush_probe (k\<lparr>k_ackcount := n\<rparr>)) = k_probe (flush_probe k)"
  by (simp add: flush_probe_def Let_def)

definition after_control :: "ikcpcb \<Rightarrow> ikcpcb" where
  "after_control k = (flush_probe (k\<lparr>k_ackcount := 0\<rparr>))\<lparr>k_probe := 0\<rparr>"

lemma flush_control_ok:
  assumes "mtu_inv k" "ack_inv k" "k_output k \<noteq> None" and few: "unat (k_ackcount k) < 2 ^ 31"
  shows "\<exists>out. flush_control k = Inr (after_control k, out) \<and>
           out_is (unat (k_mtu k)) (control_packets k) out"
proof -
  let ?c = "control_seg k" and ?k = "flush_probe (k\<lparr>k_ackcount := 0\<rparr>)"
  have n: "nat (sint (k_ackcount k)) = unat (k_ackcount k)" using few by (simp add: sint_small)
  have all: "take (unat (k_ackcount k)) (drop 0 (acks k)) = acks k" using length_acks [OF assms(2)] by simp
  have cd: "s_data ?c = []" by (simp add: control_seg_def)
  define seg where "seg = last (?c # ack_packets ?c (acks k))"
  obtain out1 where acked: "flush_acks k 0 (nat (sint (k_ackcount k))) ?c \<lparr>f_sent = [], f_buf = []\<rparr> = Inr (seg, out1)"
    "out_is (unat (k_mtu k)) (ack_packets ?c (acks k)) out1"
    using flush_acks_ok [OF assms(1-3) cd _ out_is_empty, of 0 "unat (k_ackcount k)"]
    unfolding n all seg_def by auto
  have seg: "s_data seg = []"
    using cd by (cases "acks k" rule: rev_cases) (auto simp: seg_def ack_packets_def)
  have same: "mtu_inv ?k" "k_output ?k \<noteq> None" "k_mtu ?k = k_mtu k"
    using assms(1,3) flush_probe_frame [of "k\<lparr>k_ackcount := 0\<rparr>"] by auto
  define ask where "ask = (k_probe ?k AND IKCP_ASK_SEND \<noteq> 0)"
  define tell where "tell = (k_probe ?k AND IKCP_ASK_TELL \<noteq> 0)"
  define seg1 where "seg1 = (if ask then seg\<lparr>s_cmd := IKCP_CMD_WASK\<rparr> else seg)"
  define ps1 where "ps1 = ack_packets ?c (acks k) @ (if ask then [seg\<lparr>s_cmd := IKCP_CMD_WASK\<rparr>] else [])"
  have seg1: "s_data seg1 = []" using seg by (simp add: seg1_def)
  obtain out2 where out2: "flush_command ?k IKCP_ASK_SEND IKCP_CMD_WASK seg out1 = Inr (seg1, out2)"
    "out_is (unat (k_mtu k)) ps1 out2"
    using flush_command_ok [OF same(1,2), of _ out1 seg IKCP_ASK_SEND IKCP_CMD_WASK] acked(2) seg
    unfolding same(3) ask_def [symmetric] seg1_def ps1_def by blast
  obtain out3 where out3: "flush_command ?k IKCP_ASK_TELL IKCP_CMD_WINS seg1 out2 =
      Inr (if tell then seg1\<lparr>s_cmd := IKCP_CMD_WINS\<rparr> else seg1, out3)"
    "out_is (unat (k_mtu k)) (ps1 @ (if tell then [seg1\<lparr>s_cmd := IKCP_CMD_WINS\<rparr>] else [])) out3"
    using flush_command_ok [OF same(1,2), of _ out2 seg1 IKCP_ASK_TELL IKCP_CMD_WINS] out2(2) seg1
    unfolding same(3) tell_def [symmetric] by blast
  have "flush_control k = Inr (after_control k, out3)"
    by (simp add: flush_control_def acked(1) out2(1) out3(1) after_control_def Let_def)
  moreover have "seg1\<lparr>s_cmd := IKCP_CMD_WINS\<rparr> = seg\<lparr>s_cmd := IKCP_CMD_WINS\<rparr>" by (simp add: seg1_def)
  then have "ps1 @ (if tell then [seg1\<lparr>s_cmd := IKCP_CMD_WINS\<rparr>] else []) = control_packets k"
    by (simp add: control_packets_def Let_def ps1_def ask_def tell_def flush_probe_ackcount seg_def)
  ultimately show ?thesis using out3(2) by auto
qed

subsection \<open>Numbering new segments\<close>

lemma unsent_iff:
  assumes "seq_off una nxt \<le> 65535" and "unat cwnd \<le> 65535"
  shows "itimediff nxt (una + cwnd) < 0 \<longleftrightarrow> seq_off una nxt < unat cwnd"
proof -
  have "seq_off una (una + cwnd) = unat cwnd" by (simp add: seq_off_def)
  then show ?thesis using itimediff_off [of una nxt "una + cwnd"] assms by simp
qed

lemma snd_ok_number:
  assumes ok: "snd_ok nque (old # que) nbuf buf una nxt rmt" and lt: "seq_off una nxt < 65535"
    and sn: "s_sn new = nxt"
  shows "snd_ok (nque - 1) que (nbuf + 1) (buf @ [new]) una (nxt + 1) rmt"
proof -
  have "seq_off una (nxt + 1) = Suc (seq_off una nxt)" using lt by (simp add: seq_off_Suc)
  moreover have "s_sn s = una" if "buf @ [new] = s # rest" for s rest
    using ok sn that by (cases buf) (auto simp: snd_ok_def)
  ultimately show ?thesis
    using ok lt sn by (auto simp: snd_ok_def sorted_wrt_append less_Suc_eq split: list.splits)
qed

definition flush_new :: "u32 \<Rightarrow> ikcpcb \<Rightarrow> ikcpseg \<Rightarrow> ikcpseg" where
  "flush_new wnd kcp newseg =
     newseg\<lparr>s_conv := k_conv kcp, s_cmd := IKCP_CMD_PUSH, s_wnd := wnd,
       s_ts := k_current kcp, s_sn := k_snd_nxt kcp, s_una := k_rcv_nxt kcp,
       s_resendts := k_current kcp, s_rto := word_of_int (k_rx_rto kcp),
       s_fastack := 0, s_xmit := 0\<rparr>"

text \<open>The segments \<open>flush_move\<close> numbers, from the head of the queue on.\<close>

fun numbered :: "u32 \<Rightarrow> ikcpcb \<Rightarrow> ikcpseg list \<Rightarrow> ikcpseg list" where
  "numbered wnd kcp [] = []"
| "numbered wnd kcp (s # rest) =
     flush_new wnd kcp s # numbered wnd (kcp\<lparr>k_snd_nxt := k_snd_nxt kcp + 1\<rparr>) rest"

lemma length_numbered [simp]: "length (numbered wnd kcp segs) = length segs"
  by (induction segs arbitrary: kcp) auto

lemma numbered_cong:
  "k_conv k' = k_conv k \<Longrightarrow> k_current k' = k_current k \<Longrightarrow> k_snd_nxt k' = k_snd_nxt k \<Longrightarrow>
   k_rcv_nxt k' = k_rcv_nxt k \<Longrightarrow> k_rx_rto k' = k_rx_rto k \<Longrightarrow> numbered wnd k' segs = numbered wnd k segs"
  by (induction segs arbitrary: k k') (simp_all add: flush_new_def)

lemma numbered_nth:
  "i < length segs \<Longrightarrow> numbered wnd kcp segs ! i = flush_new wnd (kcp\<lparr>k_snd_nxt := k_snd_nxt kcp + of_nat i\<rparr>) (segs ! i)"
proof (induction segs arbitrary: i kcp)
  case (Cons s rest)
  then show ?case by (cases i) (simp_all add: algebra_simps)
qed simp

text \<open>How many segments the window lets out.\<close>

definition window_room :: "u32 \<Rightarrow> ikcpcb \<Rightarrow> nat" where
  "window_room cwnd k = min (length (k_snd_queue k)) (unat cwnd - seq_off (k_snd_una k) (k_snd_nxt k))"

lemma flush_move_eq:
  assumes "snd_inv k" and "unat cwnd \<le> 65535"
  shows "flush_move cwnd wnd k =
    (let j = window_room cwnd k in
     k\<lparr>k_snd_queue := drop j (k_snd_queue k),
       k_snd_buf := k_snd_buf k @ numbered wnd k (take j (k_snd_queue k)),
       k_nsnd_que := k_nsnd_que k - of_nat j, k_nsnd_buf := k_nsnd_buf k + of_nat j,
       k_snd_nxt := k_snd_nxt k + of_nat j\<rparr>) \<and> snd_inv (flush_move cwnd wnd k)"
  using assms
proof (induction cwnd wnd k rule: flush_move.induct)
  case (1 cwnd wnd k)
  have off: "seq_off (k_snd_una k) (k_snd_nxt k) \<le> 65535" using 1(2) by (simp add: snd_ok_def)
  note go = unsent_iff [OF off 1(3)]
  show ?case
  proof (cases "seq_off (k_snd_una k) (k_snd_nxt k) < unat cwnd \<and> k_snd_queue k \<noteq> []")
    case False
    then have "flush_move cwnd wnd k = k" using go by (subst flush_move.simps) (auto split: list.splits)
    moreover have "window_room cwnd k = 0" using False by (auto simp: window_room_def)
    ultimately show ?thesis using 1(2) by simp
  next
    case True
    then obtain s rest where que: "k_snd_queue k = s # rest" by (cases "k_snd_queue k") auto
    define k' where "k' = k\<lparr>k_snd_queue := rest, k_snd_buf := k_snd_buf k @ [flush_new wnd k s],
      k_nsnd_que := k_nsnd_que k - 1, k_nsnd_buf := k_nsnd_buf k + 1, k_snd_nxt := k_snd_nxt k + 1\<rparr>"
    have step: "flush_move cwnd wnd k = flush_move cwnd wnd k'"
      using True go by (subst flush_move.simps) (simp add: que k'_def flush_new_def)
    have ok: "snd_inv k'"
      using snd_ok_number [of "k_nsnd_que k" s rest "k_nsnd_buf k" "k_snd_buf k" "k_snd_una k"
          "k_snd_nxt k" "k_rmt_wnd k" "flush_new wnd k s"] 1(2,3) True
      by (simp add: k'_def que flush_new_def)
    define j where "j = window_room cwnd k'"
    have num: "numbered wnd k' xs = numbered wnd (k\<lparr>k_snd_nxt := k_snd_nxt k + 1\<rparr>) xs" for xs
      by (rule numbered_cong) (simp_all add: k'_def)
    have IH: "flush_move cwnd wnd k' = (let j = window_room cwnd k' in
       k'\<lparr>k_snd_queue := drop j (k_snd_queue k'),
         k_snd_buf := k_snd_buf k' @ numbered wnd k' (take j (k_snd_queue k')),
         k_nsnd_que := k_nsnd_que k' - of_nat j, k_nsnd_buf := k_nsnd_buf k' + of_nat j,
         k_snd_nxt := k_snd_nxt k' + of_nat j\<rparr>) \<and> snd_inv (flush_move cwnd wnd k')"
      unfolding k'_def flush_new_def
      using True go ok 1(3) by (intro 1(1) [OF _ que refl]) (simp_all add: k'_def flush_new_def)
    note inv = conjunct2 [OF IH]
    have eq: "flush_move cwnd wnd k' = k\<lparr>k_snd_queue := drop j rest,
         k_snd_buf := (k_snd_buf k @ [flush_new wnd k s]) @ numbered wnd (k\<lparr>k_snd_nxt := k_snd_nxt k + 1\<rparr>) (take j rest),
         k_nsnd_que := k_nsnd_que k - 1 - of_nat j, k_nsnd_buf := k_nsnd_buf k + 1 + of_nat j,
         k_snd_nxt := k_snd_nxt k + 1 + of_nat j\<rparr>"
      using conjunct1 [OF IH] unfolding Let_def num j_def [symmetric] by (simp add: k'_def)
    have room: "window_room cwnd k = Suc j"
      using True off by (simp add: j_def window_room_def k'_def que seq_off_Suc Suc_diff_Suc flip: min_Suc_Suc)
    show ?thesis
    proof (rule conjI)
      show "flush_move cwnd wnd k = (let j = window_room cwnd k in
         k\<lparr>k_snd_queue := drop j (k_snd_queue k),
           k_snd_buf := k_snd_buf k @ numbered wnd k (take j (k_snd_queue k)),
           k_nsnd_que := k_nsnd_que k - of_nat j, k_nsnd_buf := k_nsnd_buf k + of_nat j,
           k_snd_nxt := k_snd_nxt k + of_nat j\<rparr>)"
        unfolding step eq room Let_def by (simp add: que algebra_simps)
    qed (unfold step, rule inv)
  qed
qed

subsection \<open>The data segments\<close>

definition due :: "ikcpcb \<Rightarrow> ikcpseg \<Rightarrow> bool" where
  "due k s \<longleftrightarrow> fst (flush_decide k s) \<noteq> No_Send"

definition stamped :: "u32 \<Rightarrow> ikcpcb \<Rightarrow> ikcpseg \<Rightarrow> ikcpseg" where
  "stamped wnd k s = (snd (flush_decide k s))\<lparr>s_ts := k_current k, s_wnd := wnd, s_una := k_rcv_nxt k\<rparr>"

lemma stamped_fields [simp]:
  "s_sn (stamped wnd k s) = s_sn s" "s_frg (stamped wnd k s) = s_frg s"
  "s_len (stamped wnd k s) = s_len s" "s_data (stamped wnd k s) = s_data s"
  "s_conv (stamped wnd k s) = s_conv s" "s_cmd (stamped wnd k s) = s_cmd s"
  "s_wnd (stamped wnd k s) = wnd"
  by (simp_all add: stamped_def flush_decide_def Let_def)

lemma flush_decide_No_Send: "\<not> due k s \<Longrightarrow> flush_decide k s = (No_Send, s)"
  by (auto simp: due_def flush_decide_def Let_def split: if_splits)

lemma flush_decide_cong: "flush_decide (k\<lparr>k_xmit := x, k_state := y\<rparr>) s = flush_decide k s"
proof -
  have "rto_slack (k\<lparr>k_xmit := x, k_state := y\<rparr>) = rto_slack k"
    "resend_count (k\<lparr>k_xmit := x, k_state := y\<rparr>) = resend_count k"
    by (simp_all add: rto_slack_def resend_count_def)
  then show ?thesis unfolding flush_decide_def Let_def by (simp cong: if_cong)
qed

lemma put_segment_cong: "put_segment (k\<lparr>k_xmit := x, k_state := y\<rparr>) s out = put_segment k s out"
proof -
  have "put_bytes (k\<lparr>k_xmit := x, k_state := y\<rparr>) = put_bytes k"
    "make_room (k\<lparr>k_xmit := x, k_state := y\<rparr>) = make_room k"
    by (simp_all add: fun_eq_iff make_room_def put_bytes_def ikcp_output_def)
  then show ?thesis by (simp only: put_segment_def)
qed

definition updated_seg :: "u32 \<Rightarrow> ikcpcb \<Rightarrow> ikcpseg \<Rightarrow> ikcpseg" where
  "updated_seg wnd k s = (if due k s then stamped wnd k s else s)"

lemma flush_segment_ok:
  assumes "mtu_inv k" "k_output k \<noteq> None" "seg_fits (k_mss k) s" "out_is (unat (k_mtu k)) ps (fs_out st)"
    and st: "fs_kcp st = k\<lparr>k_xmit := x, k_state := y\<rparr>"
  shows "\<exists>st' x' y'. flush_segment wnd s st = Inr (updated_seg wnd k s, st') \<and>
           fs_kcp st' = k\<lparr>k_xmit := x', k_state := y'\<rparr> \<and>
           out_is (unat (k_mtu k)) (ps @ (if due k s then [stamped wnd k s] else [])) (fs_out st')"
proof (cases "due k s")
  case False
  then have "flush_decide (fs_kcp st) s = (No_Send, s)"
    unfolding st flush_decide_cong by (rule flush_decide_No_Send)
  then have "flush_segment wnd s st = Inr (s, st)" by (simp add: flush_segment_def)
  then show ?thesis using False assms(4) st by (auto simp: updated_seg_def)
next
  case True
  obtain r s' where dec: "flush_decide k s = (r, s')" by (cases "flush_decide k s")
  have r: "r \<noteq> No_Send" using True dec by (simp add: due_def)
  have fits: "seg_fits (k_mss k) (stamped wnd k s)" using assms(3) by (simp add: seg_fits_def)
  obtain out where out: "put_segment k (stamped wnd k s) (fs_out st) = Inr out"
    "out_is (unat (k_mtu k)) (ps @ [stamped wnd k s]) out"
    using put_segment_ok [OF assms(1,2,4) fits] by blast
  have stamp: "s'\<lparr>s_ts := k_current k, s_wnd := wnd, s_una := k_rcv_nxt k\<rparr> = stamped wnd k s"
    by (simp add: stamped_def dec)
  define st1 where "st1 = (case r of
                  Timed_Out \<Rightarrow> st\<lparr>fs_kcp := (fs_kcp st)\<lparr>k_xmit := k_xmit (fs_kcp st) + 1\<rparr>, fs_lost := True\<rparr>
                | Fast_Resend \<Rightarrow> st\<lparr>fs_change := fs_change st + 1\<rparr>
                | _ \<Rightarrow> st)"
  have st1: "fs_out st1 = fs_out st"
    "fs_kcp st1 = k\<lparr>k_xmit := (if r = Timed_Out then x + 1 else x), k_state := y\<rparr>"
    using st by (cases r; simp add: st1_def)+
  define st2 where "st2 = (if s_xmit (stamped wnd k s) \<ge> k_dead_link k
       then st1\<lparr>fs_out := out, fs_kcp := (fs_kcp st1)\<lparr>k_state := - 1\<rparr>\<rparr> else st1\<lparr>fs_out := out\<rparr>)"
  have "s_xmit s' = s_xmit (stamped wnd k s)" by (simp add: stamped_def dec)
  then have "flush_segment wnd s st = Inr (stamped wnd k s, st2)"
    using r out(1) stamp st1(1)
    by (simp add: flush_segment_def st flush_decide_cong dec put_segment_cong Let_def
          st1_def [unfolded st, symmetric] st2_def)
  moreover have "fs_out st2 = out" "fs_kcp st2 = k\<lparr>k_xmit := (if r = Timed_Out then x + 1 else x),
      k_state := (if s_xmit (stamped wnd k s) \<ge> k_dead_link k then - 1 else y)\<rparr>"
    by (simp_all add: st2_def st1(2))
  ultimately show ?thesis using True out(2) unfolding updated_seg_def by auto
qed

lemma flush_data_ok:
  assumes "mtu_inv k" "k_output k \<noteq> None" "list_all (seg_fits (k_mss k)) segs"
    and "out_is (unat (k_mtu k)) ps (fs_out st)" and "fs_kcp st = k\<lparr>k_xmit := x, k_state := y\<rparr>"
  shows "\<exists>st' x' y'. flush_data wnd segs st = Inr (map (updated_seg wnd k) segs, st') \<and>
           fs_kcp st' = k\<lparr>k_xmit := x', k_state := y'\<rparr> \<and>
           out_is (unat (k_mtu k)) (ps @ map (stamped wnd k) (filter (due k) segs)) (fs_out st')"
  using assms(3-5)
proof (induction segs arbitrary: ps st x y)
  case Nil
  then show ?case by auto
next
  case (Cons s p)
  obtain st1 x1 y1 where one: "flush_segment wnd s st = Inr (updated_seg wnd k s, st1)"
    "fs_kcp st1 = k\<lparr>k_xmit := x1, k_state := y1\<rparr>"
    "out_is (unat (k_mtu k)) (ps @ (if due k s then [stamped wnd k s] else [])) (fs_out st1)"
    using flush_segment_ok [OF assms(1,2) _ Cons.prems(2,3), of s wnd] Cons.prems(1) by auto
  obtain st2 x2 y2 where rest: "flush_data wnd p st1 = Inr (map (updated_seg wnd k) p, st2)"
    "fs_kcp st2 = k\<lparr>k_xmit := x2, k_state := y2\<rparr>"
    "out_is (unat (k_mtu k)) ((ps @ (if due k s then [stamped wnd k s] else [])) @
       map (stamped wnd k) (filter (due k) p)) (fs_out st2)"
    using Cons.IH [OF _ one(3,2)] Cons.prems(1) by auto
  then show ?case using one(1) by (cases "due k s") auto
qed

subsection \<open>A whole flush\<close>

definition flush_ready :: "ikcpcb \<Rightarrow> ikcpcb" where
  "flush_ready k = flush_move (flush_window (after_control k)) (s_wnd (control_seg k)) (after_control k)"

definition flush_packets :: "ikcpcb \<Rightarrow> ikcpseg list" where
  "flush_packets k =
     control_packets k @
     map (stamped (s_wnd (control_seg k)) (flush_ready k))
       (filter (due (flush_ready k)) (k_snd_buf (flush_ready k)))"

lemma after_control_frame:
  "\<exists>w t. after_control k = k\<lparr>k_ackcount := 0, k_probe_wait := w, k_ts_probe := t, k_probe := 0\<rparr>"
proof -
  obtain w t p where "flush_probe (k\<lparr>k_ackcount := 0\<rparr>) =
      k\<lparr>k_ackcount := 0, k_probe_wait := w, k_ts_probe := t, k_probe := p\<rparr>"
    using flush_probe_frame [of "k\<lparr>k_ackcount := 0\<rparr>"] by blast
  then have "after_control k = k\<lparr>k_ackcount := 0, k_probe_wait := w, k_ts_probe := t, k_probe := 0\<rparr>"
    by (simp add: after_control_def)
  then show ?thesis by blast
qed

lemma ack_ok_clear: "ack_ok a n b \<Longrightarrow> ack_ok a 0 b"
  by (simp add: ack_ok_def)

lemma after_control_inv: "kcp_inv k \<Longrightarrow> kcp_inv (after_control k)"
  using after_control_frame [of k] by (auto simp: kcp_inv_def ack_ok_clear)

lemma flush_window_le: "unat (k_rmt_wnd k) \<le> n \<Longrightarrow> unat (flush_window k) \<le> n"
  by (auto simp: flush_window_def imin_def word_le_nat_alt Let_def)

lemma seg_fits_numbered: "list_all (seg_fits m) (numbered wnd k segs) = list_all (seg_fits m) segs"
  by (induction segs arbitrary: k) (auto simp: flush_new_def seg_fits_def)

lemma flush_move_inv:
  assumes "kcp_inv k" and "unat cwnd \<le> 65535"
  shows "kcp_inv (flush_move cwnd wnd k)"
proof -
  have snd: "snd_inv k" using assms(1) by (simp add: kcp_inv_def)
  define j where "j = window_room cwnd k"
  have eq: "flush_move cwnd wnd k = k\<lparr>k_snd_queue := drop j (k_snd_queue k),
       k_snd_buf := k_snd_buf k @ numbered wnd k (take j (k_snd_queue k)),
       k_nsnd_que := k_nsnd_que k - of_nat j, k_nsnd_buf := k_nsnd_buf k + of_nat j,
       k_snd_nxt := k_snd_nxt k + of_nat j\<rparr>"
    using conjunct1 [OF flush_move_eq [OF snd assms(2), of wnd]] by (simp only: Let_def j_def)
  have "list_all (seg_fits (k_mss k)) (drop j (k_snd_queue k))"
    "list_all (seg_fits (k_mss k)) (take j (k_snd_queue k))"
    using assms(1) by (auto simp: kcp_inv_def list_all_iff dest: in_set_takeD in_set_dropD)
  with assms(1) conjunct2 [OF flush_move_eq [OF snd assms(2), of wnd]] show ?thesis
    unfolding eq by (simp add: kcp_inv_def seg_fits_numbered)
qed

lemma flush_ready_inv: "kcp_inv k \<Longrightarrow> kcp_inv (flush_ready k)"
proof -
  assume "kcp_inv k"
  then have inv: "kcp_inv (after_control k)" by (rule after_control_inv)
  then have "unat (k_rmt_wnd (after_control k)) \<le> 65535" by (simp add: kcp_inv_def snd_ok_def)
  from flush_move_inv [OF inv flush_window_le [OF this]] show ?thesis by (simp add: flush_ready_def)
qed

lemma flush_ready_frame:
  assumes "kcp_inv k"
  shows "\<exists>w t q b nq nb nx. flush_ready k = k\<lparr>k_ackcount := 0, k_probe_wait := w, k_ts_probe := t, k_probe := 0,
           k_snd_queue := q, k_snd_buf := b, k_nsnd_que := nq, k_nsnd_buf := nb, k_snd_nxt := nx\<rparr>"
proof -
  obtain w t where ac: "after_control k =
      k\<lparr>k_ackcount := 0, k_probe_wait := w, k_ts_probe := t, k_probe := 0\<rparr>"
    using after_control_frame by blast
  have inv: "kcp_inv (after_control k)" using assms by (rule after_control_inv)
  then have snd: "snd_inv (after_control k)" and rmt: "unat (k_rmt_wnd (after_control k)) \<le> 65535"
    by (simp_all add: kcp_inv_def snd_ok_def)
  from conjunct1 [OF flush_move_eq [OF snd flush_window_le [OF rmt]]]
  have "\<exists>q b nq nb nx. flush_ready k = (after_control k)\<lparr>k_snd_queue := q, k_snd_buf := b, k_nsnd_que := nq,
      k_nsnd_buf := nb, k_snd_nxt := nx\<rparr>"
    unfolding flush_ready_def Let_def by blast
  then show ?thesis unfolding ac by blast
qed

lemma flush_congestion_frame:
  "\<exists>s c i. flush_congestion cwnd resent change lost k = k\<lparr>k_ssthresh := s, k_cwnd := c, k_incr := i\<rparr> \<and> 1 \<le> c"
proof -
  let ?f = "flush_congestion cwnd resent change lost k"
  have "?f = k\<lparr>k_ssthresh := k_ssthresh ?f, k_cwnd := k_cwnd ?f, k_incr := k_incr ?f\<rparr>"
    unfolding flush_congestion_def Let_def by (simp split: if_split)
  moreover have "1 \<le> (w :: u32) \<longleftrightarrow> w \<noteq> 0" for w by (simp flip: not_less)
  then have "1 \<le> k_cwnd ?f" unfolding flush_congestion_def Let_def by (simp split: if_split)
  ultimately show ?thesis by blast
qed

lemma kcp_inv_congestion: "kcp_inv k \<Longrightarrow> kcp_inv (k\<lparr>k_ssthresh := s, k_cwnd := c, k_incr := i\<rparr>)"
  by (simp add: kcp_inv_def)

lemma kcp_inv_updated_buf:
  assumes "kcp_inv k"
  shows "kcp_inv (k\<lparr>k_xmit := x, k_state := y, k_snd_buf := map (updated_seg wnd k) (k_snd_buf k)\<rparr>)"
proof -
  have "map s_sn (map (updated_seg wnd k) (k_snd_buf k)) = map s_sn (k_snd_buf k)"
    by (simp add: updated_seg_def)
  from snd_ok_same_sn [OF this] assms show ?thesis
    by (auto simp: kcp_inv_def list_all_iff updated_seg_def seg_fits_def)
qed

lemma ikcp_flush_ok:
  assumes inv: "kcp_inv k" and out: "k_output k \<noteq> None" and up: "k_updated k \<noteq> 0"
    and few: "unat (k_ackcount k) < 2 ^ 31"
  obtains pss k' x y s c i where "ikcp_flush k = Inr (map datagram pss, k')"
    and "concat pss = flush_packets k"
    and "\<forall>d \<in> set (map datagram pss). d \<noteq> [] \<and> length d \<le> unat (k_mtu k)"
    and "1 \<le> c" and "kcp_inv k'"
    and "k' = (flush_ready k)\<lparr>k_xmit := x, k_state := y,
       k_snd_buf := map (updated_seg (s_wnd (control_seg k)) (flush_ready k)) (k_snd_buf (flush_ready k)),
       k_ssthresh := s, k_cwnd := c, k_incr := i\<rparr>"
proof -
  let ?wnd = "s_wnd (control_seg k)" and ?r = "flush_ready k"
  have "mtu_inv k" "ack_inv k" using inv by (simp_all add: kcp_inv_def)
  from flush_control_ok [OF this out few] obtain out1 where ctl: "flush_control k = Inr (after_control k, out1)"
    "out_is (unat (k_mtu k)) (control_packets k) out1" by blast
  have r: "kcp_inv ?r" using inv by (rule flush_ready_inv)
  have fr: "k_mtu ?r = k_mtu k" "k_output ?r = k_output k" using flush_ready_frame [OF inv] by auto
  have "mtu_inv ?r" "list_all (seg_fits (k_mss ?r)) (k_snd_buf ?r)" using r by (simp_all add: kcp_inv_def)
  moreover have "?r = ?r\<lparr>k_xmit := k_xmit ?r, k_state := k_state ?r\<rparr>" by simp
  ultimately obtain st x y where data: "flush_data ?wnd (k_snd_buf ?r)
        \<lparr>fs_kcp = ?r, fs_change = 0, fs_lost = False, fs_out = out1\<rparr> =
        Inr (map (updated_seg ?wnd ?r) (k_snd_buf ?r), st)"
    "fs_kcp st = ?r\<lparr>k_xmit := x, k_state := y\<rparr>"
    "out_is (unat (k_mtu k)) (flush_packets k) (fs_out st)"
    using flush_data_ok [where k = ?r and segs = "k_snd_buf ?r" and ps = "control_packets k" and wnd = ?wnd
        and st = "\<lparr>fs_kcp = ?r, fs_change = 0, fs_lost = False, fs_out = out1\<rparr>"
        and x = "k_xmit ?r" and y = "k_state ?r"]
      out ctl(2) fr unfolding flush_packets_def by auto
  define k1 where "k1 = ?r\<lparr>k_xmit := x, k_state := y, k_snd_buf := map (updated_seg ?wnd ?r) (k_snd_buf ?r)\<rparr>"
  have k1: "kcp_inv k1" unfolding k1_def using r by (rule kcp_inv_updated_buf)
  from data(3) obtain pss qs where pq: "f_sent (fs_out st) = map datagram pss" "f_buf (fs_out st) = datagram qs"
    "concat pss @ qs = flush_packets k"
    "\<forall>d \<in> set (f_sent (fs_out st)). d \<noteq> [] \<and> length d \<le> unat (k_mtu k)"
    "length (f_buf (fs_out st)) \<le> unat (k_mtu k)"
    unfolding out_is_def by blast
  define pss' where "pss' = (if qs = [] then pss else pss @ [qs])"
  obtain s c i where cong: "flush_congestion (flush_window (after_control k)) (resend_count k1)
      (fs_change st) (fs_lost st) k1 = k1\<lparr>k_ssthresh := s, k_cwnd := c, k_incr := i\<rparr>" "1 \<le> c"
    using flush_congestion_frame by blast
  have "k_output k1 \<noteq> None" using fr(2) out by (simp add: k1_def)
  then have "ikcp_flush k = Inr (map datagram pss', k1\<lparr>k_ssthresh := s, k_cwnd := c, k_incr := i\<rparr>)"
    using up cong(1)
    by (simp add: ikcp_flush_def ctl(1) Let_def flush_ready_def [symmetric] data(1,2) k1_def [symmetric]
          ikcp_output_def pq(1,2) pss'_def)
  moreover have "concat pss' = flush_packets k" using pq(3) by (auto simp: pss'_def)
  moreover have "\<forall>d \<in> set (map datagram pss'). d \<noteq> [] \<and> length d \<le> unat (k_mtu k)"
    using pq by (auto simp: pss'_def)
  ultimately show ?thesis
    by (rule that [OF _ _ _ cong(2) kcp_inv_congestion [OF k1]]) (simp add: k1_def)
qed

text \<open>
  C6. A flush sends exactly what is due. On a well-formed control block with an output
  callback, \<open>ikcp_flush\<close> returns; the segments packed into its datagrams are, in this order, one
  acknowledgement for each pending one, the window probe and the window report when asked
  for, and every data segment that is due after new segments have been numbered; every
  datagram is non-empty and not longer than the \<open>mtu\<close>, so the output buffer is never
  overrun; and the control block is well-formed afterwards with a congestion window of at
  least one.
\<close>

theorem ikcp_flush_sends:
  assumes "kcp_inv k" and "k_output k \<noteq> None" and "k_updated k \<noteq> 0" and "unat (k_ackcount k) < 2 ^ 31"
  shows "\<exists>pss k'. ikcp_flush k = Inr (map datagram pss, k') \<and> concat pss = flush_packets k \<and>
           (\<forall>d \<in> set (map datagram pss). d \<noteq> [] \<and> length d \<le> unat (k_mtu k)) \<and>
           acks k' = [] \<and> 1 \<le> k_cwnd k' \<and> kcp_inv k'"
proof -
  obtain pss k' x y s c i where *: "ikcp_flush k = Inr (map datagram pss, k')" "concat pss = flush_packets k"
    "\<forall>d \<in> set (map datagram pss). d \<noteq> [] \<and> length d \<le> unat (k_mtu k)" "1 \<le> c" "kcp_inv k'"
    "k' = (flush_ready k)\<lparr>k_xmit := x, k_state := y,
       k_snd_buf := map (updated_seg (s_wnd (control_seg k)) (flush_ready k)) (k_snd_buf (flush_ready k)),
       k_ssthresh := s, k_cwnd := c, k_incr := i\<rparr>"
    by (rule ikcp_flush_ok [OF assms])
  have "k_ackcount (flush_ready k) = 0" using flush_ready_frame [OF assms(1)] by auto
  then have "acks k' = []" by (simp add: *(6) acks_of_def split: option.splits)
  moreover have "1 \<le> k_cwnd k'" using *(4) by (simp add: *(6))
  ultimately show ?thesis using *(1-3,5) by blast
qed

definition example_ready :: ikcpcb where
  "example_ready = example_flight\<lparr>k_updated := 1, k_output := Some 1\<rparr>"

lemma example_ready_inv: "kcp_inv example_ready"
  using example_flight_inv by (simp add: example_ready_def kcp_inv_def)

lemma example_ready_fields:
  "k_output example_ready \<noteq> None" "k_updated example_ready \<noteq> 0" "unat (k_ackcount example_ready) < 2 ^ 31"
  "k_snd_buf example_ready = map in_flight [- 2, - 1, 0]" "unat (k_mtu example_ready) = 1400"
  by (simp_all add: example_ready_def example_flight_def example_kcp_def ikcp_create_def kcp_consts)

theorem ikcp_flush_sends_witness:
  "\<exists>pss k'. ikcp_flush example_ready = Inr (map datagram pss, k') \<and>
     (\<forall>d \<in> set (map datagram pss). length d \<le> 1400) \<and> kcp_inv k'"
  using ikcp_flush_sends [OF example_ready_inv example_ready_fields(1-3)]
  unfolding example_ready_fields(5) by blast

subsection \<open>Retransmission\<close>

lemma flush_ready_snd_buf:
  assumes "kcp_inv k"
  shows "\<exists>new. k_snd_buf (flush_ready k) = k_snd_buf k @ new"
proof -
  have ac: "kcp_inv (after_control k)" using assms by (rule after_control_inv)
  then have "snd_inv (after_control k)" "unat (k_rmt_wnd (after_control k)) \<le> 65535"
    by (simp_all add: kcp_inv_def snd_ok_def)
  from conjunct1 [OF flush_move_eq [OF this(1) flush_window_le [OF this(2)]]]
  have "\<exists>new. k_snd_buf (flush_ready k) = k_snd_buf (after_control k) @ new"
    by (auto simp: flush_ready_def Let_def)
  moreover have "k_snd_buf (after_control k) = k_snd_buf k" using after_control_frame [of k] by auto
  ultimately show ?thesis by simp
qed

lemma due_iff_timer:
  assumes "s_xmit s = 0 \<or> itimediff (k_current k) (s_resendts s) \<ge> 0" and "k_current k' = k_current k"
  shows "due k' s"
  using assms by (auto simp: due_def flush_decide_def Let_def)

lemma in_some_datagram:
  assumes "p \<in> set (concat pss)"
  shows "\<exists>d \<in> set (map datagram pss). \<exists>pre post. d = pre @ packet p @ post"
proof -
  from assms obtain ps where "ps \<in> set pss" "p \<in> set ps" by auto
  moreover from this(2) obtain xs ys where "ps = xs @ p # ys" by (auto simp: in_set_conv_decomp)
  then have "datagram ps = datagram xs @ packet p @ datagram ys" by simp
  ultimately show ?thesis by auto
qed

text \<open>
  C22. No data is given up. A segment that waits in the send buffer is, when it has not been
  sent yet or its timer has expired, contained in a datagram of the flush with its number, fragment
  number and payload, and it stays in the send buffer (until it is acknowledged), as do all
  the others.
\<close>

theorem ikcp_flush_retransmits:
  assumes "kcp_inv k" and "k_output k \<noteq> None" and "k_updated k \<noteq> 0" and "unat (k_ackcount k) < 2 ^ 31"
    and "s \<in> set (k_snd_buf k)" and "s_xmit s = 0 \<or> itimediff (k_current k) (s_resendts s) \<ge> 0"
  shows "\<exists>sent k' d pre p post. ikcp_flush k = Inr (sent, k') \<and> d \<in> set sent \<and> d = pre @ packet p @ post \<and>
           s_sn p = s_sn s \<and> payload p = payload s \<and>
           (\<exists>more. map s_sn (k_snd_buf k') = map s_sn (k_snd_buf k) @ more)"
proof -
  obtain pss k' x y ss c i where *: "ikcp_flush k = Inr (map datagram pss, k')" "concat pss = flush_packets k"
    "\<forall>d \<in> set (map datagram pss). d \<noteq> [] \<and> length d \<le> unat (k_mtu k)" "1 \<le> c" "kcp_inv k'"
    "k' = (flush_ready k)\<lparr>k_xmit := x, k_state := y,
       k_snd_buf := map (updated_seg (s_wnd (control_seg k)) (flush_ready k)) (k_snd_buf (flush_ready k)),
       k_ssthresh := ss, k_cwnd := c, k_incr := i\<rparr>"
    by (rule ikcp_flush_ok [OF assms(1-4)])
  obtain new where new: "k_snd_buf (flush_ready k) = k_snd_buf k @ new"
    using flush_ready_snd_buf [OF assms(1)] by blast
  let ?p = "stamped (s_wnd (control_seg k)) (flush_ready k) s"
  have "k_current (flush_ready k) = k_current k" using flush_ready_frame [OF assms(1)] by auto
  then have "due (flush_ready k) s" by (rule due_iff_timer [OF assms(6)])
  then have "?p \<in> set (concat pss)" using assms(5) *(2) by (auto simp: flush_packets_def new)
  from in_some_datagram [OF this] obtain d pre post where "d \<in> set (map datagram pss)" "d = pre @ packet ?p @ post"
    by blast
  moreover have "map s_sn (k_snd_buf k') = map s_sn (k_snd_buf k) @ map s_sn new"
    by (simp add: *(6) new updated_seg_def)
  moreover have "s_sn ?p = s_sn s" "payload ?p = payload s" by (simp_all add: payload_def)
  ultimately show ?thesis using *(1) by blast
qed

theorem ikcp_flush_retransmits_witness:
  "\<exists>sent k' d pre p post. ikcp_flush (example_ready\<lparr>k_current := 250\<rparr>) = Inr (sent, k') \<and> d \<in> set sent \<and>
     d = pre @ packet p @ post \<and> s_sn p = - 1 \<and> s_data p = [7]"
proof -
  let ?k = "example_ready\<lparr>k_current := 250\<rparr>"
  have inv: "kcp_inv ?k" using example_ready_inv by (simp add: kcp_inv_def)
  have mem: "in_flight (- 1) \<in> set (k_snd_buf ?k)" by (simp add: example_ready_fields(4))
  have late: "s_xmit (in_flight (- 1)) = 0 \<or> itimediff (k_current ?k) (s_resendts (in_flight (- 1))) \<ge> 0"
    by (simp add: in_flight_def itimediff_def)
  from ikcp_flush_retransmits [OF inv _ _ _ mem late] example_ready_fields(1-3)
  obtain sent k' d pre p post where "ikcp_flush ?k = Inr (sent, k')" "d \<in> set sent" "d = pre @ packet p @ post"
    "s_sn p = s_sn (in_flight (- 1))" "payload p = payload (in_flight (- 1))"
    by auto
  then show ?thesis
    by (intro exI [of _ sent] exI [of _ k'] exI [of _ d] exI [of _ pre] exI [of _ p] exI [of _ post])
       (simp add: in_flight_def payload_def)
qed

subsection \<open>Flow control\<close>

lemma numbered_payload: "map payload (numbered wnd k segs) = map payload segs"
  by (induction segs arbitrary: k) (auto simp: flush_new_def payload_def)

lemma numbered_sn: "map s_sn (numbered wnd k segs) = map (\<lambda>i. k_snd_nxt k + of_nat i) [0..<length segs]"
  by (rule nth_equalityI) (simp_all add: numbered_nth flush_new_def)

lemma after_control_fields [simp]:
  "flush_window (after_control k) = flush_window k" "k_snd_queue (after_control k) = k_snd_queue k"
  "k_snd_buf (after_control k) = k_snd_buf k" "k_snd_una (after_control k) = k_snd_una k"
  "k_snd_nxt (after_control k) = k_snd_nxt k" "k_rmt_wnd (after_control k) = k_rmt_wnd k"
  using after_control_frame [of k] by (auto simp: flush_window_def Let_def)

lemma flush_ready_eq:
  assumes "kcp_inv k"
  defines "j \<equiv> window_room (flush_window k) k"
  shows "k_snd_queue (flush_ready k) = drop j (k_snd_queue k)"
    and "k_snd_buf (flush_ready k) = k_snd_buf k @ numbered (s_wnd (control_seg k)) (after_control k) (take j (k_snd_queue k))"
    and "k_snd_nxt (flush_ready k) = k_snd_nxt k + of_nat j"
    and "k_snd_una (flush_ready k) = k_snd_una k"
proof -
  have ac: "kcp_inv (after_control k)" using assms(1) by (rule after_control_inv)
  have "unat (k_rmt_wnd k) \<le> 65535" using assms(1) by (simp add: kcp_inv_def snd_ok_def)
  then have cwnd: "unat (flush_window (after_control k)) \<le> 65535" by (simp add: flush_window_le)
  have "snd_inv (after_control k)" using ac unfolding kcp_inv_def by blast
  from conjunct1 [OF flush_move_eq [OF this cwnd, of "s_wnd (control_seg k)"]]
  show "k_snd_queue (flush_ready k) = drop j (k_snd_queue k)"
    "k_snd_buf (flush_ready k) = k_snd_buf k @ numbered (s_wnd (control_seg k)) (after_control k) (take j (k_snd_queue k))"
    "k_snd_nxt (flush_ready k) = k_snd_nxt k + of_nat j" "k_snd_una (flush_ready k) = k_snd_una k"
    by (simp_all add: flush_ready_def Let_def window_room_def j_def)
qed

text \<open>
  C26. Flow control. A flush takes segments from the head of the send queue, in order,
  as long as fewer numbers are in flight than the smallest of the send window, the
  peer's window and (unless it is switched off) the congestion window allow; it numbers them
  consecutively from \<open>snd_nxt\<close> and appends them, payloads unchanged, to the send buffer;
  never more than 65535 numbers are in flight.
\<close>

theorem ikcp_flush_flow_control:
  assumes "kcp_inv k" and "k_output k \<noteq> None" and "k_updated k \<noteq> 0" and "unat (k_ackcount k) < 2 ^ 31"
  shows "\<exists>sent k' j. ikcp_flush k = Inr (sent, k') \<and>
           j = min (length (k_snd_queue k)) (unat (flush_window k) - seq_off (k_snd_una k) (k_snd_nxt k)) \<and>
           k_snd_queue k' = drop j (k_snd_queue k) \<and>
           map payload (k_snd_buf k') = map payload (k_snd_buf k) @ map payload (take j (k_snd_queue k)) \<and>
           map s_sn (k_snd_buf k') = map s_sn (k_snd_buf k) @ map (\<lambda>i. k_snd_nxt k + of_nat i) [0..<j] \<and>
           k_snd_nxt k' = k_snd_nxt k + of_nat j \<and>
           seq_off (k_snd_una k') (k_snd_nxt k') \<le> 65535"
proof -
  obtain pss k' x y s c i where *: "ikcp_flush k = Inr (map datagram pss, k')" "concat pss = flush_packets k"
    "\<forall>d \<in> set (map datagram pss). d \<noteq> [] \<and> length d \<le> unat (k_mtu k)" "1 \<le> c" "kcp_inv k'"
    "k' = (flush_ready k)\<lparr>k_xmit := x, k_state := y,
       k_snd_buf := map (updated_seg (s_wnd (control_seg k)) (flush_ready k)) (k_snd_buf (flush_ready k)),
       k_ssthresh := s, k_cwnd := c, k_incr := i\<rparr>"
    by (rule ikcp_flush_ok [OF assms])
  define j where "j = window_room (flush_window k) k"
  note ready = flush_ready_eq [OF assms(1), folded j_def]
  have same: "map payload (map (updated_seg w r) xs) = map payload xs"
    "map s_sn (map (updated_seg w r) xs) = map s_sn xs" for w r xs
    by (simp_all add: updated_seg_def payload_def)
  have buf: "k_snd_buf k' = map (updated_seg (s_wnd (control_seg k)) (flush_ready k)) (k_snd_buf (flush_ready k))"
    by (simp add: *(6))
  have len: "length (take j (k_snd_queue k)) = j" by (simp add: j_def window_room_def)
  have "map payload (k_snd_buf k') = map payload (k_snd_buf k) @ map payload (take j (k_snd_queue k))"
    by (simp add: buf same ready numbered_payload del: map_map)
  moreover have "map s_sn (k_snd_buf k') = map s_sn (k_snd_buf k) @ map (\<lambda>i. k_snd_nxt k + of_nat i) [0..<j]"
    by (simp add: buf same ready numbered_sn len del: map_map length_take)
  moreover have "k_snd_queue k' = drop j (k_snd_queue k)" "k_snd_nxt k' = k_snd_nxt k + of_nat j"
    by (simp_all add: *(6) ready)
  moreover have "seq_off (k_snd_una k') (k_snd_nxt k') \<le> 65535" using *(5) by (simp add: kcp_inv_def snd_ok_def)
  moreover have "j = min (length (k_snd_queue k)) (unat (flush_window k) - seq_off (k_snd_una k) (k_snd_nxt k))"
    by (simp add: j_def window_room_def)
  ultimately show ?thesis using *(1) by blast
qed

theorem ikcp_flush_flow_control_witness:
  "\<exists>sent k'. ikcp_flush example_ready = Inr (sent, k') \<and> map s_sn (k_snd_buf k') = [- 2, - 1, 0]"
proof -
  have "k_snd_queue example_ready = []"
    by (simp add: example_ready_def example_flight_def example_kcp_def ikcp_create_def)
  with ikcp_flush_flow_control [OF example_ready_inv example_ready_fields(1-3)] show ?thesis
    by (auto simp: example_ready_fields(4) in_flight_def)
qed

end
