(* ===== verification/KcpUpdate.thy ===== *)
theory KcpUpdate
  imports KcpFlush
begin

text \<open>
  The clock of \<open>src/kcp_learn/ikcp.c\<close>: \<open>ikcp_update\<close>, which decides when to flush, and
  \<open>ikcp_check\<close>, which tells the caller when the next update is needed; window probing; and what happens when
  \<open>ikcp_setmtu\<close> lowers the limit below segments that are already queued.
\<close>

subsection \<open>\<open>ikcp_update\<close> and \<open>ikcp_check\<close>\<close>

definition ikcp_update :: "ikcpcb \<Rightarrow> u32 \<Rightarrow> (bytes list \<times> ikcpcb) cresult" where
  "ikcp_update kcp current =
     (let kcp = kcp\<lparr>k_current := current\<rparr>;
          kcp = (if k_updated kcp = 0 then kcp\<lparr>k_updated := 1, k_ts_flush := current\<rparr> else kcp);
          slap = itimediff (k_current kcp) (k_ts_flush kcp);
          (kcp, slap) = (if slap \<ge> 10000 \<or> slap < -10000
                         then (kcp\<lparr>k_ts_flush := k_current kcp\<rparr>, 0) else (kcp, slap))
      in if slap \<ge> 0 then
           let kcp = kcp\<lparr>k_ts_flush := k_ts_flush kcp + k_interval kcp\<rparr>;
               kcp = (if itimediff (k_current kcp) (k_ts_flush kcp) \<ge> 0
                      then kcp\<lparr>k_ts_flush := k_current kcp + k_interval kcp\<rparr> else kcp)
           in ikcp_flush kcp
         else Inr ([], kcp))"

fun check_loop :: "u32 \<Rightarrow> int \<Rightarrow> ikcpseg list \<Rightarrow> int option" where
  "check_loop current tm_packet [] = Some tm_packet"
| "check_loop current tm_packet (seg # p) =
     (let diff = itimediff (s_resendts seg) current in
      if diff \<le> 0 then None
      else check_loop current (if diff < tm_packet then diff else tm_packet) p)"

definition ikcp_check :: "ikcpcb \<Rightarrow> u32 \<Rightarrow> u32" where
  "ikcp_check kcp current =
     (if k_updated kcp = 0 then current
      else
        let ts_flush = k_ts_flush kcp;
            ts_flush = (if itimediff current ts_flush \<ge> 10000 \<or> itimediff current ts_flush < -10000
                        then current else ts_flush)
        in if itimediff current ts_flush \<ge> 0 then current
           else
             let tm_flush = itimediff ts_flush current in
             case check_loop current 0x7fffffff (k_snd_buf kcp) of
               None \<Rightarrow> current
             | Some tm_packet \<Rightarrow>
                 let minimal = word_of_int (if tm_packet < tm_flush then tm_packet else tm_flush);
                     minimal = (if minimal \<ge> k_interval kcp then k_interval kcp else minimal)
                 in current + minimal)"

subsection \<open>Time\<close>

lemma itimediff_neg_off:
  assumes "itimediff a b \<le> 0" and "- (2 ^ 31) < itimediff a b"
  shows "seq_off a b = nat (- itimediff a b)"
proof -
  have "b - a = word_of_int (- itimediff a b)" by (simp add: itimediff_def)
  moreover have "unat (word_of_int (- itimediff a b) :: u32) = nat (- itimediff a b)"
    using assms by (intro unat_word_of_int_u32) simp_all
  ultimately show ?thesis unfolding seq_off_def by simp
qed

lemma check_loop_le: "check_loop current tm segs = Some r \<Longrightarrow> r \<le> tm \<and> (0 < tm \<longrightarrow> 0 < r)"
  by (induction segs arbitrary: tm) (fastforce simp: Let_def split: if_splits)+

lemma ikcp_check_cases:
  assumes "k_updated k \<noteq> 0" and "timer_inv k"
  obtains (now) "ikcp_check k current = current"
  | (later) d where "ikcp_check k current = current + of_nat d" "0 < d"
      "d \<le> seq_off current (k_ts_flush k)" "seq_off current (k_ts_flush k) \<le> 10000"
      "d \<le> unat (k_interval k)"
proof -
  let ?ts = "k_ts_flush k"
  have iv: "10 \<le> unat (k_interval k)" "unat (k_interval k) \<le> 5000" using assms(2) by (simp_all add: timer_ok_def)
  consider "ikcp_check k current = current"
    | tm where "itimediff current ?ts < 0" "- 10000 \<le> itimediff current ?ts"
        "check_loop current 0x7fffffff (k_snd_buf k) = Some tm"
        "ikcp_check k current = (let m = word_of_int (if tm < itimediff ?ts current then tm else itimediff ?ts current)
           in current + (if m \<ge> k_interval k then k_interval k else m))"
    using assms(1) by (fastforce simp: ikcp_check_def Let_def not_le not_less split: if_splits option.splits)
  then show ?thesis
  proof cases
    case (2 tm)
    define n where "n = seq_off current ?ts"
    have n: "n = nat (- itimediff current ?ts)" "0 < n" "n \<le> 10000"
      using itimediff_neg_off [of current ?ts] 2(1,2) by (simp_all add: n_def)
    have fl: "itimediff ?ts current = int n"
      using itimediff_off [of current ?ts current] n(3) by (simp add: n_def)
    have tm: "0 < tm" using check_loop_le [OF 2(3)] by simp
    define m where "m = nat (if tm < int n then tm else int n)"
    have m: "0 < m" "m \<le> n" "(if tm < int n then tm else int n) = int m" using tm n(2) by (auto simp: m_def)
    have um: "unat (of_nat m :: u32) = m" using m(2) n(3) by simp
    have "ikcp_check k current = current + (if of_nat m \<ge> k_interval k then k_interval k else of_nat m)"
      using 2(4) unfolding fl m(3) Let_def by simp
    also have "\<dots> = current + of_nat (min m (unat (k_interval k)))"
      using um by (auto simp: min_def word_le_nat_alt)
    finally show ?thesis
      using m(1,2) n(3) iv by (intro later [of "min m (unat (k_interval k))"]) (auto simp: n_def)
  qed (rule now)
qed

lemma seq_off_add: "d < 4294967296 \<Longrightarrow> seq_off b (b + of_nat d) = d"
  by (simp add: seq_off_def)

lemma ikcp_update_idle:
  assumes "k_updated k \<noteq> 0" and "seq_off now (k_ts_flush k) \<le> 10000"
    and "seq_off now t < seq_off now (k_ts_flush k)"
  shows "ikcp_update k t = Inr ([], k\<lparr>k_current := t\<rparr>)"
proof -
  have "itimediff t (k_ts_flush k) = int (seq_off now t) - int (seq_off now (k_ts_flush k))"
    using assms(2,3) by (intro itimediff_off) simp_all
  then have "itimediff t (k_ts_flush k) < 0" "- 10000 \<le> itimediff t (k_ts_flush k)"
    using assms(2,3) by simp_all
  then show ?thesis using assms(1) by (simp add: ikcp_update_def Let_def)
qed

text \<open>
  C28. The schedule \<open>ikcp_check\<close> returns is sound. Between the call and the
  returned time, calls of \<open>ikcp_update\<close> would neither send anything nor change more than
  the clock, so they can be skipped; and the returned time is at most one
  flush interval ahead and never later than the pending flush, so no flush is missed.
\<close>

theorem ikcp_check_sound:
  assumes "kcp_inv k" and "k_updated k \<noteq> 0"
  shows "seq_off current (ikcp_check k current) \<le> unat (k_interval k) \<and>
    (ikcp_check k current = current \<or>
       seq_off current (ikcp_check k current) \<le> seq_off current (k_ts_flush k) \<and>
       (\<forall>t. seq_off current t < seq_off current (ikcp_check k current) \<longrightarrow>
          ikcp_update k t = Inr ([], k\<lparr>k_current := t\<rparr>)))"
proof -
  have t: "timer_inv k" using assms(1) by (simp add: kcp_inv_def)
  from assms(2) t show ?thesis
  proof (cases rule: ikcp_check_cases [where current = current])
    case (later d)
    have "seq_off current (ikcp_check k current) = d"
      using later(1,3,4) seq_off_add [of d current] by simp
    with later ikcp_update_idle [OF assms(2), of current] show ?thesis by auto
  qed simp
qed

theorem ikcp_check_sound_witness:
  "ikcp_update (example_kcp\<lparr>k_updated := 1\<rparr>) 50 = Inr ([], example_kcp\<lparr>k_updated := 1, k_current := 50\<rparr>)"
proof -
  let ?k = "example_kcp\<lparr>k_updated := 1\<rparr>"
  have inv: "kcp_inv ?k" using example_kcp_inv by (simp add: kcp_inv_def)
  have "k_ts_flush ?k = 100" "k_interval ?k = 100" "k_snd_buf ?k = []" "k_updated ?k \<noteq> 0"
    by (simp_all add: example_kcp_def ikcp_create_def kcp_consts)
  moreover from this have "ikcp_check ?k 0 = 100"
    by (simp add: ikcp_check_def itimediff_def)
  moreover have "seq_off (0 :: u32) 50 < seq_off (0 :: u32) 100" by (simp add: seq_off_def)
  ultimately show ?thesis using ikcp_check_sound [OF inv, of 0] by auto
qed

subsection \<open>Update\<close>

lemma flush_ready_ts_flush: "kcp_inv k \<Longrightarrow> k_ts_flush (flush_ready k) = k_ts_flush k"
  using flush_ready_frame [of k] by auto

text \<open>The state in which \<open>ikcp_update\<close> calls \<open>ikcp_flush\<close>.\<close>

definition update_ready :: "ikcpcb \<Rightarrow> u32 \<Rightarrow> u32 \<Rightarrow> ikcpcb" where
  "update_ready k t ts = k\<lparr>k_current := t, k_updated := (if k_updated k = 0 then 1 else k_updated k), k_ts_flush := ts\<rparr>"

lemma ikcp_update_cases:
  assumes "timer_inv k"
  obtains (idle) "ikcp_update k t = Inr ([], k\<lparr>k_current := t\<rparr>)" "k_updated k \<noteq> 0"
      "0 < seq_off t (k_ts_flush k)" "seq_off t (k_ts_flush k) \<le> 10000"
  | (flush) ts where "ikcp_update k t = ikcp_flush (update_ready k t ts)"
      "0 < seq_off t ts" "seq_off t ts \<le> unat (k_interval k)"
proof -
  have iv: "10 \<le> unat (k_interval k)" "unat (k_interval k) \<le> 5000" using assms by (simp_all add: timer_ok_def)
  define base where "base = (if k_updated k = 0 then t else k_ts_flush k)"
  define slap where "slap = itimediff t base"
  define ts0 where "ts0 = (if slap \<ge> 10000 \<or> slap < -10000 then t else base)"
  define ts where "ts = (if itimediff t (ts0 + k_interval k) \<ge> 0 then t + k_interval k else ts0 + k_interval k)"
  have run: "ikcp_update k t =
      (if slap \<ge> 0 \<or> slap < -10000 then ikcp_flush (update_ready k t ts)
       else Inr ([], update_ready k t base))"
    by (auto simp: ikcp_update_def Let_def update_ready_def slap_def base_def ts0_def ts_def)
  show ?thesis
  proof (cases "slap \<ge> 0 \<or> slap < -10000")
    case False
    then have "k_updated k \<noteq> 0" by (auto simp: slap_def base_def)
    then have "base = k_ts_flush k" by (simp add: base_def)
    with False run \<open>k_updated k \<noteq> 0\<close> itimediff_neg_off [of t "k_ts_flush k"] show ?thesis
      by (intro idle) (auto simp: update_ready_def slap_def)
  next
    case True
    have "0 \<le> itimediff t ts0" "itimediff t ts0 < 10000" using True by (auto simp: ts0_def slap_def)
    then obtain n where n: "itimediff t ts0 = int n" "n < 10000" by (metis nonneg_int_cases of_nat_less_numeral_iff)
    have off: "seq_off ts0 t = n" using n itimediff_off [of ts0 t ts0] itimediff_nonneg_iff [of t ts0] by auto
    have ivo: "seq_off ts0 (ts0 + k_interval k) = unat (k_interval k)" by (simp add: seq_off_def)
    have diff: "itimediff t (ts0 + k_interval k) = int n - int (unat (k_interval k))"
      using itimediff_off [of ts0 t "ts0 + k_interval k"] off ivo n(2) iv by simp
    have "0 < seq_off t ts \<and> seq_off t ts \<le> unat (k_interval k)"
    proof (cases "n < unat (k_interval k)")
      case True
      then have "ts = ts0 + k_interval k" using diff by (simp add: ts_def)
      with True off ivo seq_off_rebase [of ts0 t ts] show ?thesis by simp
    next
      case False
      then have "ts = t + k_interval k" using diff by (simp add: ts_def)
      with iv show ?thesis by (simp add: seq_off_def)
    qed
    with True run show ?thesis by (intro flush [of ts]) simp_all
  qed
qed

text \<open>
  C29. \<open>ikcp_update\<close> always succeeds and keeps time. On a well-formed control block with
  an output callback the call returns and leaves the control block well-formed with its clock
  at the given time; and the pending flush is then in the
  future, at most 10 seconds ahead, and at most one interval ahead when the call
  flushed, whatever the clock was before (also when it jumped or wrapped around).
\<close>

theorem ikcp_update_keeps_time:
  assumes "kcp_inv k" and "k_output k \<noteq> None" and "unat (k_ackcount k) < 2 ^ 31"
  shows "\<exists>sent k'. ikcp_update k t = Inr (sent, k') \<and> kcp_inv k' \<and> k_current k' = t \<and>
           0 < seq_off t (k_ts_flush k') \<and> seq_off t (k_ts_flush k') \<le> 10000 \<and>
           (sent \<noteq> [] \<longrightarrow> seq_off t (k_ts_flush k') \<le> unat (k_interval k))"
proof -
  have tm: "timer_inv k" using assms(1) by (simp add: kcp_inv_def)
  then show ?thesis
  proof (cases rule: ikcp_update_cases [where t = t])
    case idle
    have "kcp_inv (k\<lparr>k_current := t\<rparr>)" using assms(1) by (simp add: kcp_inv_def)
    with idle show ?thesis by simp
  next
    case (flush ts)
    let ?k = "update_ready k t ts"
    have inv: "kcp_inv ?k" using assms(1) by (simp add: update_ready_def kcp_inv_def)
    have ready: "k_output ?k \<noteq> None" "k_updated ?k \<noteq> 0" "unat (k_ackcount ?k) < 2 ^ 31"
      using assms(2,3) by (simp_all add: update_ready_def)
    obtain pss k' x y s c i where *: "ikcp_flush ?k = Inr (map datagram pss, k')" "concat pss = flush_packets ?k"
      "\<forall>d \<in> set (map datagram pss). d \<noteq> [] \<and> length d \<le> unat (k_mtu ?k)" "1 \<le> c" "kcp_inv k'"
      "k' = (flush_ready ?k)\<lparr>k_xmit := x, k_state := y,
         k_snd_buf := map (updated_seg (s_wnd (control_seg ?k)) (flush_ready ?k)) (k_snd_buf (flush_ready ?k)),
         k_ssthresh := s, k_cwnd := c, k_incr := i\<rparr>"
      by (rule ikcp_flush_ok [OF inv ready])
    have "k_ts_flush (flush_ready ?k) = ts" "k_current (flush_ready ?k) = t"
      using flush_ready_frame [OF inv] by (auto simp: update_ready_def)
    then have "k_ts_flush k' = ts" "k_current k' = t" by (simp_all add: *(6))
    moreover have "unat (k_interval k) \<le> 5000" using tm by (simp add: timer_ok_def)
    ultimately show ?thesis using flush *(1,5) by auto
  qed
qed

theorem ikcp_update_keeps_time_witness:
  "\<exists>sent k'. ikcp_update example_ready 4294967295 = Inr (sent, k') \<and> kcp_inv k' \<and>
     seq_off 4294967295 (k_ts_flush k') \<le> 10000"
  using ikcp_update_keeps_time [OF example_ready_inv example_ready_fields(1,3), of 4294967295] by blast

subsection \<open>Lowering the \<open>mtu\<close> under queued segments\<close>

lemma flush_move_keeps:
  "(\<exists>new. k_snd_buf (flush_move cwnd wnd k) = k_snd_buf k @ new) \<and>
   k_mtu (flush_move cwnd wnd k) = k_mtu k \<and> k_buffer (flush_move cwnd wnd k) = k_buffer k \<and>
   k_output (flush_move cwnd wnd k) = k_output k"
proof (induction cwnd wnd k rule: flush_move.induct)
  case (1 cwnd wnd k)
  show ?case
  proof (cases "itimediff (k_snd_nxt k) (k_snd_una k + cwnd) < 0 \<and> k_snd_queue k \<noteq> []")
    case True
    then obtain s rest where "k_snd_queue k = s # rest" by (cases "k_snd_queue k") auto
    with True 1 show ?thesis by (subst (1 2 3 4) flush_move.simps) auto
  next
    case False
    then have "flush_move cwnd wnd k = k" by (subst flush_move.simps) (auto split: list.splits)
    then show ?thesis by simp
  qed
qed

lemma put_segment_overflow:
  assumes "k_output k \<noteq> None" and "k_buffer k = Some cap" and "24 \<le> cap" and "f_buf out = []"
    and "unat (s_len s) = length (s_data s)" and "cap < 24 + length (s_data s)"
    and "sint (k_mtu k) < sint (IKCP_OVERHEAD + s_len s)"
  shows "put_segment k s out = Inl Out_Of_Bounds"
proof -
  have "make_room k (sint (IKCP_OVERHEAD + s_len s)) out = Inr \<lparr>f_sent = f_sent out, f_buf = []\<rparr>"
    using assms(1,4,7) by (simp add: make_room_def ikcp_output_def)
  moreover have "s_len s > 0" using assms(3,5,6) by (auto simp: word_gt_0)
  ultimately show ?thesis using assms(2,3,5,6) by (simp add: put_segment_def put_bytes_def)
qed

lemma flush_control_idle:
  assumes "k_ackcount k = 0" and "k_probe k = 0" and "k_rmt_wnd k \<noteq> 0"
  shows "flush_control k = Inr (after_control k, \<lparr>f_sent = [], f_buf = []\<rparr>)"
  using assms by (simp add: flush_control_def after_control_def flush_probe_def flush_command_def)

lemma ikcp_flush_overflow:
  assumes "k_output k \<noteq> None" and "k_buffer k = Some cap" and "24 \<le> cap"
    and "k_updated k \<noteq> 0" and "k_ackcount k = 0" and "k_probe k = 0" and "k_rmt_wnd k \<noteq> 0"
    and "k_snd_buf k = s # rest" and "s_xmit s = 0"
    and "unat (s_len s) = length (s_data s)" and "cap < 24 + length (s_data s)"
    and "sint (k_mtu k) < sint (IKCP_OVERHEAD + s_len s)"
  shows "ikcp_flush k = Inl Out_Of_Bounds"
proof -
  let ?wnd = "s_wnd (control_seg k)"
  define r where "r = flush_move (flush_window k) ?wnd (after_control k)"
  have ac: "k_mtu (after_control k) = k_mtu k" "k_buffer (after_control k) = k_buffer k"
    "k_output (after_control k) = k_output k" "k_snd_buf (after_control k) = s # rest"
    using after_control_frame [of k] assms(8) by auto
  obtain new where r: "k_snd_buf r = s # new" "k_mtu r = k_mtu k" "k_buffer r = Some cap" "k_output r \<noteq> None"
    using flush_move_keeps [of "flush_window k" ?wnd "after_control k"] ac assms(1,2)
    unfolding r_def by auto
  let ?out = "\<lparr>f_sent = [], f_buf = []\<rparr>"
  let ?st = "\<lparr>fs_kcp = r, fs_change = 0, fs_lost = False, fs_out = ?out\<rparr>"
  obtain s' where s': "flush_decide r s = (First_Send, s')" "s_len s' = s_len s" "s_data s' = s_data s"
    using assms(9) by (simp add: flush_decide_def Let_def)
  have "put_segment r (s'\<lparr>s_ts := k_current r, s_wnd := ?wnd, s_una := k_rcv_nxt r\<rparr>) ?out = Inl Out_Of_Bounds"
    using assms(3,10-12) r s' by (intro put_segment_overflow [of r cap]) simp_all
  then have "flush_segment ?wnd s ?st = Inl Out_Of_Bounds"
    using s'(1) by (simp add: flush_segment_def Let_def)
  then have "flush_data ?wnd (k_snd_buf r) ?st = Inl Out_Of_Bounds" by (simp add: r(1))
  then show ?thesis
    using assms(4) flush_control_idle [OF assms(5-7)] by (simp add: ikcp_flush_def Let_def r_def [symmetric])
qed

text \<open>
  \<open>ikcp_setmtu\<close> does not look at what is queued. When it lowers the limit so far that
  an unsent segment no longer fits three new datagrams, it succeeds and frees the
  old output buffer, and the next flush writes behind the end of the new one. (The
  invariant that excludes this is the hypothesis of \<open>ikcp_setmtu_inv\<close>: the segments fit the new limit.)
\<close>

theorem ikcp_setmtu_overflow:
  assumes "kcp_inv k" and "k_output k \<noteq> None" and "k_updated k \<noteq> 0" and "k_ackcount k = 0"
    and "k_probe k = 0" and "k_rmt_wnd k \<noteq> 0" and "k_snd_buf k = s # rest" and "s_xmit s = 0"
    and "50 \<le> mtu" and "mtu < 2 ^ 30" and "alloc 0 \<noteq> None" and "(mtu + 24) * 3 < 24 + int (length (s_data s))"
  shows "fst (ikcp_setmtu alloc k mtu) = 0 \<and> ikcp_flush (snd (ikcp_setmtu alloc k mtu)) = Inl Out_Of_Bounds"
proof -
  let ?k = "snd (ikcp_setmtu alloc k mtu)"
  have set: "ikcp_setmtu alloc k mtu = (0, k\<lparr>k_mtu := word_of_int mtu,
      k_mss := word_of_int mtu - IKCP_OVERHEAD, k_buffer := Some (buffer_size (word_of_int mtu))\<rparr>)"
    using assms(9,11) by (simp add: ikcp_setmtu_def kcp_consts)
  have buf: "buffer_size (word_of_int mtu) = (nat mtu + 24) * 3"
    using mtu_ok_setmtu [OF assms(9,10)] assms(9,10) by (simp add: mtu_ok_def unat_word_of_int_u32)
  have fits: "seg_fits (k_mss k) s" and mss: "unat (k_mss k) < 2 ^ 30"
    using assms(1,7) mtu_ok_mss(3) by (auto simp: kcp_inv_def)
  then have len: "unat (s_len s) = length (s_data s)" "length (s_data s) < 2 ^ 30"
    by (auto simp: seg_fits_def word_le_nat_alt)
  have need: "sint (IKCP_OVERHEAD + s_len s) = 24 + int (length (s_data s))"
  proof -
    have "of_nat (length (s_data s)) = s_len s" using len(1) by (metis of_nat_unat_id)
    then show ?thesis
      using sint_of_nat_u32 [of "24 + length (s_data s)"] len(2) by (simp add: kcp_consts)
  qed
  have "ikcp_flush ?k = Inl Out_Of_Bounds"
  proof (rule ikcp_flush_overflow)
    show "k_buffer ?k = Some ((nat mtu + 24) * 3)" by (simp add: set buf)
    show "sint (k_mtu ?k) < sint (IKCP_OVERHEAD + s_len s)"
      using assms(9,10,12) sint_word_of_int_id [of mtu] by (simp add: set need)
    have "int ((nat mtu + 24) * 3) < int (24 + length (s_data s))" using assms(9,12) by simp
    then show "(nat mtu + 24) * 3 < 24 + length (s_data s)" by (simp only: of_nat_less_iff)
  qed (use assms len in \<open>simp_all add: set\<close>)
  then show ?thesis by (simp add: set)
qed

definition example_large :: ikcpcb where
  "example_large = example_ready\<lparr>k_snd_buf := [(in_flight (- 2))\<lparr>s_len := 1000, s_xmit := 0, s_data := replicate 1000 7\<rparr>],
     k_nsnd_buf := 1\<rparr>"

lemma example_large_inv: "kcp_inv example_large"
proof -
  have "snd_inv example_large"
    by (simp add: example_large_def example_ready_def example_flight_def example_kcp_def ikcp_create_def
          kcp_consts snd_ok_def in_flight_def seq_off_def)
  moreover have "payload_inv example_large"
    by (simp add: example_large_def example_ready_def example_flight_def example_kcp_def ikcp_create_def
          kcp_consts in_flight_def seg_fits_def)
  ultimately show ?thesis
    using example_ready_inv by (simp add: kcp_inv_def) (simp add: example_large_def)
qed

theorem ikcp_setmtu_overflow_witness:
  "ikcp_flush (snd (ikcp_setmtu (\<lambda>_. Some (\<lambda>_. 0)) example_large 50)) = Inl Out_Of_Bounds"
proof -
  have "k_output example_large \<noteq> None" "k_updated example_large \<noteq> 0" "k_ackcount example_large = 0"
    "k_probe example_large = 0" "k_rmt_wnd example_large \<noteq> 0"
    "k_snd_buf example_large = (in_flight (- 2))\<lparr>s_len := 1000, s_xmit := 0, s_data := replicate 1000 7\<rparr> # []"
    by (simp_all add: example_large_def example_ready_def example_flight_def example_kcp_def ikcp_create_def kcp_consts)
  from ikcp_setmtu_overflow [OF example_large_inv this, of 50 "\<lambda>_. Some (\<lambda>_. 0)"] show ?thesis by simp
qed

subsection \<open>Probing a closed window\<close>

lemma or_and_self: "(x OR a) AND a = (a :: u32)"
  by (rule bit_word_eqI) (auto simp: bit_simps)

lemma probe_backoff:
  assumes "7000 \<le> unat (w :: u32)" and "unat w \<le> 120000"
  shows "unat (if w + w div 2 > 120000 then 120000 else w + w div 2) = min 120000 (unat w + unat w div 2)"
proof -
  have "unat (w + w div 2) = unat w + unat w div 2"
    using assms(2) by (simp add: unat_word_ariths unat_div)
  then show ?thesis by (auto simp: word_less_nat_alt)
qed

text \<open>
  While the peer's window is closed, the wait between probes is kept between 7 and 120 seconds
  and grows by half with every probe; when it has expired, the flush sends
  a window probe and schedules the next one.
\<close>

theorem window_probe:
  assumes "k_rmt_wnd k = 0"
    and "k_probe_wait k = 0 \<or> 7000 \<le> unat (k_probe_wait k) \<and> unat (k_probe_wait k) \<le> 120000"
  shows "7000 \<le> unat (k_probe_wait (flush_probe k)) \<and> unat (k_probe_wait (flush_probe k)) \<le> 120000 \<and>
    (k_probe_wait k \<noteq> 0 \<and> itimediff (k_current k) (k_ts_probe k) \<ge> 0 \<longrightarrow>
       (\<exists>p \<in> set (flush_packets k). s_cmd p = IKCP_CMD_WASK) \<and>
       unat (k_probe_wait (flush_probe k)) = min 120000 (unat (k_probe_wait k) + unat (k_probe_wait k) div 2) \<and>
       k_ts_probe (flush_probe k) = k_current k + k_probe_wait (flush_probe k))"
proof (cases "k_probe_wait k \<noteq> 0 \<and> itimediff (k_current k) (k_ts_probe k) \<ge> 0")
  case False
  then show ?thesis using assms by (auto simp: flush_probe_def kcp_consts)
next
  case True
  let ?w = "k_probe_wait k"
  have w: "7000 \<le> unat ?w" "unat ?w \<le> 120000" using True assms(2) by auto
  then have "\<not> ?w < 7000" by (simp add: word_less_nat_alt)
  then have eq: "flush_probe k = k\<lparr>k_probe_wait := if ?w + ?w div 2 > 120000 then 120000 else ?w + ?w div 2,
      k_ts_probe := k_current k + (if ?w + ?w div 2 > 120000 then 120000 else ?w + ?w div 2),
      k_probe := k_probe k OR IKCP_ASK_SEND\<rparr>"
    using True assms(1) by (simp add: flush_probe_def Let_def kcp_consts)
  have "IKCP_ASK_SEND \<noteq> 0" by (simp add: kcp_consts)
  then have "\<exists>p \<in> set (flush_packets k). s_cmd p = IKCP_CMD_WASK"
    by (auto simp: flush_packets_def control_packets_def Let_def eq or_and_self)
  then show ?thesis using probe_backoff [OF w] w by (simp add: eq)
qed

theorem window_probe_witness:
  "\<exists>p \<in> set (flush_packets (example_ready\<lparr>k_rmt_wnd := 0, k_probe_wait := 7000, k_ts_probe := 0, k_current := 5\<rparr>)).
     s_cmd p = IKCP_CMD_WASK"
  using window_probe [of "example_ready\<lparr>k_rmt_wnd := 0, k_probe_wait := 7000, k_ts_probe := 0, k_current := 5\<rparr>"]
  by (simp add: itimediff_def)

end
