(* ===== verification/KcpProtocol.thy ===== *)
theory KcpProtocol
  imports KcpUpdate
begin

text \<open>
  Two endpoints and a network. An endpoint \<open>A\<close> sends messages to an endpoint \<open>B\<close> over a network
  that loses, duplicates and reorders the datagrams \<open>A\<close> hands to its output callback; what
  travels from \<open>B\<close> to \<open>A\<close> is arbitrary bytes. Each step of the system is one call of the C
  interface on one of the two control blocks. The theory proves that what \<open>B\<close>'s user
  receives is, in every reachable state, a prefix of what \<open>A\<close>'s user has sent.
\<close>

subsection \<open>What reaches the wire is what was queued\<close>

text \<open>
  \<open>log\<close> is the list of payloads (fragment number and data) to which \<open>A\<close> has assigned the
  sequence numbers 0, 1, 2, and so on. A segment is genuine if it carries the payload of its number.
\<close>

definition genuine :: "(u32 \<times> bytes) list \<Rightarrow> ikcpseg \<Rightarrow> bool" where
  "genuine log s \<longleftrightarrow> (\<exists>i < length log. s_sn s = of_nat i \<and> payload s = log ! i)"

definition genuine_push :: "u32 \<Rightarrow> (u32 \<times> bytes) list \<Rightarrow> ikcpseg \<Rightarrow> bool" where
  "genuine_push conv log s \<longleftrightarrow>
     genuine log s \<and> s_conv s = conv \<and> s_cmd s = IKCP_CMD_PUSH \<and> unat (s_len s) = length (s_data s) \<and>
     unat (s_len s) < 2 ^ 30 \<and> unat (s_frg s) < 256"

definition control_packet_of :: "u32 \<Rightarrow> ikcpseg \<Rightarrow> bool" where
  "control_packet_of conv s \<longleftrightarrow>
     s_cmd s \<in> {IKCP_CMD_ACK, IKCP_CMD_WASK, IKCP_CMD_WINS} \<and> s_conv s = conv \<and> s_len s = 0 \<and> s_data s = [] \<and>
     unat (s_frg s) < 256"

definition wire_ok :: "u32 \<Rightarrow> (u32 \<times> bytes) list \<Rightarrow> bytes \<Rightarrow> bool" where
  "wire_ok conv log d \<longleftrightarrow>
     (\<exists>ps. d = datagram ps \<and> length d < 2 ^ 31 \<and> (\<forall>p \<in> set ps. control_packet_of conv p \<or> genuine_push conv log p))"

lemma genuine_mono: "genuine log s \<Longrightarrow> genuine (log @ new) s"
  by (auto simp: genuine_def nth_append intro: exI [of _ "i" for i])

lemma genuine_push_mono: "genuine_push conv log s \<Longrightarrow> genuine_push conv (log @ new) s"
  by (simp add: genuine_push_def genuine_mono)

lemma wire_ok_mono: "wire_ok conv log d \<Longrightarrow> wire_ok conv (log @ new) d"
  unfolding wire_ok_def by (blast intro: genuine_push_mono)

lemma control_packets_ok: "\<forall>p \<in> set (control_packets k). control_packet_of (k_conv k) p"
proof -
  let ?acked = "ack_packets (control_seg k) (acks k)"
  have acked: "p \<in> set (control_seg k # ?acked) \<Longrightarrow>
      s_cmd p = IKCP_CMD_ACK \<and> s_conv p = k_conv k \<and> s_len p = 0 \<and> s_data p = [] \<and> s_frg p = 0" for p
    by (auto simp: ack_packets_def control_seg_def)
  have "last (control_seg k # ?acked) \<in> set (control_seg k # ?acked)" by (rule last_in_set) simp
  note l = acked [OF this]
  define l where "l = last (control_seg k # ?acked)"
  have "p \<in> set ?acked \<or> p = l\<lparr>s_cmd := IKCP_CMD_WASK\<rparr> \<or> p = l\<lparr>s_cmd := IKCP_CMD_WINS\<rparr>"
    if "p \<in> set (control_packets k)" for p
    using that unfolding control_packets_def Let_def l_def [symmetric] by (auto split: if_splits)
  moreover have "control_packet_of (k_conv k) p" if "p \<in> set ?acked" for p
    using acked [of p] that by (simp add: control_packet_of_def)
  moreover have "control_packet_of (k_conv k) (l\<lparr>s_cmd := c\<rparr>)" if "c \<in> {IKCP_CMD_WASK, IKCP_CMD_WINS}" for c
    using l that by (auto simp: control_packet_of_def l_def)
  ultimately show ?thesis by blast
qed

subsection \<open>The sending endpoint\<close>

definition same_wire :: "ikcpseg \<Rightarrow> ikcpseg \<Rightarrow> bool" where
  "same_wire s t \<longleftrightarrow>
     s_sn t = s_sn s \<and> s_frg t = s_frg s \<and> s_len t = s_len s \<and> s_data t = s_data s \<and>
     s_conv t = s_conv s \<and> s_cmd t = s_cmd s"

text \<open>The send buffer lost some segments, and nothing of what the others put on the wire changed.\<close>

definition snd_sub :: "ikcpcb \<Rightarrow> ikcpcb \<Rightarrow> bool" where
  "snd_sub k k' \<longleftrightarrow> same_config k k' \<and> (\<forall>t \<in> set (k_snd_buf k'). \<exists>s \<in> set (k_snd_buf k). same_wire s t)"

lemma same_wire_refl [simp]: "same_wire s s"
  by (simp add: same_wire_def)

lemma same_wire_in: "t \<in> S \<Longrightarrow> \<exists>s \<in> S. same_wire s t"
  by (rule bexI [of _ t]) simp_all

lemma snd_sub_refl [simp]: "snd_sub k k"
  by (simp add: snd_sub_def same_wire_in)

lemma same_config_trans: "same_config a b \<Longrightarrow> same_config b c \<Longrightarrow> same_config a c"
  by (simp add: same_config_def)

lemma snd_sub_trans: "snd_sub a b \<Longrightarrow> snd_sub b c \<Longrightarrow> snd_sub a c"
  unfolding snd_sub_def by (fastforce intro: same_config_trans simp: same_wire_def)

lemma genuine_push_same_wire: "same_wire s t \<Longrightarrow> genuine_push conv log s \<Longrightarrow> genuine_push conv log t"
  by (simp add: genuine_push_def genuine_def same_wire_def payload_def)

lemma snd_sub_subset:
  "same_config k k' \<Longrightarrow> set (k_snd_buf k') \<subseteq> set (k_snd_buf k) \<Longrightarrow> snd_sub k k'"
  unfolding snd_sub_def using same_wire_refl by blast

lemma parse_una_sub: "snd_sub k (ikcp_parse_una k una)"
  by (rule snd_sub_subset)
     (simp add: frame, auto simp: ikcp_parse_una_def una_loop_eq dest: set_dropWhileD)

lemma shrink_sub: "snd_sub k (ikcp_shrink_buf k)"
  by (rule snd_sub_subset) (simp add: frame, simp add: ikcp_shrink_buf_def split: list.splits)

lemma ack_loop_subset: "ack_loop sn buf = Some buf' \<Longrightarrow> set buf' \<subseteq> set buf"
proof (induction buf arbitrary: buf')
  case (Cons s p)
  then show ?case by (cases "ack_loop sn p") (auto split: if_splits)
qed simp

lemma parse_ack_sub: "snd_sub k (ikcp_parse_ack k sn)"
  by (rule snd_sub_subset)
     (simp add: frame, auto simp: ikcp_parse_ack_def dest: ack_loop_subset split: option.splits)

lemma update_ack_sub: "snd_sub k (ikcp_update_ack k rtt)"
proof (rule snd_sub_subset)
  show "set (k_snd_buf (ikcp_update_ack k rtt)) \<subseteq> set (k_snd_buf k)"
    by (rule ikcp_update_ack_frame [of k rtt]) simp
qed (simp add: frame)

lemma fastack_loop_wire: "t \<in> set (fastack_loop sn buf) \<Longrightarrow> \<exists>s \<in> set buf. same_wire s t"
  by (induction buf) (auto simp: same_wire_def split: if_splits)

lemma parse_fastack_sub: "snd_sub k (ikcp_parse_fastack k sn ts)"
proof -
  have "\<exists>s \<in> set (k_snd_buf k). same_wire s t" if "t \<in> set (k_snd_buf (ikcp_parse_fastack k sn ts))" for t
    using that fastack_loop_wire [of t sn "k_snd_buf k"]
    by (auto simp: ikcp_parse_fastack_def same_wire_in split: if_splits)
  then show ?thesis by (simp add: snd_sub_def frame)
qed

lemma move_ready_snd_buf: "k_snd_buf (move_ready k) = k_snd_buf k"
proof (induction k rule: move_ready.induct)
  case (1 k)
  then show ?case by (subst move_ready.simps) (auto split: list.splits)
qed

lemma parse_data_sub: "snd_sub k (ikcp_parse_data k s)"
  by (rule snd_sub_subset)
     (simp add: frame, simp add: ikcp_parse_data_def Let_def move_ready_snd_buf split: option.splits)

lemma ack_push_sub: "ikcp_ack_push alloc i k sn ts = Inr k' \<Longrightarrow> snd_sub k k'"
  by (rule snd_sub_subset)
     (auto simp: ikcp_ack_push_def ack_grow_def rbind_Inr_iff same_config_def split: if_splits option.splits)

lemma input_push_sub: "input_push alloc salloc i k conv h data = Inr k' \<Longrightarrow> snd_sub k k'"
  by (auto simp: input_push_def rbind_Inr_iff split: if_splits option.splits
        intro: snd_sub_trans ack_push_sub parse_data_sub)

lemma input_segment_sub:
  assumes "input_segment alloc salloc i k m conv h data = Inr (k', m')"
  shows "snd_sub k k'"
proof -
  let ?k0 = "k\<lparr>k_rmt_wnd := ucast (h_wnd h)\<rparr>"
  define k1 where "k1 = ikcp_shrink_buf (ikcp_parse_una ?k0 (h_una h))"
  have "snd_sub k ?k0" by (simp add: snd_sub_def same_config_def same_wire_in)
  then have sub: "snd_sub k k1"
    unfolding k1_def by (blast intro: snd_sub_trans parse_una_sub shrink_sub)
  have step: "snd_sub k1 k2 \<Longrightarrow> snd_sub k1 (ikcp_shrink_buf (ikcp_parse_ack k2 sn))" for k2 sn
    by (rule snd_sub_trans [OF snd_sub_trans [OF _ parse_ack_sub] shrink_sub])
  have ack: "snd_sub k1 (fst (input_ack k1 m h))"
    unfolding input_ack_def Let_def by (simp add: step update_ack_sub)
  have probe: "snd_sub k1 (k1\<lparr>k_probe := p\<rparr>)" for p by (simp add: snd_sub_def same_config_def same_wire_in)
  from assms show ?thesis
    unfolding input_segment_def Let_def k1_def [symmetric]
    by (auto simp: rbind_Inr_iff split: if_splits
          intro: snd_sub_trans [OF sub] input_push_sub probe)
       (use sub ack in \<open>auto intro: snd_sub_trans simp: prod_eq_iff\<close>)
qed

lemma input_loop_cases:
  assumes "input_loop alloc salloc i k m data sz = Inr (ret, k', m')"
  obtains (stop) "k' = k"
  | (segment) conv h data1 data2 k1 m1 where
      "\<not> sz < sint IKCP_OVERHEAD" "ikcp_decode32u data = Inr (conv, data1)" "\<not> conv \<noteq> k_conv k"
      "decode_header data1 = Inr (h, data2)"
      "\<not> (sz - 24 < int (unat (h_len h)) \<or> sint (h_len h) < 0)"
      "\<not> (ucast (h_cmd h) \<noteq> IKCP_CMD_PUSH \<and> ucast (h_cmd h) \<noteq> IKCP_CMD_ACK \<and>
          ucast (h_cmd h) \<noteq> IKCP_CMD_WASK \<and> ucast (h_cmd h) \<noteq> IKCP_CMD_WINS)"
      "input_segment alloc salloc i k m conv h data2 = Inr (k1, m1)"
      "input_loop alloc salloc (Suc i) k1 m1 (drop (unat (h_len h)) data2)
         (sz - 24 - int (unat (h_len h))) = Inr (ret, k', m')"
proof (cases "sz < sint IKCP_OVERHEAD")
  case True
  with assms show ?thesis by (intro stop) (subst (asm) input_loop.simps, simp)
next
  case False
  note run = assms [unfolded input_loop.simps [of alloc salloc i k m data sz] if_not_P [OF False] rbind_Inr_iff]
  then obtain conv data1 where d: "ikcp_decode32u data = Inr (conv, data1)" by auto
  show ?thesis
  proof (cases "conv \<noteq> k_conv k")
    case True
    with run d show ?thesis by (intro stop) simp
  next
    case conv: False
    with run d obtain h data2 where h: "decode_header data1 = Inr (h, data2)" by (auto simp: rbind_Inr_iff)
    let ?bad = "sz - 24 < int (unat (h_len h)) \<or> sint (h_len h) < 0"
    let ?unknown = "ucast (h_cmd h) \<noteq> IKCP_CMD_PUSH \<and> ucast (h_cmd h) \<noteq> IKCP_CMD_ACK \<and>
      ucast (h_cmd h) \<noteq> IKCP_CMD_WASK \<and> ucast (h_cmd h) \<noteq> IKCP_CMD_WINS"
    have rest: "(if ?bad then Inr (-2, k, m) else if ?unknown then Inr (-3, k, m)
       else rbind (input_segment alloc salloc i k m conv h data2) (\<lambda>(k, m).
            input_loop alloc salloc (Suc i) k m (drop (unat (h_len h)) data2)
              (sz - 24 - int (unat (h_len h))))) = Inr (ret, k', m')"
      using run d h conv by simp
    show ?thesis
    proof (cases "?bad \<or> ?unknown")
      case True
      with rest show ?thesis by (intro stop) (auto split: if_splits)
    next
      case good: False
      then have g: "\<not> ?bad" "\<not> ?unknown" by blast+
      from rest obtain k1 m1 where "input_segment alloc salloc i k m conv h data2 = Inr (k1, m1)"
        "input_loop alloc salloc (Suc i) k1 m1 (drop (unat (h_len h)) data2)
              (sz - 24 - int (unat (h_len h))) = Inr (ret, k', m')"
        unfolding if_not_P [OF g(1)] if_not_P [OF g(2)] by (auto simp: rbind_Inr_iff)
      from segment [OF False d conv h g this] show ?thesis .
    qed
  qed
qed

lemma input_loop_sub:
  "input_loop alloc salloc i k m data sz = Inr (ret, k', m') \<Longrightarrow> snd_sub k k'"
proof (induction alloc salloc i k m data sz rule: input_loop.induct)
  case (1 alloc salloc i k m data sz)
  from 1(2) show ?case
  proof (cases rule: input_loop_cases)
    case (segment conv h data1 data2 k1 m1)
    have "snd_sub k1 k'"
      using segment by (intro 1(1) [OF segment(1,2) refl segment(3,4) refl segment(5,6,7) refl])
    with input_segment_sub [OF segment(7)] show ?thesis by (rule snd_sub_trans)
  qed simp
qed

lemma input_cwnd_sub: "input_cwnd k una = Inr k' \<Longrightarrow> snd_sub k k'"
  by (rule snd_sub_subset)
     (auto simp: input_cwnd_def Let_def rbind_Inr_iff same_config_def split: if_splits)

lemma ikcp_input_cases:
  assumes "ikcp_input alloc salloc k (Some d) sz = Inr (ret, k')"
  obtains (same) "k' = k"
  | (loop) m ret0 k1 where
      "input_loop alloc salloc 0 k \<lparr>m_flag = 0, m_maxack = 0, m_latest_ts = 0\<rparr> d sz = Inr (ret0, k1, m)"
      "k' = k1 \<or> input_cwnd (if m_flag m \<noteq> 0 then ikcp_parse_fastack k1 (m_maxack m) (m_latest_ts m) else k1)
                    (k_snd_una k) = Inr k'"
  using assms by (fastforce simp: ikcp_input_def Let_def rbind_Inr_iff split: option.splits if_splits)

lemma ikcp_input_sub:
  assumes "ikcp_input alloc salloc k (Some d) sz = Inr (ret, k')" shows "snd_sub k k'"
  using assms
proof (cases rule: ikcp_input_cases)
  case (loop m ret0 k1)
  have sub: "snd_sub k k1" using loop(1) by (rule input_loop_sub)
  then have "snd_sub k (if m_flag m \<noteq> 0 then ikcp_parse_fastack k1 (m_maxack m) (m_latest_ts m) else k1)"
    using snd_sub_trans [OF sub parse_fastack_sub] by simp
  with loop(2) sub show ?thesis by (blast intro: snd_sub_trans input_cwnd_sub)
qed simp

subsection \<open>The receiving endpoint\<close>

text \<open>
  The payloads the user has taken, followed by those in the receive queue, are the first
  \<open>rcv_nxt\<close> entries of the log; what waits in the receive buffer is genuine.
\<close>

definition rcv_genuine :: "(u32 \<times> bytes) list \<Rightarrow> (u32 \<times> bytes) list \<Rightarrow> ikcpcb \<Rightarrow> bool" where
  "rcv_genuine log taken k \<longleftrightarrow>
     (\<exists>n \<le> length log. k_rcv_nxt k = of_nat n \<and> taken @ map payload (k_rcv_queue k) = take n log) \<and>
     (\<forall>s \<in> set (k_rcv_buf k). genuine log s)"

lemma rcv_genuine_same_recv: "same_recv k k' \<Longrightarrow> rcv_genuine log taken k' = rcv_genuine log taken k"
  by (simp add: rcv_genuine_def same_recv_def)

lemma rcv_genuine_mono: "rcv_genuine log taken k \<Longrightarrow> rcv_genuine (log @ new) taken k"
proof -
  assume g: "rcv_genuine log taken k"
  then obtain n where "n \<le> length log" "k_rcv_nxt k = of_nat n" "taken @ map payload (k_rcv_queue k) = take n log"
    by (auto simp: rcv_genuine_def)
  then have "\<exists>n \<le> length (log @ new). k_rcv_nxt k = of_nat n \<and>
      taken @ map payload (k_rcv_queue k) = take n (log @ new)"
    by (intro exI [of _ n]) simp
  with g show ?thesis by (auto simp: rcv_genuine_def intro: genuine_mono)
qed

lemma of_nat_inj_u32: "i < 2 ^ 31 \<Longrightarrow> j < 2 ^ 31 \<Longrightarrow> (of_nat i :: u32) = of_nat j \<longleftrightarrow> i = j"
proof -
  assume "i < 2 ^ 31" "j < 2 ^ 31"
  then have "unat (of_nat i :: u32) = i" "unat (of_nat j :: u32) = j" by simp_all
  then show ?thesis by metis
qed

lemma move_ready_genuine:
  "rcv_genuine log taken k \<Longrightarrow> length log < 2 ^ 31 \<Longrightarrow> rcv_genuine log taken (move_ready k)"
proof (induction k rule: move_ready.induct)
  case (1 k)
  show ?case
  proof (cases "\<exists>seg rest. k_rcv_buf k = seg # rest \<and> s_sn seg = k_rcv_nxt k \<and> k_nrcv_que k < k_rcv_wnd k")
    case False
    then have "move_ready k = k" by (subst move_ready.simps) (auto split: list.splits)
    then show ?thesis using 1(2) by simp
  next
    case True
    then obtain seg rest where buf: "k_rcv_buf k = seg # rest"
      and go: "s_sn seg = k_rcv_nxt k \<and> k_nrcv_que k < k_rcv_wnd k" by blast
    let ?k = "k\<lparr>k_rcv_buf := rest, k_nrcv_buf := k_nrcv_buf k - 1, k_rcv_queue := k_rcv_queue k @ [seg],
      k_nrcv_que := k_nrcv_que k + 1, k_rcv_nxt := k_rcv_nxt k + 1\<rparr>"
    obtain n where n: "n \<le> length log" "k_rcv_nxt k = of_nat n" "taken @ map payload (k_rcv_queue k) = take n log"
      using 1(2) by (auto simp: rcv_genuine_def)
    obtain i where i: "i < length log" "s_sn seg = of_nat i" "payload seg = log ! i"
      using 1(2) buf by (auto simp: rcv_genuine_def genuine_def)
    have "i = n" using go i n 1(3) of_nat_inj_u32 [of i n] by simp
    then have "taken @ map payload (k_rcv_queue ?k) = take (Suc n) log"
      using n(3) i by (simp add: take_Suc_conv_app_nth)
    then have "rcv_genuine log taken ?k"
      using 1(2) buf i \<open>i = n\<close> n(2) unfolding rcv_genuine_def
      by (auto simp: add.commute intro!: exI [of _ "Suc n"])
    with 1(1) [OF buf go] 1(3) have "rcv_genuine log taken (move_ready ?k)" by simp
    then show ?thesis using buf go by (subst move_ready.simps) simp
  qed
qed

lemma rcv_scan_subset: "rcv_scan sn new r = Some r' \<Longrightarrow> set r' \<subseteq> insert new (set r)"
proof (induction r arbitrary: r')
  case (Cons s p)
  then show ?case by (cases "rcv_scan sn new p") (auto split: if_splits)
qed simp

lemma parse_data_genuine:
  assumes "rcv_genuine log taken k" and "length log < 2 ^ 31" and "genuine log s"
  shows "rcv_genuine log taken (ikcp_parse_data k s)"
proof -
  have "rcv_genuine log taken (case rcv_scan (s_sn s) s (rev (k_rcv_buf k)) of
      Some r \<Rightarrow> k\<lparr>k_rcv_buf := rev r, k_nrcv_buf := k_nrcv_buf k + 1\<rparr> | None \<Rightarrow> k)"
    using assms(1,3) rcv_scan_subset [of "s_sn s" s "rev (k_rcv_buf k)"]
    by (auto simp: rcv_genuine_def split: option.splits)
  from move_ready_genuine [OF this assms(2)] assms(1) show ?thesis
    by (simp add: ikcp_parse_data_def Let_def)
qed

lemma ack_push_same_recv: "ikcp_ack_push alloc i k sn ts = Inr k' \<Longrightarrow> same_recv k k'"
  by (auto simp: ikcp_ack_push_def ack_grow_def rbind_Inr_iff same_recv_def split: if_splits option.splits)

lemma input_push_genuine:
  assumes run: "input_push alloc salloc i k conv (header_of p) (s_data p @ rest) = Inr k'"
    and k: "rcv_genuine log taken k" "length log < 2 ^ 31" and p: "genuine_push conv log p"
  shows "rcv_genuine log taken k'"
proof -
  consider "k' = k" | k1 where "ikcp_ack_push alloc i k (s_sn p) (s_ts p) = Inr k1" "k' = k1"
    | k1 seg seg' where "ikcp_ack_push alloc i k (s_sn p) (s_ts p) = Inr k1"
        "ikcp_segment_new salloc i (sint (s_len p)) = Some seg"
        "fill_segment seg conv (header_of p) (s_data p @ rest) = Inr seg'" "k' = ikcp_parse_data k1 seg'"
    using run by (auto simp: input_push_def header_of_def rbind_Inr_iff split: if_splits option.splits)
  then show ?thesis
  proof cases
    case (3 k1 seg seg')
    have len: "unat (h_len (header_of p)) \<le> length (s_data p @ rest)" "0 \<le> sint (h_len (header_of p))"
      using p by (auto simp: genuine_push_def header_of_def sint_small)
    have new: "ikcp_segment_new salloc i (sint (h_len (header_of p))) = Some seg" using 3(2) by (simp add: header_of_def)
    from fill_segment_ok [OF len new, of conv] 3(3)
    have "s_sn seg' = s_sn p" "s_frg seg' = ucast (ucast (s_frg p) :: u8)" "s_data seg' = take (unat (s_len p)) (s_data p @ rest)"
      by (auto simp: header_of_def)
    moreover have "ucast (ucast (s_frg p) :: u8) = s_frg p" using p by (simp add: genuine_push_def ucast_narrow8)
    ultimately have "s_sn seg' = s_sn p" "payload seg' = payload p"
      using p by (simp_all add: genuine_push_def payload_def)
    then have "genuine log seg'" using p by (simp add: genuine_push_def genuine_def)
    with 3 k rcv_genuine_same_recv [OF ack_push_same_recv [OF 3(1)]] show ?thesis
      by (simp add: parse_data_genuine)
  qed (use k rcv_genuine_same_recv [OF ack_push_same_recv] in auto)
qed

lemma input_ack_same_recv: "same_recv k (fst (input_ack k m h))"
  by (simp add: frame)

lemma fastack_same_recv: "same_recv k (ikcp_parse_fastack k sn ts)"
  by (simp add: frame)

lemma input_segment_genuine:
  assumes run: "input_segment alloc salloc i k m conv (header_of p) (s_data p @ rest) = Inr (k', m')"
    and k: "rcv_genuine log taken k" "length log < 2 ^ 31"
    and p: "control_packet_of conv p \<or> genuine_push conv log p"
  shows "rcv_genuine log taken k'"
proof -
  define k1 where "k1 = ikcp_shrink_buf (ikcp_parse_una (k\<lparr>k_rmt_wnd := ucast (h_wnd (header_of p))\<rparr>) (h_una (header_of p)))"
  have "same_recv k k1" unfolding k1_def by (simp add: frame) (simp add: same_recv_def)
  then have g1: "rcv_genuine log taken k1" using k(1) by (simp add: rcv_genuine_same_recv)
  have cmd: "ucast (h_cmd (header_of p)) = s_cmd p"
    using p by (auto simp: header_of_def control_packet_of_def genuine_push_def kcp_consts)
  have ack: "rcv_genuine log taken (fst (input_ack k1 m (header_of p)))"
    using rcv_genuine_same_recv [OF input_ack_same_recv, of log taken k1 m "header_of p"] g1 by simp
  have probe: "rcv_genuine log taken (k1\<lparr>k_probe := x\<rparr>)" for x using g1 by (simp add: rcv_genuine_def)
  show ?thesis
  proof (cases "s_cmd p = IKCP_CMD_PUSH")
    case True
    then have push: "genuine_push conv log p" using p by (auto simp: control_packet_of_def kcp_consts)
    have "input_push alloc salloc i k1 conv (header_of p) (s_data p @ rest) = Inr k'"
      using run True unfolding input_segment_def Let_def k1_def [symmetric] cmd
      by (auto simp: rbind_Inr_iff kcp_consts)
    from input_push_genuine [OF this g1 k(2) push] show ?thesis .
  next
    case False
    then show ?thesis
      using run ack probe g1 unfolding input_segment_def Let_def k1_def [symmetric] cmd
      by (auto split: if_splits)
  qed
qed

lemma decode_of_packet:
  "ikcp_decode32u (packet p @ d) = Inr (s_conv p, drop 4 (ikcp_encode_seg p) @ s_data p @ d)"
  "decode_header (drop 4 (ikcp_encode_seg p) @ s_data p @ d) = Inr (header_of p, s_data p @ d)"
  using decode_encode_seg [of p "s_data p @ d"] decode_header_encode_seg [of p "s_data p @ d"]
  by (simp_all add: packet_def)

lemma input_loop_datagram:
  assumes "input_loop alloc salloc i k m (datagram ps) sz = Inr (ret, k', m')"
    and "\<forall>p \<in> set ps. control_packet_of conv p \<or> genuine_push conv log p"
    and "rcv_genuine log taken k" and "length log < 2 ^ 31"
  shows "rcv_genuine log taken k'"
  using assms
proof (induction ps arbitrary: i k m sz)
  case Nil
  from Nil(1) show ?case by (cases rule: input_loop_cases) (use Nil(3) in auto)
next
  case (Cons p ps)
  from Cons.prems(1) show ?case
  proof (cases rule: input_loop_cases)
    case (segment conv' h data1 data2 k1 m1)
    have p: "control_packet_of conv p \<or> genuine_push conv log p" using Cons.prems(2) by simp
    have dec: "conv' = s_conv p" "h = header_of p" "data2 = s_data p @ datagram ps"
      using segment(2,4) decode_of_packet [of p "datagram ps"] by auto
    have len: "unat (h_len h) = length (s_data p)" and conv: "conv' = conv"
      using p by (auto simp: dec header_of_def control_packet_of_def genuine_push_def)
    have "rcv_genuine log taken k1"
      using input_segment_genuine [of alloc salloc i k m conv p "datagram ps" k1 m1] segment(7) Cons.prems(3,4) p
      by (simp add: dec(2,3) conv)
    moreover have "drop (unat (h_len h)) data2 = datagram ps" by (simp add: len dec(3))
    ultimately show ?thesis
      using Cons.IH [of "Suc i" k1 m1] segment(8) Cons.prems(2,4) by simp
  qed (use Cons.prems(3) in simp)
qed

lemma input_cwnd_same_recv: "input_cwnd k una = Inr k' \<Longrightarrow> same_recv k k'"
  by (auto simp: input_cwnd_def Let_def rbind_Inr_iff same_recv_def split: if_splits)

lemma ikcp_input_genuine:
  assumes run: "ikcp_input alloc salloc k (Some d) sz = Inr (ret, k')" and d: "wire_ok conv log d"
    and k: "rcv_genuine log taken k" "length log < 2 ^ 31"
  shows "rcv_genuine log taken k'"
  using run
proof (cases rule: ikcp_input_cases)
  case (loop m ret0 k1)
  obtain ps where ps: "d = datagram ps" "\<forall>p \<in> set ps. control_packet_of conv p \<or> genuine_push conv log p"
    using d by (auto simp: wire_ok_def)
  have g1: "rcv_genuine log taken k1"
    using loop(1) ps k by (auto intro: input_loop_datagram)
  then have g2: "rcv_genuine log taken (if m_flag m \<noteq> 0 then ikcp_parse_fastack k1 (m_maxack m) (m_latest_ts m) else k1)"
    using rcv_genuine_same_recv [OF fastack_same_recv, of log taken k1 "m_maxack m" "m_latest_ts m"] by simp
  from loop(2) show ?thesis
  proof
    assume "input_cwnd (if m_flag m \<noteq> 0 then ikcp_parse_fastack k1 (m_maxack m) (m_latest_ts m) else k1) (k_snd_una k) = Inr k'"
    from rcv_genuine_same_recv [OF input_cwnd_same_recv [OF this]] g2 show ?thesis by simp
  qed (use g1 in simp)
qed (use k in simp)

end
