(* ===== verification/KcpNetwork.thy ===== *)
theory KcpNetwork
  imports KcpProtocol "HOL-Library.Sublist"
begin

text \<open>
  The system of the two endpoints: its steps, its invariant and the delivery theorem. The
  state is the two control blocks, the datagrams the network may still deliver to \<open>B\<close>, and
  the messages accepted from \<open>A\<close>'s user and handed to \<open>B\<close>'s user.
\<close>

subsection \<open>Flushing\<close>

definition snd_genuine :: "(u32 \<times> bytes) list \<Rightarrow> ikcpcb \<Rightarrow> bool" where
  "snd_genuine log k \<longleftrightarrow>
     k_snd_nxt k = of_nat (length log) \<and> (\<forall>s \<in> set (k_snd_buf k). genuine_push (k_conv k) log s)"

text \<open>What a call leaves alone of an endpoint's configuration.\<close>

definition same_peer :: "ikcpcb \<Rightarrow> ikcpcb \<Rightarrow> bool" where
  "same_peer k k' \<longleftrightarrow> k_conv k' = k_conv k \<and> k_mss k' = k_mss k \<and> k_stream k' = k_stream k \<and> k_output k' = k_output k"

lemma same_wire_updated: "same_wire s (updated_seg wnd k s)" and same_wire_stamped: "same_wire s (stamped wnd k s)"
  by (simp_all add: same_wire_def updated_seg_def)

lemma flush_new_wire:
  "s_conv (flush_new wnd k s) = k_conv k" "s_cmd (flush_new wnd k s) = IKCP_CMD_PUSH"
  "s_len (flush_new wnd k s) = s_len s" "s_data (flush_new wnd k s) = s_data s"
  "s_frg (flush_new wnd k s) = s_frg s" "s_sn (flush_new wnd k s) = k_snd_nxt k"
  by (simp_all add: flush_new_def)

lemma numbered_genuine:
  assumes "k_snd_nxt k = of_nat (length log)" and "list_all (seg_fits (k_mss k)) segs" and "mtu_inv k"
    and "\<forall>s \<in> set segs. unat (s_frg s) < 256" and "t \<in> set (numbered wnd k segs)"
  shows "genuine_push (k_conv k) (log @ map payload segs) t"
proof -
  obtain i where i: "i < length segs" and t: "t = numbered wnd k segs ! i"
    using assms(5) arg_cong [where f = length, OF numbered_payload [of wnd k segs]] by (auto simp: in_set_conv_nth)
  then have t: "t = flush_new wnd (k\<lparr>k_snd_nxt := k_snd_nxt k + of_nat i\<rparr>) (segs ! i)"
    by (simp add: numbered_nth)
  have si: "seg_fits (k_mss k) (segs ! i)" using assms(2) i by (simp add: list_all_length)
  moreover have "unat (k_mss k) < 2 ^ 30" using assms(3) mtu_ok_mss(3) by blast
  ultimately have "unat (s_len (segs ! i)) < 2 ^ 30" by (simp add: seg_fits_def word_le_nat_alt)
  moreover have "genuine (log @ map payload segs) t"
    unfolding genuine_def using i assms(1)
    by (intro exI [of _ "length log + i"]) (simp add: t flush_new_wire payload_def nth_append)
  ultimately show ?thesis using si assms(4) i
    by (simp add: genuine_push_def t flush_new_wire seg_fits_def)
qed

lemma flush_genuine:
  assumes inv: "kcp_inv k" and out: "k_output k \<noteq> None" and few: "unat (k_ackcount k) < 2 ^ 31"
    and log: "snd_genuine log k" and frg: "\<forall>s \<in> set (k_snd_queue k). unat (s_frg s) < 256"
    and run: "ikcp_flush k = Inr (sent, k')"
  obtains j where "kcp_inv k'" "same_recv k k'" "same_peer k k'"
    "k_snd_queue k' = drop j (k_snd_queue k)"
    "snd_genuine (log @ map payload (take j (k_snd_queue k))) k'"
    "\<forall>d \<in> set sent. wire_ok (k_conv k) (log @ map payload (take j (k_snd_queue k))) d"
proof (cases "k_updated k = 0")
  case True
  with run have "sent = []" "k' = k" by (auto simp: ikcp_flush_def)
  with inv log show thesis by (intro that [of 0]) (auto simp: same_peer_def)
next
  case False
  let ?r = "flush_ready k" and ?wnd = "s_wnd (control_seg k)"
  define j where "j = window_room (flush_window k) k"
  let ?new = "take j (k_snd_queue k)" and ?log = "log @ map payload (take j (k_snd_queue k))"
  obtain pss k1 x y s c i where f1: "ikcp_flush k = Inr (map datagram pss, k1)" "concat pss = flush_packets k"
    "\<forall>d \<in> set (map datagram pss). d \<noteq> [] \<and> length d \<le> unat (k_mtu k)" "1 \<le> c" "kcp_inv k1"
    "k1 = ?r\<lparr>k_xmit := x, k_state := y, k_snd_buf := map (updated_seg ?wnd ?r) (k_snd_buf ?r),
       k_ssthresh := s, k_cwnd := c, k_incr := i\<rparr>"
    by (rule ikcp_flush_ok [OF inv out False few])
  have eq: "sent = map datagram pss" "k1 = k'" using run unfolding f1(1) sum.inject prod.inject by simp_all
  note f = eq(1) f1(2,3) f1(5,6) [unfolded eq(2)]
  note r = flush_ready_eq [OF inv, folded j_def]
  have fr: "same_recv k ?r" "same_peer k ?r"
    using flush_ready_frame [OF inv] by (auto simp: same_recv_def same_peer_def)
  have ac: "k_snd_nxt (after_control k) = of_nat (length log)" "k_conv (after_control k) = k_conv k"
      "k_mss (after_control k) = k_mss k" "mtu_inv (after_control k)"
    using log after_control_frame [of k] inv by (auto simp: snd_genuine_def kcp_inv_def)
  have fits: "list_all (seg_fits (k_mss (after_control k))) ?new"
    using inv by (auto simp: kcp_inv_def ac list_all_iff dest: in_set_takeD)
  have new: "genuine_push (k_conv k) ?log t" if "t \<in> set (numbered ?wnd (after_control k) ?new)" for t
    using numbered_genuine [OF ac(1) fits ac(4) _ that] frg by (auto simp: ac(2) dest: in_set_takeD)
  have buf: "genuine_push (k_conv k) ?log t" if "t \<in> set (k_snd_buf ?r)" for t
    using that new log by (auto simp: r(2) snd_genuine_def intro: genuine_push_mono)
  have len: "min (length (k_snd_queue k)) j = j" by (simp add: j_def window_room_def)
  have "k_snd_nxt k' = of_nat (length ?log)" using log by (simp add: f(5) r(3) snd_genuine_def len)
  moreover have "k_conv k' = k_conv k" using fr(2) by (simp add: f(5) same_peer_def)
  moreover have "genuine_push (k_conv k) ?log t" if "t \<in> set (k_snd_buf k')" for t
    using that buf genuine_push_same_wire [OF same_wire_updated] by (auto simp: f(5))
  ultimately have snd: "snd_genuine ?log k'" by (simp add: snd_genuine_def)
  have all: "\<forall>p \<in> set (flush_packets k). control_packet_of (k_conv k) p \<or> genuine_push (k_conv k) ?log p"
    using control_packets_ok [of k] buf genuine_push_same_wire [OF same_wire_stamped]
    by (auto simp: flush_packets_def)
  have "unat (k_mtu k) < 2 ^ 31" using inv by (simp add: kcp_inv_def mtu_ok_def)
  then have wire: "\<forall>d \<in> set sent. wire_ok (k_conv k) ?log d"
    using f(3) all unfolding f(1) f(2) [symmetric] wire_ok_def by fastforce
  show thesis
    by (rule that [OF f(4) _ _ _ snd wire]) (use fr in \<open>simp_all add: f(5) r(1) same_recv_def same_peer_def\<close>)
qed

lemma update_genuine:
  assumes inv: "kcp_inv k" and out: "k_output k \<noteq> None" and few: "unat (k_ackcount k) < 2 ^ 31"
    and log: "snd_genuine log k" and frg: "\<forall>s \<in> set (k_snd_queue k). unat (s_frg s) < 256"
    and run: "ikcp_update k t = Inr (sent, k')"
  obtains j where "kcp_inv k'" "same_recv k k'" "same_peer k k'"
    "k_snd_queue k' = drop j (k_snd_queue k)"
    "snd_genuine (log @ map payload (take j (k_snd_queue k))) k'"
    "\<forall>d \<in> set sent. wire_ok (k_conv k) (log @ map payload (take j (k_snd_queue k))) d"
proof -
  have tm: "timer_inv k" using inv by (simp add: kcp_inv_def)
  from tm show thesis
  proof (cases rule: ikcp_update_cases [where t = t])
    case idle
    then have "sent = []" "k' = k\<lparr>k_current := t\<rparr>" using run by simp_all
    then show thesis using inv log
      by (intro that [of 0]) (auto simp: same_peer_def same_recv_def snd_genuine_def kcp_inv_def)
  next
    case (flush ts)
    define k1 where "k1 = update_ready k t ts"
    have k1: "kcp_inv k1" "k_output k1 \<noteq> None" "unat (k_ackcount k1) < 2 ^ 31" "snd_genuine log k1"
        "k_snd_queue k1 = k_snd_queue k" "k_conv k1 = k_conv k" "same_recv k k1" "same_peer k k1"
      using assms by (simp_all add: k1_def update_ready_def kcp_inv_def snd_genuine_def same_recv_def same_peer_def)
    have run1: "ikcp_flush k1 = Inr (sent, k')" using run flush(1) by (simp add: k1_def)
    obtain j where j: "kcp_inv k'" "same_recv k1 k'" "same_peer k1 k'"
      "k_snd_queue k' = drop j (k_snd_queue k)"
      "snd_genuine (log @ map payload (take j (k_snd_queue k))) k'"
      "\<forall>d \<in> set sent. wire_ok (k_conv k) (log @ map payload (take j (k_snd_queue k))) d"
      by (rule flush_genuine [OF k1(1-4) _ run1, unfolded k1(5,6)]) (use frg in auto)
    show thesis
      by (rule that [OF j(1) _ _ j(4-6)]) (use j(2,3) k1(7,8) in \<open>simp_all add: same_recv_def same_peer_def\<close>)
  qed
qed

subsection \<open>Sending and receiving touch one side each\<close>

lemma queue_same: "\<exists>q n. k = k\<lparr>k_snd_queue := q, k_nsnd_que := n\<rparr>"
  by (rule exI [of _ "k_snd_queue k"], rule exI [of _ "k_nsnd_que k"]) simp

lemma send_fragments_frame:
  "send_fragments alloc i k buf len r = Inr k' \<Longrightarrow> \<exists>q n. k' = k\<lparr>k_snd_queue := q, k_nsnd_que := n\<rparr>"
proof (induction r arbitrary: i k buf len)
  case 0
  then show ?case by (simp add: queue_same)
next
  case (Suc r)
  then show ?case by (fastforce simp: Let_def rbind_Inr_iff split: option.splits)
qed

lemma send_rest_frame:
  assumes "send_rest alloc k buf len = Inr (ret, k')" shows "\<exists>q n. k' = k\<lparr>k_snd_queue := q, k_nsnd_que := n\<rparr>"
proof -
  have "k' = k \<or> (\<exists>n. send_fragments alloc 1 k buf len n = Inr k')"
    using assms by (auto simp: send_rest_def Let_def rbind_Inr_iff simp del: send_fragments.simps split: if_splits)
  then show ?thesis
    using send_fragments_frame queue_same by blast
qed

lemma ikcp_send_frame:
  assumes "ikcp_send alloc k buf len = Inr (ret, k')" and "k_stream k = 0"
  shows "\<exists>q n. k' = k\<lparr>k_snd_queue := q, k_nsnd_que := n\<rparr>"
proof -
  have "k' = k \<or> send_rest alloc k buf len = Inr (ret, k')"
    using assms by (auto simp: ikcp_send_def rbind_Inr_iff split: if_splits)
  then show ?thesis
    using send_rest_frame queue_same by blast
qed

lemma move_ready_rmt: "k_rmt_wnd (move_ready k) = k_rmt_wnd k"
proof (induction k rule: move_ready.induct)
  case (1 k)
  then show ?case by (subst move_ready.simps) (auto split: list.splits)
qed

lemma recv_merge_peek: "recv_merge True c q len out k = Inr (len', out', k') \<Longrightarrow> k' = k"
  by (induction q arbitrary: len out) (auto simp: Let_def rbind_Inr_iff split: if_splits)

lemma recv_merge_frame:
  assumes "recv_merge ispeek c q len out k = Inr (len', out', k')" and "\<not> ispeek \<longrightarrow> k_rcv_queue k = q"
  shows "\<exists>n \<le> length q. k' = k\<lparr>k_rcv_queue := drop n (k_rcv_queue k), k_nrcv_que := k_nrcv_que k - of_nat n\<rparr>"
  using assms
proof (induction q arbitrary: len out k)
  case (Cons seg p)
  show ?case
  proof (cases "ispeek")
    case True
    then have "k' = k" using Cons.prems(1) recv_merge_peek [of c "seg # p"] by metis
    then show ?thesis by (intro exI [of _ 0]) simp
  next
    case False
    let ?k = "k\<lparr>k_rcv_queue := tl (k_rcv_queue k), k_nrcv_que := k_nrcv_que k - 1\<rparr>"
    have step: "?k\<lparr>k_rcv_queue := drop n (k_rcv_queue ?k), k_nrcv_que := k_nrcv_que ?k - of_nat n\<rparr> =
        k\<lparr>k_rcv_queue := drop (Suc n) (k_rcv_queue k), k_nrcv_que := k_nrcv_que k - of_nat (Suc n)\<rparr>" for n
      by (simp add: drop_Suc algebra_simps)
    have q: "k_rcv_queue ?k = p" using Cons.prems(2) False by simp
    from Cons.prems(1) obtain l o1 where o1: "s_frg seg = 0 \<and> k' = ?k \<or> recv_merge ispeek c p l o1 ?k = Inr (len', out', k')"
      using False by (auto simp: Let_def rbind_Inr_iff split: if_splits)
    have "\<exists>n \<le> length p. k' = ?k\<lparr>k_rcv_queue := drop n (k_rcv_queue ?k), k_nrcv_que := k_nrcv_que ?k - of_nat n\<rparr>"
      using o1 Cons.IH [of l o1 ?k] q by (auto intro: exI [of _ 0])
    then show ?thesis unfolding step by (metis Suc_le_mono length_Cons)
  qed
qed (auto intro: exI [of _ 0])

lemma ikcp_recv_keeps:
  assumes inv: "kcp_inv k" and run: "ikcp_recv k c len = Inr (ret, out, k')"
  shows "kcp_inv k'" and "snd_sub k k'" and "k_ackcount k' = k_ackcount k" and "k_rmt_wnd k' = k_rmt_wnd k"
proof -
  have "kcp_inv k' \<and> snd_sub k k' \<and> k_ackcount k' = k_ackcount k \<and> k_rmt_wnd k' = k_rmt_wnd k"
  proof (cases "k' = k")
    case False
    then obtain l o1 k1 where k1: "recv_merge (len < 0) c (k_rcv_queue k) 0 [] k = Inr (l, o1, k1)"
      and ends: "k' \<in> {move_ready k1, (move_ready k1)\<lparr>k_probe := k_probe (move_ready k1) OR IKCP_ASK_TELL\<rparr>}"
      using run unfolding ikcp_recv_def Let_def by (auto simp: rbind_Inr_iff simp del: recv_merge.simps split: if_splits)
    then obtain p where k': "k' = move_ready k1 \<or> k' = (move_ready k1)\<lparr>k_probe := p\<rparr>" by blast
    obtain n where n: "n \<le> length (k_rcv_queue k)"
      "k1 = k\<lparr>k_rcv_queue := drop n (k_rcv_queue k), k_nrcv_que := k_nrcv_que k - of_nat n\<rparr>"
      using recv_merge_frame [OF k1] by blast
    have m: "kcp_inv (move_ready k1)" unfolding n(2) by (intro move_ready_inv kcp_inv_drop_queue inv n(1))
    have c: "same_config k (move_ready k1)" "k_ackcount (move_ready k1) = k_ackcount k"
      using move_ready_frame [of k k1] by (simp_all add: n(2) same_config_def)
    have b: "k_snd_buf (move_ready k1) = k_snd_buf k" by (simp add: move_ready_snd_buf n(2))
    have r: "k_rmt_wnd (move_ready k1) = k_rmt_wnd k" by (simp add: move_ready_rmt n(2))
    have "kcp_inv ((move_ready k1)\<lparr>k_probe := p\<rparr>)" "same_config k ((move_ready k1)\<lparr>k_probe := p\<rparr>)"
      using m c(1) by (simp_all add: kcp_inv_def same_config_def)
    with k' m c b r show ?thesis by (auto intro: snd_sub_subset)
  qed (use inv in simp)
  then show "kcp_inv k'" "snd_sub k k'" "k_ackcount k' = k_ackcount k" "k_rmt_wnd k' = k_rmt_wnd k" by blast+
qed

subsection \<open>Messages and their fragments\<close>

lemma fragment_numbers:
  "map fst (message_fragments m msg) = map of_nat (rev [0..<chunk_count m (length msg)])"
  by (simp add: message_fragments_def Let_def)

lemma length_message_fragments: "length (message_fragments m msg) = chunk_count m (length msg)"
  by (simp add: message_fragments_def Let_def)

text \<open>A queue that starts with the numbers \<open>n - 1\<close> down to 0 starts with a message of \<open>n\<close> fragments.\<close>

lemma take_message_numbers:
  "take n (map s_frg q) = map of_nat (rev [0..<n]) \<Longrightarrow> 0 < n \<Longrightarrow> n < 2 ^ 31 \<Longrightarrow> take_message q = take n q"
proof (induction n arbitrary: q)
  case (Suc n)
  then obtain s p where q: "q = s # p" by (cases q) auto
  with Suc.prems have s: "s_frg s = of_nat n" and p: "take n (map s_frg p) = map of_nat (rev [0..<n])" by simp_all
  have "s_frg s = 0 \<longleftrightarrow> n = 0" using s Suc.prems(3) of_nat_inj_u32 [of n 0] by auto
  then show ?case using Suc.IH [OF p] Suc.prems(3) by (cases "n = 0") (auto simp: q)
qed simp

lemma take_message_fragments:
  assumes "map payload q = message_fragments m msg @ rest" and "0 < m" and "chunk_count m (length msg) < 2 ^ 31"
  shows "map payload (take_message q) = message_fragments m msg"
    and "map payload (drop (length (take_message q)) q) = rest"
    and "stream_bytes (take_message q) = msg"
proof -
  let ?n = "chunk_count m (length msg)"
  have "take ?n (map fst (map payload q)) = map of_nat (rev [0..<?n])"
    unfolding assms(1) by (simp add: fragment_numbers length_message_fragments)
  then have "take ?n (map s_frg q) = map of_nat (rev [0..<?n])" by (simp add: payload_def comp_def)
  from take_message_numbers [OF this chunk_count_pos [OF assms(2)] assms(3)]
  have tm: "take_message q = take ?n q" .
  have "map payload (take ?n q) = take ?n (map payload q)" by (simp add: take_map)
  then show f: "map payload (take_message q) = message_fragments m msg"
    by (simp add: tm assms(1) length_message_fragments)
  have "length (take_message q) = ?n" using arg_cong [OF f, of length] by (simp add: length_message_fragments)
  then show "map payload (drop (length (take_message q)) q) = rest"
    using arg_cong [OF assms(1), of "drop ?n"] by (simp add: drop_map length_message_fragments)
  have "map s_data (take_message q) = map snd (map payload (take_message q))" by (simp add: payload_def)
  then show "stream_bytes (take_message q) = msg"
    using concat_message_fragments [OF assms(2), of msg] by (simp add: f)
qed

text \<open>The peek that finds a message ready finds all of its fragments in the queue.\<close>

lemma message_ready_complete:
  assumes "message_ready k" and "rcv_inv k" and "map payload (k_rcv_queue k) @ later = concat (map (message_fragments m) ms)"
    and "0 < m" and "\<forall>msg \<in> set ms. chunk_count m (length msg) < 128"
  obtains msg ms' rest where "ms = msg # ms'" "map payload (k_rcv_queue k) = message_fragments m msg @ rest"
    "rest @ later = concat (map (message_fragments m) ms')"
proof -
  obtain s q where q: "k_rcv_queue k = s # q" and ready: "s_frg s = 0 \<or> s_frg s + 1 \<le> k_nrcv_que k"
    using assms(1) by (auto simp: message_ready_def split: list.splits)
  obtain msg ms' where ms: "ms = msg # ms'" using assms(3) q by (cases ms) auto
  let ?n = "chunk_count m (length msg)"
  have n: "0 < ?n" "?n < 128" using assms(4,5) chunk_count_pos by (simp_all add: ms)
  have "message_fragments m msg \<noteq> []" using n length_message_fragments [of m msg] by fastforce
  then have "payload s = hd (message_fragments m msg)"
    using assms(3) by (cases "message_fragments m msg") (simp_all add: q ms)
  then have "s_frg s = hd (map fst (message_fragments m msg))"
    using \<open>message_fragments m msg \<noteq> []\<close> by (cases "message_fragments m msg") (auto simp: payload_def)
  also have "\<dots> = of_nat (?n - 1)" using n(1) by (simp add: fragment_numbers hd_map hd_rev)
  finally have frg: "s_frg s = of_nat (?n - 1)" .
  have cnt: "k_nrcv_que k = of_nat (length (k_rcv_queue k))" "length (k_rcv_queue k) < 2 ^ 31"
    using assms(2) by (simp_all add: rcv_ok_def)
  have "?n \<le> length (k_rcv_queue k)"
  proof (cases "?n = 1")
    case False
    then have "s_frg s \<noteq> 0" using frg n of_nat_inj_u32 [of "?n - 1" 0] by auto
    then have "s_frg s + 1 \<le> k_nrcv_que k" using ready by simp
    moreover have "s_frg s + 1 = of_nat ?n" using frg n(1) by (cases ?n) simp_all
    ultimately show ?thesis using n cnt unat_of_nat_u32 [of ?n] unat_of_nat_u32 [of "length (k_rcv_queue k)"]
      by (simp add: word_le_nat_alt)
  qed (simp add: q)
  then have len: "length (message_fragments m msg) \<le> length (map payload (k_rcv_queue k))"
    by (simp add: length_message_fragments)
  have eq: "map payload (k_rcv_queue k) @ later = message_fragments m msg @ concat (map (message_fragments m) ms')"
    using assms(3) by (simp add: ms)
  let ?f = "length (message_fragments m msg)"
  have "take ?f (map payload (k_rcv_queue k)) = message_fragments m msg"
    using arg_cong [OF eq, of "take ?f"] len by simp
  then have "map payload (k_rcv_queue k) = message_fragments m msg @ drop ?f (map payload (k_rcv_queue k))"
    by (metis append_take_drop_id)
  moreover have "drop ?f (map payload (k_rcv_queue k)) @ later = concat (map (message_fragments m) ms')"
    using arg_cong [OF eq, of "drop ?f"] len by simp
  ultimately show thesis by (rule that [OF ms])
qed

subsection \<open>The system\<close>

record network =
  n_a :: ikcpcb
  n_b :: ikcpcb
  n_wire :: "bytes set"
  n_sent :: "bytes list"
  n_received :: "bytes list"

text \<open>The fragments of the messages accepted so far.\<close>

definition sent_fragments :: "network \<Rightarrow> (u32 \<times> bytes) list" where
  "sent_fragments s = concat (map (message_fragments (unat (k_mss (n_a s)))) (n_sent s))"

text \<open>
  The steps: every call of the interface on either endpoint, in any order, and the loss of
  datagrams. The allocators succeed, neither acknowledgement list
  reaches \<open>2 ^ 31\<close> entries, and the connection carries fewer than \<open>2 ^ 31\<close> segments, so that
  the sequence numbers do not wrap round; a call that fails for another reason is a step as well.
\<close>

abbreviation acks_bounded :: "ikcpcb \<Rightarrow> nat \<Rightarrow> bool" where
  "acks_bounded k n \<equiv> unat (k_ackcount k) + n < 2 ^ 31"

inductive net_step :: "network \<Rightarrow> network \<Rightarrow> bool" where
  user_send: "ikcp_send alloc (n_a s) (Some msg) (int (length msg)) = Inr (ret, a) \<Longrightarrow> \<forall>i. alloc i \<noteq> None \<Longrightarrow>
    length msg < 2 ^ 31 \<Longrightarrow> length (sent_fragments s) + chunk_count (unat (k_mss (n_a s))) (length msg) < 2 ^ 31 \<Longrightarrow>
    net_step s (s\<lparr>n_a := a, n_sent := n_sent s @ (if ret = 0 then [msg] else [])\<rparr>)"
| a_update: "ikcp_update (n_a s) t = Inr (out, a) \<Longrightarrow> acks_bounded (n_a s) 0 \<Longrightarrow>
    net_step s (s\<lparr>n_a := a, n_wire := n_wire s \<union> set out\<rparr>)"
| a_flush: "ikcp_flush (n_a s) = Inr (out, a) \<Longrightarrow> acks_bounded (n_a s) 0 \<Longrightarrow>
    net_step s (s\<lparr>n_a := a, n_wire := n_wire s \<union> set out\<rparr>)"
| a_input: "ikcp_input alloc salloc (n_a s) (Some d) (int (length d)) = Inr (ret, a) \<Longrightarrow>
    \<forall>i. alloc i \<noteq> None \<Longrightarrow> \<forall>i. salloc i \<noteq> None \<Longrightarrow> length d < 2 ^ 31 \<Longrightarrow> acks_bounded (n_a s) (length d div 24) \<Longrightarrow>
    net_step s (s\<lparr>n_a := a\<rparr>)"
| a_recv: "ikcp_recv (n_a s) c len = Inr (ret, out, a) \<Longrightarrow> net_step s (s\<lparr>n_a := a\<rparr>)"
| a_nodelay: "net_step s (s\<lparr>n_a := snd (ikcp_nodelay (n_a s) nd iv rs nc)\<rparr>)"
| b_input: "ikcp_input alloc salloc (n_b s) (Some d) (int (length d)) = Inr (ret, b) \<Longrightarrow> d \<in> n_wire s \<Longrightarrow>
    \<forall>i. alloc i \<noteq> None \<Longrightarrow> \<forall>i. salloc i \<noteq> None \<Longrightarrow> acks_bounded (n_b s) (length d div 24) \<Longrightarrow>
    net_step s (s\<lparr>n_b := b\<rparr>)"
| b_update: "ikcp_update (n_b s) t = Inr (out, b) \<Longrightarrow> acks_bounded (n_b s) 0 \<Longrightarrow> net_step s (s\<lparr>n_b := b\<rparr>)"
| b_flush: "ikcp_flush (n_b s) = Inr (out, b) \<Longrightarrow> acks_bounded (n_b s) 0 \<Longrightarrow> net_step s (s\<lparr>n_b := b\<rparr>)"
| b_send: "ikcp_send alloc (n_b s) buf len = Inr (ret, b) \<Longrightarrow> k_stream (n_b s) = 0 \<Longrightarrow> net_step s (s\<lparr>n_b := b\<rparr>)"
| b_nodelay: "net_step s (s\<lparr>n_b := snd (ikcp_nodelay (n_b s) nd iv rs nc)\<rparr>)"
| user_recv: "ikcp_recv (n_b s) (Some c) len = Inr (ret, out, b) \<Longrightarrow> 0 \<le> len \<Longrightarrow> len \<le> int c \<Longrightarrow>
    net_step s (s\<lparr>n_b := b, n_received := n_received s @ (if 0 \<le> ret then [out] else [])\<rparr>)"
| lose: "w \<subseteq> n_wire s \<Longrightarrow> net_step s (s\<lparr>n_wire := w\<rparr>)"

text \<open>Initially: two control blocks as created, each with an output callback, and an empty network.\<close>

definition net_init :: "network \<Rightarrow> bool" where
  "net_init s \<longleftrightarrow>
     (\<exists>alloc alloc' conv user user' k k' f f'.
        ikcp_create alloc conv user = Some k \<and> n_a s = ikcp_setoutput k (Some f) \<and>
        ikcp_create alloc' conv user' = Some k' \<and> n_b s = ikcp_setoutput k' (Some f')) \<and>
     n_wire s = {} \<and> n_sent s = [] \<and> n_received s = []"

text \<open>
  The invariant: some list of payloads is the one \<open>A\<close> has numbered, followed by what is
  queued it is the fragments of the messages sent, all that travels is cut from it, and \<open>B\<close>
  has a prefix of it.
\<close>

definition transfer_ok :: "network \<Rightarrow> (u32 \<times> bytes) list \<Rightarrow> bool" where
  "transfer_ok s log \<longleftrightarrow>
     snd_genuine log (n_a s) \<and> log @ map payload (k_snd_queue (n_a s)) = sent_fragments s \<and>
     (\<forall>d \<in> n_wire s. wire_ok (k_conv (n_a s)) log d) \<and>
     rcv_genuine log (concat (map (message_fragments (unat (k_mss (n_a s)))) (n_received s))) (n_b s)"

definition net_inv :: "network \<Rightarrow> bool" where
  "net_inv s \<longleftrightarrow>
     kcp_inv (n_a s) \<and> kcp_inv (n_b s) \<and> k_stream (n_a s) = 0 \<and> k_output (n_a s) \<noteq> None \<and> k_output (n_b s) \<noteq> None \<and>
     (\<forall>msg \<in> set (n_sent s). length msg < 2 ^ 31 \<and> chunk_count (unat (k_mss (n_a s))) (length msg) < 128) \<and>
     length (sent_fragments s) < 2 ^ 31 \<and> prefix (n_received s) (n_sent s) \<and>
     (\<exists>log. transfer_ok s log)"

subsection \<open>Every step keeps the invariant\<close>

lemma net_init_inv: "net_init s \<Longrightarrow> net_inv s"
  by (auto simp: net_init_def net_inv_def transfer_ok_def sent_fragments_def snd_genuine_def rcv_genuine_def
        ikcp_create_inv ikcp_setoutput_inv)
     (auto simp: ikcp_create_def ikcp_setoutput_def split: if_splits)

lemma sent_fragments_frg:
  assumes "net_inv s" and "p \<in> set (sent_fragments s)"
  shows "unat (fst p) < 256"
proof -
  let ?m = "unat (k_mss (n_a s))"
  obtain msg where msg: "msg \<in> set (n_sent s)" "p \<in> set (message_fragments ?m msg)"
    using assms(2) by (auto simp: sent_fragments_def)
  have "fst p \<in> set (map fst (message_fragments ?m msg))" using msg(2) by simp
  then obtain i where "i < chunk_count ?m (length msg)" "fst p = of_nat i"
    unfolding fragment_numbers by auto
  moreover have "chunk_count ?m (length msg) < 128" using assms(1) msg(1) by (simp add: net_inv_def)
  ultimately show ?thesis using unat_of_nat_u32 [of i] by simp
qed

lemma queue_frg:
  assumes "net_inv s" and "transfer_ok s log"
  shows "\<forall>q \<in> set (k_snd_queue (n_a s)). unat (s_frg q) < 256"
proof
  fix q assume "q \<in> set (k_snd_queue (n_a s))"
  then have "payload q \<in> set (log @ map payload (k_snd_queue (n_a s)))" by simp
  also have "log @ map payload (k_snd_queue (n_a s)) = sent_fragments s" using assms(2) by (simp add: transfer_ok_def)
  finally have "unat (fst (payload q)) < 256" using assms(1) by (intro sent_fragments_frg)
  then show "unat (s_frg q) < 256" by (simp add: payload_def)
qed

text \<open>A step of the sender that sends \<open>out\<close> after numbering some more segments.\<close>

lemma sender_step_inv:
  assumes inv: "net_inv s" and log: "transfer_ok s log"
    and a: "kcp_inv a" "same_peer (n_a s) a" "k_snd_queue a = drop j (k_snd_queue (n_a s))"
      "snd_genuine (log @ map payload (take j (k_snd_queue (n_a s)))) a"
      "\<forall>d \<in> set out. wire_ok (k_conv (n_a s)) (log @ map payload (take j (k_snd_queue (n_a s)))) d"
  shows "net_inv (s\<lparr>n_a := a, n_wire := n_wire s \<union> set out\<rparr>)"
proof -
  let ?new = "map payload (take j (k_snd_queue (n_a s)))"
  let ?s = "s\<lparr>n_a := a, n_wire := n_wire s \<union> set out\<rparr>"
  have frame: "k_conv a = k_conv (n_a s)" "k_mss a = k_mss (n_a s)" "k_stream a = k_stream (n_a s)"
      "k_output a = k_output (n_a s)" "sent_fragments ?s = sent_fragments s"
    using a(2) by (simp_all add: same_peer_def sent_fragments_def)
  have "map payload (k_snd_queue (n_a s)) = ?new @ map payload (drop j (k_snd_queue (n_a s)))"
    by (metis append_take_drop_id map_append)
  then have "(log @ ?new) @ map payload (k_snd_queue a) = sent_fragments ?s"
    using log frame(5) a(3) by (simp add: transfer_ok_def)
  moreover have "\<forall>d \<in> n_wire s. wire_ok (k_conv (n_a s)) (log @ ?new) d"
    using log by (auto simp: transfer_ok_def intro: wire_ok_mono)
  ultimately have "transfer_ok ?s (log @ ?new)"
    using log a(4,5) frame(1,2) by (auto simp: transfer_ok_def intro: rcv_genuine_mono)
  then show ?thesis using inv a(1) frame unfolding net_inv_def by auto
qed

text \<open>A step of either endpoint that sends no data.\<close>

lemma sender_quiet_inv:
  assumes inv: "net_inv s" and a: "kcp_inv a" "snd_sub (n_a s) a"
  shows "net_inv (s\<lparr>n_a := a\<rparr>)"
proof -
  obtain log where log: "transfer_ok s log" using inv by (auto simp: net_inv_def)
  have same: "same_config (n_a s) a" using a(2) by (simp add: snd_sub_def)
  have "genuine_push (k_conv a) log t" if "t \<in> set (k_snd_buf a)" for t
    using that log a(2) genuine_push_same_wire
    by (fastforce simp: snd_sub_def same_config_def transfer_ok_def snd_genuine_def)
  then have "snd_genuine log a" using log same by (simp add: snd_genuine_def same_config_def transfer_ok_def)
  then have "net_inv (s\<lparr>n_a := a, n_wire := n_wire s \<union> set []\<rparr>)"
    using same log by (intro sender_step_inv [OF inv log a(1), of 0]) (auto simp: same_peer_def same_config_def)
  then show ?thesis by simp
qed

lemma receiver_step_inv:
  assumes inv: "net_inv s" and b: "kcp_inv b" "k_output b \<noteq> None"
    and gen: "\<And>log taken. transfer_ok s log \<Longrightarrow> length log < 2 ^ 31 \<Longrightarrow> rcv_genuine log taken (n_b s) \<Longrightarrow> rcv_genuine log taken b"
  shows "net_inv (s\<lparr>n_b := b\<rparr>)"
proof -
  obtain log where log: "transfer_ok s log" using inv by (auto simp: net_inv_def)
  then have "length log \<le> length (sent_fragments s)" by (metis transfer_ok_def length_append le_add1)
  then have "length log < 2 ^ 31" using inv by (simp add: net_inv_def)
  then have "transfer_ok (s\<lparr>n_b := b\<rparr>) log"
    using log gen [OF log] by (simp add: transfer_ok_def sent_fragments_def)
  moreover have "sent_fragments (s\<lparr>n_b := b\<rparr>) = sent_fragments s" by (simp add: sent_fragments_def)
  ultimately show ?thesis using inv b unfolding net_inv_def by auto
qed

lemma user_send_inv:
  assumes inv: "net_inv s" and run: "ikcp_send alloc (n_a s) (Some msg) (int (length msg)) = Inr (ret, a)"
    and alloc: "\<forall>i. alloc i \<noteq> None" and len: "length msg < 2 ^ 31"
    and few: "length (sent_fragments s) + chunk_count (unat (k_mss (n_a s))) (length msg) < 2 ^ 31"
  shows "net_inv (s\<lparr>n_a := a, n_sent := n_sent s @ (if ret = 0 then [msg] else [])\<rparr>)"
proof -
  let ?m = "unat (k_mss (n_a s))"
  have k: "kcp_inv (n_a s)" "k_stream (n_a s) = 0" using inv by (simp_all add: net_inv_def)
  show ?thesis
  proof (cases "chunk_count ?m (length msg) < 128")
    case False
    then have "ret = -2" "a = n_a s"
      using ikcp_send_refuses [OF k, of "int (length msg)" alloc "Some msg"] len run by (simp_all add: not_less)
    then show ?thesis using inv by simp
  next
    case True
    obtain segs where queued: "ikcp_send alloc (n_a s) (Some (msg @ [])) (int (length msg)) =
        Inr (0, (n_a s)\<lparr>k_snd_queue := k_snd_queue (n_a s) @ segs, k_nsnd_que := k_nsnd_que (n_a s) + of_nat (length segs)\<rparr>)"
      and frags: "map payload segs = message_fragments ?m msg"
      by (rule ikcp_send_queues [OF k alloc len True])
    have "(Inr (ret, a) :: (int \<times> ikcpcb) cresult) = Inr (0, (n_a s)\<lparr>k_snd_queue := k_snd_queue (n_a s) @ segs,
        k_nsnd_que := k_nsnd_que (n_a s) + of_nat (length segs)\<rparr>)"
      using queued unfolding append_Nil2 run .
    then have segs: "ret = 0" "a = (n_a s)\<lparr>k_snd_queue := k_snd_queue (n_a s) @ segs,
        k_nsnd_que := k_nsnd_que (n_a s) + of_nat (length segs)\<rparr>" "map payload segs = message_fragments ?m msg"
      using frags by simp_all
    let ?s = "s\<lparr>n_a := a, n_sent := n_sent s @ [msg]\<rparr>"
    have frags: "sent_fragments ?s = sent_fragments s @ message_fragments ?m msg"
      by (simp add: sent_fragments_def segs(2))
    have "kcp_inv a" using k(1) run by (rule ikcp_send_inv)
    moreover obtain log where "transfer_ok s log" using inv by (auto simp: net_inv_def)
    then have "transfer_ok ?s log"
      unfolding transfer_ok_def frags by (simp add: snd_genuine_def segs(2,3))
    ultimately have "net_inv ?s"
      using inv len True few unfolding net_inv_def frags
      by (auto simp: length_message_fragments) (auto simp: segs(2))
    then show ?thesis by (simp add: segs(1))
  qed
qed

lemma after_recv_genuine:
  assumes "rcv_genuine log taken k" and "length log < 2 ^ 31"
  shows "rcv_genuine log (taken @ map payload (take_message (k_rcv_queue k))) (tell_window k (after_recv k False))"
    and "k_output (tell_window k (after_recv k False)) = k_output k"
proof -
  let ?n = "length (take_message (k_rcv_queue k))"
  let ?k = "k\<lparr>k_rcv_queue := drop ?n (k_rcv_queue k), k_nrcv_que := k_nrcv_que k - of_nat ?n\<rparr>"
  have "k_rcv_queue k = take_message (k_rcv_queue k) @ drop ?n (k_rcv_queue k)"
    using append_take_drop_id [of ?n "k_rcv_queue k"] by (simp add: take_message_prefix)
  then have "map payload (k_rcv_queue k) = map payload (take_message (k_rcv_queue k)) @ map payload (drop ?n (k_rcv_queue k))"
    by (metis map_append)
  then have "rcv_genuine log (taken @ map payload (take_message (k_rcv_queue k))) ?k"
    using assms(1) by (simp add: rcv_genuine_def)
  from move_ready_genuine [OF this assms(2)]
  show "rcv_genuine log (taken @ map payload (take_message (k_rcv_queue k))) (tell_window k (after_recv k False))"
    by (auto simp: after_recv_def tell_window_def rcv_genuine_def)
  have "same_config ?k (move_ready ?k)" by (simp add: frame)
  then show "k_output (tell_window k (after_recv k False)) = k_output k"
    by (simp add: after_recv_def tell_window_def same_config_def)
qed

lemma user_recv_inv:
  assumes inv: "net_inv s" and run: "ikcp_recv (n_b s) (Some c) len = Inr (ret, out, b)"
    and len: "0 \<le> len" "len \<le> int c"
  shows "net_inv (s\<lparr>n_b := b, n_received := n_received s @ (if 0 \<le> ret then [out] else [])\<rparr>)"
proof -
  let ?m = "unat (k_mss (n_a s))" and ?q = "k_rcv_queue (n_b s)"
  define taken where "taken = concat (map (message_fragments ?m) (n_received s))"
  have kb: "kcp_inv (n_b s)" and sized: "list_all seg_sized ?q" and rcv: "rcv_inv (n_b s)"
    using inv by (simp_all add: net_inv_def kcp_inv_def)
  have "mtu_inv (n_a s)" using inv by (simp add: net_inv_def kcp_inv_def)
  then have m: "0 < ?m" using mtu_ok_mss(2) by fastforce
  show ?thesis
  proof (cases "message_ready (n_b s)")
    case False
    then have "ret < 0" "b = n_b s" using run ikcp_recv_not_ready [OF sized False] by (auto split: if_splits)
    then show ?thesis using inv by simp
  next
    case True
    obtain log ms where log: "transfer_ok s log" and ms: "n_sent s = n_received s @ ms"
      using inv by (auto simp: net_inv_def prefix_def)
    have gen: "rcv_genuine log taken (n_b s)" using log by (simp add: transfer_ok_def taken_def)
    then obtain n where n: "taken @ map payload ?q = take n log" by (auto simp: rcv_genuine_def)
    let ?later = "drop n log @ map payload (k_snd_queue (n_a s))"
    have "taken @ map payload ?q @ ?later = log @ map payload (k_snd_queue (n_a s))"
      using n by (metis append.assoc append_take_drop_id)
    also have "\<dots> = taken @ concat (map (message_fragments ?m) ms)"
      using log ms by (simp add: transfer_ok_def sent_fragments_def taken_def)
    finally have "map payload ?q @ ?later = concat (map (message_fragments ?m) ms)" by simp
    moreover have "\<forall>msg \<in> set ms. chunk_count ?m (length msg) < 128" using inv ms by (auto simp: net_inv_def)
    ultimately obtain msg ms' rest where msg: "ms = msg # ms'" "map payload ?q = message_fragments ?m msg @ rest"
      by (rule message_ready_complete [OF True rcv _ m])
    have small: "length msg < 2 ^ 31" "chunk_count ?m (length msg) < 2 ^ 31"
      using inv ms msg(1) by (auto simp: net_inv_def)
    note tm = take_message_fragments [OF msg(2) m small(2)]
    have res: "Inr (ret, out, b) = (if int (length msg) > \<bar>len\<bar> then Inr (-3, [], n_b s)
       else Inr (int (length msg), msg, tell_window (n_b s) (after_recv (n_b s) False)))"
      using ikcp_recv_eq [OF sized True, of "Some c" len] small(1) len unfolding run tm(3) by (cases "len < int (length msg)") (simp_all cong: if_cong)
    show ?thesis
    proof (cases "int (length msg) > \<bar>len\<bar>")
      case True
      with res have "ret = -3" "b = n_b s" by simp_all
      then show ?thesis using inv by simp
    next
      case False
      with res have b: "ret = int (length msg)" "out = msg" "b = tell_window (n_b s) (after_recv (n_b s) False)"
        by simp_all
      have "length log \<le> length (sent_fragments s)" using log by (metis transfer_ok_def length_append le_add1)
      then have "length log < 2 ^ 31" using inv by (simp add: net_inv_def)
      note ar = after_recv_genuine [OF gen this, folded b(3), unfolded tm(1)]
      have "kcp_inv b" unfolding b(3) by (intro tell_window_inv after_recv_inv kb)
      let ?s = "s\<lparr>n_b := b, n_received := n_received s @ [msg]\<rparr>"
      have "transfer_ok ?s log"
        using log ar(1) by (simp add: transfer_ok_def sent_fragments_def taken_def)
      moreover have "sent_fragments ?s = sent_fragments s" by (simp add: sent_fragments_def)
      ultimately have "net_inv ?s" using inv \<open>kcp_inv b\<close> ar(2) ms msg(1) unfolding net_inv_def by auto
      then show ?thesis by (simp add: b(1,2))
    qed
  qed
qed

lemma flush_keeps:
  assumes inv: "kcp_inv k" "k_output k \<noteq> None" "unat (k_ackcount k) < 2 ^ 31" and run: "ikcp_flush k = Inr (sent, k')"
  shows "kcp_inv k'" and "same_recv k k'" and "k_output k' = k_output k"
proof -
  have "kcp_inv k' \<and> same_recv k k' \<and> k_output k' = k_output k"
  proof (cases "k_updated k = 0")
    case True
    with run inv show ?thesis by (auto simp: ikcp_flush_def)
  next
    case False
    obtain pss k1 x y s c i where f: "ikcp_flush k = Inr (map datagram pss, k1)" "concat pss = flush_packets k"
      "\<forall>d \<in> set (map datagram pss). d \<noteq> [] \<and> length d \<le> unat (k_mtu k)" "1 \<le> c" "kcp_inv k1"
      "k1 = (flush_ready k)\<lparr>k_xmit := x, k_state := y,
         k_snd_buf := map (updated_seg (s_wnd (control_seg k)) (flush_ready k)) (k_snd_buf (flush_ready k)),
         k_ssthresh := s, k_cwnd := c, k_incr := i\<rparr>"
      by (rule ikcp_flush_ok [OF inv(1,2) False inv(3)])
    have "k' = k1" using run unfolding f(1) by simp
    moreover have "same_recv k (flush_ready k) \<and> k_output (flush_ready k) = k_output k"
      using flush_ready_frame [OF inv(1)] by (auto simp: same_recv_def)
    ultimately show ?thesis using f(5) by (auto simp: f(6) same_recv_def)
  qed
  then show "kcp_inv k'" "same_recv k k'" "k_output k' = k_output k" by blast+
qed

lemma update_keeps:
  assumes inv: "kcp_inv k" "k_output k \<noteq> None" "unat (k_ackcount k) < 2 ^ 31" and run: "ikcp_update k t = Inr (sent, k')"
  shows "kcp_inv k' \<and> same_recv k k' \<and> k_output k' = k_output k"
proof -
  have "timer_inv k" using inv(1) by (simp add: kcp_inv_def)
  then show ?thesis
  proof (cases rule: ikcp_update_cases [where t = t])
    case idle
    then have "k' = k\<lparr>k_current := t\<rparr>" using run by simp
    then show ?thesis using inv(1) by (simp add: same_recv_def kcp_inv_def)
  next
    case (flush ts)
    define k1 where "k1 = update_ready k t ts"
    have k1: "kcp_inv k1" "k_output k1 \<noteq> None" "unat (k_ackcount k1) < 2 ^ 31" "same_recv k k1" "k_output k1 = k_output k"
      using inv by (simp_all add: k1_def update_ready_def kcp_inv_def same_recv_def)
    have "ikcp_flush k1 = Inr (sent, k')" using run flush(1) by (simp add: k1_def)
    from flush_keeps [OF k1(1-3) this] k1(4,5) show ?thesis by (simp add: same_recv_def)
  qed
qed

lemma input_keeps:
  assumes "kcp_inv k" "length d < 2 ^ 31" "acks_bounded k (length d div 24)" "\<forall>i. alloc i \<noteq> None" "\<forall>i. salloc i \<noteq> None"
    and run: "ikcp_input alloc salloc k (Some d) (int (length d)) = Inr (ret, k')"
  shows "kcp_inv k'" and "k_output k' = k_output k"
proof -
  show "kcp_inv k'" using ikcp_input_ok [OF assms(1,4,5,2,3)] run by (metis Inr_inject Pair_inject)
  show "k_output k' = k_output k" using ikcp_input_sub [OF run] by (simp add: snd_sub_def same_config_def)
qed

lemma nodelay_frame:
  "same_recv k (snd (ikcp_nodelay k nd iv rs nc))" "k_output (snd (ikcp_nodelay k nd iv rs nc)) = k_output k"
  "same_peer k (snd (ikcp_nodelay k nd iv rs nc))" "k_snd_buf (snd (ikcp_nodelay k nd iv rs nc)) = k_snd_buf k"
  "k_snd_nxt (snd (ikcp_nodelay k nd iv rs nc)) = k_snd_nxt k" "k_snd_queue (snd (ikcp_nodelay k nd iv rs nc)) = k_snd_queue k"
  by (simp_all add: ikcp_nodelay_def Let_def same_recv_def same_peer_def)

lemma a_nodelay_inv:
  assumes "net_inv s" shows "net_inv (s\<lparr>n_a := snd (ikcp_nodelay (n_a s) nd iv rs nc)\<rparr>)"
proof -
  obtain log where log: "transfer_ok s log" using assms by (auto simp: net_inv_def)
  define a where "a = snd (ikcp_nodelay (n_a s) nd iv rs nc)"
  have inv: "kcp_inv a" using assms by (simp add: a_def ikcp_nodelay_inv net_inv_def)
  note fr = nodelay_frame [of "n_a s" nd iv rs nc, folded a_def]
  have "snd_genuine log a" using log fr by (simp add: transfer_ok_def snd_genuine_def same_peer_def)
  with sender_step_inv [OF assms log inv fr(3), of 0 "[]"] fr(6) show ?thesis by (simp add: a_def)
qed

lemma net_step_inv: "net_inv s \<Longrightarrow> net_step s s' \<Longrightarrow> net_inv s'"
proof (rotate_tac, induction rule: net_step.induct)
  case (user_send alloc s msg ret a)
  from user_send(5,1-4) show ?case by (rule user_send_inv)
next
  case (a_update s t out a)
  then obtain log where log: "transfer_ok s log" by (auto simp: net_inv_def)
  have k: "kcp_inv (n_a s)" "k_output (n_a s) \<noteq> None" "unat (k_ackcount (n_a s)) < 2 ^ 31" "snd_genuine log (n_a s)"
    using a_update(2,3) log by (simp_all add: net_inv_def transfer_ok_def)
  from update_genuine [OF k queue_frg [OF a_update(3) log] a_update(1)] show ?case
    using sender_step_inv [OF a_update(3) log] by metis
next
  case (a_flush s out a)
  then obtain log where log: "transfer_ok s log" by (auto simp: net_inv_def)
  have k: "kcp_inv (n_a s)" "k_output (n_a s) \<noteq> None" "unat (k_ackcount (n_a s)) < 2 ^ 31" "snd_genuine log (n_a s)"
    using a_flush(2,3) log by (simp_all add: net_inv_def transfer_ok_def)
  from flush_genuine [OF k queue_frg [OF a_flush(3) log] a_flush(1)] show ?case
    using sender_step_inv [OF a_flush(3) log] by metis
next
  case (a_input alloc salloc s d ret a)
  have "kcp_inv (n_a s)" using a_input(6) by (simp add: net_inv_def)
  from input_keeps(1) [OF this a_input(4,5,2,3,1)] show ?case
    by (rule sender_quiet_inv [OF a_input(6) _ ikcp_input_sub [OF a_input(1)]])
next
  case (a_recv s c len ret out a)
  have "kcp_inv (n_a s)" using a_recv(2) by (simp add: net_inv_def)
  from ikcp_recv_keeps [OF this a_recv(1)] show ?case by (intro sender_quiet_inv [OF a_recv(2)])
next
  case (a_nodelay s nd iv rs nc)
  then show ?case by (rule a_nodelay_inv)
next
  case (b_input alloc salloc s d ret b)
  have k: "kcp_inv (n_b s)" "k_output (n_b s) \<noteq> None" using b_input(6) by (simp_all add: net_inv_def)
  have wire: "transfer_ok s log \<Longrightarrow> wire_ok (k_conv (n_a s)) log d" for log
    using b_input(2) by (simp add: transfer_ok_def)
  have "length d < 2 ^ 31" using b_input(6) wire by (auto simp: net_inv_def wire_ok_def)
  note keeps = input_keeps [OF k(1) this b_input(5,3,4,1)]
  show ?case
    by (rule receiver_step_inv [OF b_input(6)])
      (use keeps k(2) ikcp_input_genuine [OF b_input(1) wire] in auto)
next
  case (b_update s t out b)
  then have "kcp_inv b \<and> same_recv (n_b s) b \<and> k_output b = k_output (n_b s)"
    by (intro update_keeps [OF _ _ _ b_update(1)]) (simp_all add: net_inv_def)
  moreover have "k_output (n_b s) \<noteq> None" using b_update(3) by (simp add: net_inv_def)
  ultimately show ?case
    by (intro receiver_step_inv [OF b_update(3)]) (auto simp: rcv_genuine_same_recv)
next
  case (b_flush s out b)
  have k: "kcp_inv (n_b s)" "k_output (n_b s) \<noteq> None" "unat (k_ackcount (n_b s)) < 2 ^ 31"
    using b_flush(2,3) by (simp_all add: net_inv_def)
  show ?case
    by (rule receiver_step_inv [OF b_flush(3)])
      (use flush_keeps [OF k b_flush(1)] k(2) in \<open>auto simp: rcv_genuine_same_recv\<close>)
next
  case (b_send alloc s buf len ret b)
  have k: "kcp_inv (n_b s)" "k_output (n_b s) \<noteq> None" using b_send(3) by (simp_all add: net_inv_def)
  obtain q n where b: "b = (n_b s)\<lparr>k_snd_queue := q, k_nsnd_que := n\<rparr>" using ikcp_send_frame [OF b_send(1,2)] by blast
  then have "same_recv (n_b s) b" by (simp add: same_recv_def)
  with k b ikcp_send_inv [OF k(1) b_send(1)] show ?case
    by (intro receiver_step_inv [OF b_send(3)]) (auto simp: rcv_genuine_same_recv)
next
  case (b_nodelay s nd iv rs nc)
  show ?case
    by (rule receiver_step_inv [OF b_nodelay])
      (use b_nodelay in \<open>simp_all add: net_inv_def ikcp_nodelay_inv nodelay_frame rcv_genuine_same_recv [OF nodelay_frame(1)]\<close>)
next
  case (user_recv s c len ret out b)
  from user_recv(4,1-3) show ?case by (rule user_recv_inv)
next
  case (lose w s)
  then show ?case by (auto simp: net_inv_def transfer_ok_def sent_fragments_def)
qed

interpretation net: invariant_system net_init net_step net_inv
  by unfold_locales (fact net_init_inv, fact net_step_inv)

text \<open>
  C1. What the receiving user gets is a prefix of what the sending user sent: in every state
  the two endpoints can reach, over a network that may lose, duplicate, delay and reorder
  datagrams and in which the sender is fed arbitrary bytes, the messages \<open>ikcp_recv\<close> has
  returned at \<open>B\<close> are the first messages \<open>ikcp_send\<close> has accepted at \<open>A\<close>, whole and in
  order, and both control blocks satisfy their invariant.
\<close>

theorem delivery_in_order:
  assumes "reachable net_init net_step s"
  shows "prefix (n_received s) (n_sent s) \<and> kcp_inv (n_a s) \<and> kcp_inv (n_b s)"
  using net.reachable_inv [OF assms] by (simp add: net_inv_def)

text \<open>
  One transfer, computed: \<open>A\<close> sends three bytes, two updates put them on the wire (the first
  flush only opens the congestion window), \<open>B\<close> takes the datagram and its user reads.
\<close>

definition example_end :: ikcpcb where
  "example_end = ikcp_setoutput example_kcp (Some 1)"

definition example_sent :: ikcpcb where
  "example_sent = snd (projr (ikcp_send example_alloc example_end (Some [1, 2, 3]) 3))"

definition example_opened :: ikcpcb where
  "example_opened = snd (projr (ikcp_update example_sent 100))"

definition example_flushed :: ikcpcb where
  "example_flushed = snd (projr (ikcp_update example_opened 200))"

definition example_datagram :: bytes where
  "example_datagram = [1, 0, 0, 0, 81, 0, 128, 0, 200, 0, 0, 0, 0, 0, 0, 0, 0, 0, 0, 0, 3, 0, 0, 0, 1, 2, 3]"

definition example_got :: ikcpcb where
  "example_got = snd (projr (ikcp_input (\<lambda>_. Some (\<lambda>_. 0)) example_alloc example_end (Some example_datagram) 27))"

definition example_read :: ikcpcb where
  "example_read = snd (snd (projr (ikcp_recv example_got (Some 10) 10)))"

lemma example_send_run: "ikcp_send example_alloc example_end (Some [1, 2, 3]) 3 = Inr (0, example_sent)"
  by code_simp

lemma example_update_run:
  "ikcp_update example_sent 100 = Inr ([], example_opened)" "unat (k_ackcount example_sent) = 0"
  by code_simp+

lemma example_flush_run:
  "ikcp_update example_opened 200 = Inr ([example_datagram], example_flushed)" "unat (k_ackcount example_opened) = 0"
  by code_simp+

lemma example_input_run:
  "ikcp_input (\<lambda>_. Some (\<lambda>_. 0)) example_alloc example_end (Some example_datagram) 27 = Inr (0, example_got)"
  "unat (k_ackcount example_end) = 0"
  by code_simp+

lemma example_recv_run: "ikcp_recv example_got (Some 10) 10 = Inr (3, [1, 2, 3], example_read)"
  by code_simp

definition example_net :: "ikcpcb \<Rightarrow> ikcpcb \<Rightarrow> bytes set \<Rightarrow> bytes list \<Rightarrow> network" where
  "example_net a b wire got = \<lparr>n_a = a, n_b = b, n_wire = wire, n_sent = [[1, 2, 3]], n_received = got\<rparr>"

lemma example_net_sent: "reachable net_init net_step (example_net example_sent example_end {} [])"
proof -
  let ?s = "\<lparr>n_a = example_end, n_b = example_end, n_wire = {}, n_sent = [], n_received = []\<rparr>"
  have create: "ikcp_create (\<lambda>_. Some (\<lambda>_. 0)) 1 0 = Some example_kcp"
    by (simp add: example_kcp_def ikcp_create_def)
  then have "net_init ?s"
    unfolding net_init_def by (intro conjI exI [where x = example_kcp] exI) (simp_all add: example_end_def)
  then have "reachable net_init net_step ?s" by (rule reachable.start)
  moreover have "unat (k_mss example_end) = 1376" by (simp add: example_end_def ikcp_setoutput_def example_kcp_fields)
  then have "net_step ?s (?s\<lparr>n_a := example_sent, n_sent := n_sent ?s @ (if (0 :: int) = 0 then [[1, 2, 3]] else [])\<rparr>)"
    by (intro net_step.user_send [of example_alloc])
      (simp_all add: example_send_run example_alloc_ok sent_fragments_def chunk_count_def)
  ultimately have "reachable net_init net_step (?s\<lparr>n_a := example_sent, n_sent := n_sent ?s @ (if (0 :: int) = 0 then [[1, 2, 3]] else [])\<rparr>)"
    by (rule reachable.extend)
  then show ?thesis by (simp add: example_net_def)
qed

lemma example_net_flushed: "reachable net_init net_step (example_net example_flushed example_end {example_datagram} [])"
proof -
  have "net_step (example_net example_sent example_end {} []) (example_net example_opened example_end {} [])"
    using net_step.a_update [of "example_net example_sent example_end {} []" 100 "[]" example_opened]
    by (simp add: example_net_def example_update_run)
  from reachable.extend [OF example_net_sent this]
  have "reachable net_init net_step (example_net example_opened example_end {} [])" .
  moreover have "net_step (example_net example_opened example_end {} []) (example_net example_flushed example_end {example_datagram} [])"
    using net_step.a_update [of "example_net example_opened example_end {} []" 200 "[example_datagram]" example_flushed]
    by (simp add: example_net_def example_flush_run)
  ultimately show ?thesis by (rule reachable.extend)
qed

lemma example_net_read:
  "reachable net_init net_step (example_net example_flushed example_read {example_datagram} [[1, 2, 3]])"
proof -
  have len: "length example_datagram = 27" by (simp add: example_datagram_def)
  have "net_step (example_net example_flushed example_end {example_datagram} [])
      (example_net example_flushed example_got {example_datagram} [])"
    using net_step.b_input [of "\<lambda>_. Some (\<lambda>_. 0)" example_alloc
        "example_net example_flushed example_end {example_datagram} []" example_datagram 0 example_got]
    by (simp add: example_net_def example_input_run example_alloc_ok len)
  from reachable.extend [OF example_net_flushed this]
  have "reachable net_init net_step (example_net example_flushed example_got {example_datagram} [])" .
  moreover have "net_step (example_net example_flushed example_got {example_datagram} [])
      (example_net example_flushed example_read {example_datagram} [[1, 2, 3]])"
    using net_step.user_recv [of "example_net example_flushed example_got {example_datagram} []" 10 10 3 "[1, 2, 3]" example_read]
    by (simp add: example_net_def example_recv_run)
  ultimately show ?thesis by (rule reachable.extend)
qed

theorem delivery_in_order_witness:
  "\<exists>s. reachable net_init net_step s \<and> n_received s = [[1, 2, 3]] \<and>
       prefix (n_received s) (n_sent s) \<and> kcp_inv (n_a s) \<and> kcp_inv (n_b s)"
proof (intro exI conjI)
  show "n_received (example_net example_flushed example_read {example_datagram} [[1, 2, 3]]) = [[1, 2, 3]]"
    by (simp add: example_net_def)
qed (use example_net_read delivery_in_order [OF example_net_read] in blast)+

end
