(* ===== verification/KcpServer.thy ===== *)
theory KcpServer
  imports KcpNetwork
begin

text \<open>
  The UDP server of \<open>src/kcp_learn/server.c\<close>: \<open>main\<close>, \<open>init\<close>, \<open>loop\<close>, \<open>udp_output\<close> and the
  clock. Each round of the loop updates the control block, polls the socket, feeds a datagram
  to \<open>ikcp_input\<close>, reads at most one message and sends it back.

  The operating system is an argument: what \<open>gettimeofday\<close>, \<open>recvfrom\<close>, \<open>sendto\<close>, \<open>socket\<close>
  and \<open>bind\<close> return, and the allocators of the KCP calls. A pause (\<open>isleep\<close>) and the printing
  do not change the state. The theorem is that a server started by \<open>main\<close> survives
  whatever datagrams it is sent.
\<close>

subsection \<open>The clock\<close>

text \<open>\<open>gettimeofday\<close> gives seconds and microseconds.\<close>

type_synonym timeval = "int \<times> int"

definition iclock64 :: "timeval \<Rightarrow> int" where
  "iclock64 tv = (case tv of (s, u) \<Rightarrow> s * 1000 + c_div u 1000)"

definition iclock :: "timeval \<Rightarrow> u32" where
  "iclock tv = word_of_int (iclock64 tv AND 0xffffffff)"

text \<open>The argument of \<open>usleep\<close> in \<open>isleep\<close>, computed with shifts.\<close>

definition isleep :: "u64 \<Rightarrow> u64" where
  "isleep millisecond = push_bit 10 millisecond - push_bit 4 millisecond - push_bit 3 millisecond"

subsection \<open>State\<close>

type_synonym addr = nat

text \<open>
  \<open>struct kcpObj\<close> with the variables of \<open>loop\<close> and of the file. \<open>o_client\<close> is \<open>CientAddr\<close>,
  which nothing assigns before the first \<open>recvfrom\<close>; \<open>ipstr\<close> is not used and \<open>buff\<close> is filled but never read. \<open>o_sent\<close> and \<open>o_served\<close> are
  histories: the datagrams the socket has taken and the messages \<open>ikcp_send\<close> has accepted.
\<close>

record kcpObj =
  o_port :: int
  o_kcp :: ikcpcb
  o_sockfd :: int
  o_client :: "addr option"
  o_buf :: bytes
  o_recv_count :: int
  o_first_recv_time :: int
  o_number :: int
  o_sent :: "(addr \<times> bytes) list"
  o_served :: "bytes list"

definition RECV_BUF :: nat where "RECV_BUF = 1500"

subsection \<open>Output\<close>

definition udp_output :: "int \<Rightarrow> bytes \<Rightarrow> kcpObj \<Rightarrow> (int \<times> kcpObj) cresult" where
  "udp_output sendto buf s =
     (case o_client s of
        None \<Rightarrow> Inl Uninitialised
      | Some a \<Rightarrow>
          if sendto \<ge> 0 then Inr (sendto, s\<lparr>o_sent := o_sent s @ [(a, buf)]\<rparr>) else Inr (-1, s))"

text \<open>The calls of the callback in one flush, whose results \<open>ikcp_flush\<close> does not look at.\<close>

fun udp_outputs :: "(nat \<Rightarrow> int) \<Rightarrow> nat \<Rightarrow> bytes list \<Rightarrow> kcpObj \<Rightarrow> kcpObj cresult" where
  "udp_outputs sendto i [] s = Inr s"
| "udp_outputs sendto i (d # ds) s =
     rbind (udp_output (sendto i) d s) (\<lambda>(_, s). udp_outputs sendto (Suc i) ds s)"

definition server_update :: "timeval \<Rightarrow> (nat \<Rightarrow> int) \<Rightarrow> kcpObj \<Rightarrow> kcpObj cresult" where
  "server_update tv sendto s =
     rbind (ikcp_update (o_kcp s) (iclock tv)) (\<lambda>(out, k). udp_outputs sendto 0 out (s\<lparr>o_kcp := k\<rparr>))"

definition server_flush :: "(nat \<Rightarrow> int) \<Rightarrow> kcpObj \<Rightarrow> kcpObj cresult" where
  "server_flush sendto s =
     rbind (ikcp_flush (o_kcp s)) (\<lambda>(out, k). udp_outputs sendto 0 out (s\<lparr>o_kcp := k\<rparr>))"

subsection \<open>The loop\<close>

text \<open>
  What the system does in one round: the clock, the datagram (\<open>None\<close> when \<open>recvfrom\<close>
  returns a negative number), the allocators and the results of \<open>sendto\<close>.
\<close>

record round_env =
  le_time :: timeval
  le_sendto :: "nat \<Rightarrow> int"
  le_recvfrom :: "(bytes \<times> addr) option"
  le_recv_time :: timeval
  le_ack_alloc :: "u32 allocator"
  le_seg_alloc :: seg_allocator
  le_send_alloc :: seg_allocator
  le_sendto_flush :: "nat \<Rightarrow> int"

text \<open>Reading a message with room for \<open>n\<close> bytes, the length of the datagram, and sending it back.\<close>

definition server_answer :: "round_env \<Rightarrow> int \<Rightarrow> kcpObj \<Rightarrow> (bool \<times> kcpObj) cresult" where
  "server_answer e n s =
     rbind (ikcp_recv (o_kcp s) (Some RECV_BUF) n) (\<lambda>(ret, out, k).
       let s = s\<lparr>o_kcp := k, o_buf := memcpy_at (o_buf s) 0 out\<rparr> in
       if ret < 0 then Inr (True, s)
       else
         let send_size = ret in
         rbind (ikcp_send (le_send_alloc e) (o_kcp s) (Some (o_buf s)) send_size) (\<lambda>(ret, k).
           let s = s\<lparr>o_kcp := k,
                     o_served := o_served s @ (if ret = 0 then [take (nat send_size) (o_buf s)] else [])\<rparr>
           in rbind (server_flush (le_sendto_flush e) s) (\<lambda>s.
                Inr (True, s\<lparr>o_number := wrap_i32 (o_number s + 1)\<rparr>))))"

definition server_datagram :: "round_env \<Rightarrow> bytes \<Rightarrow> kcpObj \<Rightarrow> (bool \<times> kcpObj) cresult" where
  "server_datagram e d s =
     (let n = int (length d);
          s = s\<lparr>o_recv_count := wrap_i32 (o_recv_count s + 1),
                o_first_recv_time := (if o_first_recv_time s = 0 then iclock64 (le_recv_time e)
                                      else o_first_recv_time s)\<rparr>
      in rbind (ikcp_input (le_ack_alloc e) (le_seg_alloc e) (o_kcp s) (Some (o_buf s)) n) (\<lambda>(ret, k).
           let s = s\<lparr>o_kcp := k\<rparr> in
           if ret < 0 then Inr (True, s) else server_answer e n s))"

text \<open>The part of a round from \<open>recvfrom\<close> on; \<open>False\<close> when it leaves the loop.\<close>

definition server_receive :: "round_env \<Rightarrow> kcpObj \<Rightarrow> (bool \<times> kcpObj) cresult" where
  "server_receive e s =
     (case le_recvfrom e of
        None \<Rightarrow> Inr (True, s)
      | Some (d, a) \<Rightarrow>
          let d = take RECV_BUF d;
              s = s\<lparr>o_client := Some a, o_buf := memcpy_at (o_buf s) 0 d\<rparr>
          in if d = [] then Inr (False, s) else server_datagram e d s)"

definition server_iteration :: "round_env \<Rightarrow> kcpObj \<Rightarrow> (bool \<times> kcpObj) cresult" where
  "server_iteration e s = rbind (server_update (le_time e) (le_sendto e) s) (server_receive e)"

text \<open>The rounds the loop makes while the system behaves as listed; \<open>True\<close> when it goes on.\<close>

fun server_rounds :: "round_env list \<Rightarrow> kcpObj \<Rightarrow> (bool \<times> kcpObj) cresult" where
  "server_rounds [] s = Inr (True, s)"
| "server_rounds (e # es) s =
     rbind (server_iteration e s) (\<lambda>(go, s). if go then server_rounds es s else Inr (False, s))"

definition loop_server :: "timeval \<Rightarrow> (nat \<Rightarrow> int) \<Rightarrow> round_env list \<Rightarrow> kcpObj \<Rightarrow> (bool \<times> kcpObj) cresult" where
  "loop_server tv sendto es s =
     rbind (server_update tv sendto (s\<lparr>o_recv_count := 0\<rparr>)) (\<lambda>s.
       server_rounds es (s\<lparr>o_buf := replicate RECV_BUF 0\<rparr>))"

subsection \<open>Starting the server\<close>

definition server_kcp :: "u8 allocator \<Rightarrow> ikcpcb \<Rightarrow> ikcpcb" where
  "server_kcp alloc kcp =
     (let kcp = snd (ikcp_setmtu alloc kcp 1400);
          kcp = ikcp_setoutput kcp (Some 1);
          kcp = snd (ikcp_nodelay kcp 0 10 0 0)
      in snd (ikcp_wndsize kcp 128 128))"

text \<open>The same calls in the order of \<open>client.c\<close>.\<close>

definition client_kcp :: "u8 allocator \<Rightarrow> ikcpcb \<Rightarrow> ikcpcb" where
  "client_kcp alloc kcp =
     (let kcp = ikcp_setoutput kcp (Some 1);
          kcp = snd (ikcp_nodelay kcp 0 10 0 0);
          kcp = snd (ikcp_wndsize kcp 128 128)
      in snd (ikcp_setmtu alloc kcp 1400))"

text \<open>\<open>init\<close>: \<open>None\<close> when it calls \<open>exit(1)\<close>.\<close>

definition init_server :: "int \<Rightarrow> int \<Rightarrow> kcpObj \<Rightarrow> kcpObj option" where
  "init_server sock bind s =
     (if sock < 0 then None else if bind < 0 then None else Some (s\<lparr>o_sockfd := sock\<rparr>))"

text \<open>The object on the stack of \<open>main\<close> when \<open>init\<close> is called; \<open>port\<close> is the value of \<open>atoi(argv[1])\<close>.\<close>

definition server_start :: "int \<Rightarrow> ikcpcb \<Rightarrow> kcpObj" where
  "server_start port kcp =
     \<lparr>o_port = port, o_kcp = kcp, o_sockfd = -1, o_client = None, o_buf = [],
      o_recv_count = 0, o_first_recv_time = 0, o_number = 0, o_sent = [], o_served = []\<rparr>"

datatype ended = Exit int | Looping kcpObj

definition main_server ::
  "int \<Rightarrow> int \<Rightarrow> u8 allocator \<Rightarrow> u8 allocator \<Rightarrow> int \<Rightarrow> int \<Rightarrow> timeval \<Rightarrow> (nat \<Rightarrow> int) \<Rightarrow> round_env list \<Rightarrow> ended cresult" where
  "main_server argc port alloc mtu_alloc sock bind tv sendto es =
     (if argc < 2 then Inr (Exit (-1))
      else
        case ikcp_create alloc 1 0 of
          None \<Rightarrow> Inl Null_Deref
        | Some kcp \<Rightarrow>
            (case init_server sock bind (server_start port (server_kcp mtu_alloc kcp)) of
               None \<Rightarrow> Inr (Exit 1)
             | Some s \<Rightarrow>
                 rbind (loop_server tv sendto es s) (\<lambda>(go, s). Inr (if go then Looping s else Exit 0))))"

subsection \<open>The clock and the pause\<close>

lemma isleep_thousand: "isleep ms = 1000 * ms"
  by (simp add: isleep_def push_bit_eq_mult)

lemma iclock_wraps: "iclock tv = word_of_int (iclock64 tv)"
proof -
  have "iclock64 tv AND 0xffffffff = take_bit 32 (iclock64 tv)"
    by (simp add: take_bit_eq_mask mask_eq_exp_minus_1)
  then show ?thesis by (simp add: iclock_def word_of_int_eq_iff)
qed

subsection \<open>A datagram in a larger buffer\<close>

text \<open>Nothing behind the first \<open>n\<close> bytes of the buffer is looked at.\<close>

lemma decode32u_more: "ikcp_decode32u d = Inr (v, r) \<Longrightarrow> ikcp_decode32u (d @ junk) = Inr (v, r @ junk)"
  by (cases d rule: ikcp_decode32u.cases) (auto simp: Let_def)

lemma decode16u_more: "ikcp_decode16u d = Inr (v, r) \<Longrightarrow> ikcp_decode16u (d @ junk) = Inr (v, r @ junk)"
  by (cases d rule: ikcp_decode16u.cases) (auto simp: Let_def)

lemma decode8u_more: "ikcp_decode8u d = Inr (v, r) \<Longrightarrow> ikcp_decode8u (d @ junk) = Inr (v, r @ junk)"
  by (cases d rule: ikcp_decode8u.cases) auto

lemma decode_header_more:
  assumes "decode_header d = Inr (h, r)" shows "decode_header (d @ junk) = Inr (h, r @ junk)"
proof -
  from assms [unfolded decode_header_def rbind_Inr_iff split_paired_Ex prod.case]
  obtain c d1 f d2 w d3 t d4 s d5 u d6 l d7 where
    "ikcp_decode8u d = Inr (c, d1)" "ikcp_decode8u d1 = Inr (f, d2)" "ikcp_decode16u d2 = Inr (w, d3)"
    "ikcp_decode32u d3 = Inr (t, d4)" "ikcp_decode32u d4 = Inr (s, d5)" "ikcp_decode32u d5 = Inr (u, d6)"
    "ikcp_decode32u d6 = Inr (l, d7)"
    and r: "(Inr (\<lparr>h_cmd = c, h_frg = f, h_wnd = w, h_ts = t, h_sn = s, h_una = u, h_len = l\<rparr>, d7) :: (seg_header \<times> bytes) cresult) = Inr (h, r)"
    by blast
  note steps = this(1-2) [THEN decode8u_more [where junk = junk]] this(3) [THEN decode16u_more [where junk = junk]]
    this(4-7) [THEN decode32u_more [where junk = junk]]
  show ?thesis unfolding decode_header_def steps rbind_simps prod.case using r by simp
qed

lemma input_segment_more:
  assumes "input_segment alloc salloc i k m conv h d = Inr r" and "unat (h_len h) \<le> length d"
  shows "input_segment alloc salloc i k m conv h (d @ junk) = Inr r"
proof -
  have fill: "fill_segment seg conv h (d @ junk) = fill_segment seg conv h d" for seg
    using assms(2) by (simp add: fill_segment_def Let_def)
  have push: "input_push alloc salloc i k conv h (d @ junk) = input_push alloc salloc i k conv h d" for k
    unfolding input_push_def fill ..
  from assms(1) show ?thesis unfolding input_segment_def push .
qed

lemma input_loop_more:
  "input_loop alloc salloc i k m d sz = Inr r \<Longrightarrow> sz \<le> int (length d) \<Longrightarrow> input_loop alloc salloc i k m (d @ junk) sz = Inr r"
proof (induction alloc salloc i k m d sz rule: input_loop.induct)
  case (1 alloc salloc i k m d sz)
  show ?case
  proof (cases "sz < sint IKCP_OVERHEAD")
    case True
    with 1(2) show ?thesis by (subst (asm) input_loop.simps, subst input_loop.simps) simp
  next
    case False
    have len: "24 \<le> length d" using False 1(3) by (simp add: kcp_consts)
    note run = 1(2) [unfolded input_loop.simps [of alloc salloc i k m d sz] if_not_P [OF False]]
    obtain conv where conv: "ikcp_decode32u d = Inr (conv, drop 4 d)" using decode32u_ok [of d] len by auto
    obtain h where h: "decode_header (drop 4 d) = Inr (h, drop 24 d)" using decode_header_ok [of "drop 4 d"] len that by fastforce
    note more = decode32u_more [OF conv, of junk] decode_header_more [OF h, of junk]
    let ?bad = "sz - 24 < int (unat (h_len h)) \<or> sint (h_len h) < 0"
    let ?unknown = "ucast (h_cmd h) \<noteq> IKCP_CMD_PUSH \<and> ucast (h_cmd h) \<noteq> IKCP_CMD_ACK \<and>
      ucast (h_cmd h) \<noteq> IKCP_CMD_WASK \<and> ucast (h_cmd h) \<noteq> IKCP_CMD_WINS"
    show ?thesis
    proof (cases "conv \<noteq> k_conv k \<or> ?bad \<or> ?unknown")
      case True
      have "(if conv \<noteq> k_conv k then Inr (-1, k, m) else if ?bad then Inr (-2, k, m) else if ?unknown then Inr (-3, k, m) else X) = Inr r"
        for X :: "(int \<times> ikcpcb \<times> ack_mark) cresult"
        using run True unfolding conv rbind_simps prod.case h by (simp only: split: if_splits) blast+
      then show ?thesis
        unfolding input_loop.simps [of alloc salloc i k m "d @ junk" sz] if_not_P [OF False] more rbind_simps prod.case .
    next
      case good: False
      then have g: "\<not> conv \<noteq> k_conv k" "\<not> ?bad" "\<not> ?unknown" by blast+
      note rest = run [unfolded conv rbind_simps prod.case if_not_P [OF g(1)] h if_not_P [OF g(2)] if_not_P [OF g(3)]]
      have fits: "unat (h_len h) \<le> length (drop 24 d)" using g(2) 1(3) len by simp linarith
      obtain k1 m1 where seg: "input_segment alloc salloc i k m conv h (drop 24 d) = Inr (k1, m1)"
        and loop: "input_loop alloc salloc (Suc i) k1 m1 (drop (unat (h_len h)) (drop 24 d)) (sz - 24 - int (unat (h_len h))) = Inr r"
        using rest by (auto simp: rbind_Inr_iff)
      have "sz - 24 - int (unat (h_len h)) \<le> int (length (drop (unat (h_len h)) (drop 24 d)))"
        using fits 1(3) len by simp
      from 1(1) [OF False conv refl g(1) h refl g(2,3) seg refl loop this]
      have "input_loop alloc salloc (Suc i) k1 m1 (drop (unat (h_len h)) (drop 24 d @ junk)) (sz - 24 - int (unat (h_len h))) = Inr r"
        using fits by simp
      with input_segment_more [OF seg fits, of junk] show ?thesis
        by (subst input_loop.simps)
          (simp only: if_not_P [OF False] more rbind_simps prod.case if_not_P [OF g(1)] if_not_P [OF g(2)] if_not_P [OF g(3)])
    qed
  qed
qed

lemma ikcp_input_more:
  assumes "ikcp_input alloc salloc k (Some d) n = Inr r" and "n \<le> int (length d)"
  shows "ikcp_input alloc salloc k (Some (d @ junk)) n = Inr r"
proof -
  let ?m = "\<lparr>m_flag = 0, m_maxack = 0, m_latest_ts = 0\<rparr>"
  show ?thesis
  proof (cases "wrap_i32 n < sint IKCP_OVERHEAD")
    case False
    then obtain x where x: "input_loop alloc salloc 0 k ?m d n = Inr x"
      using assms(1) by (auto simp: ikcp_input_def rbind_Inr_iff)
    from assms(1) show ?thesis
      unfolding ikcp_input_def Let_def option.case if_not_P [OF False] x input_loop_more [OF x assms(2)] .
  qed (use assms(1) in \<open>simp add: ikcp_input_def\<close>)
qed

subsection \<open>Flushing, whatever the state\<close>

text \<open>An endpoint that has nothing to say.\<close>

definition mute :: "ikcpcb \<Rightarrow> bool" where
  "mute k \<longleftrightarrow> k_snd_queue k = [] \<and> k_snd_buf k = [] \<and> k_ackcount k = 0 \<and> k_probe k = 0 \<and> k_rmt_wnd k \<noteq> 0"

text \<open>What a flush or an update does to an endpoint, apart from its clock and its timers.\<close>

definition flushed :: "ikcpcb \<Rightarrow> bytes list \<Rightarrow> ikcpcb \<Rightarrow> bool" where
  "flushed k out k' \<longleftrightarrow>
     kcp_inv k' \<and> same_peer k k' \<and> k_mtu k' = k_mtu k \<and> unat (k_ackcount k') \<le> unat (k_ackcount k) \<and>
     (\<forall>d \<in> set out. d \<noteq> [] \<and> length d \<le> unat (k_mtu k)) \<and> (mute k \<longrightarrow> out = [] \<and> mute k')"

lemma flush_packets_mute:
  assumes "mute k" and "kcp_inv k" shows "flush_packets k = []" and "k_snd_queue (flush_ready k) = []" and "k_snd_buf (flush_ready k) = []"
proof -
  have "k_snd_queue (after_control k) = []" "k_snd_buf (after_control k) = []"
    using assms(1) after_control_frame [of k] by (auto simp: mute_def)
  then have "flush_ready k = after_control k"
    unfolding flush_ready_def by (subst flush_move.simps) simp
  then show f: "k_snd_queue (flush_ready k) = []" "k_snd_buf (flush_ready k) = []"
    using assms(1) after_control_frame [of k] by (auto simp: mute_def)
  have "control_packets k = []"
    using assms(1) by (simp add: mute_def control_packets_def flush_probe_def acks_of_def ack_packets_def Let_def split: option.splits)
  with f show "flush_packets k = []" by (simp add: flush_packets_def)
qed

lemma ikcp_flush_flushed:
  assumes inv: "kcp_inv k" and out: "k_output k \<noteq> None" and few: "unat (k_ackcount k) < 2 ^ 31"
  obtains sent k' where "ikcp_flush k = Inr (sent, k')" "flushed k sent k'"
proof (cases "k_updated k = 0")
  case True
  then have "ikcp_flush k = Inr ([], k)" by (simp add: ikcp_flush_def)
  then show thesis using inv by (intro that [of "[]" k]) (simp_all add: flushed_def same_peer_def)
next
  case False
  obtain pss k' x y s c i where f: "ikcp_flush k = Inr (map datagram pss, k')" "concat pss = flush_packets k"
    "\<forall>d \<in> set (map datagram pss). d \<noteq> [] \<and> length d \<le> unat (k_mtu k)" "1 \<le> c" "kcp_inv k'"
    "k' = (flush_ready k)\<lparr>k_xmit := x, k_state := y,
       k_snd_buf := map (updated_seg (s_wnd (control_seg k)) (flush_ready k)) (k_snd_buf (flush_ready k)),
       k_ssthresh := s, k_cwnd := c, k_incr := i\<rparr>"
    by (rule ikcp_flush_ok [OF inv out False few])
  have fr: "same_peer k (flush_ready k)" "k_mtu (flush_ready k) = k_mtu k" "k_ackcount (flush_ready k) = 0"
      "k_probe (flush_ready k) = 0" "k_rmt_wnd (flush_ready k) = k_rmt_wnd k"
    using flush_ready_frame [OF inv] by (auto simp: same_peer_def)
  have "map datagram pss = [] \<and> mute k'" if "mute k"
  proof -
    have "\<forall>ps \<in> set pss. ps = []" using f(2) flush_packets_mute(1) [OF that inv] by simp
    then have "pss = []" using f(3) by (cases pss) auto
    then show ?thesis using flush_packets_mute(2,3) [OF that inv] fr that by (simp add: f(6) mute_def)
  qed
  with f fr show thesis by (intro that [OF f(1)]) (simp add: flushed_def same_peer_def)
qed

lemma ikcp_update_flushed:
  assumes inv: "kcp_inv k" and out: "k_output k \<noteq> None" and few: "unat (k_ackcount k) < 2 ^ 31"
  obtains sent k' where "ikcp_update k t = Inr (sent, k')" "flushed k sent k'"
proof -
  have "timer_inv k" using inv by (simp add: kcp_inv_def)
  then show thesis
  proof (cases rule: ikcp_update_cases [where t = t])
    case idle
    have "flushed k [] (k\<lparr>k_current := t\<rparr>)" using inv by (simp add: flushed_def kcp_inv_def same_peer_def mute_def)
    with idle(1) show thesis by (rule that)
  next
    case (flush ts)
    let ?k = "update_ready k t ts"
    have k: "kcp_inv ?k" "k_output ?k \<noteq> None" "unat (k_ackcount ?k) < 2 ^ 31" and eq: "mute ?k = mute k"
      using assms by (simp_all add: update_ready_def kcp_inv_def mute_def)
    obtain sent k' where "ikcp_flush ?k = Inr (sent, k')" "flushed ?k sent k'" by (rule ikcp_flush_flushed [OF k])
    with flush(1) eq show thesis
      by (intro that [of sent k']) (auto simp: flushed_def same_peer_def update_ready_def)
  qed
qed

subsection \<open>Bounds on what waits to be read\<close>

text \<open>The receive queue stays within the window and its segments within the size of a datagram.\<close>

definition rcv_small :: "nat \<Rightarrow> ikcpcb \<Rightarrow> bool" where
  "rcv_small m k \<longleftrightarrow>
     k_nrcv_que k = of_nat (length (k_rcv_queue k)) \<and> length (k_rcv_queue k) \<le> unat (k_rcv_wnd k) \<and>
     (\<forall>s \<in> set (k_rcv_queue k) \<union> set (k_rcv_buf k). length (s_data s) \<le> m)"

lemma rcv_small_same_recv: "same_recv k k' \<Longrightarrow> rcv_small m k' = rcv_small m k"
  by (simp add: rcv_small_def same_recv_def)

lemma move_ready_small: "rcv_small m k \<Longrightarrow> rcv_small m (move_ready k)"
proof (induction k rule: move_ready.induct)
  case (1 k)
  show ?case
  proof (cases "\<exists>seg rest. k_rcv_buf k = seg # rest \<and> s_sn seg = k_rcv_nxt k \<and> k_nrcv_que k < k_rcv_wnd k")
    case False
    then have "move_ready k = k" by (subst move_ready.simps) (auto split: list.splits)
    then show ?thesis using 1(2) by simp
  next
    case True
    then obtain seg rest where buf: "k_rcv_buf k = seg # rest"
      and go: "s_sn seg = k_rcv_nxt k \<and> k_nrcv_que k < k_rcv_wnd k" by blast
    have "length (k_rcv_queue k) < 4294967296"
      using 1(2) unat_u32_less [of "k_rcv_wnd k"] by (simp only: rcv_small_def) linarith
    then have "unat (k_nrcv_que k) = length (k_rcv_queue k)" using 1(2) by (simp add: rcv_small_def)
    then have "length (k_rcv_queue k) < unat (k_rcv_wnd k)" using go by (simp add: word_less_nat_alt)
    then have "rcv_small m (k\<lparr>k_rcv_buf := rest, k_nrcv_buf := k_nrcv_buf k - 1, k_rcv_queue := k_rcv_queue k @ [seg],
        k_nrcv_que := k_nrcv_que k + 1, k_rcv_nxt := k_rcv_nxt k + 1\<rparr>)"
      using 1(2) buf by (auto simp: rcv_small_def)
    with 1(1) [OF buf go] show ?thesis using buf go by (subst move_ready.simps) simp
  qed
qed

lemma parse_data_small:
  assumes "rcv_small m k" and "length (s_data s) \<le> m" shows "rcv_small m (ikcp_parse_data k s)"
proof -
  have "rcv_small m (case rcv_scan (s_sn s) s (rev (k_rcv_buf k)) of
      Some r \<Rightarrow> k\<lparr>k_rcv_buf := rev r, k_nrcv_buf := k_nrcv_buf k + 1\<rparr> | None \<Rightarrow> k)"
    using assms rcv_scan_subset [of "s_sn s" s "rev (k_rcv_buf k)"]
    by (auto simp: rcv_small_def split: option.splits)
  from move_ready_small [OF this] assms(1) show ?thesis by (simp add: ikcp_parse_data_def Let_def)
qed

text \<open>
  What holds of the receive queue and buffer and is kept when a segment of at most \<open>m\<close> bytes is
  accepted is kept by \<open>ikcp_input\<close> on every datagram of at most \<open>m\<close> bytes.
\<close>

locale receive_side =
  fixes P :: "ikcpcb \<Rightarrow> bool" and m :: nat
  assumes same: "same_recv k k' \<Longrightarrow> P k \<Longrightarrow> P k'"
    and data: "P k \<Longrightarrow> length (s_data s) \<le> m \<Longrightarrow> P (ikcp_parse_data k s)"
begin

lemma push:
  assumes run: "input_push alloc salloc i k conv h d = Inr k'" and k: "P k"
    and len: "unat (h_len h) \<le> length d" "0 \<le> sint (h_len h)" "unat (h_len h) \<le> m"
  shows "P k'"
proof -
  consider "k' = k" | k1 where "ikcp_ack_push alloc i k (h_sn h) (h_ts h) = Inr k1" "k' = k1"
    | k1 seg seg' where "ikcp_ack_push alloc i k (h_sn h) (h_ts h) = Inr k1"
        "ikcp_segment_new salloc i (sint (h_len h)) = Some seg" "fill_segment seg conv h d = Inr seg'" "k' = ikcp_parse_data k1 seg'"
    using run by (auto simp: input_push_def rbind_Inr_iff split: if_splits option.splits)
  then show ?thesis
  proof cases
    case (3 k1 seg seg')
    from fill_segment_ok [OF len(1,2) 3(2), of conv] 3(3) have "length (s_data seg') \<le> m" using len(3) by auto
    with 3 same [OF ack_push_same_recv [OF 3(1)] k] show ?thesis by (simp add: data)
  qed (use k same [OF ack_push_same_recv] in auto)
qed

lemma segment:
  assumes run: "input_segment alloc salloc i k m0 conv h d = Inr (k', m')" and k: "P k"
    and len: "unat (h_len h) \<le> length d" "0 \<le> sint (h_len h)" "unat (h_len h) \<le> m"
  shows "P k'"
proof -
  define k1 where "k1 = ikcp_shrink_buf (ikcp_parse_una (k\<lparr>k_rmt_wnd := ucast (h_wnd h)\<rparr>) (h_una h))"
  have "same_recv k k1" unfolding k1_def by (simp add: frame) (simp add: same_recv_def)
  from same [OF this k] have k1: "P k1" .
  have ack: "P (fst (input_ack k1 m0 h))" using same [OF input_ack_same_recv k1] .
  have probe: "P (k1\<lparr>k_probe := x\<rparr>)" for x by (rule same [OF _ k1]) (simp add: same_recv_def)
  have step: "P k2" if "input_push alloc salloc i k1 conv h d = Inr k2" for k2 using push [OF that k1 len] .
  from run k1 ack probe step show ?thesis
    unfolding input_segment_def Let_def k1_def [symmetric] by (auto simp: rbind_Inr_iff split: if_splits)
qed

lemma loop:
  "input_loop alloc salloc i k m0 d sz = Inr (ret, k', m') \<Longrightarrow> sz \<le> int (length d) \<Longrightarrow> sz \<le> int m \<Longrightarrow> P k \<Longrightarrow> P k'"
proof (induction alloc salloc i k m0 d sz rule: input_loop.induct)
  case (1 alloc salloc i k m0 d sz)
  from 1(2) show ?case
  proof (cases rule: input_loop_cases)
    case (segment conv h data1 data2 k1 m1)
    have len: "24 \<le> length d" using segment(1) 1(3) by (simp add: kcp_consts)
    then have d1: "data1 = drop 4 d" using decode32u_ok [of d] segment(2) by auto
    then have d2: "data2 = drop 24 d" using decode_header_ok [of "drop 4 d"] len segment(4) by auto
    have h: "unat (h_len h) \<le> length data2" "0 \<le> sint (h_len h)" "unat (h_len h) \<le> m"
      using segment(5) 1(3,4) len by (simp_all add: d2) linarith+
    have k1: "P k1" by (rule receive_side.segment [OF receive_side_axioms segment(7) 1(5) h])
    show ?thesis
      by (rule 1(1) [OF segment(1,2) refl segment(3,4) refl segment(5,6,7) refl segment(8) _ _ k1])
        (use h 1(3,4) len in \<open>simp_all add: d2\<close>)
  qed (use 1(5) in simp)
qed

lemma input:
  assumes run: "ikcp_input alloc salloc k (Some d) n = Inr (ret, k')" and "n \<le> int (length d)" "n \<le> int m" "P k"
  shows "P k'"
  using run
proof (cases rule: ikcp_input_cases)
  case (loop m0 ret0 k1)
  have k1: "P k1" using receive_side.loop [OF receive_side_axioms loop(1) assms(2-4)] .
  then have k2: "P (if m_flag m0 \<noteq> 0 then ikcp_parse_fastack k1 (m_maxack m0) (m_latest_ts m0) else k1)"
    using same [OF fastack_same_recv k1] by simp
  from loop(2) show ?thesis using k1 same [OF input_cwnd_same_recv k2] by blast
qed (use assms(4) in simp)

end

interpretation small: receive_side "rcv_small m" m
  by unfold_locales (simp_all add: rcv_small_same_recv parse_data_small)

text \<open>The second use: what is in the receive queue stays there, and new segments go behind it.\<close>

lemma move_ready_queue: "prefix (k_rcv_queue k) (k_rcv_queue (move_ready k))"
proof (induction k rule: move_ready.induct)
  case (1 k)
  then show ?case by (subst move_ready.simps) (auto split: list.splits dest: append_prefixD)
qed

lemma parse_data_queue: "prefix (k_rcv_queue k) (k_rcv_queue (ikcp_parse_data k s))"
  using move_ready_queue [of k] move_ready_queue [of "k\<lparr>k_rcv_buf := b, k_nrcv_buf := c\<rparr>" for b c]
  by (simp add: ikcp_parse_data_def Let_def split: option.splits)

interpretation queue: receive_side "\<lambda>k. prefix q (k_rcv_queue k)" m
  by unfold_locales (auto simp: same_recv_def intro: prefix_order.trans parse_data_queue)

text \<open>Then every read returns: the size that was peeked is the size of the message.\<close>

lemma sum_bytes_le: "(\<forall>s \<in> set q. length (s_data s) \<le> m) \<Longrightarrow> length (stream_bytes q) \<le> length q * m"
  by (induction q) auto

lemma take_message_subset: "set (take_message q) \<subseteq> set q"
  by (metis take_message_prefix set_take_subset)

lemma recv_message_bound:
  assumes "rcv_small m k" and "unat (k_rcv_wnd k) * m < 2 ^ 31"
  shows "length (stream_bytes (take_message (k_rcv_queue k))) < 2 ^ 31"
proof -
  let ?q = "k_rcv_queue k"
  have "\<forall>s \<in> set (take_message ?q). length (s_data s) \<le> m"
    using assms(1) take_message_subset [of ?q] by (auto simp: rcv_small_def)
  then have "length (stream_bytes (take_message ?q)) \<le> length (take_message ?q) * m" by (rule sum_bytes_le)
  also have "\<dots> \<le> unat (k_rcv_wnd k) * m"
    using assms(1) length_take_message [of ?q] by (intro mult_right_mono) (simp_all add: rcv_small_def)
  finally show ?thesis using assms(2) by simp
qed

lemma ikcp_recv_total:
  assumes inv: "kcp_inv k" and small: "rcv_small m k" "unat (k_rcv_wnd k) * m < 2 ^ 31" and len: "0 \<le> len" "len \<le> int c"
  obtains ret out k' where "ikcp_recv k (Some c) len = Inr (ret, out, k')" "0 \<le> ret \<longrightarrow> ret = int (length out) \<and> ret \<le> len"
    "ret < 0 \<longrightarrow> out = [] \<and> k' = k" "rcv_small m k'"
proof (cases "message_ready k")
  case False
  have sized: "list_all seg_sized (k_rcv_queue k)" using inv by (simp add: kcp_inv_def)
  show thesis
    by (rule that [OF ikcp_recv_not_ready [OF sized False]]) (use small(1) in \<open>simp_all split: if_splits\<close>)
next
  case True
  let ?q = "k_rcv_queue k" and ?msg = "stream_bytes (take_message (k_rcv_queue k))"
  have sized: "list_all seg_sized ?q" using inv by (simp add: kcp_inv_def)
  have msg: "length ?msg < 2 ^ 31" using recv_message_bound [OF small] .
  let ?n = "length (take_message ?q)"
  have "rcv_small m (k\<lparr>k_rcv_queue := drop ?n ?q, k_nrcv_que := k_nrcv_que k - of_nat ?n\<rparr>)"
    using small(1) length_take_message [of ?q] by (auto simp: rcv_small_def of_nat_diff dest: in_set_dropD)
  from move_ready_small [OF this] have after: "rcv_small m (tell_window k (after_recv k False))"
    by (simp add: after_recv_def tell_window_def rcv_small_def)
  note eq = ikcp_recv_eq [OF sized True msg, of "Some c" len]
  show thesis
  proof (cases "int (length ?msg) > \<bar>len\<bar>")
    case True
    then show thesis using eq len small(1) by (intro that [of "-3" "[]" k]) simp_all
  next
    case False
    then show thesis using eq len after
      by (intro that [of "int (length ?msg)" ?msg "tell_window k (after_recv k False)"]) simp_all
  qed
qed

subsection \<open>An endpoint of the two programs\<close>

text \<open>
  Both programs configure their control block alike. The state the server's and the
  client's block stays in, and what each call of the interface does in it.
\<close>

definition endpoint_ok :: "ikcpcb \<Rightarrow> bool" where
  "endpoint_ok k \<longleftrightarrow>
     kcp_inv k \<and> k_output k \<noteq> None \<and> k_stream k = 0 \<and> unat (k_mtu k) = 1400 \<and> rcv_small 1500 k \<and> k_rcv_wnd k = 128"

lemma endpoint_fields:
  assumes "endpoint_ok k"
  shows "kcp_inv k" "k_output k \<noteq> None" "k_stream k = 0" "unat (k_mss k) = 1376"
  using assms mtu_ok_mss(1) [of "k_mtu k" "k_mss k" "k_buffer k"] by (auto simp: endpoint_ok_def kcp_inv_def)

lemma endpoint_flushed:
  assumes "endpoint_ok k" and "flushed k out k'" and "same_recv k k'" shows "endpoint_ok k'"
  using assms rcv_small_same_recv [OF assms(3)] by (auto simp: endpoint_ok_def flushed_def same_peer_def same_recv_def)

lemma endpoint_update:
  assumes ok: "endpoint_ok k" and few: "unat (k_ackcount k) < 2 ^ 31"
  obtains out k' where "ikcp_update k t = Inr (out, k')" "flushed k out k'" "endpoint_ok k'"
proof -
  note k = endpoint_fields(1,2) [OF ok] few
  obtain out k' where u: "ikcp_update k t = Inr (out, k')" "flushed k out k'" by (rule ikcp_update_flushed [OF k])
  then show thesis using that endpoint_flushed [OF ok u(2)] update_keeps [OF k u(1)] by blast
qed

lemma endpoint_flush:
  assumes ok: "endpoint_ok k" and few: "unat (k_ackcount k) < 2 ^ 31"
  obtains out k' where "ikcp_flush k = Inr (out, k')" "flushed k out k'" "endpoint_ok k'"
proof -
  note k = endpoint_fields(1,2) [OF ok] few
  obtain out k' where u: "ikcp_flush k = Inr (out, k')" "flushed k out k'" by (rule ikcp_flush_flushed [OF k])
  then show thesis using that endpoint_flushed [OF ok u(2)] flush_keeps(2) [OF k u(1)] by blast
qed

lemma endpoint_input:
  assumes ok: "endpoint_ok k" and alloc: "\<forall>i. alloc i \<noteq> None" "\<forall>i. salloc i \<noteq> None"
    and len: "length d \<le> 1500" and few: "unat (k_ackcount k) + 62 < 2 ^ 31"
  obtains ret k' where "ikcp_input alloc salloc k (Some d) (int (length d)) = Inr (ret, k')"
    "ikcp_input alloc salloc k (Some (d @ junk)) (int (length d)) = Inr (ret, k')"
    "endpoint_ok k'" "unat (k_ackcount k') \<le> unat (k_ackcount k) + 62"
proof -
  have div: "length d div 24 \<le> 62" using len div_le_mono [of "length d" 1500 24] by simp
  have room: "length d < 2 ^ 31" "unat (k_ackcount k) + length d div 24 < 2 ^ 31" using few div len by simp_all
  obtain ret k' where run: "ikcp_input alloc salloc k (Some d) (int (length d)) = Inr (ret, k')"
    "kcp_inv k'" "unat (k_ackcount k') \<le> unat (k_ackcount k) + length d div 24"
    by (rule ikcp_input_ok [OF endpoint_fields(1) [OF ok] alloc room])
  have "rcv_small 1500 k'" by (rule small.input [OF run(1)]) (use ok len in \<open>simp_all add: endpoint_ok_def\<close>)
  moreover have "same_config k k'" using ikcp_input_sub [OF run(1)] by (simp add: snd_sub_def)
  ultimately have "endpoint_ok k'" using ok run(2) by (simp add: endpoint_ok_def same_config_def)
  moreover have "ikcp_input alloc salloc k (Some (d @ junk)) (int (length d)) = Inr (ret, k')"
    using ikcp_input_more [OF run(1)] by simp
  moreover have "unat (k_ackcount k') \<le> unat (k_ackcount k) + 62" using run(3) div by linarith
  ultimately show thesis using run(1) by (intro that)
qed

lemma endpoint_recv:
  assumes ok: "endpoint_ok k" and len: "l \<le> c"
  obtains ret out k' where "ikcp_recv k (Some c) (int l) = Inr (ret, out, k')" "0 \<le> ret \<longrightarrow> ret = int (length out) \<and> length out \<le> l"
    "ret < 0 \<longrightarrow> out = [] \<and> k' = k" "endpoint_ok k'" "k_ackcount k' = k_ackcount k"
proof -
  have k: "kcp_inv k" "rcv_small 1500 k" "unat (k_rcv_wnd k) * 1500 < 2 ^ 31" using ok by (simp_all add: endpoint_ok_def)
  have "int l \<le> int c" using len by simp
  then obtain ret out k' where re: "ikcp_recv k (Some c) (int l) = Inr (ret, out, k')"
    "0 \<le> ret \<longrightarrow> ret = int (length out) \<and> ret \<le> int l" "ret < 0 \<longrightarrow> out = [] \<and> k' = k" "rcv_small 1500 k'"
    by (rule ikcp_recv_total [OF k of_nat_0_le_iff])
  note keeps = ikcp_recv_keeps [OF k(1) re(1)]
  have "endpoint_ok k'" using ok keeps(1,2) re(4) by (simp add: endpoint_ok_def snd_sub_def same_config_def)
  then show thesis using re keeps(3) by (intro that [of ret out k']) auto
qed

lemma endpoint_send:
  assumes ok: "endpoint_ok k" and alloc: "\<forall>i. alloc i \<noteq> None" and len: "length msg \<le> 1500"
  obtains k' where "ikcp_send alloc k (Some (msg @ junk)) (int (length msg)) = Inr (0, k')"
    "ikcp_send alloc k (Some msg) (int (length msg)) = Inr (0, k')" "endpoint_ok k'" "k_ackcount k' = k_ackcount k"
proof -
  note k = endpoint_fields [OF ok]
  have few: "length msg < 2 ^ 31" "chunk_count (unat (k_mss k)) (length msg) < 128"
    using len by (simp_all add: k(4) chunk_count_def div_less_iff_less_mult)
  obtain segs where "ikcp_send alloc k (Some (msg @ [])) (int (length msg)) =
      Inr (0, k\<lparr>k_snd_queue := k_snd_queue k @ segs, k_nsnd_que := k_nsnd_que k + of_nat (length segs)\<rparr>)"
    by (rule ikcp_send_queues [OF k(1,3) alloc few])
  then obtain k' where run: "ikcp_send alloc k (Some msg) (int (length msg)) = Inr (0, k')" by simp
  obtain q n where "k' = k\<lparr>k_snd_queue := q, k_nsnd_que := n\<rparr>" using ikcp_send_frame [OF run k(3)] by blast
  with ikcp_send_inv [OF k(1) run] ok have "endpoint_ok k'" "k_ackcount k' = k_ackcount k"
    by (auto simp: endpoint_ok_def rcv_small_def)
  moreover have "ikcp_send alloc k (Some (msg @ junk)) (int (length msg)) = Inr (0, k')"
    using ikcp_send_more [OF run k(3)] .
  ultimately show thesis using run by (intro that)
qed

lemma endpoint_created:
  assumes new: "ikcp_create alloc 1 u = Some k" and cfg: "k' = server_kcp mtu_alloc k \<or> k' = client_kcp mtu_alloc k"
  shows "endpoint_ok k'" "mute k'" "k_conv k' = 1" "k_snd_nxt k' = 0" "k_rcv_nxt k' = 0" "k_rcv_queue k' = []" "k_rcv_buf k' = []"
proof -
  have k: "kcp_inv k" "k_snd_queue k = []" "k_snd_buf k = []" using ikcp_create_inv [OF new] new
    by (auto simp: ikcp_create_def split: if_splits)
  have mtu: "kcp_inv j \<Longrightarrow> k_snd_queue j = [] \<Longrightarrow> k_snd_buf j = [] \<Longrightarrow> kcp_inv (snd (ikcp_setmtu mtu_alloc j 1400))" for j
    by (rule ikcp_setmtu_inv) simp_all
  have "kcp_inv (server_kcp mtu_alloc k)"
    unfolding server_kcp_def Let_def by (intro ikcp_wndsize_inv ikcp_nodelay_inv ikcp_setoutput_inv mtu k) simp_all
  moreover have "kcp_inv (client_kcp mtu_alloc k)"
    unfolding client_kcp_def Let_def
    by (intro mtu ikcp_wndsize_inv ikcp_nodelay_inv ikcp_setoutput_inv k)
      (simp_all add: ikcp_wndsize_def ikcp_nodelay_def ikcp_setoutput_def k)
  ultimately have "kcp_inv k'" using cfg by blast
  moreover have "k_output k' \<noteq> None \<and> k_stream k' = 0 \<and> unat (k_mtu k') = 1400 \<and> k_rcv_wnd k' = 128 \<and> mute k' \<and> k_conv k' = 1 \<and>
      k_snd_nxt k' = 0 \<and> k_rcv_nxt k' = 0 \<and> k_rcv_queue k' = [] \<and> k_rcv_buf k' = [] \<and> k_nrcv_que k' = 0"
    using new cfg
    by (auto simp: server_kcp_def client_kcp_def Let_def ikcp_create_def ikcp_setmtu_def ikcp_setoutput_def ikcp_nodelay_def
        ikcp_wndsize_def kcp_consts imax_def mute_def split: if_splits)
  ultimately show "endpoint_ok k'" "mute k'" "k_conv k' = 1" "k_snd_nxt k' = 0" "k_rcv_nxt k' = 0" "k_rcv_queue k' = []" "k_rcv_buf k' = []"
    by (auto simp: endpoint_ok_def rcv_small_def)
qed

subsection \<open>The server survives\<close>

text \<open>
  The invariant of the loop, with at most \<open>n\<close> acknowledgements pending: as long as no
  datagram has come, the endpoint is mute, so the unassigned address is not used.
\<close>

definition server_ok :: "nat \<Rightarrow> kcpObj \<Rightarrow> bool" where
  "server_ok n s \<longleftrightarrow>
     endpoint_ok (o_kcp s) \<and> unat (k_ackcount (o_kcp s)) \<le> n \<and> (o_client s = None \<longrightarrow> mute (o_kcp s)) \<and>
     (\<forall>(a, d) \<in> set (o_sent s). d \<noteq> [] \<and> length d \<le> 1400)"

lemma udp_outputs_ok:
  assumes "o_client s = None \<longrightarrow> out = []"
  shows "\<exists>new. set new \<subseteq> set out \<and>
    udp_outputs sendto i out s = Inr (s\<lparr>o_sent := o_sent s @ map (Pair (the (o_client s))) new\<rparr>)"
  using assms
proof (induction out arbitrary: i s)
  case Nil
  show ?case by (rule exI [of _ "[]"]) simp
next
  case (Cons d ds)
  then obtain a where a: "o_client s = Some a" by auto
  define t where "t = (if sendto i \<ge> 0 then s\<lparr>o_sent := o_sent s @ [(a, d)]\<rparr> else s)"
  have "o_client t = None \<longrightarrow> ds = []" using a by (simp add: t_def)
  from Cons.IH [OF this, of "Suc i"] obtain new where new: "set new \<subseteq> set ds"
    "udp_outputs sendto (Suc i) ds t = Inr (t\<lparr>o_sent := o_sent t @ map (Pair (the (o_client t))) new\<rparr>)" by blast
  have "udp_outputs sendto i (d # ds) s = udp_outputs sendto (Suc i) ds t"
    using a by (simp add: udp_output_def t_def)
  with new a show ?case
    by (intro exI [of _ "if sendto i \<ge> 0 then d # new else new"]) (auto simp: t_def)
qed

text \<open>What the environment must give: every allocation of the round succeeds.\<close>

definition allocs_ok :: "round_env \<Rightarrow> bool" where
  "allocs_ok e \<longleftrightarrow> (\<forall>i. le_ack_alloc e i \<noteq> None) \<and> (\<forall>i. le_seg_alloc e i \<noteq> None) \<and> (\<forall>i. le_send_alloc e i \<noteq> None)"

text \<open>The outputs of a flush, some of which the socket refuses.\<close>

lemma outputs_keep:
  assumes ok: "server_ok n s" and fl: "flushed (o_kcp s) out k" and ep: "endpoint_ok k"
  obtains new where "set new \<subseteq> set out"
    "udp_outputs sendto 0 out (s\<lparr>o_kcp := k\<rparr>) = Inr (s\<lparr>o_kcp := k, o_sent := o_sent s @ map (Pair (the (o_client s))) new\<rparr>)"
    "server_ok n (s\<lparr>o_kcp := k, o_sent := o_sent s @ map (Pair (the (o_client s))) new\<rparr>)"
proof -
  have "o_client s = None \<longrightarrow> out = []" using ok fl by (simp add: server_ok_def flushed_def)
  then obtain new where new: "set new \<subseteq> set out"
    "udp_outputs sendto 0 out (s\<lparr>o_kcp := k\<rparr>) = Inr (s\<lparr>o_kcp := k, o_sent := o_sent s @ map (Pair (the (o_client s))) new\<rparr>)"
    using udp_outputs_ok [of "s\<lparr>o_kcp := k\<rparr>" out sendto 0] by auto
  have "unat (k_mtu (o_kcp s)) = 1400" using ok by (simp add: server_ok_def endpoint_ok_def)
  then have "server_ok n (s\<lparr>o_kcp := k, o_sent := o_sent s @ map (Pair (the (o_client s))) new\<rparr>)"
    using ok fl ep new(1) by (auto simp: server_ok_def flushed_def)
  with new show thesis by (rule that)
qed

lemma server_update_ok:
  assumes ok: "server_ok n s" and few: "n < 2 ^ 31"
  obtains out k new where "ikcp_update (o_kcp s) (iclock tv) = Inr (out, k)" "set new \<subseteq> set out"
    "server_update tv sendto s = Inr (s\<lparr>o_kcp := k, o_sent := o_sent s @ map (Pair (the (o_client s))) new\<rparr>)"
    "server_ok n (s\<lparr>o_kcp := k, o_sent := o_sent s @ map (Pair (the (o_client s))) new\<rparr>)"
proof -
  have k: "endpoint_ok (o_kcp s)" "unat (k_ackcount (o_kcp s)) < 2 ^ 31" using ok few by (simp_all add: server_ok_def)
  obtain out k' where u: "ikcp_update (o_kcp s) (iclock tv) = Inr (out, k')" "flushed (o_kcp s) out k'" "endpoint_ok k'"
    by (rule endpoint_update [OF k])
  obtain new where "set new \<subseteq> set out"
    "udp_outputs sendto 0 out (s\<lparr>o_kcp := k'\<rparr>) = Inr (s\<lparr>o_kcp := k', o_sent := o_sent s @ map (Pair (the (o_client s))) new\<rparr>)"
    "server_ok n (s\<lparr>o_kcp := k', o_sent := o_sent s @ map (Pair (the (o_client s))) new\<rparr>)"
    by (rule outputs_keep [OF ok u(2,3)])
  with u(1) show thesis by (intro that [of out k' new]) (simp_all add: server_update_def)
qed

lemma server_flush_ok:
  assumes ok: "server_ok n s" and few: "n < 2 ^ 31"
  obtains out k new where "ikcp_flush (o_kcp s) = Inr (out, k)" "set new \<subseteq> set out"
    "server_flush sendto s = Inr (s\<lparr>o_kcp := k, o_sent := o_sent s @ map (Pair (the (o_client s))) new\<rparr>)"
    "server_ok n (s\<lparr>o_kcp := k, o_sent := o_sent s @ map (Pair (the (o_client s))) new\<rparr>)"
proof -
  have k: "endpoint_ok (o_kcp s)" "unat (k_ackcount (o_kcp s)) < 2 ^ 31" using ok few by (simp_all add: server_ok_def)
  obtain out k' where u: "ikcp_flush (o_kcp s) = Inr (out, k')" "flushed (o_kcp s) out k'" "endpoint_ok k'"
    by (rule endpoint_flush [OF k])
  obtain new where "set new \<subseteq> set out"
    "udp_outputs sendto 0 out (s\<lparr>o_kcp := k'\<rparr>) = Inr (s\<lparr>o_kcp := k', o_sent := o_sent s @ map (Pair (the (o_client s))) new\<rparr>)"
    "server_ok n (s\<lparr>o_kcp := k', o_sent := o_sent s @ map (Pair (the (o_client s))) new\<rparr>)"
    by (rule outputs_keep [OF ok u(2,3)])
  with u(1) show thesis by (intro that [of out k' new]) (simp_all add: server_flush_def)
qed

lemma memcpy_at_prefix: "length d \<le> length b \<Longrightarrow> memcpy_at b 0 d = d @ drop (length d) b"
  by (simp add: memcpy_at_def)

text \<open>Answering: the read fails and changes nothing, or the message read is queued and flushed.\<close>

lemma server_answer_cases:
  assumes ok: "server_ok n s" and buf: "length (o_buf s) = RECV_BUF" and client: "o_client s \<noteq> None" and env: "allocs_ok e"
    and few: "n < 2 ^ 31" and len: "l \<le> RECV_BUF"
  obtains (none) ret where "ikcp_recv (o_kcp s) (Some RECV_BUF) (int l) = Inr (ret, [], o_kcp s)" "ret < 0"
      "server_answer e (int l) s = Inr (True, s)"
  | (served) msg k1 k2 out k3 new b num where "ikcp_recv (o_kcp s) (Some RECV_BUF) (int l) = Inr (int (length msg), msg, k1)"
      "ikcp_send (le_send_alloc e) k1 (Some msg) (int (length msg)) = Inr (0, k2)" "ikcp_flush k2 = Inr (out, k3)" "set new \<subseteq> set out"
      "server_answer e (int l) s = Inr (True, s\<lparr>o_kcp := k3, o_buf := b, o_number := num,
         o_sent := o_sent s @ map (Pair (the (o_client s))) new, o_served := o_served s @ [msg]\<rparr>)"
      "length b = RECV_BUF" "length msg \<le> l" "k_ackcount k2 = k_ackcount (o_kcp s)"
      "server_ok n (s\<lparr>o_kcp := k3, o_buf := b, o_number := num,
         o_sent := o_sent s @ map (Pair (the (o_client s))) new, o_served := o_served s @ [msg]\<rparr>)"
proof -
  have k: "endpoint_ok (o_kcp s)" using ok by (simp add: server_ok_def)
  obtain ret msg k1 where re: "ikcp_recv (o_kcp s) (Some RECV_BUF) (int l) = Inr (ret, msg, k1)"
    "0 \<le> ret \<longrightarrow> ret = int (length msg) \<and> length msg \<le> l" "ret < 0 \<longrightarrow> msg = [] \<and> k1 = o_kcp s"
    "endpoint_ok k1" "k_ackcount k1 = k_ackcount (o_kcp s)"
    by (rule endpoint_recv [OF k len])
  show thesis
  proof (cases "ret < 0")
    case True
    then show thesis using re(1,3) by (intro none [of ret]) (auto simp: server_answer_def memcpy_at_def)
  next
    case False
    then have r: "ret = int (length msg)" "length msg \<le> l" using re(2) by simp_all
    have outlen: "length msg \<le> 1500" "length msg \<le> length (o_buf s)" using r(2) len buf by (simp_all add: RECV_BUF_def)
    define b where "b = memcpy_at (o_buf s) 0 msg"
    have b: "b = msg @ drop (length msg) (o_buf s)" "length b = RECV_BUF" using outlen buf by (simp_all add: b_def memcpy_at_prefix)
    have al: "\<forall>i. le_send_alloc e i \<noteq> None" using env by (simp add: allocs_ok_def)
    obtain k2 where se: "ikcp_send (le_send_alloc e) k1 (Some b) (int (length msg)) = Inr (0, k2)"
      "ikcp_send (le_send_alloc e) k1 (Some msg) (int (length msg)) = Inr (0, k2)" "endpoint_ok k2" "k_ackcount k2 = k_ackcount k1"
      unfolding b(1) by (rule endpoint_send [OF re(4) al outlen(1)])
    define s2 where "s2 = s\<lparr>o_buf := b, o_kcp := k2, o_served := o_served s @ [msg]\<rparr>"
    have ok2: "server_ok n s2" and kcp2: "o_kcp s2 = k2" using ok client se(3,4) re(5) by (auto simp: server_ok_def s2_def)
    obtain out k3 new where fl: "ikcp_flush (o_kcp s2) = Inr (out, k3)" "set new \<subseteq> set out"
      "server_flush (le_sendto_flush e) s2 = Inr (s2\<lparr>o_kcp := k3, o_sent := o_sent s2 @ map (Pair (the (o_client s2))) new\<rparr>)"
      "server_ok n (s2\<lparr>o_kcp := k3, o_sent := o_sent s2 @ map (Pair (the (o_client s2))) new\<rparr>)"
      by (rule server_flush_ok [OF ok2 few])
    define num where "num = wrap_i32 (o_number s + 1)"
    let ?s = "s\<lparr>o_kcp := k3, o_buf := b, o_number := num,
       o_sent := o_sent s @ map (Pair (the (o_client s))) new, o_served := o_served s @ [msg]\<rparr>"
    have eq: "s2\<lparr>o_kcp := k3, o_sent := o_sent s2 @ map (Pair (the (o_client s2))) new, o_number := num\<rparr> = ?s"
      by (rule kcpObj.equality) (simp_all add: s2_def)
    have "server_answer e (int l) s = rbind (server_flush (le_sendto_flush e) s2)
        (\<lambda>s. Inr (True, s\<lparr>o_number := wrap_i32 (o_number s + 1)\<rparr>))"
      using False se(1) r unfolding server_answer_def re(1) rbind_simps prod.case Let_def b_def [symmetric]
      by (simp add: s2_def b(1))
    then have run: "server_answer e (int l) s = Inr (True, ?s)"
      unfolding fl(3) rbind_simps eq [symmetric] by (simp add: num_def s2_def)
    have "server_ok n ?s" using fl(4) by (simp add: server_ok_def s2_def)
    with re(1) r se(2) fl(1,2) kcp2 run b(2) se(4) re(5) show thesis
      by (intro served [where msg = msg and b = b and new = new and num = num and out = out and ?k2.0 = k2]) simp_all
  qed
qed

lemma server_answer_ok:
  assumes ok: "server_ok n s" and buf: "length (o_buf s) = RECV_BUF" and client: "o_client s \<noteq> None" and env: "allocs_ok e"
    and few: "n < 2 ^ 31" and len: "l \<le> RECV_BUF"
  obtains s' where "server_answer e (int l) s = Inr (True, s')" "server_ok n s'" "length (o_buf s') = RECV_BUF"
  using assms
proof (cases rule: server_answer_cases)
  case (served msg k1 k2 out k3 new b num)
  show thesis by (rule that [OF served(5,9)]) (use served(6) in simp)
qed (use that ok buf in blast)

text \<open>What a round does after the update: nothing, or it feeds a datagram and, when it is accepted, answers.\<close>

lemma server_receive_cases:
  assumes ok: "server_ok n s" and buf: "length (o_buf s) = RECV_BUF" and env: "allocs_ok e" and few: "n + 62 < 2 ^ 31"
  obtains (idle) go s1 where "server_receive e s = Inr (go, s1)" "o_kcp s1 = o_kcp s" "o_served s1 = o_served s"
      "o_sent s1 = o_sent s" "server_ok (n + 62) s1" "length (o_buf s1) = RECV_BUF"
      "o_client s1 = (case le_recvfrom e of None \<Rightarrow> o_client s | Some (_, a) \<Rightarrow> Some a)"
  | (datagram) d0 a r s1 where "le_recvfrom e = Some (d0, a)" "take RECV_BUF d0 \<noteq> []"
      "ikcp_input (le_ack_alloc e) (le_seg_alloc e) (o_kcp s) (Some (take RECV_BUF d0)) (int (length (take RECV_BUF d0))) = Inr (r, o_kcp s1)"
      "server_receive e s = (if r < 0 then Inr (True, s1) else server_answer e (int (length (take RECV_BUF d0))) s1)"
      "o_served s1 = o_served s" "o_sent s1 = o_sent s" "server_ok (n + 62) s1" "length (o_buf s1) = RECV_BUF" "o_client s1 = Some a"
proof (cases "le_recvfrom e")
  case None
  then show thesis using ok buf by (intro idle [of True s]) (auto simp: server_receive_def server_ok_def)
next
  case (Some da)
  obtain d0 a where da: "da = (d0, a)" by (cases da)
  define d where "d = take RECV_BUF d0"
  have len: "length d \<le> 1500" "length d \<le> length (o_buf s)" using buf by (simp_all add: d_def RECV_BUF_def)
  define b where "b = memcpy_at (o_buf s) 0 d"
  have b: "b = d @ drop (length d) (o_buf s)" "length b = RECV_BUF" using len buf by (simp_all add: b_def memcpy_at_prefix)
  define s0 where "s0 = s\<lparr>o_client := Some a, o_buf := b\<rparr>"
  have run: "server_receive e s = (if d = [] then Inr (False, s0) else server_datagram e d s0)"
    by (simp only: server_receive_def Some da option.case prod.case Let_def d_def [symmetric] s0_def b_def)
  show thesis
  proof (cases "d = []")
    case True
    have "server_ok (n + 62) s0" using ok by (simp add: server_ok_def s0_def)
    then show thesis using True run b(2) Some da by (intro idle [of False s0]) (simp_all add: s0_def)
  next
    case False
    define s1 where "s1 = s0\<lparr>o_recv_count := wrap_i32 (o_recv_count s0 + 1),
      o_first_recv_time := (if o_first_recv_time s0 = 0 then iclock64 (le_recv_time e) else o_first_recv_time s0)\<rparr>"
    have s1: "o_kcp s1 = o_kcp s" "o_buf s1 = b" by (simp_all add: s1_def s0_def)
    have al: "\<forall>i. le_ack_alloc e i \<noteq> None" "\<forall>i. le_seg_alloc e i \<noteq> None" using env by (simp_all add: allocs_ok_def)
    have ep: "endpoint_ok (o_kcp s)" "unat (k_ackcount (o_kcp s)) + 62 < 2 ^ 31" using ok few by (simp_all add: server_ok_def)
    obtain r k where in1: "ikcp_input (le_ack_alloc e) (le_seg_alloc e) (o_kcp s) (Some d) (int (length d)) = Inr (r, k)"
      and in2: "ikcp_input (le_ack_alloc e) (le_seg_alloc e) (o_kcp s) (Some b) (int (length d)) = Inr (r, k)"
      and k: "endpoint_ok k" "unat (k_ackcount k) \<le> unat (k_ackcount (o_kcp s)) + 62"
      unfolding b(1) by (rule endpoint_input [OF ep(1) al len(1) ep(2)])
    have "server_receive e s = (if r < 0 then Inr (True, s1\<lparr>o_kcp := k\<rparr>) else server_answer e (int (length d)) (s1\<lparr>o_kcp := k\<rparr>))"
      unfolding run if_not_P [OF False] server_datagram_def Let_def s1_def [symmetric] s1(1,2) in2 by simp
    moreover have "server_ok (n + 62) (s1\<lparr>o_kcp := k\<rparr>)" using ok k by (simp add: server_ok_def s1_def s0_def)
    ultimately show thesis
      using False in1 b(2) Some da by (intro datagram [of d0 a r "s1\<lparr>o_kcp := k\<rparr>"]) (simp_all add: d_def s1_def s0_def)
  qed
qed

lemma server_receive_ok:
  assumes ok: "server_ok n s" and buf: "length (o_buf s) = RECV_BUF" and env: "allocs_ok e" and few: "n + 62 < 2 ^ 31"
  obtains go s' where "server_receive e s = Inr (go, s')" "server_ok (n + 62) s'" "length (o_buf s') = RECV_BUF"
  using assms
proof (cases rule: server_receive_cases)
  case (idle go s1)
  then show thesis by (intro that [of go s1])
next
  case (datagram d0 a r s1)
  have client: "o_client s1 \<noteq> None" and len: "length (take RECV_BUF d0) \<le> RECV_BUF" using datagram(9) by simp_all
  obtain s' where "server_answer e (int (length (take RECV_BUF d0))) s1 = Inr (True, s')" "server_ok (n + 62) s'" "length (o_buf s') = RECV_BUF"
    by (rule server_answer_ok [OF datagram(7,8) client env few len])
  then show thesis using datagram(4,7,8) by (cases "r < 0") (auto intro: that)
qed

lemma server_rounds_ok:
  assumes "server_ok n s" and "length (o_buf s) = RECV_BUF" and "list_all allocs_ok es" and "n + 62 * length es < 2 ^ 31"
  shows "\<exists>go s'. server_rounds es s = Inr (go, s') \<and> server_ok (n + 62 * length es) s'"
  using assms
proof (induction es arbitrary: n s)
  case (Cons e es)
  have few: "n < 2 ^ 31" "n + 62 < 2 ^ 31" using Cons.prems(4) by simp_all
  obtain s1 where s1: "server_update (le_time e) (le_sendto e) s = Inr s1" "server_ok n s1" "length (o_buf s1) = RECV_BUF"
    using Cons.prems(2) by (auto intro: server_update_ok [OF Cons.prems(1) few(1), of "le_time e" "le_sendto e"])
  obtain go s2 where s2: "server_receive e s1 = Inr (go, s2)" "server_ok (n + 62) s2" "length (o_buf s2) = RECV_BUF"
    by (rule server_receive_ok [OF s1(2,3) _ few(2)]) (use Cons.prems(3) in auto)
  have "server_ok (n + 62 * length (e # es)) s2" using s2(2) by (simp add: server_ok_def)
  moreover have "\<exists>go s'. server_rounds es s2 = Inr (go, s') \<and> server_ok ((n + 62) + 62 * length es) s'"
    by (rule Cons.IH [OF s2(2,3)]) (use Cons.prems in simp_all)
  ultimately show ?case using s1(1) s2(1) by (cases go) (auto simp: server_iteration_def add.assoc)
qed auto

lemma main_server_runs:
  assumes alloc: "alloc 0 \<noteq> None" "alloc 1 \<noteq> None" and env: "list_all allocs_ok es" and few: "length es \<le> 2 ^ 25"
  obtains r where "main_server argc port alloc mtu_alloc sock bind tv sendto es = Inr r"
    "\<And>s. r = Looping s \<Longrightarrow> server_ok (62 * length es) s"
proof -
  obtain k where k: "ikcp_create alloc 1 0 = Some k" using alloc by (simp add: ikcp_create_def)
  define s0 where "s0 = (server_start port (server_kcp mtu_alloc k))\<lparr>o_sockfd := sock\<rparr>"
  have ok: "server_ok 0 (s0\<lparr>o_recv_count := 0\<rparr>)"
    using endpoint_created [OF k, of "server_kcp mtu_alloc k" mtu_alloc] by (simp add: server_ok_def s0_def server_start_def mute_def)
  obtain s1 where s1: "server_update tv sendto (s0\<lparr>o_recv_count := 0\<rparr>) = Inr s1" "server_ok 0 s1"
    by (rule server_update_ok [OF ok]) simp_all
  define s2 where "s2 = s1\<lparr>o_buf := replicate RECV_BUF 0\<rparr>"
  have s2: "server_ok 0 s2" "length (o_buf s2) = RECV_BUF" using s1(2) by (simp_all add: server_ok_def s2_def)
  obtain go s3 where s3: "server_rounds es s2 = Inr (go, s3)" "server_ok (62 * length es) s3"
    using server_rounds_ok [OF s2 env] few by auto
  have loop: "loop_server tv sendto es s0 = Inr (go, s3)" using s1(1) s3(1) by (simp add: loop_server_def s2_def)
  have run: "main_server argc port alloc mtu_alloc sock bind tv sendto es =
      Inr (if argc < 2 then Exit (-1) else if sock < 0 \<or> bind < 0 then Exit 1 else if go then Looping s3 else Exit 0)"
    using loop by (simp add: main_server_def k init_server_def s0_def)
  show thesis by (rule that [OF run]) (use s3(2) in \<open>simp split: if_splits\<close>)
qed

text \<open>
  C4. The KCP server survives every input. However \<open>main\<close> is started and whatever datagrams of
  any content, length and origin arrive, in the first \<open>2 ^ 25\<close> rounds of the loop and for any clock
  and results of \<open>sendto\<close>: if the allocations succeed, no call faults, the address of
  the client is not used before a datagram has set it, the control block stays well-formed, and
  every datagram sent has between 1 and 1400 bytes.
\<close>

theorem kcp_server_survives:
  assumes "alloc 0 \<noteq> None" and "alloc 1 \<noteq> None" and "list_all allocs_ok es" and "length es \<le> 2 ^ 25"
  shows "\<exists>r. main_server argc port alloc mtu_alloc sock bind tv sendto es = Inr r \<and>
    (\<forall>s. r = Looping s \<longrightarrow> kcp_inv (o_kcp s) \<and> (\<forall>(a, d) \<in> set (o_sent s). 1 \<le> length d \<and> length d \<le> 1400))"
proof -
  obtain r where r: "main_server argc port alloc mtu_alloc sock bind tv sendto es = Inr r"
    "\<And>s. r = Looping s \<Longrightarrow> server_ok (62 * length es) s"
    by (rule main_server_runs [OF assms, of argc port mtu_alloc sock bind tv sendto]) blast
  then show ?thesis by (intro exI [of _ r]) (fastforce simp: server_ok_def endpoint_ok_def Suc_le_eq)
qed

definition example_env :: round_env where
  "example_env = \<lparr>le_time = (1, 0), le_sendto = (\<lambda>_. 0), le_recvfrom = Some (replicate 2000 7, 5), le_recv_time = (1, 0),
     le_ack_alloc = (\<lambda>_. Some (\<lambda>_. 0)), le_seg_alloc = example_alloc, le_send_alloc = example_alloc, le_sendto_flush = (\<lambda>_. -1)\<rparr>"

theorem kcp_server_survives_witness:
  "\<exists>r. main_server 2 8000 (\<lambda>_. Some (\<lambda>_. 0)) (\<lambda>_. None) 3 0 (0, 0) (\<lambda>_. 0) [example_env, example_env] = Inr r"
proof -
  have "list_all allocs_ok [example_env, example_env]"
    by (simp add: allocs_ok_def example_env_def example_alloc_def)
  then show ?thesis using kcp_server_survives [of "\<lambda>_. Some (\<lambda>_. 0)" "[example_env, example_env]"] by fastforce
qed

subsection \<open>Where the server stops serving\<close>

text \<open>An empty datagram, which any host may send, ends the loop and the server.\<close>

lemma server_stops_on_empty:
  "le_recvfrom e = Some ([], a) \<Longrightarrow> server_receive e s = Inr (False, s\<lparr>o_client := Some a\<rparr>)"
  by (simp add: server_receive_def memcpy_at_def)

text \<open>
  The read is given the length of the datagram, not of the buffer: a complete message longer than
  the datagram is refused with -3 and stays at the head of the queue. A
  message of more than 1500 bytes is never served, and nothing behind it is.
\<close>

lemma take_message_append: "\<exists>s \<in> set q. s_frg s = 0 \<Longrightarrow> take_message (q @ new) = take_message q"
  by (induction q) auto

lemma server_large_message:
  assumes ok: "server_ok n s" and buf: "length (o_buf s) = RECV_BUF" and env: "allocs_ok e" and few: "n + 62 < 2 ^ 31"
    and ends: "\<exists>t \<in> set (k_rcv_queue (o_kcp s)). s_frg t = 0"
    and large: "RECV_BUF < length (stream_bytes (take_message (k_rcv_queue (o_kcp s))))"
    and run: "server_receive e s = Inr (go, s')"
  shows "o_served s' = o_served s \<and> take_message (k_rcv_queue (o_kcp s')) = take_message (k_rcv_queue (o_kcp s))"
proof -
  let ?q = "k_rcv_queue (o_kcp s)"
  have stuck: "o_served s2 = o_served s1 \<and> prefix ?q (k_rcv_queue (o_kcp s2))"
    if pre: "prefix ?q (k_rcv_queue (o_kcp s1))" and ok1: "server_ok m s1" and l: "l \<le> RECV_BUF"
      and ans: "server_answer e (int l) s1 = Inr (g, s2)" for s1 s2 l g m
  proof -
    have k: "endpoint_ok (o_kcp s1)" "kcp_inv (o_kcp s1)" "rcv_small 1500 (o_kcp s1)" "unat (k_rcv_wnd (o_kcp s1)) * 1500 < 2 ^ 31"
      using ok1 by (simp_all add: server_ok_def endpoint_ok_def)
    obtain r out k1 where re: "ikcp_recv (o_kcp s1) (Some RECV_BUF) (int l) = Inr (r, out, k1)" "r < 0 \<longrightarrow> out = [] \<and> k1 = o_kcp s1"
      by (rule endpoint_recv [OF k(1) l])
    have tm: "take_message (k_rcv_queue (o_kcp s1)) = take_message ?q"
      using pre take_message_append [OF ends] by (auto simp: prefix_def)
    have sized: "list_all seg_sized (k_rcv_queue (o_kcp s1))" using k(2) by (simp add: kcp_inv_def)
    have "r < 0"
    proof (rule ccontr)
      assume "\<not> r < 0"
      then have "message_ready (o_kcp s1)"
        using re(1) ikcp_recv_not_ready [OF sized, of "Some RECV_BUF" "int l"] by (cases "message_ready (o_kcp s1)") (auto split: if_splits)
      moreover have "length (stream_bytes (take_message (k_rcv_queue (o_kcp s1)))) < 2 ^ 31"
        using recv_message_bound [OF k(3,4)] .
      ultimately have "r = -3" using ikcp_recv_eq [OF sized, of "Some RECV_BUF" "int l"] re(1) large l by (simp add: tm)
      with \<open>\<not> r < 0\<close> show False by simp
    qed
    with re ans pre show ?thesis by (auto simp: server_answer_def)
  qed
  have "prefix ?q (k_rcv_queue (o_kcp s')) \<and> o_served s' = o_served s"
    using ok buf env few
  proof (cases rule: server_receive_cases)
    case (datagram d0 a r s1)
    have pre: "prefix ?q (k_rcv_queue (o_kcp s1))"
      by (rule queue.input [OF datagram(3), where m = 1500]) (simp_all add: RECV_BUF_def)
    have "length (take RECV_BUF d0) \<le> RECV_BUF" by simp
    from stuck [OF pre datagram(7) this, of go s'] run datagram(4,5) pre show ?thesis by (auto split: if_splits)
  qed (use run in auto)
  then show ?thesis using take_message_append [OF ends] by (auto simp: prefix_def)
qed

end
