(* ===== verification/KcpClient.thy ===== *)
theory KcpClient
  imports KcpServer
begin

text \<open>
  The client of \<open>src/kcp_learn/client.c\<close> with the measurement objects of \<open>delay.c\<close>: \<open>main\<close>
  creates a control block and \<open>delay_test2\<close> sends five objects to the echo server, takes the
  replies and prints the round-trip times.

  \<open>delay_test2\<close> runs concurrently with the server, so it is a machine whose steps end before the
  next \<open>recvfrom\<close> and before the next \<open>ikcp_update\<close>: within a step the datagrams
  come in first and go out last, so nothing another process does can fall into its middle.
\<close>

subsection \<open>Measurement objects\<close>

text \<open>
  \<open>struct delay_obj\<close> as it lies in memory on a 64-bit little-endian machine: six bytes of padding
  behind \<open>seqno\<close>, and four behind the 1300 bytes of \<open>body\<close>, which \<open>d_body\<close> includes.
\<close>

record t_delay_obj =
  d_seqno :: u16
  d_pad :: bytes
  d_send_time :: u64
  d_recv_time :: u64
  d_body :: bytes

definition obj_size :: nat where "obj_size = 1328"

definition obj_bytes :: "t_delay_obj \<Rightarrow> bytes" where
  "obj_bytes obj =
     object_bytes 2 (d_seqno obj) @ d_pad obj @ object_bytes 8 (d_send_time obj) @ object_bytes 8 (d_recv_time obj) @ d_body obj"

definition bytes_obj :: "bytes \<Rightarrow> t_delay_obj" where
  "bytes_obj b =
     \<lparr>d_seqno = object_value (take 2 b), d_pad = take 6 (drop 2 b), d_send_time = object_value (take 8 (drop 8 b)),
      d_recv_time = object_value (take 8 (drop 16 b)), d_body = drop 24 b\<rparr>"

definition delay_set_seqno_send_time :: "timeval \<Rightarrow> t_delay_obj \<Rightarrow> u16 \<Rightarrow> t_delay_obj" where
  "delay_set_seqno_send_time tv obj seqno = obj\<lparr>d_seqno := seqno, d_send_time := word_of_int (iclock64 tv)\<rparr>"

definition delay_set_seqno :: "t_delay_obj \<Rightarrow> u16 \<Rightarrow> t_delay_obj" where
  "delay_set_seqno obj seqno = obj\<lparr>d_seqno := seqno\<rparr>"

definition delay_set_send_time :: "timeval \<Rightarrow> t_delay_obj \<Rightarrow> t_delay_obj" where
  "delay_set_send_time tv obj = obj\<lparr>d_send_time := word_of_int (iclock64 tv)\<rparr>"

definition delay_set_recv_time :: "timeval \<Rightarrow> t_delay_obj \<Rightarrow> t_delay_obj" where
  "delay_set_recv_time tv obj = obj\<lparr>d_recv_time := word_of_int (iclock64 tv)\<rparr>"

text \<open>The lines printed: the sequence number and the round-trip time of the first \<open>num\<close> objects.\<close>

fun delay_print_rtt_time :: "t_delay_obj list \<Rightarrow> nat \<Rightarrow> (u16 \<times> int) list cresult" where
  "delay_print_rtt_time objs 0 = Inr []"
| "delay_print_rtt_time [] (Suc num) = Inl Out_Of_Bounds"
| "delay_print_rtt_time (obj # objs) (Suc num) =
     rbind (delay_print_rtt_time objs num) (\<lambda>ls. Inr ((d_seqno obj, sint (d_recv_time obj - d_send_time obj)) # ls))"

text \<open>\<open>ikcp_recv(kcp, (char*)&objs[i], obj_size)\<close> writes \<open>out\<close> over the start of the object.\<close>

definition overwrite :: "t_delay_obj \<Rightarrow> bytes \<Rightarrow> t_delay_obj" where
  "overwrite obj out = bytes_obj (memcpy_at (obj_bytes obj) 0 out)"

subsection \<open>State\<close>

definition DELAY_TEST2_N :: nat where "DELAY_TEST2_N = 5"
definition UDP_RECV_BUF_SIZE :: nat where "UDP_RECV_BUF_SIZE = 1500"

text \<open>
  Where \<open>delay_test2\<close> is: before the first update, before the send and at the \<open>recvfrom\<close> of round
  \<open>i\<close> of the first loop, before the update and at the \<open>recvfrom\<close> of the second loop, before the final
  flush, or back in its caller with the lines printed.
\<close>

datatype client_pc = Starting | Sending nat | Polling nat | Updating nat | Receiving nat | Flushing
  | Returned "(u16 \<times> int) list"

text \<open>
  \<open>c_out\<close>, \<open>c_msgs\<close> and \<open>c_got\<close> are histories: the datagrams the socket has taken, the messages
  \<open>ikcp_send\<close> has accepted, and those \<open>ikcp_recv\<close> has returned.
\<close>

record kcp_client =
  c_pc :: client_pc
  c_kcp :: ikcpcb
  c_sockfd :: int
  c_addr :: addr
  c_buf :: bytes
  c_objs :: "t_delay_obj list"
  c_recv_objs :: nat
  c_out :: "bytes list"
  c_msgs :: "bytes list"
  c_got :: "bytes list"

record client_env =
  ce_time :: timeval
  ce_send_time :: timeval
  ce_recv_time :: timeval
  ce_sendto :: "nat \<Rightarrow> int"
  ce_recvfrom :: "(bytes \<times> addr) option"
  ce_ack_alloc :: "u32 allocator"
  ce_seg_alloc :: seg_allocator
  ce_send_alloc :: seg_allocator

subsection \<open>Steps\<close>

definition udp_output_client :: "int \<Rightarrow> bytes \<Rightarrow> kcp_client \<Rightarrow> int \<times> kcp_client" where
  "udp_output_client sendto buf c =
     (if sendto \<ge> 0 then (sendto, c\<lparr>c_out := c_out c @ [buf]\<rparr>) else (-1, c))"

fun client_outputs :: "(nat \<Rightarrow> int) \<Rightarrow> nat \<Rightarrow> bytes list \<Rightarrow> kcp_client \<Rightarrow> kcp_client" where
  "client_outputs sendto i [] c = c"
| "client_outputs sendto i (d # ds) c = client_outputs sendto (Suc i) ds (snd (udp_output_client (sendto i) d c))"

definition client_update :: "client_env \<Rightarrow> kcp_client \<Rightarrow> kcp_client cresult" where
  "client_update e c =
     rbind (ikcp_update (c_kcp c) (iclock (ce_time e))) (\<lambda>(out, k).
       Inr (client_outputs (ce_sendto e) 0 out (c\<lparr>c_kcp := k\<rparr>)))"

definition client_send :: "client_env \<Rightarrow> nat \<Rightarrow> kcp_client \<Rightarrow> kcp_client cresult" where
  "client_send e i c =
     rbind (load (c_objs c) i) (\<lambda>obj.
       let obj = delay_set_seqno_send_time (ce_send_time e) obj (of_nat i);
           c = c\<lparr>c_objs := (c_objs c)[i := obj]\<rparr>
       in rbind (ikcp_send (ce_send_alloc e) (c_kcp c) (Some (obj_bytes obj)) (int obj_size)) (\<lambda>(ret, k).
            let c = c\<lparr>c_kcp := k, c_msgs := c_msgs c @ (if ret = 0 then [obj_bytes obj] else [])\<rparr> in
            if ret < 0 then Inr (c\<lparr>c_pc := Returned []\<rparr>)
            else client_update e (c\<lparr>c_pc := Polling i\<rparr>)))"

text \<open>
  \<open>recvfrom\<close>, \<open>ikcp_input\<close>, \<open>ikcp_recv\<close> into \<open>objs[i]\<close> and the time stamp on \<open>objs[recv_objs]\<close>;
  \<open>None\<close> when one of them ends the round, otherwise the size received.
\<close>

definition client_take :: "client_env \<Rightarrow> nat \<Rightarrow> kcp_client \<Rightarrow> (int option \<times> kcp_client) cresult" where
  "client_take e i c =
     (case ce_recvfrom e of
        None \<Rightarrow> Inr (None, c)
      | Some (d, a) \<Rightarrow>
          let d = take UDP_RECV_BUF_SIZE d;
              c = c\<lparr>c_addr := a, c_buf := memcpy_at (c_buf c) 0 d\<rparr>
          in rbind (ikcp_input (ce_ack_alloc e) (ce_seg_alloc e) (c_kcp c) (Some (c_buf c)) (int (length d))) (\<lambda>(ret, k).
               let c = c\<lparr>c_kcp := k\<rparr> in
               if ret < 0 then Inr (None, c)
               else rbind (ikcp_recv (c_kcp c) (Some obj_size) (int obj_size)) (\<lambda>(ret, out, k).
                 let c = c\<lparr>c_kcp := k\<rparr> in
                 if ret < 0 then Inr (None, c)
                 else
                   rbind (load (c_objs c) i) (\<lambda>obj.
                   let objs = (c_objs c)[i := overwrite obj out] in
                   rbind (load objs (c_recv_objs c)) (\<lambda>obj.
                   Inr (Some ret, c\<lparr>c_objs := objs[c_recv_objs c := delay_set_recv_time (ce_recv_time e) obj],
                                    c_recv_objs := c_recv_objs c + 1, c_got := c_got c @ [out]\<rparr>))))))"

definition client_poll :: "client_env \<Rightarrow> nat \<Rightarrow> kcp_client \<Rightarrow> kcp_client cresult" where
  "client_poll e i c =
     rbind (client_take e i c) (\<lambda>(ret, c).
       case ret of
         None \<Rightarrow> Inr (c\<lparr>c_pc := Sending (Suc i)\<rparr>)
       | Some ret \<Rightarrow>
           if ret \<noteq> int obj_size then
             rbind (delay_print_rtt_time (c_objs c) i) (\<lambda>ls. Inr (c\<lparr>c_pc := Returned ls\<rparr>))
           else Inr (c\<lparr>c_pc := Sending (Suc i)\<rparr>))"

text \<open>In the second loop \<open>i\<close> is incremented before the failure message reads \<open>objs[i].seqno\<close>.\<close>

definition client_receive :: "client_env \<Rightarrow> nat \<Rightarrow> kcp_client \<Rightarrow> kcp_client cresult" where
  "client_receive e i c =
     rbind (client_take e i c) (\<lambda>(ret, c).
       case ret of
         None \<Rightarrow> Inr (c\<lparr>c_pc := Updating i\<rparr>)
       | Some ret \<Rightarrow>
           let i = Suc i in
           if ret \<noteq> int obj_size then
             rbind (load (c_objs c) i) (\<lambda>_.
             rbind (delay_print_rtt_time (c_objs c) i) (\<lambda>ls. Inr (c\<lparr>c_pc := Returned ls\<rparr>)))
           else Inr (c\<lparr>c_pc := Updating i\<rparr>))"

definition client_finish :: "client_env \<Rightarrow> kcp_client \<Rightarrow> kcp_client cresult" where
  "client_finish e c =
     rbind (ikcp_flush (c_kcp c)) (\<lambda>(out, k).
       let c = client_outputs (ce_sendto e) 0 out (c\<lparr>c_kcp := k\<rparr>) in
       rbind (delay_print_rtt_time (c_objs c) DELAY_TEST2_N) (\<lambda>ls. Inr (c\<lparr>c_pc := Returned ls\<rparr>)))"

definition delay_test2 :: "client_env \<Rightarrow> kcp_client \<Rightarrow> kcp_client cresult" where
  "delay_test2 e c =
     (case c_pc c of
        Starting \<Rightarrow> client_update e (c\<lparr>c_pc := Sending 0\<rparr>)
      | Sending i \<Rightarrow>
          if i < DELAY_TEST2_N then client_send e i c else Inr (c\<lparr>c_pc := Updating (c_recv_objs c)\<rparr>)
      | Polling i \<Rightarrow> client_poll e i c
      | Updating i \<Rightarrow>
          if i < DELAY_TEST2_N then client_update e (c\<lparr>c_pc := Receiving i\<rparr>) else Inr (c\<lparr>c_pc := Flushing\<rparr>)
      | Receiving i \<Rightarrow> client_receive e i c
      | Flushing \<Rightarrow> client_finish e c
      | Returned ls \<Rightarrow> Inr c)"

subsection \<open>Starting the client\<close>

text \<open>
  \<open>main\<close> up to the first call in \<open>delay_test2\<close>: \<open>Inl\<close> the exit code when it ends before. \<open>server\<close> is
  the address parsed from the arguments, \<open>buf\<close> and \<open>objs\<close> the uninitialised buffer and the
  five objects of the block that \<open>malloc\<close> returned, \<open>None\<close> for \<open>NULL\<close>, whose first use is in the first round.
\<close>

definition main_client ::
  "int \<Rightarrow> addr \<Rightarrow> int \<Rightarrow> u8 allocator \<Rightarrow> u8 allocator \<Rightarrow> bytes \<Rightarrow> t_delay_obj list option \<Rightarrow> (int + kcp_client) cresult" where
  "main_client argc server sock alloc mtu_alloc buf objs =
     (if argc \<noteq> 3 then Inr (Inl (-1))
      else if sock < 0 then Inr (Inl 1)
      else
        case ikcp_create alloc 1 0 of
          None \<Rightarrow> Inl Null_Deref
        | Some kcp \<Rightarrow>
            (case objs of
               None \<Rightarrow> Inl Null_Deref
             | Some objs \<Rightarrow>
                 Inr (Inr \<lparr>c_pc = Starting, c_kcp = client_kcp mtu_alloc kcp, c_sockfd = sock, c_addr = server, c_buf = buf,
                           c_objs = objs, c_recv_objs = 0, c_out = [], c_msgs = [], c_got = []\<rparr>)))"

text \<open>
  The rest of \<open>loop\<close> and \<open>main\<close> once \<open>delay_test2\<close> is back: the socket is closed, the control block
  released, and the exit code is 0. Nothing frees the array of objects.
\<close>

definition client_exit :: "kcp_client \<Rightarrow> (int \<times> kcp_block list) option" where
  "client_exit c = (case c_pc c of Returned ls \<Rightarrow> Some (0, ikcp_release (c_kcp c)) | _ \<Rightarrow> None)"

subsection \<open>Objects and their bytes\<close>

lemma length_object_bytes [simp]: "length (object_bytes n w) = n"
  by (simp add: object_bytes_def)

lemma object_value_snoc: "object_value (bs @ [b]) = object_value bs + push_bit (8 * length bs) (ucast b)"
  by (simp add: object_value_def enumerate_append_eq)

lemma object_value_bytes: "object_value (object_bytes n w) = take_bit (8 * n) w"
proof (induction n)
  case 0
  show ?case by (simp add: object_value_def object_bytes_def)
next
  case (Suc n)
  have "object_bytes (Suc n) w = object_bytes n w @ [ucast (drop_bit (8 * n) w)]" by (simp add: object_bytes_def)
  then have "object_value (object_bytes (Suc n) w) = take_bit (8 * n) w + push_bit (8 * n) (take_bit 8 (drop_bit (8 * n) w))"
    by (simp add: object_value_snoc Suc ucast_low_byte)
  also have "\<dots> = take_bit (8 * n) w OR push_bit (8 * n) (take_bit 8 (drop_bit (8 * n) w))"
    by (rule disjunctive_add) (auto simp: bit_simps)
  also have "\<dots> = take_bit (8 * Suc n) w"
    by (rule bit_word_eqI) (auto simp: bit_simps)
  finally show ?case .
qed

definition obj_ok :: "t_delay_obj \<Rightarrow> bool" where
  "obj_ok obj \<longleftrightarrow> length (d_pad obj) = 6 \<and> length (d_body obj) = 1304"

lemma length_obj_bytes: "obj_ok obj \<Longrightarrow> length (obj_bytes obj) = obj_size"
  by (simp add: obj_ok_def obj_bytes_def obj_size_def)

text \<open>Reading the bytes of an object back gives the object.\<close>

lemma bytes_obj_roundtrip: "obj_ok obj \<Longrightarrow> bytes_obj (obj_bytes obj) = obj"
  by (rule t_delay_obj.equality) (simp_all add: obj_ok_def obj_bytes_def bytes_obj_def object_value_bytes take_bit_word_eq_self)

lemma bytes_obj_ok: "length b = obj_size \<Longrightarrow> obj_ok (bytes_obj b)"
  by (simp add: obj_ok_def bytes_obj_def obj_size_def)

lemma overwrite_ok: "obj_ok obj \<Longrightarrow> length out \<le> obj_size \<Longrightarrow> obj_ok (overwrite obj out)"
  unfolding overwrite_def by (rule bytes_obj_ok) (simp add: length_obj_bytes)

lemma overwrite_all: "obj_ok obj \<Longrightarrow> length out = obj_size \<Longrightarrow> overwrite obj out = bytes_obj out"
  by (simp add: overwrite_def memcpy_at_full length_obj_bytes)

lemma obj_ok_set [simp]:
  "obj_ok (delay_set_seqno_send_time tv obj sn) = obj_ok obj" "obj_ok (delay_set_recv_time tv obj) = obj_ok obj"
  by (simp_all add: obj_ok_def delay_set_seqno_send_time_def delay_set_recv_time_def)

lemma print_ok: "num \<le> length objs \<Longrightarrow> \<exists>ls. delay_print_rtt_time objs num = Inr ls \<and> length ls = num"
  by (induction objs num rule: delay_print_rtt_time.induct) auto

subsection \<open>What each step does\<close>

definition client_ok :: "kcp_client \<Rightarrow> bool" where
  "client_ok c \<longleftrightarrow>
     endpoint_ok (c_kcp c) \<and> length (c_buf c) = UDP_RECV_BUF_SIZE \<and> length (c_objs c) = DELAY_TEST2_N \<and>
     list_all obj_ok (c_objs c) \<and> c_recv_objs c = length (c_got c) \<and> (\<forall>d \<in> set (c_out c). d \<noteq> [] \<and> length d \<le> 1400)"

definition client_allocs :: "client_env \<Rightarrow> bool" where
  "client_allocs e \<longleftrightarrow> (\<forall>i. ce_ack_alloc e i \<noteq> None) \<and> (\<forall>i. ce_seg_alloc e i \<noteq> None) \<and> (\<forall>i. ce_send_alloc e i \<noteq> None)"

lemma client_outputs_eq: "\<exists>new. set new \<subseteq> set out \<and> client_outputs sendto i out c = c\<lparr>c_out := c_out c @ new\<rparr>"
proof (induction out arbitrary: i c)
  case Nil
  show ?case by (rule exI [of _ "[]"]) simp
next
  case (Cons d ds)
  obtain new where "set new \<subseteq> set ds"
    "client_outputs sendto (Suc i) ds (snd (udp_output_client (sendto i) d c)) =
       (snd (udp_output_client (sendto i) d c))\<lparr>c_out := c_out (snd (udp_output_client (sendto i) d c)) @ new\<rparr>"
    using Cons.IH by blast
  then show ?case
    by (intro exI [of _ "if sendto i \<ge> 0 then d # new else new"]) (auto simp: udp_output_client_def)
qed

lemma client_ok_out:
  assumes "client_ok c" and "flushed (c_kcp c) out k" and "endpoint_ok k" and "set new \<subseteq> set out"
  shows "client_ok (c\<lparr>c_kcp := k, c_out := c_out c @ new\<rparr>)"
proof -
  have "unat (k_mtu (c_kcp c)) = 1400" using assms(1) by (simp add: client_ok_def endpoint_ok_def)
  then show ?thesis using assms by (auto simp: client_ok_def flushed_def)
qed

lemma client_update_cases:
  assumes ok: "client_ok c" and few: "unat (k_ackcount (c_kcp c)) < 2 ^ 31"
  obtains out k new where "ikcp_update (c_kcp c) (iclock (ce_time e)) = Inr (out, k)" "set new \<subseteq> set out"
    "client_update e c = Inr (c\<lparr>c_kcp := k, c_out := c_out c @ new\<rparr>)" "client_ok (c\<lparr>c_kcp := k, c_out := c_out c @ new\<rparr>)"
    "flushed (c_kcp c) out k"
proof -
  have "endpoint_ok (c_kcp c)" using ok by (simp add: client_ok_def)
  from endpoint_update [OF this few] obtain out k where u: "ikcp_update (c_kcp c) (iclock (ce_time e)) = Inr (out, k)"
    "flushed (c_kcp c) out k" "endpoint_ok k" by blast
  obtain new where new: "set new \<subseteq> set out"
    "client_outputs (ce_sendto e) 0 out (c\<lparr>c_kcp := k\<rparr>) = c\<lparr>c_kcp := k, c_out := c_out c @ new\<rparr>"
    using client_outputs_eq [of out "ce_sendto e" 0 "c\<lparr>c_kcp := k\<rparr>"] by auto
  show thesis
    by (rule that [OF u(1) new(1) _ client_ok_out [OF ok u(2,3) new(1)] u(2)]) (simp add: client_update_def u(1) new(2))
qed

lemma client_send_cases:
  assumes ok: "client_ok c" and i: "i < DELAY_TEST2_N" and env: "client_allocs e" and few: "unat (k_ackcount (c_kcp c)) < 2 ^ 31"
  obtains obj k out k' new c' where "ikcp_send (ce_send_alloc e) (c_kcp c) (Some (obj_bytes obj)) (int obj_size) = Inr (0, k)"
    "length (obj_bytes obj) = obj_size" "d_seqno obj = of_nat i"
    "ikcp_update k (iclock (ce_time e)) = Inr (out, k')" "set new \<subseteq> set out" "k_ackcount k = k_ackcount (c_kcp c)"
    "c' = c\<lparr>c_pc := Polling i, c_kcp := k', c_objs := (c_objs c)[i := obj], c_out := c_out c @ new, c_msgs := c_msgs c @ [obj_bytes obj]\<rparr>"
    "client_send e i c = Inr c'" "client_ok c'"
proof -
  have il: "i < length (c_objs c)" using ok i by (simp add: client_ok_def)
  define obj where "obj = delay_set_seqno_send_time (ce_send_time e) (c_objs c ! i) (of_nat i)"
  have obj: "obj_ok obj" "d_seqno obj = of_nat i"
    using ok il by (simp_all add: obj_def client_ok_def list_all_length) (simp add: delay_set_seqno_send_time_def)
  have len: "length (obj_bytes obj) = obj_size" "length (obj_bytes obj) \<le> 1500"
    using length_obj_bytes [OF obj(1)] by (simp_all add: obj_size_def)
  have al: "\<forall>i. ce_send_alloc e i \<noteq> None" using env by (simp add: client_allocs_def)
  have ep: "endpoint_ok (c_kcp c)" using ok by (simp add: client_ok_def)
  obtain k where k: "ikcp_send (ce_send_alloc e) (c_kcp c) (Some (obj_bytes obj)) (int (length (obj_bytes obj))) = Inr (0, k)"
    "endpoint_ok k" "k_ackcount k = k_ackcount (c_kcp c)"
    by (rule endpoint_send [OF ep al len(2)])
  define c1 where "c1 = c\<lparr>c_objs := (c_objs c)[i := obj], c_kcp := k, c_msgs := c_msgs c @ [obj_bytes obj], c_pc := Polling i\<rparr>"
  have "list_all obj_ok ((c_objs c)[i := obj])"
    using ok obj(1) by (auto simp: client_ok_def list_all_iff dest: set_update_subset_insert [THEN subsetD])
  then have ok1: "client_ok c1" and few1: "unat (k_ackcount (c_kcp c1)) < 2 ^ 31"
    using ok k few by (simp_all add: client_ok_def c1_def)
  obtain out k' new where u: "ikcp_update (c_kcp c1) (iclock (ce_time e)) = Inr (out, k')" "set new \<subseteq> set out"
    "client_update e c1 = Inr (c1\<lparr>c_kcp := k', c_out := c_out c1 @ new\<rparr>)" "client_ok (c1\<lparr>c_kcp := k', c_out := c_out c1 @ new\<rparr>)"
    by (rule client_update_cases [OF ok1 few1])
  have eq: "c1\<lparr>c_kcp := k', c_out := c_out c1 @ new\<rparr> =
      c\<lparr>c_pc := Polling i, c_kcp := k', c_objs := (c_objs c)[i := obj], c_out := c_out c @ new, c_msgs := c_msgs c @ [obj_bytes obj]\<rparr>"
    by (rule kcp_client.equality) (simp_all add: c1_def)
  have "client_send e i c = client_update e c1"
    using k(1) il unfolding len(1) by (simp add: client_send_def obj_def [symmetric]) (simp add: c1_def)
  with that [of obj k out k' new, OF _ len(1) obj(2) _ u(2) _ refl] k u show thesis unfolding eq by (simp add: len(1) c1_def)
qed

text \<open>Taking a datagram: the endpoint does not change but for its input, or a message is delivered.\<close>

lemma client_take_cases:
  assumes ok: "client_ok c" and i: "i < DELAY_TEST2_N" and r: "length (c_got c) < DELAY_TEST2_N"
    and env: "client_allocs e" and few: "unat (k_ackcount (c_kcp c)) + 62 < 2 ^ 31"
  obtains (none) c' where "client_take e i c = Inr (None, c')" "ce_recvfrom e = None" "c' = c"
  | (input) d0 a ret c' k b where "ce_recvfrom e = Some (d0, a)"
      "ikcp_input (ce_ack_alloc e) (ce_seg_alloc e) (c_kcp c) (Some (take UDP_RECV_BUF_SIZE d0)) (int (length (take UDP_RECV_BUF_SIZE d0))) = Inr (ret, k)"
      "client_take e i c = Inr (None, c')" "c' = c\<lparr>c_addr := a, c_buf := b, c_kcp := k\<rparr>" "client_ok c'"
  | (message) d0 a ret k1 k2 b msg objs c' where "ce_recvfrom e = Some (d0, a)"
      "ikcp_input (ce_ack_alloc e) (ce_seg_alloc e) (c_kcp c) (Some (take UDP_RECV_BUF_SIZE d0)) (int (length (take UDP_RECV_BUF_SIZE d0))) = Inr (ret, k1)"
      "ikcp_recv k1 (Some obj_size) (int obj_size) = Inr (int (length msg), msg, k2)"
      "objs = (c_objs c)[i := overwrite (c_objs c ! i) msg]"
      "c' = c\<lparr>c_addr := a, c_buf := b, c_kcp := k2, c_objs := objs[length (c_got c) := delay_set_recv_time (ce_recv_time e) (objs ! length (c_got c))],
         c_recv_objs := Suc (length (c_got c)), c_got := c_got c @ [msg]\<rparr>"
      "client_take e i c = Inr (Some (int (length msg)), c')" "client_ok c'"
proof (cases "ce_recvfrom e")
  case None
  then show thesis by (intro none [of c]) (simp_all add: client_take_def)
next
  case (Some da)
  obtain d0 a where da: "da = (d0, a)" by (cases da)
  define d where "d = take UDP_RECV_BUF_SIZE d0"
  have len: "length d \<le> 1500" "length d \<le> length (c_buf c)" using ok by (simp_all add: d_def UDP_RECV_BUF_SIZE_def client_ok_def)
  define b where "b = memcpy_at (c_buf c) 0 d"
  have b: "b = d @ drop (length d) (c_buf c)" "length b = UDP_RECV_BUF_SIZE"
    using len ok by (simp_all add: b_def memcpy_at_prefix client_ok_def)
  have al: "\<forall>i. ce_ack_alloc e i \<noteq> None" "\<forall>i. ce_seg_alloc e i \<noteq> None" using env by (simp_all add: client_allocs_def)
  have ep: "endpoint_ok (c_kcp c)" using ok by (simp add: client_ok_def)
  obtain ret k where in1: "ikcp_input (ce_ack_alloc e) (ce_seg_alloc e) (c_kcp c) (Some d) (int (length d)) = Inr (ret, k)"
    and in2: "ikcp_input (ce_ack_alloc e) (ce_seg_alloc e) (c_kcp c) (Some b) (int (length d)) = Inr (ret, k)"
    and k: "endpoint_ok k"
    unfolding b(1) by (rule endpoint_input [OF ep al len(1) few])
  define c1 where "c1 = c\<lparr>c_addr := a, c_buf := b, c_kcp := k\<rparr>"
  have ok1: "client_ok c1" using ok k b(2) by (simp add: client_ok_def c1_def)
  obtain r2 msg k2 where re: "ikcp_recv k (Some obj_size) (int obj_size) = Inr (r2, msg, k2)"
    "0 \<le> r2 \<longrightarrow> r2 = int (length msg) \<and> length msg \<le> obj_size" "r2 < 0 \<longrightarrow> msg = [] \<and> k2 = k" "endpoint_ok k2"
    by (rule endpoint_recv [OF k order_refl])
  have take: "client_take e i c = rbind (ikcp_input (ce_ack_alloc e) (ce_seg_alloc e) (c_kcp c) (Some b) (int (length d))) (\<lambda>(ret, k).
      let c = c\<lparr>c_addr := a, c_buf := b, c_kcp := k\<rparr> in
      if ret < 0 then Inr (None, c)
      else rbind (ikcp_recv (c_kcp c) (Some obj_size) (int obj_size)) (\<lambda>(ret, out, k).
        let c = c\<lparr>c_kcp := k\<rparr> in
        if ret < 0 then Inr (None, c)
        else
          rbind (load (c_objs c) i) (\<lambda>obj.
          let objs = (c_objs c)[i := overwrite obj out] in
          rbind (load objs (c_recv_objs c)) (\<lambda>obj.
          Inr (Some ret, c\<lparr>c_objs := objs[c_recv_objs c := delay_set_recv_time (ce_recv_time e) obj],
                           c_recv_objs := c_recv_objs c + 1, c_got := c_got c @ [out]\<rparr>)))))"
    unfolding client_take_def Some da option.case prod.case Let_def d_def [symmetric] b_def [symmetric] by simp
  show thesis
  proof (cases "ret < 0 \<or> r2 < 0")
    case True
    then have "client_take e i c = Inr (None, c1)"
      unfolding take in2 rbind_simps prod.case Let_def using re(1,3) by (auto simp: c1_def)
    then show thesis using Some da in1 ok1 by (intro input [OF _ _ _ c1_def]) (simp_all add: d_def)
  next
    case False
    define n where "n = length (c_got c)"
    define objs where "objs = (c_objs c)[i := overwrite (c_objs c ! i) msg]"
    define c2 where "c2 = c\<lparr>c_addr := a, c_buf := b, c_kcp := k2, c_objs := objs[n := delay_set_recv_time (ce_recv_time e) (objs ! n)],
         c_recv_objs := Suc n, c_got := c_got c @ [msg]\<rparr>"
    have r2: "r2 = int (length msg)" "length msg \<le> obj_size" using False re(2) by simp_all
    have idx: "i < length (c_objs c)" "n < length objs" "c_recv_objs c = n"
      using ok i r by (simp_all add: client_ok_def objs_def n_def)
    have run: "client_take e i c = Inr (Some (int (length msg)), c2)"
      unfolding take in2 rbind_simps prod.case Let_def using False re(1) idx r2(1)
      by (simp add: objs_def [symmetric] c2_def)
    have "list_all obj_ok objs"
      using ok idx(1) r2(2) unfolding objs_def client_ok_def list_all_length
      by (auto simp: nth_list_update intro: overwrite_ok)
    then have "list_all obj_ok (objs[n := delay_set_recv_time (ce_recv_time e) (objs ! n)])"
      using idx(2) unfolding list_all_length by (auto simp: nth_list_update)
    then have "client_ok c2" using ok re(4) b(2) by (simp add: client_ok_def c2_def n_def objs_def)
    with Some da in1 re(1) r2(1) run show thesis
      by (intro message [OF _ _ _ objs_def c2_def [unfolded n_def]]) (simp_all add: d_def)
  qed
qed

subsection \<open>Replies land in the wrong object\<close>

text \<open>
  In the first loop a reply is written over \<open>objs[i]\<close>, the object sent last, and the time of its arrival into
  \<open>objs[recv_objs]\<close>. When the reply to object \<open>r\<close> comes in a later round, object \<open>i\<close> is
  replaced by a copy of object \<open>r\<close>: its own sequence number and send time are lost.
\<close>

lemma client_overwrites_pending:
  assumes ok: "client_ok c" and i: "i < DELAY_TEST2_N" and late: "length (c_got c) < i" and env: "client_allocs e"
    and few: "unat (k_ackcount (c_kcp c)) + 62 < 2 ^ 31"
    and got: "client_take e i c = Inr (Some (int obj_size), c')" and reply: "c_got c' = c_got c @ [obj_bytes obj]" and obj: "obj_ok obj"
  shows "c_objs c' ! i = obj \<and> c_objs c' ! length (c_got c) = delay_set_recv_time (ce_recv_time e) (c_objs c ! length (c_got c))"
proof -
  have "length (c_got c) < DELAY_TEST2_N" using i late by simp
  from ok i this env few show ?thesis
  proof (cases rule: client_take_cases)
    case (message d0 a ret k1 k2 b msg objs c2)
    have "msg = obj_bytes obj" using message(5,6) got reply by simp
    moreover have "obj_ok (c_objs c ! i)" "i < length (c_objs c)" using ok i by (simp_all add: client_ok_def list_all_length)
    ultimately have "objs ! i = obj" "i < length objs"
      using message(4) obj overwrite_all [of "c_objs c ! i" msg] by (simp_all add: length_obj_bytes bytes_obj_roundtrip)
    with message(4,5,6) got late show ?thesis by simp
  qed (use got in auto)
qed

end
