(* ===== verification/KcpEcho.thy ===== *)
theory KcpEcho
  imports KcpClient
begin

text \<open>
  The client of \<open>client.c\<close> and the server of \<open>server.c\<close> together, over a network that loses,
  duplicates, delays and reorders the datagrams of both directions. Each direction of the
  conversation is a view of the system as the two-endpoint network of the theory \<open>KcpNetwork\<close>, which the
  programs simulate; from its delivery theorem, applied twice, follows that the
  client gets back what it sent.
\<close>

subsection \<open>A program as a user of the protocol\<close>

text \<open>What the other side can see of a program: its control block, the datagrams it has sent,
  and the messages it has sent and received.\<close>

record peer =
  p_kcp :: ikcpcb
  p_out :: "bytes set"
  p_sent :: "bytes list"
  p_got :: "bytes list"

inductive peer_step :: "bytes set \<Rightarrow> peer \<Rightarrow> peer \<Rightarrow> bool" for W :: "bytes set" where
  update: "endpoint_ok (p_kcp p) \<Longrightarrow> acks_bounded (p_kcp p) 0 \<Longrightarrow> ikcp_update (p_kcp p) t = Inr (out, k) \<Longrightarrow> new \<subseteq> set out \<Longrightarrow>
    peer_step W p (p\<lparr>p_kcp := k, p_out := p_out p \<union> new\<rparr>)"
| flush: "endpoint_ok (p_kcp p) \<Longrightarrow> acks_bounded (p_kcp p) 0 \<Longrightarrow> ikcp_flush (p_kcp p) = Inr (out, k) \<Longrightarrow> new \<subseteq> set out \<Longrightarrow>
    peer_step W p (p\<lparr>p_kcp := k, p_out := p_out p \<union> new\<rparr>)"
| send: "endpoint_ok (p_kcp p) \<Longrightarrow> ikcp_send alloc (p_kcp p) (Some msg) (int (length msg)) = Inr (0, k) \<Longrightarrow> \<forall>i. alloc i \<noteq> None \<Longrightarrow>
    peer_step W p (p\<lparr>p_kcp := k, p_sent := p_sent p @ [msg]\<rparr>)"
| input: "ikcp_input alloc salloc (p_kcp p) (Some d) (int (length d)) = Inr (ret, k) \<Longrightarrow> d \<in> W \<Longrightarrow>
    \<forall>i. alloc i \<noteq> None \<Longrightarrow> \<forall>i. salloc i \<noteq> None \<Longrightarrow> length d \<le> 1500 \<Longrightarrow> acks_bounded (p_kcp p) 62 \<Longrightarrow>
    peer_step W p (p\<lparr>p_kcp := k\<rparr>)"
| recv: "ikcp_recv (p_kcp p) (Some c) (int l) = Inr (int (length msg), msg, k) \<Longrightarrow> l \<le> c \<Longrightarrow>
    peer_step W p (p\<lparr>p_kcp := k, p_got := p_got p @ [msg]\<rparr>)"

inductive_cases peer_step_elim: "peer_step W p p'"

definition link :: "peer \<Rightarrow> peer \<Rightarrow> network" where
  "link p q = \<lparr>n_a = p_kcp p, n_b = p_kcp q, n_wire = p_out p, n_sent = p_sent p, n_received = p_got q\<rparr>"

text \<open>As many messages of one fragment each that the sequence numbers do not wrap round.\<close>

definition small_msgs :: "peer \<Rightarrow> bool" where
  "small_msgs p \<longleftrightarrow> (\<forall>msg \<in> set (p_sent p). length msg \<le> 1376) \<and> length (p_sent p) < 2 ^ 30"

lemma peer_sent_mono: "peer_step W p p' \<Longrightarrow> prefix (p_sent p) (p_sent p')"
  by (cases rule: peer_step.cases) auto

lemma small_msgs_mono: "prefix (p_sent p) (p_sent p') \<Longrightarrow> small_msgs p' \<Longrightarrow> small_msgs p"
  by (auto simp: small_msgs_def prefix_def)

lemma sent_fragments_small:
  assumes "small_msgs p" and "unat (k_mss (p_kcp p)) = 1376"
  shows "length (sent_fragments (link p q)) = length (p_sent p)"
proof -
  have "\<forall>msg \<in> set msgs. length msg \<le> 1376 \<Longrightarrow> length (concat (map (message_fragments 1376) msgs)) = length msgs" for msgs
    by (induction msgs) (simp_all add: length_message_fragments chunk_count_def)
  then show ?thesis using assms by (simp add: sent_fragments_def link_def small_msgs_def)
qed

text \<open>Every step of a program is a sequence of steps of the network, seen from either end.\<close>

lemma net_lose: "net_step s s' \<Longrightarrow> w \<subseteq> n_wire s' \<Longrightarrow> net_step\<^sup>*\<^sup>* s (s'\<lparr>n_wire := w\<rparr>)"
  by (rule rtranclp.rtrancl_into_rtrancl [of net_step s s']) (simp_all add: r_into_rtranclp net_step.lose)

lemma peer_step_a:
  assumes "peer_step W p p'" and "small_msgs p'"
  shows "net_step\<^sup>*\<^sup>* (link p q) (link p' q)"
  using assms(1)
proof (cases rule: peer_step.cases)
  case (update t out k new)
  have "net_step (link p q) ((link p q)\<lparr>n_a := k, n_wire := n_wire (link p q) \<union> set out\<rparr>)"
    by (rule net_step.a_update) (use update in \<open>simp_all add: link_def\<close>)
  from net_lose [OF this, of "p_out p \<union> new"] update(1,5) show ?thesis by (auto simp: link_def)
next
  case (flush out k new)
  have "net_step (link p q) ((link p q)\<lparr>n_a := k, n_wire := n_wire (link p q) \<union> set out\<rparr>)"
    by (rule net_step.a_flush) (use flush in \<open>simp_all add: link_def\<close>)
  from net_lose [OF this, of "p_out p \<union> new"] flush(1,5) show ?thesis by (auto simp: link_def)
next
  case (send alloc msg k)
  have mss: "unat (k_mss (p_kcp p)) = 1376" using endpoint_fields(4) [OF send(2)] .
  have small: "small_msgs p" "length msg \<le> 1376" "length (p_sent p) < 2 ^ 30"
    using assms(2) by (auto simp: send(1) small_msgs_def)
  have "net_step (link p q) ((link p q)\<lparr>n_a := k, n_sent := n_sent (link p q) @ (if (0 :: int) = 0 then [msg] else [])\<rparr>)"
    by (rule net_step.user_send [of alloc])
      (use send small sent_fragments_small [OF small(1) mss, of q] in \<open>simp_all add: link_def mss chunk_count_def\<close>)
  then show ?thesis by (simp add: send(1) link_def r_into_rtranclp)
next
  case (input alloc salloc d ret k)
  have "length d div 24 \<le> 62" using input(6) div_le_mono [of "length d" 1500 24] by simp
  then have "net_step (link p q) ((link p q)\<lparr>n_a := k\<rparr>)"
    by (intro net_step.a_input [of alloc salloc]) (use input in \<open>auto simp: link_def\<close>)
  then show ?thesis by (simp add: input(1) link_def r_into_rtranclp)
next
  case (recv c l msg k)
  have "net_step (link p q) ((link p q)\<lparr>n_a := k\<rparr>)" by (rule net_step.a_recv) (use recv in \<open>simp add: link_def\<close>)
  then show ?thesis by (simp add: recv(1) link_def r_into_rtranclp)
qed

lemma peer_step_b:
  assumes "peer_step W q q'" and "W \<subseteq> p_out p"
  shows "net_step\<^sup>*\<^sup>* (link p q) (link p q')"
  using assms(1)
proof (cases rule: peer_step.cases)
  case (update t out k new)
  have "net_step (link p q) ((link p q)\<lparr>n_b := k\<rparr>)" by (rule net_step.b_update) (use update in \<open>simp_all add: link_def\<close>)
  then show ?thesis by (simp add: update(1) link_def r_into_rtranclp)
next
  case (flush out k new)
  have "net_step (link p q) ((link p q)\<lparr>n_b := k\<rparr>)" by (rule net_step.b_flush) (use flush in \<open>simp_all add: link_def\<close>)
  then show ?thesis by (simp add: flush(1) link_def r_into_rtranclp)
next
  case (send alloc msg k)
  have "net_step (link p q) ((link p q)\<lparr>n_b := k\<rparr>)"
    by (rule net_step.b_send) (use send endpoint_fields(3) in \<open>auto simp: link_def\<close>)
  then show ?thesis by (simp add: send(1) link_def r_into_rtranclp)
next
  case (input alloc salloc d ret k)
  have "length d div 24 \<le> 62" using input(6) div_le_mono [of "length d" 1500 24] by simp
  then have "net_step (link p q) ((link p q)\<lparr>n_b := k\<rparr>)"
    by (intro net_step.b_input [of alloc salloc]) (use input assms(2) in \<open>auto simp: link_def\<close>)
  then show ?thesis by (simp add: input(1) link_def r_into_rtranclp)
next
  case (recv c l msg k)
  have "net_step (link p q) ((link p q)\<lparr>n_b := k, n_received := n_received (link p q) @ (if 0 \<le> int (length msg) then [msg] else [])\<rparr>)"
    by (rule net_step.user_recv [of _ c "int l"]) (use recv in \<open>simp_all add: link_def\<close>)
  then show ?thesis by (simp add: recv(1) link_def r_into_rtranclp)
qed

lemma peer_steps_a:
  "(peer_step W)\<^sup>*\<^sup>* p p' \<Longrightarrow> small_msgs p' \<Longrightarrow> net_step\<^sup>*\<^sup>* (link p q) (link p' q)"
proof (induction rule: rtranclp_induct)
  case (step p1 p2)
  have "small_msgs p1" using small_msgs_mono [OF peer_sent_mono [OF step(2)] step(4)] .
  from step(3) [OF this] peer_step_a [OF step(2,4)] show ?case by (rule rtranclp_trans)
qed simp

lemma peer_steps_b:
  "(peer_step W)\<^sup>*\<^sup>* q q' \<Longrightarrow> W \<subseteq> p_out p \<Longrightarrow> net_step\<^sup>*\<^sup>* (link p q) (link p q')"
proof (induction rule: rtranclp_induct)
  case (step q1 q2)
  from step(3) [OF step(4)] peer_step_b [OF step(2,4)] show ?case by (rule rtranclp_trans)
qed simp

subsection \<open>The two programs\<close>

definition client_peer :: "kcp_client \<Rightarrow> peer" where
  "client_peer c = \<lparr>p_kcp = c_kcp c, p_out = set (c_out c), p_sent = c_msgs c, p_got = c_got c\<rparr>"

definition server_peer :: "kcpObj \<Rightarrow> peer" where
  "server_peer s = \<lparr>p_kcp = o_kcp s, p_out = snd ` set (o_sent s), p_sent = o_served s, p_got = o_served s\<rparr>"

lemma peer_chain: "peer_step W p q \<Longrightarrow> (peer_step W)\<^sup>*\<^sup>* q r \<Longrightarrow> (peer_step W)\<^sup>*\<^sup>* p r"
  by (rule converse_rtranclp_into_rtranclp)

lemma server_update_peer:
  assumes ok: "server_ok n s" and few: "n < 2 ^ 31" and run: "server_update tv sendto s = Inr s'"
  shows "(peer_step W)\<^sup>*\<^sup>* (server_peer s) (server_peer s')" and "server_ok n s'" and "o_buf s' = o_buf s"
proof -
  from server_update_ok [OF ok few] obtain out k new where u: "ikcp_update (o_kcp s) (iclock tv) = Inr (out, k)" "set new \<subseteq> set out"
    "server_update tv sendto s = Inr (s\<lparr>o_kcp := k, o_sent := o_sent s @ map (Pair (the (o_client s))) new\<rparr>)"
    "server_ok n (s\<lparr>o_kcp := k, o_sent := o_sent s @ map (Pair (the (o_client s))) new\<rparr>)" by blast
  then have s': "s' = s\<lparr>o_kcp := k, o_sent := o_sent s @ map (Pair (the (o_client s))) new\<rparr>" using run by simp
  have "peer_step W (server_peer s) ((server_peer s)\<lparr>p_kcp := k, p_out := p_out (server_peer s) \<union> set new\<rparr>)"
    by (rule peer_step.update [where t = "iclock tv"]) (use ok few u(1,2) in \<open>auto simp: server_peer_def server_ok_def\<close>)
  also have "(server_peer s)\<lparr>p_kcp := k, p_out := p_out (server_peer s) \<union> set new\<rparr> = server_peer s'"
    by (simp add: server_peer_def s' image_Un image_image)
  finally show "(peer_step W)\<^sup>*\<^sup>* (server_peer s) (server_peer s')" by (rule r_into_rtranclp)
  show "server_ok n s'" "o_buf s' = o_buf s" using u(4) by (simp_all add: s')
qed

lemma server_answer_peer:
  assumes ok: "server_ok n s" and buf: "length (o_buf s) = RECV_BUF" and client: "o_client s \<noteq> None" and env: "allocs_ok e"
    and few: "n < 2 ^ 31" and len: "l \<le> RECV_BUF" and run: "server_answer e (int l) s = Inr (go, s')"
  shows "(peer_step W)\<^sup>*\<^sup>* (server_peer s) (server_peer s') \<and> server_ok n s' \<and> length (o_buf s') = RECV_BUF"
  using ok buf client env few len
proof (cases rule: server_answer_cases)
  case (none ret)
  then show ?thesis using run ok buf by simp
next
  case (served msg k1 k2 out k3 new b num)
  let ?p = "server_peer s"
  have s': "s' = s\<lparr>o_kcp := k3, o_buf := b, o_number := num,
      o_sent := o_sent s @ map (Pair (the (o_client s))) new, o_served := o_served s @ [msg]\<rparr>"
    using run served(5) by simp
  have k: "endpoint_ok (o_kcp s)" "unat (k_ackcount (o_kcp s)) \<le> n" using ok by (simp_all add: server_ok_def)
  have al: "\<forall>i. le_send_alloc e i \<noteq> None" using env by (simp add: allocs_ok_def)
  obtain ret out' k' where re: "ikcp_recv (o_kcp s) (Some RECV_BUF) (int l) = Inr (ret, out', k')" "endpoint_ok k'"
    by (rule endpoint_recv [OF k(1) len])
  then have k1: "endpoint_ok k1" using served(1) by simp
  have "length msg \<le> 1500" using served(7) len by (simp add: RECV_BUF_def)
  from endpoint_send [OF k1 al this, of "[]"] served(2) have k2: "endpoint_ok k2" by fastforce
  have "peer_step W ?p (?p\<lparr>p_kcp := k1, p_got := p_got ?p @ [msg]\<rparr>)"
    by (rule peer_step.recv [where c = RECV_BUF and l = l]) (use served(1) len in \<open>simp_all add: server_peer_def\<close>)
  moreover have "peer_step W (?p\<lparr>p_kcp := k1, p_got := p_got ?p @ [msg]\<rparr>)
      (?p\<lparr>p_kcp := k2, p_got := p_got ?p @ [msg], p_sent := p_sent ?p @ [msg]\<rparr>)"
    using peer_step.send [where W = W and p = "?p\<lparr>p_kcp := k1, p_got := p_got ?p @ [msg]\<rparr>" and msg = msg and alloc = "le_send_alloc e" and k = k2]
      k1 served(2) al by (simp add: server_peer_def)
  moreover have "peer_step W (?p\<lparr>p_kcp := k2, p_got := p_got ?p @ [msg], p_sent := p_sent ?p @ [msg]\<rparr>) (server_peer s')"
    using peer_step.flush [where W = W and p = "?p\<lparr>p_kcp := k2, p_got := p_got ?p @ [msg], p_sent := p_sent ?p @ [msg]\<rparr>" and out = out
        and k = k3 and new = "set new"] k2 served(3,4,8) k(2) few
    by (simp add: server_peer_def s' image_Un image_image)
  ultimately have "(peer_step W)\<^sup>*\<^sup>* ?p (server_peer s')" by (meson peer_chain r_into_rtranclp)
  then show ?thesis using served(6,9) by (simp add: s')
qed

lemma server_receive_peer:
  assumes ok: "server_ok n s" and buf: "length (o_buf s) = RECV_BUF" and env: "allocs_ok e" and few: "n + 62 < 2 ^ 31"
    and net: "\<And>d a. le_recvfrom e = Some (d, a) \<Longrightarrow> d \<in> W \<and> length d \<le> RECV_BUF" and run: "server_receive e s = Inr (go, s')"
  shows "(peer_step W)\<^sup>*\<^sup>* (server_peer s) (server_peer s') \<and> server_ok (n + 62) s' \<and> length (o_buf s') = RECV_BUF"
  using ok buf env few
proof (cases rule: server_receive_cases)
  case (idle go' s1)
  then have "server_peer s' = server_peer s" using run by (simp add: server_peer_def)
  then show ?thesis using idle run by simp
next
  case (datagram d0 a r s1)
  have d0: "d0 \<in> W" "take RECV_BUF d0 = d0" "length d0 \<le> 1500" using net [OF datagram(1)] by (simp_all add: RECV_BUF_def)
  have "peer_step W (server_peer s) ((server_peer s)\<lparr>p_kcp := o_kcp s1\<rparr>)"
    by (rule peer_step.input [where alloc = "le_ack_alloc e" and salloc = "le_seg_alloc e" and d = d0 and ret = r])
      (use datagram(3) d0 env ok few in \<open>auto simp: server_peer_def allocs_ok_def server_ok_def\<close>)
  moreover have "(server_peer s)\<lparr>p_kcp := o_kcp s1\<rparr> = server_peer s1" using datagram(5,6) by (simp add: server_peer_def)
  ultimately have in1: "peer_step W (server_peer s) (server_peer s1)" by simp
  show ?thesis
  proof (cases "r < 0")
    case True
    then have "s' = s1" using datagram(4) run by simp
    then show ?thesis using in1 datagram(7,8) by auto
  next
    case False
    then have ans: "server_answer e (int (length d0)) s1 = Inr (go, s')" using datagram(4) run d0(2) by simp
    have "length d0 \<le> RECV_BUF" using d0(3) by (simp add: RECV_BUF_def)
    from server_answer_peer [OF datagram(7,8) _ env few this ans] datagram(9) in1 show ?thesis
      by (auto intro: peer_chain)
  qed
qed

subsection \<open>The client's progress\<close>

text \<open>Where the client is determines how many objects it has sent and bounds how many came back.\<close>

fun pc_counts :: "client_pc \<Rightarrow> nat \<Rightarrow> nat \<Rightarrow> bool" where
  "pc_counts Starting sent got \<longleftrightarrow> sent = 0 \<and> got = 0"
| "pc_counts (Sending i) sent got \<longleftrightarrow> i \<le> DELAY_TEST2_N \<and> sent = i \<and> got \<le> i"
| "pc_counts (Polling i) sent got \<longleftrightarrow> i < DELAY_TEST2_N \<and> sent = Suc i \<and> got \<le> i"
| "pc_counts (Updating i) sent got \<longleftrightarrow> sent = DELAY_TEST2_N \<and> got = i \<and> i \<le> DELAY_TEST2_N"
| "pc_counts (Receiving i) sent got \<longleftrightarrow> sent = DELAY_TEST2_N \<and> got = i \<and> i < DELAY_TEST2_N"
| "pc_counts Flushing sent got \<longleftrightarrow> sent = DELAY_TEST2_N \<and> got = DELAY_TEST2_N"
| "pc_counts (Returned ls) sent got \<longleftrightarrow> sent = DELAY_TEST2_N \<and> got = DELAY_TEST2_N \<and> length ls = DELAY_TEST2_N"

definition pc_ok :: "kcp_client \<Rightarrow> bool" where
  "pc_ok c \<longleftrightarrow> (\<forall>msg \<in> set (c_msgs c). length msg = obj_size) \<and> pc_counts (c_pc c) (length (c_msgs c)) (length (c_got c))"

lemma client_update_peer:
  assumes ok: "client_ok c" and few: "acks_bounded (c_kcp c) 62"
  obtains c' where "client_update e c = Inr c'" "(peer_step W)\<^sup>*\<^sup>* (client_peer c) (client_peer c')" "client_ok c'"
    "c_pc c' = c_pc c" "c_msgs c' = c_msgs c" "c_got c' = c_got c" "unat (k_ackcount (c_kcp c')) \<le> unat (k_ackcount (c_kcp c))"
proof -
  have few': "unat (k_ackcount (c_kcp c)) < 2 ^ 31" using few by simp
  obtain out k new where u: "ikcp_update (c_kcp c) (iclock (ce_time e)) = Inr (out, k)" "set new \<subseteq> set out"
    "client_update e c = Inr (c\<lparr>c_kcp := k, c_out := c_out c @ new\<rparr>)" "client_ok (c\<lparr>c_kcp := k, c_out := c_out c @ new\<rparr>)" "flushed (c_kcp c) out k"
    by (rule client_update_cases [OF ok few'])
  have "peer_step W (client_peer c) (client_peer (c\<lparr>c_kcp := k, c_out := c_out c @ new\<rparr>))"
    using peer_step.update [where W = W and p = "client_peer c" and out = out and k = k and new = "set new" and t = "iclock (ce_time e)"]
      ok few u(1,2) by (simp add: client_peer_def client_ok_def)
  with u(3-5) show thesis by (intro that [of "c\<lparr>c_kcp := k, c_out := c_out c @ new\<rparr>"]) (auto simp: flushed_def)
qed

lemma client_finish_peer:
  assumes ok: "client_ok c" and few: "acks_bounded (c_kcp c) 62"
  obtains c' ls where "client_finish e c = Inr (c'\<lparr>c_pc := Returned ls\<rparr>)" "(peer_step W)\<^sup>*\<^sup>* (client_peer c) (client_peer c')" "client_ok c'"
    "c_msgs c' = c_msgs c" "c_got c' = c_got c" "length ls = DELAY_TEST2_N"
proof -
  have ep: "endpoint_ok (c_kcp c)" and few': "unat (k_ackcount (c_kcp c)) < 2 ^ 31" using ok few by (simp_all add: client_ok_def)
  obtain out k where u: "ikcp_flush (c_kcp c) = Inr (out, k)" "flushed (c_kcp c) out k" "endpoint_ok k"
    by (rule endpoint_flush [OF ep few'])
  obtain new where new: "set new \<subseteq> set out"
    "client_outputs (ce_sendto e) 0 out (c\<lparr>c_kcp := k\<rparr>) = c\<lparr>c_kcp := k, c_out := c_out c @ new\<rparr>"
    using client_outputs_eq [of out "ce_sendto e" 0 "c\<lparr>c_kcp := k\<rparr>"] by auto
  let ?c = "c\<lparr>c_kcp := k, c_out := c_out c @ new\<rparr>"
  have ok': "client_ok ?c" by (rule client_ok_out [OF ok u(2,3) new(1)])
  obtain ls where ls: "delay_print_rtt_time (c_objs ?c) DELAY_TEST2_N = Inr ls" "length ls = DELAY_TEST2_N"
    using print_ok [of DELAY_TEST2_N "c_objs ?c"] ok' by (auto simp: client_ok_def)
  have "peer_step W (client_peer c) (client_peer ?c)"
    using peer_step.flush [where W = W and p = "client_peer c" and out = out and k = k and new = "set new"] ep few u(1) new(1)
    by (simp add: client_peer_def)
  moreover have "client_finish e c = Inr (?c\<lparr>c_pc := Returned ls\<rparr>)" using u(1) new(2) ls(1) by (simp add: client_finish_def)
  ultimately show thesis using ok' ls(2) by (intro that [where c' = ?c and ls = ls]) auto
qed

lemma client_send_peer:
  assumes ok: "client_ok c" and i: "i < DELAY_TEST2_N" and env: "client_allocs e" and few: "acks_bounded (c_kcp c) 62"
  obtains c' msg where "client_send e i c = Inr c'" "(peer_step W)\<^sup>*\<^sup>* (client_peer c) (client_peer c')" "client_ok c'"
    "c_pc c' = Polling i" "c_msgs c' = c_msgs c @ [msg]" "length msg = obj_size" "c_got c' = c_got c"
proof -
  have few': "unat (k_ackcount (c_kcp c)) < 2 ^ 31" using few by simp
  obtain obj k out k' new c' where s: "ikcp_send (ce_send_alloc e) (c_kcp c) (Some (obj_bytes obj)) (int obj_size) = Inr (0, k)"
    "length (obj_bytes obj) = obj_size" "d_seqno obj = of_nat i"
    "ikcp_update k (iclock (ce_time e)) = Inr (out, k')" "set new \<subseteq> set out" "k_ackcount k = k_ackcount (c_kcp c)"
    "c' = c\<lparr>c_pc := Polling i, c_kcp := k', c_objs := (c_objs c)[i := obj], c_out := c_out c @ new, c_msgs := c_msgs c @ [obj_bytes obj]\<rparr>"
    "client_send e i c = Inr c'" "client_ok c'"
    by (rule client_send_cases [OF ok i env few'])
  have al: "\<forall>i. ce_send_alloc e i \<noteq> None" and ep: "endpoint_ok (c_kcp c)" using env ok by (simp_all add: client_allocs_def client_ok_def)
  have len: "length (obj_bytes obj) \<le> 1500" using s(2) by (simp add: obj_size_def)
  have k: "endpoint_ok k" using endpoint_send [OF ep al len, of "[]"] s(1,2) by fastforce
  let ?p = "(client_peer c)\<lparr>p_kcp := k, p_sent := c_msgs c @ [obj_bytes obj]\<rparr>"
  have "peer_step W (client_peer c) ?p"
    using peer_step.send [where W = W and p = "client_peer c" and msg = "obj_bytes obj" and k = k, OF _ _ al] ep s(1,2)
    by (simp add: client_peer_def)
  moreover have "peer_step W ?p (client_peer c')"
    using peer_step.update [where W = W and p = ?p and out = out and k = k' and new = "set new" and t = "iclock (ce_time e)"]
      k few s(4-6) by (simp add: client_peer_def s(7))
  ultimately have "(peer_step W)\<^sup>*\<^sup>* (client_peer c) (client_peer c')" by (meson peer_chain r_into_rtranclp)
  with s(2,8,9) show thesis by (intro that [of c' "obj_bytes obj"]) (simp_all add: s(7))
qed

lemma client_take_peer:
  assumes ok: "client_ok c" and i: "i < DELAY_TEST2_N" "length (c_got c) < DELAY_TEST2_N" and env: "client_allocs e"
    and few: "acks_bounded (c_kcp c) 62" and net: "\<And>d a. ce_recvfrom e = Some (d, a) \<Longrightarrow> d \<in> W \<and> length d \<le> UDP_RECV_BUF_SIZE"
  obtains ret c' where "client_take e i c = Inr (ret, c')" "(peer_step W)\<^sup>*\<^sup>* (client_peer c) (client_peer c')" "client_ok c'"
    "c_msgs c' = c_msgs c" "case ret of None \<Rightarrow> c_got c' = c_got c | Some r \<Rightarrow> \<exists>msg. r = int (length msg) \<and> c_got c' = c_got c @ [msg]"
  using ok i env few
proof (cases rule: client_take_cases)
  case (none c')
  then show thesis using ok by (intro that [of None c]) auto
next
  case (input d0 a ret c' k b)
  have d: "d0 \<in> W" "take UDP_RECV_BUF_SIZE d0 = d0" "length d0 \<le> 1500" using net [OF input(1)] by (simp_all add: UDP_RECV_BUF_SIZE_def)
  have "peer_step W (client_peer c) (client_peer c')"
    using peer_step.input [where W = W and p = "client_peer c" and d = d0 and ret = ret and k = k
        and alloc = "ce_ack_alloc e" and salloc = "ce_seg_alloc e"] input(2) d env few
    by (simp add: client_peer_def client_allocs_def input(4))
  then show thesis using input(3-5) by (intro that [of None c']) auto
next
  case (message d0 a ret k1 k2 b msg objs c')
  have d: "d0 \<in> W" "take UDP_RECV_BUF_SIZE d0 = d0" "length d0 \<le> 1500" using net [OF message(1)] by (simp_all add: UDP_RECV_BUF_SIZE_def)
  let ?p = "(client_peer c)\<lparr>p_kcp := k1\<rparr>"
  have "peer_step W (client_peer c) ?p"
    using peer_step.input [where W = W and p = "client_peer c" and d = d0 and ret = ret and k = k1
        and alloc = "ce_ack_alloc e" and salloc = "ce_seg_alloc e"] message(2) d env few
    by (simp add: client_peer_def client_allocs_def)
  moreover have "peer_step W ?p (client_peer c')"
    using peer_step.recv [where W = W and p = ?p and c = obj_size and l = obj_size and msg = msg and k = k2] message(3)
    by (simp add: client_peer_def message(5))
  ultimately have "(peer_step W)\<^sup>*\<^sup>* (client_peer c) (client_peer c')" by (meson peer_chain r_into_rtranclp)
  then show thesis using message(5-7) by (intro that [of "Some (int (length msg))" c']) auto
qed

text \<open>
  A step of the client, when every message that arrives is of the size of an object: it returns,
  and it is a sequence of calls of the protocol.
\<close>

lemma client_step_ok:
  assumes ok: "client_ok c" and pc: "pc_ok c" and env: "client_allocs e" and few: "acks_bounded (c_kcp c) 62"
    and net: "\<And>d a. ce_recvfrom e = Some (d, a) \<Longrightarrow> d \<in> W \<and> length d \<le> UDP_RECV_BUF_SIZE"
    and size: "\<And>c'. (peer_step W)\<^sup>*\<^sup>* (client_peer c) (client_peer c') \<Longrightarrow> \<forall>msg \<in> set (c_got c'). length msg = obj_size"
  shows "\<exists>c'. delay_test2 e c = Inr c' \<and> (peer_step W)\<^sup>*\<^sup>* (client_peer c) (client_peer c') \<and> client_ok c' \<and> pc_ok c'"
proof -
  have set_pc [simp]: "client_peer (d\<lparr>c_pc := x\<rparr>) = client_peer d" "client_ok (d\<lparr>c_pc := x\<rparr>) = client_ok d"
      "c_kcp (d\<lparr>c_pc := x\<rparr>) = c_kcp d" for d x
    by (simp_all add: client_peer_def client_ok_def)
  have update: "\<exists>c'. client_update e (c\<lparr>c_pc := x\<rparr>) = Inr c' \<and> (peer_step W)\<^sup>*\<^sup>* (client_peer c) (client_peer c') \<and> client_ok c' \<and> pc_ok c'"
    if "pc_ok (c\<lparr>c_pc := x\<rparr>)" for x
  proof -
    obtain c' where "client_update e (c\<lparr>c_pc := x\<rparr>) = Inr c'" "(peer_step W)\<^sup>*\<^sup>* (client_peer (c\<lparr>c_pc := x\<rparr>)) (client_peer c')" "client_ok c'"
      "c_pc c' = c_pc (c\<lparr>c_pc := x\<rparr>)" "c_msgs c' = c_msgs (c\<lparr>c_pc := x\<rparr>)" "c_got c' = c_got (c\<lparr>c_pc := x\<rparr>)"
      by (rule client_update_peer [of "c\<lparr>c_pc := x\<rparr>"]) (use ok few in auto)
    then show ?thesis using that by (intro exI [of _ c']) (simp add: pc_ok_def)
  qed
  have take: "\<exists>ret c'. client_take e i c = Inr (ret, c') \<and> (peer_step W)\<^sup>*\<^sup>* (client_peer c) (client_peer c') \<and> client_ok c' \<and>
      c_msgs c' = c_msgs c \<and> (ret = None \<and> c_got c' = c_got c \<or> ret = Some (int obj_size) \<and> length (c_got c') = Suc (length (c_got c)))"
    if idx: "i < DELAY_TEST2_N" "length (c_got c) < DELAY_TEST2_N" for i
  proof -
    obtain ret c' where t: "client_take e i c = Inr (ret, c')" "(peer_step W)\<^sup>*\<^sup>* (client_peer c) (client_peer c')" "client_ok c'"
      "c_msgs c' = c_msgs c" "case ret of None \<Rightarrow> c_got c' = c_got c | Some r \<Rightarrow> \<exists>msg. r = int (length msg) \<and> c_got c' = c_got c @ [msg]"
      by (rule client_take_peer [OF ok idx env few net])
    have "ret = None \<and> c_got c' = c_got c \<or> ret = Some (int obj_size) \<and> length (c_got c') = Suc (length (c_got c))"
      using t(5) size [OF t(2)] by (auto split: option.splits)
    with t show ?thesis by blast
  qed
  show ?thesis
  proof (cases "c_pc c")
    case Starting
    with pc update [of "Sending 0"] show ?thesis by (simp add: delay_test2_def pc_ok_def)
  next
    case (Sending i)
    show ?thesis
    proof (cases "i < DELAY_TEST2_N")
      case True
      obtain c' msg where "client_send e i c = Inr c'" "(peer_step W)\<^sup>*\<^sup>* (client_peer c) (client_peer c')" "client_ok c'"
        "c_pc c' = Polling i" "c_msgs c' = c_msgs c @ [msg]" "length msg = obj_size" "c_got c' = c_got c"
        by (rule client_send_peer [OF ok True env few])
      then show ?thesis using Sending True pc by (intro exI [of _ c']) (auto simp: delay_test2_def pc_ok_def)
    next
      case False
      then have "pc_ok (c\<lparr>c_pc := Updating (c_recv_objs c)\<rparr>)" using pc Sending ok by (simp add: pc_ok_def client_ok_def)
      then show ?thesis using False Sending ok by (simp add: delay_test2_def)
    qed
  next
    case (Polling i)
    then have i: "i < DELAY_TEST2_N" "length (c_got c) < DELAY_TEST2_N" "length (c_got c) \<le> i" using pc by (simp_all add: pc_ok_def)
    from take [OF i(1,2)] obtain ret c' where t: "client_take e i c = Inr (ret, c')" "(peer_step W)\<^sup>*\<^sup>* (client_peer c) (client_peer c')"
      "client_ok c'" "c_msgs c' = c_msgs c" "ret = None \<and> c_got c' = c_got c \<or> ret = Some (int obj_size) \<and> length (c_got c') = Suc (length (c_got c))"
      by blast
    have "delay_test2 e c = Inr (c'\<lparr>c_pc := Sending (Suc i)\<rparr>)"
      using Polling t(1,5) by (auto simp: delay_test2_def client_poll_def)
    moreover have "pc_ok (c'\<lparr>c_pc := Sending (Suc i)\<rparr>)" using pc Polling t(4,5) i by (auto simp: pc_ok_def)
    ultimately show ?thesis using t(2,3) by simp
  next
    case (Updating i)
    show ?thesis
    proof (cases "i < DELAY_TEST2_N")
      case True
      with Updating pc update [of "Receiving i"] show ?thesis by (simp add: delay_test2_def pc_ok_def)
    next
      case False
      then have "pc_ok (c\<lparr>c_pc := Flushing\<rparr>)" using pc Updating by (simp add: pc_ok_def)
      then show ?thesis using False Updating ok by (simp add: delay_test2_def)
    qed
  next
    case (Receiving i)
    then have i: "i < DELAY_TEST2_N" "length (c_got c) < DELAY_TEST2_N" "length (c_got c) = i" using pc by (simp_all add: pc_ok_def)
    from take [OF i(1,2)] obtain ret c' where t: "client_take e i c = Inr (ret, c')" "(peer_step W)\<^sup>*\<^sup>* (client_peer c) (client_peer c')"
      "client_ok c'" "c_msgs c' = c_msgs c" "ret = None \<and> c_got c' = c_got c \<or> ret = Some (int obj_size) \<and> length (c_got c') = Suc (length (c_got c))"
      by blast
    have "delay_test2 e c = Inr (c'\<lparr>c_pc := Updating (length (c_got c'))\<rparr>)"
      using Receiving t(1,5) i(3) by (auto simp: delay_test2_def client_receive_def)
    moreover have "pc_ok (c'\<lparr>c_pc := Updating (length (c_got c'))\<rparr>)" using pc Receiving t(4,5) i by (auto simp: pc_ok_def)
    ultimately show ?thesis using t(2,3) by simp
  next
    case Flushing
    obtain c' ls where "client_finish e c = Inr (c'\<lparr>c_pc := Returned ls\<rparr>)" "(peer_step W)\<^sup>*\<^sup>* (client_peer c) (client_peer c')" "client_ok c'"
      "c_msgs c' = c_msgs c" "c_got c' = c_got c" "length ls = DELAY_TEST2_N"
      by (rule client_finish_peer [OF ok few])
    then show ?thesis using Flushing pc by (intro exI [of _ "c'\<lparr>c_pc := Returned ls\<rparr>"]) (simp add: delay_test2_def pc_ok_def)
  next
    case (Returned ls)
    then show ?thesis using ok pc by (simp add: delay_test2_def)
  qed
qed

subsection \<open>The system\<close>

record echo_system =
  es_client :: kcp_client
  es_server :: kcpObj

text \<open>
  A step is one of the client, an update of the server, or the rest of a round of the server's loop; a
  datagram that arrives is one that the other side has sent, any number of times and in any order.
  The allocations succeed, and fewer than \<open>2 ^ 31\<close> acknowledgements are pending.
\<close>

inductive echo_step :: "echo_system \<Rightarrow> echo_system \<Rightarrow> bool" where
  client: "delay_test2 e (es_client s) = Inr c \<Longrightarrow> client_allocs e \<Longrightarrow> acks_bounded (c_kcp (es_client s)) 62 \<Longrightarrow>
    (\<And>d a. ce_recvfrom e = Some (d, a) \<Longrightarrow> d \<in> snd ` set (o_sent (es_server s))) \<Longrightarrow> echo_step s (s\<lparr>es_client := c\<rparr>)"
| server_tick: "server_update tv sendto (es_server s) = Inr v \<Longrightarrow> acks_bounded (o_kcp (es_server s)) 62 \<Longrightarrow>
    echo_step s (s\<lparr>es_server := v\<rparr>)"
| server_poll: "server_receive e (es_server s) = Inr (go, v) \<Longrightarrow> allocs_ok e \<Longrightarrow> acks_bounded (o_kcp (es_server s)) 62 \<Longrightarrow>
    (\<And>d a. le_recvfrom e = Some (d, a) \<Longrightarrow> d \<in> set (c_out (es_client s))) \<Longrightarrow> echo_step s (s\<lparr>es_server := v\<rparr>)"

inductive_simps echo_step_iff: "echo_step s s'"

text \<open>Initially: the client where \<open>main\<close> calls \<open>delay_test2\<close>, the server where \<open>main\<close> calls \<open>loop\<close>.\<close>

definition echo_init :: "echo_system \<Rightarrow> bool" where
  "echo_init s \<longleftrightarrow>
     (\<exists>addr sock alloc mtu_alloc buf objs. main_client 3 addr sock alloc mtu_alloc buf (Some objs) = Inr (Inr (es_client s)) \<and>
        length buf = UDP_RECV_BUF_SIZE \<and> length objs = DELAY_TEST2_N \<and> list_all obj_ok objs) \<and>
     (\<exists>port sock bind alloc mtu_alloc k v. ikcp_create alloc 1 0 = Some k \<and>
        init_server sock bind (server_start port (server_kcp mtu_alloc k)) = Some v \<and> es_server s = v\<lparr>o_buf := replicate RECV_BUF 0\<rparr>)"

text \<open>The two directions of the conversation.\<close>

definition up :: "echo_system \<Rightarrow> network" where
  "up s = link (client_peer (es_client s)) (server_peer (es_server s))"

definition down :: "echo_system \<Rightarrow> network" where
  "down s = link (server_peer (es_server s)) (client_peer (es_client s))"

definition echo_inv :: "echo_system \<Rightarrow> bool" where
  "echo_inv s \<longleftrightarrow>
     client_ok (es_client s) \<and> pc_ok (es_client s) \<and> (\<exists>n. server_ok n (es_server s)) \<and> length (o_buf (es_server s)) = RECV_BUF \<and>
     net_inv (up s) \<and> net_inv (down s)"

text \<open>What the invariant says of the messages, by the delivery in either direction.\<close>

lemma net_inv_link: "net_inv (link p q) \<Longrightarrow> prefix (p_got q) (p_sent p)"
  by (simp add: net_inv_def link_def)

lemma echo_prefixes:
  assumes "echo_inv s"
  shows "prefix (o_served (es_server s)) (c_msgs (es_client s))" and "prefix (c_got (es_client s)) (o_served (es_server s))"
  using assms net_inv_link [of "client_peer (es_client s)" "server_peer (es_server s)"]
    net_inv_link [of "server_peer (es_server s)" "client_peer (es_client s)"]
  by (simp_all add: echo_inv_def up_def down_def client_peer_def server_peer_def)

lemma pc_ok_small: "pc_ok c \<Longrightarrow> small_msgs (client_peer c)"
proof -
  assume pc: "pc_ok c"
  then have "length (c_msgs c) \<le> DELAY_TEST2_N" by (cases "c_pc c") (auto simp: pc_ok_def)
  with pc show ?thesis by (simp add: pc_ok_def small_msgs_def client_peer_def obj_size_def DELAY_TEST2_N_def)
qed

lemma served_small: "pc_ok c \<Longrightarrow> prefix (o_served v) (c_msgs c) \<Longrightarrow> small_msgs (server_peer v)"
  using pc_ok_small [of c] by (auto simp: small_msgs_def client_peer_def server_peer_def prefix_def)

lemma echo_client:
  assumes inv: "echo_inv s" and env: "client_allocs e" "acks_bounded (c_kcp (es_client s)) 62"
    and net: "\<And>d a. ce_recvfrom e = Some (d, a) \<Longrightarrow> d \<in> snd ` set (o_sent (es_server s))"
  shows "\<exists>c. delay_test2 e (es_client s) = Inr c \<and> client_ok c \<and> pc_ok c \<and>
    net_step\<^sup>*\<^sup>* (up s) (up (s\<lparr>es_client := c\<rparr>)) \<and> net_step\<^sup>*\<^sup>* (down s) (down (s\<lparr>es_client := c\<rparr>))"
proof -
  let ?c = "es_client s" and ?v = "es_server s" and ?W = "snd ` set (o_sent (es_server s))"
  have W: "?W \<subseteq> p_out (server_peer ?v)" by (simp add: server_peer_def)
  have net': "d \<in> ?W \<and> length d \<le> UDP_RECV_BUF_SIZE" if arrived: "ce_recvfrom e = Some (d, a)" for d a
  proof -
    obtain b n where "(b, d) \<in> set (o_sent ?v)" "server_ok n ?v" using net [OF arrived] inv by (auto simp: echo_inv_def)
    then have "length d \<le> 1400" by (auto simp: server_ok_def)
    then show ?thesis using net [OF arrived] by (simp add: UDP_RECV_BUF_SIZE_def)
  qed
  have size: "\<forall>msg \<in> set (c_got c). length msg = obj_size" if run: "(peer_step ?W)\<^sup>*\<^sup>* (client_peer ?c) (client_peer c)" for c
  proof -
    have "net_inv (link (server_peer ?v) (client_peer c))"
      using net.steps_inv [OF peer_steps_b [OF run W]] inv by (simp add: echo_inv_def down_def)
    from net_inv_link [OF this] have "prefix (c_got c) (o_served ?v)" by (simp add: client_peer_def server_peer_def)
    then have "set (c_got c) \<subseteq> set (c_msgs ?c)" using echo_prefixes(1) [OF inv] by (meson set_mono_prefix subset_trans)
    then show ?thesis using inv by (auto simp: echo_inv_def pc_ok_def)
  qed
  have ok: "client_ok ?c" "pc_ok ?c" using inv by (simp_all add: echo_inv_def)
  have "\<exists>c. delay_test2 e ?c = Inr c \<and> (peer_step ?W)\<^sup>*\<^sup>* (client_peer ?c) (client_peer c) \<and> client_ok c \<and> pc_ok c"
    by (rule client_step_ok [OF ok env]) (fact net', fact size)
  then obtain c where c: "delay_test2 e ?c = Inr c"
    "(peer_step ?W)\<^sup>*\<^sup>* (client_peer ?c) (client_peer c)" "client_ok c" "pc_ok c" by blast
  moreover have "net_step\<^sup>*\<^sup>* (up s) (up (s\<lparr>es_client := c\<rparr>))"
    using peer_steps_a [OF c(2) pc_ok_small [OF c(4)]] by (simp add: up_def)
  moreover have "net_step\<^sup>*\<^sup>* (down s) (down (s\<lparr>es_client := c\<rparr>))"
    using peer_steps_b [OF c(2) W] by (simp add: down_def)
  ultimately show ?thesis by blast
qed

text \<open>For a step of the server the upward view comes first: it tells that what is sent back is small.\<close>

lemma echo_server:
  assumes inv: "echo_inv s" and run: "(peer_step W)\<^sup>*\<^sup>* (server_peer (es_server s)) (server_peer v)" and W: "W \<subseteq> set (c_out (es_client s))"
  shows "net_step\<^sup>*\<^sup>* (up s) (up (s\<lparr>es_server := v\<rparr>))" and "net_step\<^sup>*\<^sup>* (down s) (down (s\<lparr>es_server := v\<rparr>))"
proof -
  let ?c = "client_peer (es_client s)"
  have "W \<subseteq> p_out ?c" using W by (simp add: client_peer_def)
  from peer_steps_b [OF run this] show up_steps: "net_step\<^sup>*\<^sup>* (up s) (up (s\<lparr>es_server := v\<rparr>))" by (simp add: up_def)
  have "net_inv (link ?c (server_peer v))" using net.steps_inv [OF up_steps] inv by (simp add: echo_inv_def up_def)
  from net_inv_link [OF this] have "prefix (o_served v) (c_msgs (es_client s))" by (simp add: client_peer_def server_peer_def)
  then have "small_msgs (server_peer v)" using inv by (intro served_small) (simp_all add: echo_inv_def)
  from peer_steps_a [OF run this] show "net_step\<^sup>*\<^sup>* (down s) (down (s\<lparr>es_server := v\<rparr>))" by (simp add: down_def)
qed

lemma server_ok_acks: "server_ok n v \<Longrightarrow> server_ok (unat (k_ackcount (o_kcp v))) v"
  by (simp add: server_ok_def)

lemma out_small: "client_ok c \<Longrightarrow> d \<in> set (c_out c) \<Longrightarrow> length d \<le> RECV_BUF"
  by (fastforce simp: client_ok_def RECV_BUF_def)

lemma echo_step_views:
  assumes "echo_step s s'" and inv: "echo_inv s"
  shows "net_step\<^sup>*\<^sup>* (up s) (up s') \<and> net_step\<^sup>*\<^sup>* (down s) (down s') \<and> client_ok (es_client s') \<and> pc_ok (es_client s') \<and>
    (\<exists>n. server_ok n (es_server s')) \<and> length (o_buf (es_server s')) = RECV_BUF"
  using assms(1)
proof (cases rule: echo_step.cases)
  case (client e c)
  from echo_client [OF inv client(3,4)] client(2,5) inv show ?thesis by (fastforce simp: client(1) echo_inv_def)
next
  case (server_tick tv sendto v)
  obtain n where "server_ok n (es_server s)" using inv by (auto simp: echo_inv_def)
  then have ok: "server_ok (unat (k_ackcount (o_kcp (es_server s)))) (es_server s)" by (rule server_ok_acks)
  have few: "unat (k_ackcount (o_kcp (es_server s))) < 2 ^ 31" using server_tick(3) by simp
  note u = server_update_peer [OF ok few server_tick(2)]
  from echo_server [OF inv u(1) [of "{}"]] u(2,3) inv show ?thesis by (auto simp: server_tick(1) echo_inv_def)
next
  case (server_poll e go v)
  obtain n where "server_ok n (es_server s)" using inv by (auto simp: echo_inv_def)
  then have ok: "server_ok (unat (k_ackcount (o_kcp (es_server s)))) (es_server s)" by (rule server_ok_acks)
  have buf: "length (o_buf (es_server s)) = RECV_BUF" and cl: "client_ok (es_client s)" using inv by (simp_all add: echo_inv_def)
  from server_receive_peer [OF ok buf server_poll(3,4) _ server_poll(2), of "set (c_out (es_client s))"] out_small [OF cl] server_poll(5)
  have u: "(peer_step (set (c_out (es_client s))))\<^sup>*\<^sup>* (server_peer (es_server s)) (server_peer v)"
    "server_ok (unat (k_ackcount (o_kcp (es_server s))) + 62) v" "length (o_buf v) = RECV_BUF" by blast+
  from echo_server [OF inv u(1) order_refl] u(2,3) inv show ?thesis by (auto simp: server_poll(1) echo_inv_def)
qed

interpretation upward: simulation net_init net_step net_inv up echo_step echo_inv
  by unfold_locales (use echo_step_views in blast)

interpretation downward: simulation net_init net_step net_inv down echo_step echo_inv
  by unfold_locales (use echo_step_views in blast)

lemma link_init:
  assumes "endpoint_ok (p_kcp p)" "mute (p_kcp p)" "k_snd_nxt (p_kcp p) = 0" "endpoint_ok (p_kcp q)" "k_rcv_nxt (p_kcp q) = 0"
    "k_rcv_queue (p_kcp q) = []" "k_rcv_buf (p_kcp q) = []" "p_out p = {}" "p_sent p = []" "p_got q = []"
  shows "net_inv (link p q)"
proof -
  have "transfer_ok (link p q) []"
    using assms by (simp add: transfer_ok_def link_def snd_genuine_def rcv_genuine_def sent_fragments_def mute_def)
  then show ?thesis
    using assms endpoint_fields [OF assms(1)] endpoint_fields [OF assms(4)]
    by (auto simp: net_inv_def) (simp_all add: link_def sent_fragments_def)
qed

lemma echo_init_inv:
  assumes "echo_init s" shows "echo_inv s"
proof -
  obtain addr sock alloc mtu_alloc buf objs where c: "main_client 3 addr sock alloc mtu_alloc buf (Some objs) = Inr (Inr (es_client s))"
    "length buf = UDP_RECV_BUF_SIZE" "length objs = DELAY_TEST2_N" "list_all obj_ok objs"
    using assms by (auto simp: echo_init_def)
  obtain port sock' bind alloc' mtu_alloc' j v where v: "ikcp_create alloc' 1 0 = Some j"
    "init_server sock' bind (server_start port (server_kcp mtu_alloc' j)) = Some v" "es_server s = v\<lparr>o_buf := replicate RECV_BUF 0\<rparr>"
    using assms by (auto simp: echo_init_def)
  obtain k where k: "ikcp_create alloc 1 0 = Some k"
    "es_client s = \<lparr>c_pc = Starting, c_kcp = client_kcp mtu_alloc k, c_sockfd = sock, c_addr = addr, c_buf = buf,
       c_objs = objs, c_recv_objs = 0, c_out = [], c_msgs = [], c_got = []\<rparr>"
    using c(1) by (auto simp: main_client_def split: if_splits option.splits)
  have vs: "es_server s = (server_start port (server_kcp mtu_alloc' j))\<lparr>o_sockfd := sock', o_buf := replicate RECV_BUF 0\<rparr>"
    using v(2,3) by (auto simp: init_server_def split: if_splits)
  note cp = endpoint_created [OF k(1) disjI2 [OF refl], of mtu_alloc] and vp = endpoint_created [OF v(1) disjI1 [OF refl], of mtu_alloc']
  have "net_inv (up s)" unfolding up_def
    by (rule link_init) (use cp vp in \<open>simp_all add: client_peer_def server_peer_def k(2) vs server_start_def\<close>)
  moreover have "net_inv (down s)" unfolding down_def
    by (rule link_init) (use cp vp in \<open>simp_all add: client_peer_def server_peer_def k(2) vs server_start_def\<close>)
  moreover have "client_ok (es_client s)" "pc_ok (es_client s)" using cp(1) c(2-4) by (simp_all add: client_ok_def pc_ok_def k(2))
  moreover have "server_ok 0 (es_server s)" "length (o_buf (es_server s)) = RECV_BUF"
    using vp(1,2) by (simp_all add: server_ok_def vs server_start_def mute_def)
  ultimately show ?thesis by (auto simp: echo_inv_def)
qed

interpretation echo: invariant_system echo_init echo_step echo_inv
proof unfold_locales
  fix s s' assume inv: "echo_inv s" and step: "echo_step s s'"
  then have "net_inv (up s')" "net_inv (down s')"
    using upward.view_inv [OF inv _ step] downward.view_inv [OF inv _ step] by (simp_all add: echo_inv_def)
  with echo_step_views [OF step inv] show "echo_inv s'" by (simp add: echo_inv_def)
qed (fact echo_init_inv)

subsection \<open>The conversation\<close>

text \<open>
  C2. The echo. In every state the client and the server can reach together, over a network that may lose,
  duplicate, delay and reorder the datagrams of both directions: the messages the server has sent back are the
  first messages the client sent, the messages the client has got are the first it sent, whole,
  unchanged and in order; and when \<open>delay_test2\<close> returns it has sent its five objects and got all of them back.
\<close>

theorem kcp_echo_delivers:
  assumes "reachable echo_init echo_step s"
  shows "prefix (o_served (es_server s)) (c_msgs (es_client s)) \<and> prefix (c_got (es_client s)) (c_msgs (es_client s)) \<and>
    (\<forall>ls. c_pc (es_client s) = Returned ls \<longrightarrow>
       c_got (es_client s) = c_msgs (es_client s) \<and> length (c_msgs (es_client s)) = 5 \<and> length ls = 5)"
proof -
  have inv: "echo_inv s" using assms by (rule echo.reachable_inv)
  note pre = echo_prefixes [OF inv]
  then have got: "prefix (c_got (es_client s)) (c_msgs (es_client s))" by (blast intro: prefix_order.trans)
  have "c_got (es_client s) = c_msgs (es_client s) \<and> length (c_msgs (es_client s)) = 5 \<and> length ls = 5"
    if "c_pc (es_client s) = Returned ls" for ls
    using inv that got by (auto simp: echo_inv_def pc_ok_def DELAY_TEST2_N_def prefix_def)
  with pre(1) got show ?thesis by blast
qed

definition example_obj :: t_delay_obj where
  "example_obj = \<lparr>d_seqno = 0, d_pad = replicate 6 0, d_send_time = 0, d_recv_time = 0, d_body = replicate 1304 0\<rparr>"

definition example_client :: kcp_client where
  "example_client = \<lparr>c_pc = Starting, c_kcp = client_kcp (\<lambda>_. Some (\<lambda>_. 0)) example_kcp, c_sockfd = 3, c_addr = 0,
     c_buf = replicate UDP_RECV_BUF_SIZE 0, c_objs = replicate DELAY_TEST2_N example_obj, c_recv_objs = 0, c_out = [], c_msgs = [], c_got = []\<rparr>"

definition example_start :: echo_system where
  "example_start = \<lparr>es_client = example_client,
     es_server = (server_start 8000 (server_kcp (\<lambda>_. Some (\<lambda>_. 0)) example_kcp))\<lparr>o_sockfd := 4, o_buf := replicate RECV_BUF 0\<rparr>\<rparr>"

definition example_client_env :: client_env where
  "example_client_env = \<lparr>ce_time = (1, 0), ce_send_time = (1, 0), ce_recv_time = (1, 0), ce_sendto = (\<lambda>_. 0), ce_recvfrom = None,
     ce_ack_alloc = (\<lambda>_. Some (\<lambda>_. 0)), ce_seg_alloc = example_alloc, ce_send_alloc = example_alloc\<rparr>"

lemma example_created: "ikcp_create (\<lambda>_. Some (\<lambda>_. 0)) 1 0 = Some example_kcp"
  by (simp add: example_kcp_def ikcp_create_def)

lemma example_start_init: "echo_init example_start"
proof -
  note k = example_created
  have "main_client 3 0 3 (\<lambda>_. Some (\<lambda>_. 0)) (\<lambda>_. Some (\<lambda>_. 0)) (replicate UDP_RECV_BUF_SIZE 0) (Some (replicate DELAY_TEST2_N example_obj)) =
      Inr (Inr (es_client example_start))"
    by (simp add: main_client_def k example_start_def example_client_def)
  moreover have "list_all obj_ok (replicate DELAY_TEST2_N example_obj)" by (simp add: list_all_length obj_ok_def example_obj_def)
  moreover have "init_server 4 0 (server_start 8000 (server_kcp (\<lambda>_. Some (\<lambda>_. 0)) example_kcp)) =
      Some ((server_start 8000 (server_kcp (\<lambda>_. Some (\<lambda>_. 0)) example_kcp))\<lparr>o_sockfd := 4\<rparr>)" by (simp add: init_server_def)
  ultimately show ?thesis unfolding echo_init_def using k by (simp add: example_start_def) (metis length_replicate)
qed

lemma example_client_step:
  assumes "reachable echo_init echo_step s" and "unat (k_ackcount (c_kcp (es_client s))) + 62 < 2 ^ 31"
    and "delay_test2 example_client_env (es_client s) = Inr c"
  shows "reachable echo_init echo_step (s\<lparr>es_client := c\<rparr>)"
  by (rule reachable.extend [OF assms(1) echo_step.client [OF assms(3) _ assms(2)]])
    (simp_all add: example_client_env_def client_allocs_def example_alloc_def)

theorem kcp_echo_delivers_witness:
  "\<exists>s. reachable echo_init echo_step s \<and> length (c_msgs (es_client s)) = 1 \<and> prefix (o_served (es_server s)) (c_msgs (es_client s))"
proof -
  have r0: "reachable echo_init echo_step example_start" using example_start_init by (rule reachable.start)
  have ok0: "client_ok (example_client\<lparr>c_pc := Sending 0\<rparr>)"
    using echo_init_inv [OF example_start_init] by (simp add: echo_inv_def example_start_def client_ok_def)
  have acks: "k_ackcount (c_kcp example_client) = 0"
    using endpoint_created(2) [OF example_created disjI2 [OF refl], of "\<lambda>_. Some (\<lambda>_. 0)"]
    by (simp add: example_client_def mute_def)
  let ?e = example_client_env
  obtain c1 where c1: "client_update ?e (example_client\<lparr>c_pc := Sending 0\<rparr>) = Inr c1" "client_ok c1"
    "c_pc c1 = Sending 0" "c_msgs c1 = []" "unat (k_ackcount (c_kcp c1)) \<le> 0"
    by (rule client_update_peer [OF ok0, of ?e "{}"]) (simp_all add: acks, simp add: example_client_def)
  have r1: "reachable echo_init echo_step (example_start\<lparr>es_client := c1\<rparr>)"
    by (rule example_client_step [OF r0]) (use c1(1) acks in \<open>simp_all add: delay_test2_def example_start_def example_client_def\<close>)
  have al: "client_allocs ?e" by (simp add: example_client_env_def client_allocs_def example_alloc_def)
  obtain c2 msg where c2: "client_send ?e 0 c1 = Inr c2" "c_msgs c2 = c_msgs c1 @ [msg]"
    by (rule client_send_peer [OF c1(2) _ al, of 0 "{}"]) (use c1(5) in \<open>simp_all add: DELAY_TEST2_N_def\<close>)
  have r2: "reachable echo_init echo_step (example_start\<lparr>es_client := c1, es_client := c2\<rparr>)"
    by (rule example_client_step [OF r1]) (use c1(3,5) c2(1) in \<open>simp_all add: delay_test2_def DELAY_TEST2_N_def\<close>)
  show ?thesis
    by (intro exI conjI, rule r2) (use kcp_echo_delivers [OF r2] c1(4) c2(2) in simp_all)
qed

text \<open>
  The conversation never faults. In every state the client and the server can reach together, the next step of
  either program returns, whichever of the datagrams sent so far the network delivers, as long as the allocations succeed and
  fewer than \<open>2 ^ 31 - 62\<close> acknowledgements are pending: no assertion fails, no
  buffer and no array of objects is left, no address is used unassigned.
\<close>

theorem kcp_echo_never_faults:
  assumes "reachable echo_init echo_step s"
  shows "(\<forall>e. client_allocs e \<and> acks_bounded (c_kcp (es_client s)) 62 \<and>
            (\<forall>d a. ce_recvfrom e = Some (d, a) \<longrightarrow> d \<in> snd ` set (o_sent (es_server s))) \<longrightarrow>
          (\<exists>c. delay_test2 e (es_client s) = Inr c)) \<and>
    (\<forall>e. allocs_ok e \<and> acks_bounded (o_kcp (es_server s)) 62 \<longrightarrow> (\<exists>r. server_iteration e (es_server s) = Inr r))"
proof (intro conjI allI impI)
  have inv: "echo_inv s" using assms by (rule echo.reachable_inv)
  show "\<exists>c. delay_test2 e (es_client s) = Inr c"
    if "client_allocs e \<and> acks_bounded (c_kcp (es_client s)) 62 \<and>
      (\<forall>d a. ce_recvfrom e = Some (d, a) \<longrightarrow> d \<in> snd ` set (o_sent (es_server s)))" for e
    using echo_client [OF inv, of e] that by blast
  show "\<exists>r. server_iteration e (es_server s) = Inr r" if env: "allocs_ok e \<and> acks_bounded (o_kcp (es_server s)) 62" for e
  proof -
    let ?v = "es_server s" and ?n = "unat (k_ackcount (o_kcp (es_server s)))"
    obtain n where "server_ok n ?v" using inv by (auto simp: echo_inv_def)
    then have ok: "server_ok ?n ?v" by (rule server_ok_acks)
    obtain v where v: "server_update (le_time e) (le_sendto e) ?v = Inr v" "server_ok ?n v" "o_buf v = o_buf ?v"
      by (rule server_update_ok [OF ok, of "le_time e" "le_sendto e"]) (use env in auto)
    obtain go v' where "server_receive e v = Inr (go, v')"
      by (rule server_receive_ok [OF v(2), of e]) (use env v(3) inv in \<open>auto simp: echo_inv_def\<close>)
    with v(1) show ?thesis by (simp add: server_iteration_def)
  qed
qed

theorem kcp_echo_never_faults_witness:
  "\<exists>r. server_iteration example_env (es_server example_start) = Inr r"
proof -
  have r0: "reachable echo_init echo_step example_start" using example_start_init by (rule reachable.start)
  have "k_ackcount (o_kcp (es_server example_start)) = 0"
    using endpoint_created(2) [OF example_created disjI1 [OF refl], of "\<lambda>_. Some (\<lambda>_. 0)"]
    by (simp add: example_start_def server_start_def mute_def)
  moreover have "allocs_ok example_env" by (simp add: allocs_ok_def example_env_def example_alloc_def)
  ultimately show ?thesis using kcp_echo_never_faults [OF r0] by simp
qed

end
