(* ===== verification/LatencySim.thy ===== *)
theory LatencySim
  imports KcpServer "HOL-Library.Multiset" "HOL-Library.Sublist"
begin

text \<open>
  The simulated network of \<open>src/kcp_learn/test.h\<close>: \<open>Random\<close>, a generator that draws every number below
  its size once before it starts again, and \<open>LatencySimulator\<close>, two queues of delayed packets that
  loses a share of them. The clock and \<open>rand\<close>, whose results are not negative, are arguments.

  Shown is that the network keeps the order and duplicates nothing, and that it loses
  exactly the share it was given.
\<close>

subsection \<open>Random\<close>

text \<open>\<open>r_size\<close> numbers at the start of \<open>r_seeds\<close> have not been drawn in this round.\<close>

record random_gen =
  r_size :: nat
  r_seeds :: "int list"

definition random_new :: "nat \<Rightarrow> random_gen" where
  "random_new n = \<lparr>r_size = 0, r_seeds = replicate n 0\<rparr>"

definition random_fill :: "random_gen \<Rightarrow> random_gen" where
  "random_fill r =
     (if r_size r = 0 then \<lparr>r_size = length (r_seeds r), r_seeds = map int [0..<length (r_seeds r)]\<rparr> else r)"

definition random_next :: "nat \<Rightarrow> random_gen \<Rightarrow> (int \<times> random_gen) cresult" where
  "random_next rand r =
     (if r_seeds r = [] then Inr (0, r)
      else
        let r = random_fill r; i = rand mod r_size r in
        rbind (load (r_seeds r) i) (\<lambda>x.
        let n = r_size r - 1 in
        rbind (load (r_seeds r) n) (\<lambda>last.
        rbind (store (r_seeds r) i last) (\<lambda>seeds.
        Inr (x, \<lparr>r_size = n, r_seeds = seeds\<rparr>)))))"

subsection \<open>LatencySimulator\<close>

record delay_packet =
  pk_data :: bytes
  pk_ts :: u32

text \<open>One direction: \<open>tx1\<close>, \<open>p12\<close> and \<open>r12\<close> from peer 0 to peer 1, \<open>tx2\<close>, \<open>p21\<close> and \<open>r21\<close> back.\<close>

record tunnel =
  tn_tx :: int
  tn_queue :: "delay_packet list"
  tn_random :: random_gen

record latency_sim =
  ls_current :: u32
  ls_lostrate :: int
  ls_rttmin :: int
  ls_rttmax :: int
  ls_nmax :: int
  ls_t12 :: tunnel
  ls_t21 :: tunnel

definition new_tunnel :: tunnel where
  "new_tunnel = \<lparr>tn_tx = 0, tn_queue = [], tn_random = random_new 100\<rparr>"

definition sim_new :: "timeval \<Rightarrow> int \<Rightarrow> int \<Rightarrow> int \<Rightarrow> int \<Rightarrow> latency_sim" where
  "sim_new tv lostrate rttmin rttmax nmax =
     \<lparr>ls_current = iclock tv, ls_lostrate = c_div lostrate 2, ls_rttmin = c_div rttmin 2, ls_rttmax = c_div rttmax 2,
      ls_nmax = nmax, ls_t12 = new_tunnel, ls_t21 = new_tunnel\<rparr>"

definition sim_clear :: "latency_sim \<Rightarrow> latency_sim" where
  "sim_clear s = s\<lparr>ls_t12 := (ls_t12 s)\<lparr>tn_queue := []\<rparr>, ls_t21 := (ls_t21 s)\<lparr>tn_queue := []\<rparr>\<rparr>"

text \<open>The tunnel in which \<open>peer\<close> sends.\<close>

definition out_tunnel :: "int \<Rightarrow> latency_sim \<Rightarrow> tunnel" where
  "out_tunnel peer s = (if peer = 0 then ls_t12 s else ls_t21 s)"

definition put_tunnel :: "int \<Rightarrow> tunnel \<Rightarrow> latency_sim \<Rightarrow> latency_sim" where
  "put_tunnel peer t s = (if peer = 0 then s\<lparr>ls_t12 := t\<rparr> else s\<lparr>ls_t21 := t\<rparr>)"

text \<open>\<open>rand\<close> and \<open>rand'\<close> are what the first and the second call of \<open>rand\<close> return.\<close>

definition sim_send :: "nat \<Rightarrow> timeval \<Rightarrow> nat \<Rightarrow> latency_sim \<Rightarrow> int \<Rightarrow> bytes \<Rightarrow> latency_sim cresult" where
  "sim_send rand tv rand' s peer data =
     (let t = (out_tunnel peer s)\<lparr>tn_tx := wrap_i32 (tn_tx (out_tunnel peer s) + 1)\<rparr> in
      rbind (random_next rand (tn_random t)) (\<lambda>(x, r).
      let t = t\<lparr>tn_random := r\<rparr> in
      if x < ls_lostrate s then Inr (put_tunnel peer t s)
      else if int (length (tn_queue t)) \<ge> ls_nmax s then Inr (put_tunnel peer t s)
      else
        let current = iclock tv;
            delay = word_of_int (ls_rttmin s) +
              (if ls_rttmax s > ls_rttmin s then word_of_int (int rand' mod (ls_rttmax s - ls_rttmin s)) else 0);
            pkt = \<lparr>pk_data = data, pk_ts = current + delay\<rparr>
        in Inr (put_tunnel peer (t\<lparr>tn_queue := tn_queue t @ [pkt]\<rparr>) (s\<lparr>ls_current := current\<rparr>))))"

definition sim_recv :: "timeval \<Rightarrow> latency_sim \<Rightarrow> int \<Rightarrow> int \<Rightarrow> int \<times> bytes \<times> latency_sim" where
  "sim_recv tv s peer maxsize =
     (let other = (if peer = 0 then 1 else 0); t = out_tunnel other s in
      case tn_queue t of
        [] \<Rightarrow> (-1, [], s)
      | pkt # rest \<Rightarrow>
          let s = s\<lparr>ls_current := iclock tv\<rparr> in
          if ls_current s < pk_ts pkt then (-2, [], s)
          else if maxsize < int (length (pk_data pkt)) then (-3, [], s)
          else (int (length (pk_data pkt)), pk_data pkt, put_tunnel other (t\<lparr>tn_queue := rest\<rparr>) s))"

subsection \<open>What a generator draws\<close>

definition random_ok :: "nat \<Rightarrow> random_gen \<Rightarrow> bool" where
  "random_ok n r \<longleftrightarrow> length (r_seeds r) = n \<and> r_size r < n"

definition all_numbers :: "nat \<Rightarrow> int multiset" where
  "all_numbers n = mset (map int [0..<n])"

text \<open>What has been drawn and what is left of this round are whole rounds.\<close>

definition drawn :: "nat \<Rightarrow> int multiset \<Rightarrow> random_gen \<Rightarrow> bool" where
  "drawn n D r \<longleftrightarrow> (\<exists>k. D + mset (take (r_size r) (r_seeds r)) = repeat_mset k (all_numbers n))"

lemma size_all_numbers [simp]: "size (all_numbers n) = n"
  by (simp add: all_numbers_def)

lemma random_new_ok: "0 < n \<Longrightarrow> random_ok n (random_new n) \<and> drawn n {#} (random_new n)"
  by (auto simp: random_ok_def drawn_def random_new_def intro: exI [of _ 0])

lemma mset_take_update:
  assumes "i < Suc m" and "Suc m \<le> length xs"
  shows "mset (take (Suc m) xs) = add_mset (xs ! i) (mset (take m (xs[i := xs ! m])))"
proof (cases "i = m")
  case True
  then show ?thesis using assms by (simp add: take_Suc_conv_app_nth)
next
  case False
  then have i: "i < length (take m xs)" using assms by simp
  then have "mset (take m (xs[i := xs ! m])) = add_mset (xs ! m) (mset (take m xs) - {#xs ! i#})"
    unfolding take_update_swap using mset_update [OF i, of "xs ! m"] by simp
  moreover have "xs ! i \<in># mset (take m xs)" using i nth_mem [OF i] by simp
  ultimately show ?thesis using assms by (simp add: take_Suc_conv_app_nth)
qed

lemma random_fill_ok:
  assumes "random_ok n r" and "drawn n D r"
  shows "length (r_seeds (random_fill r)) = n" "0 < r_size (random_fill r)" "r_size (random_fill r) \<le> n" "drawn n D (random_fill r)"
proof -
  show "length (r_seeds (random_fill r)) = n" "0 < r_size (random_fill r)" "r_size (random_fill r) \<le> n"
    using assms(1) by (auto simp: random_ok_def random_fill_def)
  obtain k where k: "D + mset (take (r_size r) (r_seeds r)) = repeat_mset k (all_numbers n)"
    using assms(2) by (auto simp: drawn_def)
  show "drawn n D (random_fill r)"
  proof (cases "r_size r = 0")
    case True
    then have "D + all_numbers n = repeat_mset (Suc k) (all_numbers n)" using k by simp
    then show ?thesis using True assms(1) unfolding drawn_def
      by (intro exI [of _ "Suc k"]) (simp add: random_fill_def random_ok_def all_numbers_def)
  qed (use assms(2) in \<open>simp add: random_fill_def\<close>)
qed

lemma random_next_ok:
  assumes ok: "random_ok n r" and D: "drawn n D r"
  obtains x r' where "random_next rand r = Inr (x, r')" "random_ok n r'" "drawn n (add_mset x D) r'"
proof -
  define f where "f = random_fill r"
  note fill = random_fill_ok [OF ok D, folded f_def]
  define i m where "i = rand mod r_size f" and "m = r_size f - 1"
  have m: "r_size f = Suc m" "Suc m \<le> length (r_seeds f)" "i < Suc m"
    using fill mod_less_divisor [OF fill(2), of rand] by (simp_all add: m_def i_def)
  let ?r = "\<lparr>r_size = m, r_seeds = (r_seeds f)[i := r_seeds f ! m]\<rparr>"
  have ne: "r_seeds r \<noteq> []" using ok by (auto simp: random_ok_def)
  have run: "random_next rand r = Inr (r_seeds f ! i, ?r)"
  proof -
    have "rand mod Suc m < length (r_seeds f)" using m(2) mod_less_divisor [of "Suc m" rand] by linarith
    then show ?thesis using ne m i_def by (simp add: random_next_def Let_def f_def [symmetric])
  qed
  have "random_ok n ?r" using fill m by (simp add: random_ok_def)
  moreover have "drawn n (add_mset (r_seeds f ! i) D) ?r"
    using fill(4) mset_take_update [OF m(3,2)] by (simp add: drawn_def m(1))
  ultimately show thesis using run by (intro that)
qed

text \<open>After whole rounds every number has been drawn equally often.\<close>

lemma drawn_rounds:
  assumes "random_ok n r" and "drawn n D r" and "size D = k * n"
  shows "D = repeat_mset k (all_numbers n)"
proof -
  obtain j where j: "D + mset (take (r_size r) (r_seeds r)) = repeat_mset j (all_numbers n)"
    using assms(2) by (auto simp: drawn_def)
  from arg_cong [OF this, of size] have size: "k * n + r_size r = j * n"
    using assms(1,3) by (simp add: random_ok_def)
  have "(k * n + r_size r) mod n = 0" unfolding size by simp
  then have zero: "r_size r = 0" using assms(1) by (simp add: random_ok_def)
  then have "k = j" using size assms(1) by (simp add: random_ok_def)
  then show ?thesis using j zero by simp
qed

lemma count_below: "0 \<le> L \<Longrightarrow> L \<le> int n \<Longrightarrow> size (filter_mset (\<lambda>x. x < L) (all_numbers n)) = nat L"
proof (induction n)
  case (Suc n)
  show ?case
  proof (cases "L \<le> int n")
    case True
    then show ?thesis using Suc by (simp add: all_numbers_def)
  next
    case False
    then have "filter_mset (\<lambda>x. x < L) (all_numbers (Suc n)) = all_numbers (Suc n)"
      by (auto simp: filter_mset_eq_conv all_numbers_def)
    then show ?thesis using False Suc.prems by simp
  qed
qed (simp add: all_numbers_def)

lemma count_rounds:
  "0 \<le> L \<Longrightarrow> L \<le> int n \<Longrightarrow> size (filter_mset (\<lambda>x. x < L) (repeat_mset k (all_numbers n))) = k * nat L"
  by (induction k) (simp_all add: count_below)

subsection \<open>Sequences of calls\<close>

text \<open>
  A run of the simulator: the calls, with what the clock and \<open>rand\<close> return in them, and the events: a
  packet was handed to \<open>send\<close>, or returned by \<open>recv\<close>.
\<close>

datatype sim_call = Send nat timeval nat int bytes | Recv timeval int int

datatype sim_event = Sent int bytes | Got int bytes

fun sim_run :: "sim_call list \<Rightarrow> latency_sim \<Rightarrow> (sim_event list \<times> latency_sim) cresult" where
  "sim_run [] s = Inr ([], s)"
| "sim_run (Send rand tv rand' peer data # cs) s =
     rbind (sim_send rand tv rand' s peer data) (\<lambda>s.
     rbind (sim_run cs s) (\<lambda>(evs, s). Inr (Sent peer data # evs, s)))"
| "sim_run (Recv tv peer maxsize # cs) s =
     (case sim_recv tv s peer maxsize of (n, data, s) \<Rightarrow>
        rbind (sim_run cs s) (\<lambda>(evs, s). Inr (if n < 0 then evs else Got peer data # evs, s)))"

text \<open>What peer \<open>p\<close> (0 or 1) has sent, and what has arrived from it.\<close>

fun sent_by :: "int \<Rightarrow> sim_event list \<Rightarrow> bytes list" where
  "sent_by p [] = []"
| "sent_by p (Sent q data # evs) = (if (q = 0) = (p = 0) then data # sent_by p evs else sent_by p evs)"
| "sent_by p (Got q data # evs) = sent_by p evs"

fun got_from :: "int \<Rightarrow> sim_event list \<Rightarrow> bytes list" where
  "got_from p [] = []"
| "got_from p (Got q data # evs) = (if (q = 0) = (p \<noteq> 0) then data # got_from p evs else got_from p evs)"
| "got_from p (Sent q data # evs) = got_from p evs"

text \<open>
  The invariant of a direction, after \<open>sent\<close> and \<open>got\<close>: what arrived and what is queued is a
  subsequence of what was sent, the queue is within its limit, and, as long as the queue cannot have been full, what is
  missing are the packets for which a number below the rate was drawn.
\<close>

definition lane_ok :: "int \<Rightarrow> int \<Rightarrow> bytes list \<Rightarrow> bytes list \<Rightarrow> tunnel \<Rightarrow> bool" where
  "lane_ok L nmax sent got t \<longleftrightarrow>
     random_ok 100 (tn_random t) \<and> subseq (got @ map pk_data (tn_queue t)) sent \<and> int (length (tn_queue t)) \<le> max nmax 0 \<and>
     (\<exists>D. drawn 100 D (tn_random t) \<and> size D = length sent \<and>
        (int (length sent) \<le> nmax \<longrightarrow>
           length got + length (tn_queue t) + size (filter_mset (\<lambda>x. x < L) D) = length sent))"

definition sim_ok :: "int \<Rightarrow> int \<Rightarrow> (int \<Rightarrow> bytes list) \<Rightarrow> (int \<Rightarrow> bytes list) \<Rightarrow> latency_sim \<Rightarrow> bool" where
  "sim_ok L nmax sent got s \<longleftrightarrow>
     ls_lostrate s = L \<and> ls_nmax s = nmax \<and> (\<forall>p. lane_ok L nmax (sent p) (got p) (out_tunnel p s))"

text \<open>A packet that is lost, or finds the queue full, and one that is queued.\<close>

lemma lane_send:
  assumes ok: "lane_ok L nmax sent got t"
  obtains x r where "random_next rand (tn_random t) = Inr (x, r)"
    "x < L \<or> nmax \<le> int (length (tn_queue t)) \<Longrightarrow> lane_ok L nmax (sent @ [data]) got (t\<lparr>tn_tx := n, tn_random := r\<rparr>)"
    "\<not> (x < L \<or> nmax \<le> int (length (tn_queue t))) \<Longrightarrow> lane_ok L nmax (sent @ [data]) got
       (t\<lparr>tn_tx := n, tn_random := r, tn_queue := tn_queue t @ [\<lparr>pk_data = data, pk_ts = ts\<rparr>]\<rparr>)"
proof -
  obtain D where D: "drawn 100 D (tn_random t)" "size D = length sent"
    "int (length sent) \<le> nmax \<longrightarrow> length got + length (tn_queue t) + size (filter_mset (\<lambda>x. x < L) D) = length sent"
    and r: "random_ok 100 (tn_random t)" and sub: "subseq (got @ map pk_data (tn_queue t)) sent" and q: "int (length (tn_queue t)) \<le> max nmax 0"
    using ok by (auto simp: lane_ok_def)
  obtain x r' where x: "random_next rand (tn_random t) = Inr (x, r')" "random_ok 100 r'" "drawn 100 (add_mset x D) r'"
    by (rule random_next_ok [OF r D(1)])
  have "subseq (got @ map pk_data (tn_queue t)) (sent @ [data])"
    using sub by (rule list_emb_prefix)
  moreover have "subseq ((got @ map pk_data (tn_queue t)) @ [data]) (sent @ [data])"
    using sub by (intro list_emb_append_mono) simp_all
  ultimately show thesis
    using x D q by (intro that [OF x(1)]) (auto simp: lane_ok_def intro!: exI [of _ "add_mset x D"])
qed


lemma lane_recv:
  assumes "lane_ok L nmax sent got t" and "tn_queue t = pkt # rest"
  shows "lane_ok L nmax sent (got @ [pk_data pkt]) (t\<lparr>tn_queue := rest\<rparr>)"
  using assms by (auto simp: lane_ok_def)

lemma out_put_tunnel [simp]: "out_tunnel p (put_tunnel q t s) = (if (p = 0) = (q = 0) then t else out_tunnel p s)"
  "ls_lostrate (put_tunnel q t s) = ls_lostrate s" "ls_nmax (put_tunnel q t s) = ls_nmax s"
  "out_tunnel p (s\<lparr>ls_current := c\<rparr>) = out_tunnel p s"
  by (simp_all add: out_tunnel_def put_tunnel_def)

lemma sim_send_ok:
  assumes ok: "sim_ok L nmax sent got s"
  shows "\<exists>s'. sim_send rand tv rand' s peer data = Inr s' \<and>
    sim_ok L nmax (\<lambda>p. sent p @ (if (p = 0) = (peer = 0) then [data] else [])) got s'"
proof -
  let ?t = "out_tunnel peer s"
  have lanes: "lane_ok L nmax (sent p) (got p) (out_tunnel p s)" for p using ok by (simp add: sim_ok_def)
  have same: "out_tunnel p s = ?t" if "(p = 0) = (peer = 0)" for p using that by (simp add: out_tunnel_def)
  define ts where "ts = iclock tv + (word_of_int (ls_rttmin s) +
    (if ls_rttmax s > ls_rttmin s then word_of_int (int rand' mod (ls_rttmax s - ls_rttmin s)) else 0) :: u32)"
  obtain x r where x: "random_next rand (tn_random ?t) = Inr (x, r)" using lane_send [OF lanes [of peer], of rand] by blast
  note cases = lane_send [OF lanes, where rand = rand and data = data and n = "wrap_i32 (tn_tx ?t + 1)" and ts = ts]
  let ?t1 = "?t\<lparr>tn_tx := wrap_i32 (tn_tx ?t + 1), tn_random := r\<rparr>"
  define s' where "s' = (if x < L \<or> nmax \<le> int (length (tn_queue ?t)) then put_tunnel peer ?t1 s
    else put_tunnel peer (?t1\<lparr>tn_queue := tn_queue ?t @ [\<lparr>pk_data = data, pk_ts = ts\<rparr>]\<rparr>) (s\<lparr>ls_current := iclock tv\<rparr>))"
  have "sim_send rand tv rand' s peer data = Inr s'"
    using ok x by (simp add: sim_send_def Let_def s'_def sim_ok_def ts_def)
  moreover have "lane_ok L nmax (sent p @ [data]) (got p) (out_tunnel p s')" if "(p = 0) = (peer = 0)" for p
    using cases [of p] x that unfolding same [OF that] by (auto simp: s'_def)
  ultimately show ?thesis using ok lanes by (auto simp: sim_ok_def s'_def)
qed

lemma sim_recv_ok:
  assumes ok: "sim_ok L nmax sent got s" and run: "sim_recv tv s peer maxsize = (n, data, s')"
  shows "sim_ok L nmax sent (\<lambda>p. got p @ (if \<not> n < 0 \<and> (peer = 0) = (p \<noteq> 0) then [data] else [])) s'"
proof (cases "n < 0")
  case True
  then have "s' = s \<or> s' = s\<lparr>ls_current := iclock tv\<rparr>" using run by (auto simp: sim_recv_def Let_def split: list.splits if_splits)
  then show ?thesis using ok True by (auto simp: sim_ok_def)
next
  case False
  let ?o = "if peer = 0 then 1 else 0 :: int"
  obtain pkt rest where q: "tn_queue (out_tunnel ?o s) = pkt # rest"
    "data = pk_data pkt" "s' = put_tunnel ?o ((out_tunnel ?o s)\<lparr>tn_queue := rest\<rparr>) (s\<lparr>ls_current := iclock tv\<rparr>)"
    using run False by (auto simp: sim_recv_def Let_def split: list.splits if_splits)
  have lanes: "lane_ok L nmax (sent p) (got p) (out_tunnel p s)" for p using ok by (simp add: sim_ok_def)
  have "lane_ok L nmax (sent p) (got p @ [data]) ((out_tunnel ?o s)\<lparr>tn_queue := rest\<rparr>)" if "(peer = 0) = (p \<noteq> 0)" for p
  proof -
    have "out_tunnel p s = out_tunnel ?o s" using that by (auto simp: out_tunnel_def)
    with lane_recv [OF lanes [of p]] q show ?thesis by simp
  qed
  then show ?thesis using ok lanes False by (auto simp: sim_ok_def q(3))
qed

lemma sim_run_ok:
  "sim_ok L nmax sent got s \<Longrightarrow> \<exists>evs s'. sim_run cs s = Inr (evs, s') \<and>
     sim_ok L nmax (\<lambda>p. sent p @ sent_by p evs) (\<lambda>p. got p @ got_from p evs) s'"
proof (induction cs s arbitrary: sent got rule: sim_run.induct)
  case (1 s)
  then show ?case by simp
next
  case (2 rand tv rand' peer data cs s)
  obtain s1 where s1: "sim_send rand tv rand' s peer data = Inr s1"
    "sim_ok L nmax (\<lambda>p. sent p @ (if (p = 0) = (peer = 0) then [data] else [])) got s1"
    using sim_send_ok [OF 2(2)] by blast
  obtain evs s' where run: "sim_run cs s1 = Inr (evs, s')"
    "sim_ok L nmax (\<lambda>p. (sent p @ (if (p = 0) = (peer = 0) then [data] else [])) @ sent_by p evs) (\<lambda>p. got p @ got_from p evs) s'"
    using 2(1) [OF s1] by blast
  have "(\<lambda>p. (sent p @ (if (p = 0) = (peer = 0) then [data] else [])) @ sent_by p evs) =
      (\<lambda>p. sent p @ sent_by p (Sent peer data # evs))" by (auto simp: fun_eq_iff)
  with s1(1) run show ?case by (intro exI [of _ "Sent peer data # evs"] exI [of _ s']) simp
next
  case (3 tv peer maxsize cs s)
  obtain n data s1 where s1: "sim_recv tv s peer maxsize = (n, data, s1)" by (cases "sim_recv tv s peer maxsize")
  obtain evs s' where run: "sim_run cs s1 = Inr (evs, s')"
    "sim_ok L nmax (\<lambda>p. sent p @ sent_by p evs)
       (\<lambda>p. (got p @ (if \<not> n < 0 \<and> (peer = 0) = (p \<noteq> 0) then [data] else [])) @ got_from p evs) s'"
    using 3(1) [OF s1 [symmetric] refl sim_recv_ok [OF 3(2) s1]] by blast
  let ?evs = "if n < 0 then evs else Got peer data # evs"
  have "(\<lambda>p. (got p @ (if \<not> n < 0 \<and> (peer = 0) = (p \<noteq> 0) then [data] else [])) @ got_from p evs) = (\<lambda>p. got p @ got_from p ?evs)"
    "(\<lambda>p. sent p @ sent_by p evs) = (\<lambda>p. sent p @ sent_by p ?evs)" by (auto simp: fun_eq_iff)
  with s1 run show ?case by (intro exI [of _ ?evs] exI [of _ s']) simp
qed

subsection \<open>The network loses what it was told to lose\<close>

lemma sim_new_ok:
  assumes "0 \<le> lostrate"
  shows "sim_ok (lostrate div 2) nmax (\<lambda>_. []) (\<lambda>_. []) (sim_new tv lostrate rttmin rttmax nmax)"
proof -
  have "lane_ok (lostrate div 2) nmax [] [] new_tunnel"
    using random_new_ok [of 100] by (auto simp: lane_ok_def new_tunnel_def intro!: exI [of _ "{#}"])
  then show ?thesis using assms by (simp add: sim_ok_def sim_new_def out_tunnel_def)
qed

text \<open>
  C32. The simulated network. Whatever calls of \<open>send\<close> and \<open>recv\<close> are made, in any order, and whatever \<open>rand\<close> and the
  clock return, no call leaves an array, and in either direction the packets that arrived,
  followed by those still queued, are a subsequence of those sent: nothing is duplicated,
  reordered or made up. After a multiple of 100 packets, as long as these fit into the queue, exactly the share of
  \<open>lostrate / 2\<close> per cent of them is lost.
\<close>

theorem simulator_loss_exact:
  assumes "0 \<le> lostrate" and "lostrate \<le> 200"
  shows "\<exists>evs s. sim_run calls (sim_new tv lostrate rttmin rttmax nmax) = Inr (evs, s) \<and>
    (\<forall>p. subseq (got_from p evs @ map pk_data (tn_queue (out_tunnel p s))) (sent_by p evs) \<and>
       (\<forall>k. length (sent_by p evs) = 100 * k \<and> 100 * int k \<le> nmax \<longrightarrow>
          length (got_from p evs) + length (tn_queue (out_tunnel p s)) = k * (100 - nat (lostrate div 2))))"
proof -
  let ?L = "lostrate div 2"
  have L: "0 \<le> ?L" "?L \<le> int 100" using assms by simp_all
  from sim_run_ok [OF sim_new_ok [OF assms(1), of nmax tv rttmin rttmax], of calls] obtain evs s where
    run: "sim_run calls (sim_new tv lostrate rttmin rttmax nmax) = Inr (evs, s)"
    and lanes: "\<And>p. lane_ok ?L nmax (sent_by p evs) (got_from p evs) (out_tunnel p s)" by (auto simp: sim_ok_def)
  have "length (got_from p evs) + length (tn_queue (out_tunnel p s)) = k * (100 - nat ?L)"
    if k: "length (sent_by p evs) = 100 * k \<and> 100 * int k \<le> nmax" for p k
  proof -
    obtain D where D: "random_ok 100 (tn_random (out_tunnel p s))" "drawn 100 D (tn_random (out_tunnel p s))" "size D = k * 100"
      "length (got_from p evs) + length (tn_queue (out_tunnel p s)) + size (filter_mset (\<lambda>x. x < ?L) D) = 100 * k"
      using lanes [of p] k by (auto simp: lane_ok_def)
    have "size (filter_mset (\<lambda>x. x < ?L) D) = k * nat ?L"
      unfolding drawn_rounds [OF D(1-3)] using L by (rule count_rounds)
    with D(4) L(2) show ?thesis by (simp add: diff_mult_distrib2)
  qed
  with run lanes show ?thesis by (auto simp: lane_ok_def)
qed

theorem simulator_loss_exact_witness:
  "\<exists>evs s. sim_run [Send 7 (1, 0) 3 0 [1, 2]] (sim_new (0, 0) 10 60 125 1000) = Inr (evs, s) \<and>
    subseq (map pk_data (tn_queue (out_tunnel 0 s))) [[1, 2]]"
proof -
  obtain evs s where run: "sim_run [Send 7 (1, 0) 3 0 [1, 2]] (sim_new (0, 0) 10 60 125 1000) = Inr (evs, s)"
    and sub: "subseq (got_from 0 evs @ map pk_data (tn_queue (out_tunnel 0 s))) (sent_by 0 evs)"
    using simulator_loss_exact [of 10 "[Send 7 (1, 0) 3 0 [1, 2]]" "(0, 0)" 60 125 1000] by auto
  have "evs = [Sent 0 [1, 2]]" using run by (auto simp: rbind_Inr_iff)
  with run sub show ?thesis by auto
qed

text \<open>A packet that is queued is due between \<open>rttmin\<close> and \<open>rttmax\<close> milliseconds later, and is not handed over before.\<close>

lemma queued_delay:
  assumes rtt: "0 \<le> ls_rttmin s" "ls_rttmin s < ls_rttmax s" "ls_rttmax s < 2 ^ 31"
    and run: "sim_send rand tv rand' s peer data = Inr s'"
    and pkt: "tn_queue (out_tunnel peer s') = tn_queue (out_tunnel peer s) @ [pkt]"
  shows "pk_data pkt = data \<and> ls_rttmin s \<le> uint (pk_ts pkt - iclock tv) \<and> uint (pk_ts pkt - iclock tv) < ls_rttmax s"
proof -
  let ?d = "ls_rttmin s + int rand' mod (ls_rttmax s - ls_rttmin s)"
  have pos: "0 < ls_rttmax s - ls_rttmin s" using rtt by simp
  have d: "ls_rttmin s \<le> ?d" "?d < ls_rttmax s"
    using pos_mod_bound [OF pos, of "int rand'"] pos_mod_sign [OF pos, of "int rand'"] by linarith+
  have "uint (word_of_int z :: u32) = z" if "0 \<le> z" "z < 2 ^ 31" for z
    using that by (simp add: unsigned_of_int take_bit_int_eq_self)
  from this [of ?d] d rtt have "uint (word_of_int ?d :: u32) = ?d" by linarith
  moreover have "pk_data pkt = data" "pk_ts pkt = iclock tv + word_of_int ?d"
    using run pkt rtt by (auto simp: sim_send_def Let_def rbind_Inr_iff split: if_splits)
  ultimately show ?thesis using d by simp
qed

lemma not_before_due: "sim_recv tv s peer maxsize = (n, data, s') \<Longrightarrow> 0 \<le> n \<Longrightarrow>
    \<exists>pkt rest. tn_queue (out_tunnel (if peer = 0 then 1 else 0) s) = pkt # rest \<and> data = pk_data pkt \<and> pk_ts pkt \<le> iclock tv"
  by (auto simp: sim_recv_def Let_def not_less split: list.splits if_splits)

end
