(* ===== verification/KcpTest.thy ===== *)
theory KcpTest
  imports KcpEcho LatencySim
begin

text \<open>
  The test program \<open>src/kcp_learn/test.cpp\<close>: two control blocks in one process over the simulated
  network of \<open>test.h\<close>. The first sends a numbered message every 20 ms, the second sends back
  what it receives, and the test fails when a number comes back out of order.

  The clock, \<open>rand\<close> and the allocators are streams of results, and the state counts how much of them has been
  used. The loops are \<open>while (1)\<close> loops that may not end, so not returning is the
  value \<open>None\<close>. Shown is that the test never fails, and that every round of it ends.
\<close>

subsection \<open>Endless loops\<close>

text \<open>\<open>while (1)\<close> around a body that says whether to go on or to break.\<close>

partial_function (option) while_true :: "('a \<Rightarrow> (bool \<times> 'a) cresult) \<Rightarrow> 'a \<Rightarrow> 'a cresult option" where
  "while_true body s =
     (case body s of
        Inl err \<Rightarrow> Some (Inl err)
      | Inr (go, s) \<Rightarrow> if go then while_true body s else Some (Inr s))"

declare while_true.simps [code]

lemma while_true_ends:
  fixes m :: "'a \<Rightarrow> nat"
  assumes "P s" and body: "\<And>s. P s \<Longrightarrow> \<exists>go s'. body s = Inr (go, s') \<and> (if go then P s' \<and> m s' < m s else Q s')"
  shows "\<exists>s'. while_true body s = Some (Inr s') \<and> Q s'"
  using assms(1)
proof (induction "m s" arbitrary: s rule: less_induct)
  case less
  obtain go s' where s': "body s = Inr (go, s')" "if go then P s' \<and> m s' < m s else Q s'" using body [OF less(2)] by blast
  show ?case
  proof (cases go)
    case True
    with less(1) [of s'] s' show ?thesis by (subst while_true.simps) auto
  next
    case False
    with s' show ?thesis by (subst while_true.simps) simp
  qed
qed

subsection \<open>State\<close>

text \<open>
  The variables of \<open>test\<close>. \<open>v_a\<close> and \<open>v_b\<close> are \<open>kcp1\<close> and \<open>kcp2\<close> with their histories: the datagrams given to the
  network, the messages sent and received. \<open>v_tick\<close> counts the results taken from the environment.
\<close>

record vtest =
  v_net :: latency_sim
  v_a :: peer
  v_b :: peer
  v_slap :: u32
  v_index :: u32
  v_next :: u32
  v_sumrtt :: int
  v_count :: int
  v_maxrtt :: int
  v_buffer :: bytes
  v_tick :: nat

record test_env =
  te_clock :: "nat \<Rightarrow> timeval"
  te_rand :: "nat \<Rightarrow> nat"
  te_acks :: "nat \<Rightarrow> u32 allocator"
  te_segs :: "nat \<Rightarrow> seg_allocator"

text \<open>The endpoint with the identifier 0 or 1, which \<open>user\<close> of its control block holds.\<close>

definition side :: "int \<Rightarrow> vtest \<Rightarrow> peer" where
  "side peer v = (if peer = 0 then v_a v else v_b v)"

definition set_side :: "int \<Rightarrow> peer \<Rightarrow> vtest \<Rightarrow> vtest" where
  "set_side peer p v = (if peer = 0 then v\<lparr>v_a := p\<rparr> else v\<lparr>v_b := p\<rparr>)"

subsection \<open>The body of the test\<close>

definition udp_output_test :: "test_env \<Rightarrow> int \<Rightarrow> bytes \<Rightarrow> vtest \<Rightarrow> vtest cresult" where
  "udp_output_test e peer buf v =
     rbind (sim_send (te_rand e (v_tick v)) (te_clock e (v_tick v)) (te_rand e (Suc (v_tick v))) (v_net v) peer buf) (\<lambda>net.
     Inr (set_side peer ((side peer v)\<lparr>p_out := insert buf (p_out (side peer v))\<rparr>)
            (v\<lparr>v_net := net, v_tick := v_tick v + 2\<rparr>)))"

fun test_outputs :: "test_env \<Rightarrow> int \<Rightarrow> bytes list \<Rightarrow> vtest \<Rightarrow> vtest cresult" where
  "test_outputs e peer [] v = Inr v"
| "test_outputs e peer (d # ds) v = rbind (udp_output_test e peer d v) (test_outputs e peer ds)"

definition test_update :: "test_env \<Rightarrow> int \<Rightarrow> vtest \<Rightarrow> vtest cresult" where
  "test_update e peer v =
     rbind (ikcp_update (p_kcp (side peer v)) (iclock (te_clock e (v_tick v)))) (\<lambda>(out, k).
     test_outputs e peer out (set_side peer ((side peer v)\<lparr>p_kcp := k\<rparr>) (v\<lparr>v_tick := Suc (v_tick v)\<rparr>)))"

text \<open>\<open>for (; current >= slap; slap += 20)\<close>.\<close>

definition test_send :: "test_env \<Rightarrow> u32 \<Rightarrow> vtest \<Rightarrow> (bool \<times> vtest) cresult" where
  "test_send e current v =
     (if current \<ge> v_slap v then
        let b = memcpy_at (memcpy_at (v_buffer v) 0 (object_bytes 4 (v_index v))) 4 (object_bytes 4 current) in
        rbind (ikcp_send (te_segs e (v_tick v)) (p_kcp (v_a v)) (Some b) 8) (\<lambda>(ret, k).
        Inr (True, v\<lparr>v_a := (v_a v)\<lparr>p_kcp := k, p_sent := p_sent (v_a v) @ (if ret = 0 then [take 8 b] else [])\<rparr>,
                     v_index := v_index v + 1, v_slap := v_slap v + 20, v_buffer := b, v_tick := Suc (v_tick v)\<rparr>))
      else Inr (False, v))"

text \<open>One datagram from the network into the endpoint \<open>peer\<close>.\<close>

definition test_input :: "test_env \<Rightarrow> int \<Rightarrow> vtest \<Rightarrow> (bool \<times> vtest) cresult" where
  "test_input e peer v =
     (case sim_recv (te_clock e (v_tick v)) (v_net v) peer 2000 of (hr, data, net) \<Rightarrow>
        let v = v\<lparr>v_net := net, v_buffer := memcpy_at (v_buffer v) 0 data, v_tick := Suc (v_tick v)\<rparr> in
        if hr < 0 then Inr (False, v)
        else
          rbind (ikcp_input (te_acks e (v_tick v)) (te_segs e (v_tick v)) (p_kcp (side peer v)) (Some (v_buffer v)) hr) (\<lambda>(_, k).
          Inr (True, set_side peer ((side peer v)\<lparr>p_kcp := k\<rparr>) v)))"

text \<open>\<open>ikcp_recv(kcp, buffer, 10)\<close>; \<open>None\<close> when it returns a negative number.\<close>

definition test_recv :: "int \<Rightarrow> vtest \<Rightarrow> (int option \<times> vtest) cresult" where
  "test_recv peer v =
     rbind (ikcp_recv (p_kcp (side peer v)) (Some 2000) 10) (\<lambda>(hr, out, k).
     let v = set_side peer ((side peer v)\<lparr>p_kcp := k\<rparr>) (v\<lparr>v_buffer := memcpy_at (v_buffer v) 0 out\<rparr>) in
     if hr < 0 then Inr (None, v)
     else Inr (Some hr, set_side peer ((side peer v)\<lparr>p_got := p_got (side peer v) @ [out]\<rparr>) v))"

definition test_echo :: "test_env \<Rightarrow> vtest \<Rightarrow> (bool \<times> vtest) cresult" where
  "test_echo e v =
     rbind (test_recv 1 v) (\<lambda>(hr, v).
     case hr of
       None \<Rightarrow> Inr (False, v)
     | Some hr \<Rightarrow>
         rbind (ikcp_send (te_segs e (v_tick v)) (p_kcp (v_b v)) (Some (v_buffer v)) hr) (\<lambda>(ret, k).
         Inr (True, v\<lparr>v_b := (v_b v)\<lparr>p_kcp := k, p_sent := p_sent (v_b v) @ (if ret = 0 then [take (nat hr) (v_buffer v)] else [])\<rparr>,
                      v_tick := Suc (v_tick v)\<rparr>)))"

text \<open>A message back at the first endpoint; the flag is set when its number is not the next one.\<close>

definition test_reply :: "u32 \<Rightarrow> bool \<times> vtest \<Rightarrow> (bool \<times> bool \<times> vtest) cresult" where
  "test_reply current s =
     (case s of (failed, v) \<Rightarrow>
        rbind (test_recv 0 v) (\<lambda>(hr, v).
        case hr of
          None \<Rightarrow> Inr (False, failed, v)
        | Some _ \<Rightarrow>
            let sn = object_value (take 4 (v_buffer v));
                ts = object_value (take 4 (drop 4 (v_buffer v)));
                rtt = current - ts
            in if sn \<noteq> v_next v then Inr (False, True, v)
               else Inr (True, failed,
                      v\<lparr>v_next := v_next v + 1, v_sumrtt := v_sumrtt v + uint rtt, v_count := wrap_i32 (v_count v + 1),
                        v_maxrtt := (if rtt > word_of_int (v_maxrtt v) then sint rtt else v_maxrtt v)\<rparr>)))"

text \<open>One round of the main loop.\<close>

definition test_round :: "test_env \<Rightarrow> vtest \<Rightarrow> (bool \<times> vtest) cresult option" where
  "test_round e v =
     (let current = iclock (te_clock e (v_tick v)); v = v\<lparr>v_tick := Suc (v_tick v)\<rparr> in
      obind (Some (rbind (test_update e 0 v) (test_update e 1))) (\<lambda>v.
      obind (while_true (test_send e current) v) (\<lambda>v.
      obind (while_true (test_input e 1) v) (\<lambda>v.
      obind (while_true (test_input e 0) v) (\<lambda>v.
      obind (while_true (test_echo e) v) (\<lambda>v.
      while_true (test_reply current) (False, v)))))))"

text \<open>
  The main loop, followed for at most \<open>n\<close> rounds.
\<close>

datatype test_state = Failed vtest | Finished vtest | Running vtest

fun test_rounds :: "test_env \<Rightarrow> nat \<Rightarrow> vtest \<Rightarrow> test_state cresult option" where
  "test_rounds e 0 v = Some (Inr (Running v))"
| "test_rounds e (Suc n) v =
     obind (test_round e v) (\<lambda>(failed, v).
     if failed then Some (Inr (Failed v))
     else if v_next v > 1000 then Some (Inr (Finished v))
     else test_rounds e n v)"

subsection \<open>Start and end of the test\<close>

definition test_config :: "int \<Rightarrow> ikcpcb \<Rightarrow> ikcpcb \<Rightarrow> ikcpcb \<times> ikcpcb" where
  "test_config mode kcp1 kcp2 =
     (let kcp1 = ikcp_setoutput kcp1 (Some 1); kcp2 = ikcp_setoutput kcp2 (Some 1);
          kcp1 = snd (ikcp_wndsize kcp1 128 128); kcp2 = snd (ikcp_wndsize kcp2 128 128)
      in if mode = 0 then (snd (ikcp_nodelay kcp1 0 10 0 0), snd (ikcp_nodelay kcp2 0 10 0 0))
         else if mode = 1 then (snd (ikcp_nodelay kcp1 0 10 0 1), snd (ikcp_nodelay kcp2 0 10 0 1))
         else ((snd (ikcp_nodelay kcp1 2 10 2 1))\<lparr>k_rx_minrto := 10, k_fastresend := 1\<rparr>, snd (ikcp_nodelay kcp2 2 10 2 1)))"

text \<open>\<open>alloc1\<close> and \<open>alloc2\<close> serve the two calls of \<open>ikcp_create\<close>; \<open>junk\<close> is what the buffer on the stack holds.\<close>

definition test_start :: "test_env \<Rightarrow> u8 allocator \<Rightarrow> u8 allocator \<Rightarrow> bytes \<Rightarrow> int \<Rightarrow> vtest cresult" where
  "test_start e alloc1 alloc2 junk mode =
     (case (ikcp_create alloc1 0x11223344 0, ikcp_create alloc2 0x11223344 1) of
        (Some kcp1, Some kcp2) \<Rightarrow>
          (case test_config mode kcp1 kcp2 of (kcp1, kcp2) \<Rightarrow>
             Inr \<lparr>v_net = sim_new (te_clock e 0) 10 60 125 1000,
                  v_a = \<lparr>p_kcp = kcp1, p_out = {}, p_sent = [], p_got = []\<rparr>,
                  v_b = \<lparr>p_kcp = kcp2, p_out = {}, p_sent = [], p_got = []\<rparr>,
                  v_slap = iclock (te_clock e 1) + 20, v_index = 0, v_next = 0, v_sumrtt = 0, v_count = 0, v_maxrtt = 0,
                  v_buffer = junk, v_tick = 2\<rparr>)
      | _ \<Rightarrow> Inl Null_Deref)"

text \<open>The lines printed at the end: the name of the mode, the average and the largest round-trip time, the packets sent.\<close>

definition test_report :: "int \<Rightarrow> vtest \<Rightarrow> (string \<times> int \<times> int \<times> int) cresult" where
  "test_report mode v =
     rbind (rguard (0 \<le> mode) Out_Of_Bounds) (\<lambda>_.
     rbind (load [''default'', ''normal'', ''fast''] (nat mode)) (\<lambda>name.
     rbind (rguard (v_count v \<noteq> 0) Div_By_Zero) (\<lambda>_.
     Inr (name, wrap_i32 (c_div (v_sumrtt v) (v_count v)), v_maxrtt v, tn_tx (ls_t12 (v_net v))))))"

datatype test_result = Error vtest | Report "string \<times> int \<times> int \<times> int" | Ongoing vtest

definition kcp_test :: "test_env \<Rightarrow> u8 allocator \<Rightarrow> u8 allocator \<Rightarrow> bytes \<Rightarrow> nat \<Rightarrow> int \<Rightarrow> test_result cresult option" where
  "kcp_test e alloc1 alloc2 junk n mode =
     obind (Some (test_start e alloc1 alloc2 junk mode)) (\<lambda>v.
     obind (test_rounds e n v) (\<lambda>r.
     case r of
       Failed v \<Rightarrow> Some (Inr (Error v))
     | Finished v \<Rightarrow> Some (rbind (test_report mode v) (\<lambda>l. Inr (Report l)))
     | Running v \<Rightarrow> Some (Inr (Ongoing v))))"

subsection \<open>Two endpoints and what they have told each other\<close>

definition pair_inv :: "peer \<Rightarrow> peer \<Rightarrow> bool" where
  "pair_inv p q \<longleftrightarrow> net_inv (link p q) \<and> net_inv (link q p)"

lemma pair_inv_sym: "pair_inv p q \<Longrightarrow> pair_inv q p"
  by (simp add: pair_inv_def)

lemma pair_prefix: "pair_inv p q \<Longrightarrow> prefix (p_got q) (p_sent p)"
  by (simp add: pair_inv_def net_inv_link)

lemma pair_step:
  assumes "pair_inv p q" and "(peer_step W)\<^sup>*\<^sup>* p p'" and "W \<subseteq> p_out q" and "small_msgs p'"
  shows "pair_inv p' q"
  using assms net.steps_inv [OF peer_steps_a [OF assms(2,4)]] net.steps_inv [OF peer_steps_b [OF assms(2,3)]]
  by (auto simp: pair_inv_def)

text \<open>An endpoint that sends back what it gets sends messages as small as the other's.\<close>

lemma echo_step_small:
  assumes "pair_inv p q" and "(peer_step W)\<^sup>*\<^sup>* q q'" and "W \<subseteq> p_out p" and "small_msgs p" and "p_sent q' = p_got q'"
  shows "small_msgs q'"
proof -
  have "net_inv (link p q')" using assms(1) net.steps_inv [OF peer_steps_b [OF assms(2,3)]] by (simp add: pair_inv_def)
  then have "prefix (p_sent q') (p_sent p)" using net_inv_link [of p q'] assms(5) by simp
  then show ?thesis using assms(4) by (rule small_msgs_mono)
qed

subsection \<open>The invariant of the test\<close>

lemma side_simps [simp]:
  "side p (set_side q x v) = (if (p = 0) = (q = 0) then x else side p v)"
  "v_net (set_side q x v) = v_net v" "v_slap (set_side q x v) = v_slap v" "v_index (set_side q x v) = v_index v"
  "v_next (set_side q x v) = v_next v" "v_count (set_side q x v) = v_count v" "v_buffer (set_side q x v) = v_buffer v"
  "v_tick (set_side q x v) = v_tick v"
  "side p (v\<lparr>v_net := net\<rparr>) = side p v" "side p (v\<lparr>v_buffer := b\<rparr>) = side p v" "side p (v\<lparr>v_tick := t\<rparr>) = side p v"
  by (simp_all add: side_def set_side_def)

lemma set_side_simps [simp]:
  "set_side p y (set_side p x v) = set_side p y v"
  "(set_side p x v)\<lparr>v_net := n\<rparr> = set_side p x (v\<lparr>v_net := n\<rparr>)" "(set_side p x v)\<lparr>v_tick := t\<rparr> = set_side p x (v\<lparr>v_tick := t\<rparr>)"
  "(set_side p x v)\<lparr>v_buffer := b\<rparr> = set_side p x (v\<lparr>v_buffer := b\<rparr>)"
  by (simp_all add: set_side_def)

lemma side_0 [simp]: "side 0 v = v_a v" and side_1 [simp]: "side 1 v = v_b v"
  by (simp_all add: side_def)

text \<open>What is queued in the network was put there by the endpoint at the other side.\<close>

definition net_ok :: "vtest \<Rightarrow> bool" where
  "net_ok v \<longleftrightarrow> (\<exists>sent got. sim_ok 5 1000 sent got (v_net v) \<and> (\<forall>p. set (sent p) \<subseteq> p_out (side p v)))"

lemma net_ok_same:
  assumes "net_ok v" and "v_net w = v_net v" and "p_out (v_a w) = p_out (v_a v)" and "p_out (v_b w) = p_out (v_b v)"
  shows "net_ok w"
proof -
  have "p_out (side p w) = p_out (side p v)" for p using assms(3,4) by (simp add: side_def)
  then show ?thesis using assms(1,2) by (simp add: net_ok_def)
qed

text \<open>Message \<open>i\<close> starts with the number \<open>i\<close>, and there are at most as many as periods of 20 ms have passed.\<close>

definition msgs_ok :: "vtest \<Rightarrow> bool" where
  "msgs_ok v \<longleftrightarrow>
     length (p_sent (v_a v)) = unat (v_index v) \<and> 20 * unat (v_index v) \<le> unat (v_slap v) \<and>
     (\<forall>i < length (p_sent (v_a v)).
        length (p_sent (v_a v) ! i) = 8 \<and> take 4 (p_sent (v_a v) ! i) = object_bytes 4 (of_nat i :: u32))"

definition side_ok :: "peer \<Rightarrow> bool" where
  "side_ok p \<longleftrightarrow> endpoint_ok (p_kcp p) \<and> (\<forall>d \<in> p_out p. d \<noteq> [] \<and> length d \<le> 1400)"

definition test_ok :: "vtest \<Rightarrow> bool" where
  "test_ok v \<longleftrightarrow>
     side_ok (v_a v) \<and> side_ok (v_b v) \<and> net_ok v \<and> pair_inv (v_a v) (v_b v) \<and> length (v_buffer v) = 2000 \<and> msgs_ok v \<and>
     p_sent (v_b v) = p_got (v_b v) \<and> length (p_got (v_a v)) = unat (v_next v) \<and> v_count v = int (unat (v_next v))"

abbreviation acks :: "int \<Rightarrow> vtest \<Rightarrow> nat" where
  "acks p v \<equiv> unat (k_ackcount (p_kcp (side p v)))"

definition env_ok :: "test_env \<Rightarrow> bool" where
  "env_ok e \<longleftrightarrow> (\<forall>i j. te_acks e i j \<noteq> None) \<and> (\<forall>i j. te_segs e i j \<noteq> None) \<and> (\<forall>i. unat (iclock (te_clock e i)) < 2 ^ 32 - 20)"

lemma msgs_ok_small: "msgs_ok v \<Longrightarrow> small_msgs (v_a v)"
proof -
  assume ok: "msgs_ok v"
  then have "length (p_sent (v_a v)) = unat (v_index v)" "20 * unat (v_index v) \<le> unat (v_slap v)" by (simp_all add: msgs_ok_def)
  then have "20 * length (p_sent (v_a v)) < 4294967296" using unat_u32_less [of "v_slap v"] by linarith
  moreover have "length msg = 8" if "msg \<in> set (p_sent (v_a v))" for msg using ok that by (auto simp: msgs_ok_def in_set_conv_nth)
  ultimately show ?thesis by (auto simp: small_msgs_def)
qed

lemma test_ok_small:
  assumes "test_ok v" shows "small_msgs (side p v)"
proof -
  have a: "small_msgs (v_a v)" using assms by (simp add: test_ok_def msgs_ok_small)
  have "prefix (p_sent (v_b v)) (p_sent (v_a v))" using assms pair_prefix [of "v_a v" "v_b v"] by (simp add: test_ok_def)
  then have "small_msgs (v_b v)" using a by (rule small_msgs_mono)
  with a show ?thesis by (simp add: side_def)
qed

lemma test_ok_side: "test_ok v \<Longrightarrow> side_ok (side p v)"
  by (simp add: test_ok_def side_def)

text \<open>A step of one endpoint that sends and receives no message keeps the invariant.\<close>

lemma test_ok_step:
  assumes ok: "test_ok v" and step: "(peer_step W)\<^sup>*\<^sup>* (side p v) q" and W: "W \<subseteq> p_out (side (1 - p) v)" and p: "p = 0 \<or> p = 1"
    and q: "side_ok q" "p_sent q = p_sent (side p v)" "p_got q = p_got (side p v)"
    and net: "net_ok (set_side p q (v\<lparr>v_net := net, v_buffer := b, v_tick := t\<rparr>))" and b: "length b = 2000"
  shows "test_ok (set_side p q (v\<lparr>v_net := net, v_buffer := b, v_tick := t\<rparr>))"
proof -
  have small: "small_msgs q" using test_ok_small [OF ok, of p] q(2) by (simp add: small_msgs_def)
  have pair: "pair_inv (side p v) (side (1 - p) v)" using ok p by (auto simp: test_ok_def dest: pair_inv_sym)
  from pair_step [OF this step W small] have "pair_inv q (side (1 - p) v)" .
  then show ?thesis
    using p ok q net b by (auto simp: test_ok_def msgs_ok_def set_side_def net_ok_def dest: pair_inv_sym)
qed

subsection \<open>Updates\<close>

lemma udp_output_test_ok:
  assumes "net_ok v"
  shows "\<exists>net t. udp_output_test e p d v = Inr (set_side p ((side p v)\<lparr>p_out := insert d (p_out (side p v))\<rparr>) (v\<lparr>v_net := net, v_tick := t\<rparr>)) \<and>
    net_ok (set_side p ((side p v)\<lparr>p_out := insert d (p_out (side p v))\<rparr>) (v\<lparr>v_net := net, v_tick := t\<rparr>))"
proof -
  obtain sent got where ok: "sim_ok 5 1000 sent got (v_net v)" "\<And>p. set (sent p) \<subseteq> p_out (side p v)"
    using assms by (auto simp: net_ok_def)
  obtain net where net: "sim_send (te_rand e (v_tick v)) (te_clock e (v_tick v)) (te_rand e (Suc (v_tick v))) (v_net v) p d = Inr net"
    "sim_ok 5 1000 (\<lambda>q. sent q @ (if (q = 0) = (p = 0) then [d] else [])) got net"
    using sim_send_ok [OF ok(1)] by blast
  let ?p = "(side p v)\<lparr>p_out := insert d (p_out (side p v))\<rparr>" and ?sent = "\<lambda>q. sent q @ (if (q = 0) = (p = 0) then [d] else [])"
  have "set (?sent q) \<subseteq> p_out (if (q = 0) = (p = 0) then ?p else side q v)" for q
  proof (cases "(q = 0) = (p = 0)")
    case True
    then have "side q v = side p v" by (simp add: side_def)
    with ok(2) [of q] show ?thesis unfolding if_P [OF True] by auto
  next
    case False
    with ok(2) [of q] show ?thesis unfolding if_not_P [OF False] by simp
  qed
  then have "net_ok (set_side p ?p (v\<lparr>v_net := net, v_tick := t\<rparr>))" for t
    unfolding net_ok_def side_simps using net(2) by (intro exI [of _ ?sent] exI [of _ got] conjI allI) simp_all
  with net(1) show ?thesis by (auto simp: udp_output_test_def)
qed

lemma test_outputs_ok:
  "net_ok v \<Longrightarrow>
   \<exists>net t. test_outputs e p ds v = Inr (set_side p ((side p v)\<lparr>p_out := p_out (side p v) \<union> set ds\<rparr>) (v\<lparr>v_net := net, v_tick := t\<rparr>)) \<and>
    net_ok (set_side p ((side p v)\<lparr>p_out := p_out (side p v) \<union> set ds\<rparr>) (v\<lparr>v_net := net, v_tick := t\<rparr>))"
proof (induction ds arbitrary: v)
  case Nil
  have "set_side p (side p v) (v\<lparr>v_net := v_net v, v_tick := v_tick v\<rparr>) = v" by (simp add: set_side_def side_def)
  with Nil show ?case by (intro exI [of _ "v_net v"] exI [of _ "v_tick v"]) simp
next
  case (Cons d ds)
  let ?p = "\<lambda>D. (side p v)\<lparr>p_out := p_out (side p v) \<union> D\<rparr>"
  obtain net t where o: "udp_output_test e p d v = Inr (set_side p (?p {d}) (v\<lparr>v_net := net, v_tick := t\<rparr>))"
    "net_ok (set_side p (?p {d}) (v\<lparr>v_net := net, v_tick := t\<rparr>))"
    using udp_output_test_ok [OF Cons.prems, of e p d] by auto
  let ?v = "set_side p (?p {d}) (v\<lparr>v_net := net, v_tick := t\<rparr>)"
  have eq: "set_side p ((side p ?v)\<lparr>p_out := p_out (side p ?v) \<union> set ds\<rparr>) (?v\<lparr>v_net := n', v_tick := t'\<rparr>) =
      set_side p (?p (set (d # ds))) (v\<lparr>v_net := n', v_tick := t'\<rparr>)" for n' t'
    by (simp add: Un_commute)
  from Cons.IH [OF o(2)] o(1) show ?case unfolding eq by simp
qed

lemma test_update_ok:
  assumes ok: "test_ok v" and few: "\<And>q. acks q v \<le> n" "n < 2 ^ 31" and p: "p = 0 \<or> p = 1"
  shows "\<exists>v'. test_update e p v = Inr v' \<and> test_ok v' \<and> (\<forall>q. acks q v' \<le> n)"
proof -
  let ?p = "side p v" and ?t = "iclock (te_clock e (v_tick v))"
  have side: "side_ok ?p" using test_ok_side [OF ok] .
  then have ep: "endpoint_ok (p_kcp ?p)" by (simp add: side_ok_def)
  have lt: "acks p v < 2 ^ 31" using few(1) [of p] few(2) by simp
  from endpoint_update [OF ep lt] obtain out k where k: "ikcp_update (p_kcp ?p) ?t = Inr (out, k)"
    "flushed (p_kcp ?p) out k" "endpoint_ok k" by blast
  let ?v = "set_side p (?p\<lparr>p_kcp := k\<rparr>) (v\<lparr>v_tick := Suc (v_tick v)\<rparr>)" and ?q = "?p\<lparr>p_kcp := k, p_out := p_out ?p \<union> set out\<rparr>"
  have "net_ok ?v" by (rule net_ok_same [of v]) (use ok p in \<open>auto simp: test_ok_def set_side_def\<close>)
  from test_outputs_ok [OF this, of e p out] obtain net t where
    run: "test_outputs e p out ?v = Inr (set_side p ?q (v\<lparr>v_net := net, v_buffer := v_buffer v, v_tick := t\<rparr>))"
    and net: "net_ok (set_side p ?q (v\<lparr>v_net := net, v_buffer := v_buffer v, v_tick := t\<rparr>))"
    by auto
  have step: "(peer_step {})\<^sup>*\<^sup>* ?p ?q"
    using peer_step.update [where W = "{}" and p = ?p and t = ?t and new = "set out"] ep lt k(1) by auto
  have "unat (k_mtu (p_kcp ?p)) = 1400" using ep by (simp add: endpoint_ok_def)
  then have q: "side_ok ?q" using side k(2,3) by (auto simp: side_ok_def flushed_def)
  have "test_ok (set_side p ?q (v\<lparr>v_net := net, v_buffer := v_buffer v, v_tick := t\<rparr>))"
    by (rule test_ok_step [OF ok step _ p q _ _ net]) (use ok in \<open>simp_all add: test_ok_def\<close>)
  moreover have "unat (k_ackcount k) \<le> n" using k(2) few(1) [of p] by (simp add: flushed_def)
  ultimately show ?thesis using k(1) run few(1) p by (auto simp: test_update_def)
qed

subsection \<open>Messages\<close>

text \<open>Reading a message: nothing changes, or the endpoint has got one more.\<close>

lemma test_recv_cases:
  assumes ok: "test_ok v" and p: "p = 0 \<or> p = 1"
  obtains (none) "test_recv p v = Inr (None, v)"
  | (got) out k b where "test_recv p v = Inr (Some (int (length out)), set_side p ((side p v)\<lparr>p_kcp := k, p_got := p_got (side p v) @ [out]\<rparr>) (v\<lparr>v_buffer := b\<rparr>))"
      "peer_step {} (side p v) ((side p v)\<lparr>p_kcp := k, p_got := p_got (side p v) @ [out]\<rparr>)" "endpoint_ok k"
      "k_ackcount k = k_ackcount (p_kcp (side p v))" "length out \<le> 10" "b = out @ drop (length out) (v_buffer v)" "length b = 2000"
proof -
  let ?p = "side p v"
  have ep: "endpoint_ok (p_kcp ?p)" using test_ok_side [OF ok] by (simp add: side_ok_def)
  obtain ret out k where re: "ikcp_recv (p_kcp ?p) (Some 2000) (int 10) = Inr (ret, out, k)"
    "0 \<le> ret \<longrightarrow> ret = int (length out) \<and> length out \<le> 10" "ret < 0 \<longrightarrow> out = [] \<and> k = p_kcp ?p" "endpoint_ok k"
    "k_ackcount k = k_ackcount (p_kcp ?p)"
    by (rule endpoint_recv [OF ep, of 10 2000]) simp_all
  have buf: "length (v_buffer v) = 2000" using ok by (simp add: test_ok_def)
  show thesis
  proof (cases "ret < 0")
    case True
    then have "test_recv p v = Inr (None, set_side p ?p v)" using re(1,3) by (simp add: test_recv_def memcpy_at_def)
    moreover have "set_side p ?p v = v" by (simp add: set_side_def side_def)
    ultimately show thesis using none by simp
  next
    case False
    let ?b = "out @ drop (length out) (v_buffer v)"
    have out: "ret = int (length out)" "length out \<le> 10" using False re(2) by simp_all
    have b: "memcpy_at (v_buffer v) 0 out = ?b" using out(2) buf by (simp add: memcpy_at_prefix)
    have "test_recv p v = Inr (Some (int (length out)), set_side p (?p\<lparr>p_kcp := k, p_got := p_got ?p @ [out]\<rparr>) (v\<lparr>v_buffer := ?b\<rparr>))"
      using re(1) out(1) by (simp add: test_recv_def b)
    moreover have "peer_step {} ?p (?p\<lparr>p_kcp := k, p_got := p_got ?p @ [out]\<rparr>)"
      by (rule peer_step.recv [where c = 2000 and l = 10]) (use re(1) out(1) in simp_all)
    ultimately show thesis using re(4,5) out(2) buf by (intro got [of out k ?b]) simp_all
  qed
qed

text \<open>
  Sending: while the clock does not come within 20 ms of its wrap-around, \<open>slap\<close> moves towards it.
\<close>

lemma test_send_ok:
  assumes ok: "test_ok v" and env: "env_ok e" and few: "\<And>q. acks q v \<le> n" and cur: "unat current < 2 ^ 32 - 20"
  shows "\<exists>go v'. test_send e current v = Inr (go, v') \<and> test_ok v' \<and> (\<forall>q. acks q v' \<le> n) \<and>
    (go \<longrightarrow> 2 ^ 32 - unat (v_slap v') < 2 ^ 32 - unat (v_slap v))"
proof (cases "current \<ge> v_slap v")
  case False
  then show ?thesis using ok few by (auto simp: test_send_def)
next
  case True
  have m: "msgs_ok v" "length (v_buffer v) = 2000" and ep: "endpoint_ok (p_kcp (v_a v))"
    using ok by (simp_all add: test_ok_def side_ok_def)
  define msg where "msg = object_bytes 4 (v_index v) @ object_bytes 4 current"
  define b where "b = msg @ drop 8 (v_buffer v)"
  have b: "memcpy_at (memcpy_at (v_buffer v) 0 (object_bytes 4 (v_index v))) 4 (object_bytes 4 current) = b" "length b = 2000" "take 8 b = msg"
    using m(2) by (simp_all add: b_def msg_def memcpy_at_def)
  have msg: "length msg = 8" "take 4 msg = object_bytes 4 (v_index v)" by (simp_all add: msg_def)
  obtain k where k: "ikcp_send (te_segs e (v_tick v)) (p_kcp (v_a v)) (Some b) 8 = Inr (0, k)"
    "ikcp_send (te_segs e (v_tick v)) (p_kcp (v_a v)) (Some msg) (int (length msg)) = Inr (0, k)"
    "endpoint_ok k" "k_ackcount k = k_ackcount (p_kcp (v_a v))"
    using endpoint_send [OF ep, of "te_segs e (v_tick v)" msg "drop 8 (v_buffer v)"] env msg(1) by (auto simp: env_ok_def b_def)
  let ?p = "(v_a v)\<lparr>p_kcp := k, p_sent := p_sent (v_a v) @ [msg]\<rparr>"
  define v' where "v' = v\<lparr>v_a := ?p, v_index := v_index v + 1, v_slap := v_slap v + 20, v_buffer := b, v_tick := Suc (v_tick v)\<rparr>"
  have run: "test_send e current v = Inr (True, v')" using True k(1) by (simp add: test_send_def b(1,3) v'_def)
  have slap: "unat (v_slap v + 20) = unat (v_slap v) + 20" "unat (v_slap v) < 2 ^ 32 - 20"
    using True cur by (simp_all add: word_le_nat_alt unat_word_ariths)
  then have index: "unat (v_index v + 1) = Suc (unat (v_index v))"
    using m(1) by (intro unat_Suc_u32) (simp add: msgs_ok_def)
  have m': "msgs_ok v'"
  proof -
    have old: "length (p_sent (v_a v)) = unat (v_index v)" "20 * unat (v_index v) \<le> unat (v_slap v)"
      "\<And>i. i < unat (v_index v) \<Longrightarrow> length (p_sent (v_a v) ! i) = 8 \<and> take 4 (p_sent (v_a v) ! i) = object_bytes 4 (of_nat i :: u32)"
      using m(1) by (simp_all add: msgs_ok_def)
    have "length ((p_sent (v_a v) @ [msg]) ! i) = 8 \<and> take 4 ((p_sent (v_a v) @ [msg]) ! i) = object_bytes 4 (of_nat i :: u32)"
      if "i < Suc (unat (v_index v))" for i
      using that old(1) old(3) [of i] msg by (cases "i = unat (v_index v)") (simp_all add: nth_append)
    then show ?thesis using old(1,2) slap(1) index by (simp add: msgs_ok_def v'_def)
  qed
  have "peer_step {} (v_a v) ?p" by (rule peer_step.send [where alloc = "te_segs e (v_tick v)"]) (use ep k(2) env in \<open>simp_all add: env_ok_def\<close>)
  then have step: "(peer_step {})\<^sup>*\<^sup>* (v_a v) ?p" by (rule r_into_rtranclp)
  have pair: "pair_inv (v_a v) (v_b v)" using ok by (simp add: test_ok_def)
  have "small_msgs ?p" using msgs_ok_small [OF m'] by (simp add: v'_def)
  from pair_step [OF pair step empty_subsetI this] have "pair_inv ?p (v_b v)" .
  moreover have "net_ok v'" by (rule net_ok_same [of v]) (use ok in \<open>simp_all add: test_ok_def v'_def\<close>)
  ultimately have "test_ok v'" using ok m' k(3) b(2) by (simp add: test_ok_def side_ok_def v'_def)
  moreover have "acks q v' \<le> n" for q using few [of q] k(4) by (cases "q = 0") (simp_all add: side_def v'_def)
  moreover have "2 ^ 32 - unat (v_slap v') < 2 ^ 32 - unat (v_slap v)" using slap by (simp add: v'_def)
  ultimately show ?thesis using run by blast
qed

lemma send_loop_ok:
  assumes "test_ok v" and "env_ok e" and "\<And>q. acks q v \<le> n" and "unat current < 2 ^ 32 - 20"
  shows "\<exists>v'. while_true (test_send e current) v = Some (Inr v') \<and> test_ok v' \<and> (\<forall>q. acks q v' \<le> n)"
proof (rule while_true_ends [where P = "\<lambda>v. test_ok v \<and> (\<forall>q. acks q v \<le> n)" and m = "\<lambda>v. 2 ^ 32 - unat (v_slap v)"])
  show "\<exists>go v'. test_send e current v = Inr (go, v') \<and>
      (if go then (test_ok v' \<and> (\<forall>q. acks q v' \<le> n)) \<and> 2 ^ 32 - unat (v_slap v') < 2 ^ 32 - unat (v_slap v)
       else test_ok v' \<and> (\<forall>q. acks q v' \<le> n))" if "test_ok v \<and> (\<forall>q. acks q v \<le> n)" for v
    using test_send_ok [OF conjunct1 [OF that] assms(2) spec [OF conjunct2 [OF that]] assms(4)] by (elim exE conjE) auto
qed (use assms in simp)

subsection \<open>Datagrams\<close>

abbreviation queued :: "int \<Rightarrow> vtest \<Rightarrow> delay_packet list" where
  "queued p v \<equiv> tn_queue (out_tunnel (1 - p) (v_net v))"

lemma net_ok_queued:
  assumes "net_ok v" and "p = 0 \<or> p = 1"
  shows "length (queued p v) \<le> 1000" and "pk_data ` set (queued p v) \<subseteq> p_out (side (1 - p) v)"
proof -
  obtain sent got where lane: "lane_ok 5 1000 (sent (1 - p)) (got (1 - p)) (out_tunnel (1 - p) (v_net v))"
    and sub: "set (sent (1 - p)) \<subseteq> p_out (side (1 - p) v)"
    using assms(1) unfolding net_ok_def sim_ok_def by blast
  then show "length (queued p v) \<le> 1000" by (simp add: lane_ok_def)
  have sq: "subseq (got (1 - p) @ map pk_data (queued p v)) (sent (1 - p))" using lane by (simp add: lane_ok_def)
  have "x \<in> set (sent (1 - p))" if "x \<in> set (got (1 - p) @ map pk_data (queued p v))" for x
    by (rule list_emb_set [OF sq that]) simp
  with sub show "pk_data ` set (queued p v) \<subseteq> p_out (side (1 - p) v)" by auto
qed

lemma sim_recv_net:
  assumes net: "net_ok v" and run: "sim_recv tv (v_net v) p m = (n, data, net')" and v': "v_net w = net'"
    "p_out (v_a w) = p_out (v_a v)" "p_out (v_b w) = p_out (v_b v)"
  shows "net_ok w"
proof -
  obtain sent got where ok: "sim_ok 5 1000 sent got (v_net v)" and sub: "\<And>p. set (sent p) \<subseteq> p_out (side p v)"
    using net by (auto simp: net_ok_def)
  have "set (sent q) \<subseteq> p_out (side q w)" for q using sub [of q] v'(2,3) by (simp add: side_def split: if_splits)
  with sim_recv_ok [OF ok run] v'(1) show ?thesis by (auto simp: net_ok_def)
qed

lemma sim_recv_cases:
  assumes "sim_recv tv s p m = (n, data, s')" and "p = 0 \<or> p = 1"
  obtains (none) "n < 0" "data = []"
  | (packet) pkt rest where "tn_queue (out_tunnel (1 - p) s) = pkt # rest" "data = pk_data pkt" "n = int (length data)" "tn_queue (out_tunnel (1 - p) s') = rest"
  using assms by (auto simp: sim_recv_def Let_def split: list.splits if_splits)

lemma test_input_ok:
  assumes ok: "test_ok v" and env: "env_ok e" and p: "p = 0 \<or> p = 1"
    and few: "acks p v + 62 * length (queued p v) \<le> n" "n < 2 ^ 31"
  shows "\<exists>go v'. test_input e p v = Inr (go, v') \<and> test_ok v' \<and> (go \<longrightarrow> length (queued p v') < length (queued p v) \<and>
      acks p v' + 62 * length (queued p v') \<le> n) \<and> acks p v' \<le> n \<and> acks (1 - p) v' = acks (1 - p) v"
proof -
  let ?t = "Suc (v_tick v)" and ?p = "side p v"
  have acks: "acks p v \<le> n" using few(1) by simp
  have net: "net_ok v" and buf: "length (v_buffer v) = 2000" using ok by (simp_all add: test_ok_def)
  obtain hr data net' where re: "sim_recv (te_clock e (v_tick v)) (v_net v) p 2000 = (hr, data, net')"
    by (cases "sim_recv (te_clock e (v_tick v)) (v_net v) p 2000")
  from re p show ?thesis
  proof (cases rule: sim_recv_cases)
    case none
    let ?v = "set_side p ?p (v\<lparr>v_net := net', v_buffer := v_buffer v, v_tick := ?t\<rparr>)"
    have eq: "?v = v\<lparr>v_net := net', v_tick := ?t\<rparr>" by (simp add: set_side_def side_def)
    have "net_ok ?v" unfolding eq by (rule sim_recv_net [OF net re]) simp_all
    then have "test_ok ?v" by (intro test_ok_step [OF ok rtranclp.rtrancl_refl [of "peer_step {}"] _ p]) (use test_ok_side [OF ok] buf in simp_all)
    moreover have "test_input e p v = Inr (False, v\<lparr>v_net := net', v_tick := ?t\<rparr>)" using re none by (simp add: test_input_def memcpy_at_def)
    ultimately show ?thesis using acks unfolding eq by (intro exI [of _ False] exI [of _ "v\<lparr>v_net := net', v_tick := ?t\<rparr>"]) simp
  next
    case (packet pkt rest)
    have W: "pk_data ` set (queued p v) \<subseteq> p_out (side (1 - p) v)" using net_ok_queued(2) [OF net p] .
    then have data: "data \<in> p_out (side (1 - p) v)" using packet(1,2) by auto
    then have len: "length data \<le> 1400" using test_ok_side [OF ok, of "1 - p"] by (auto simp: side_ok_def)
    have b: "memcpy_at (v_buffer v) 0 data = data @ drop (length data) (v_buffer v)" using len buf by (simp add: memcpy_at_prefix)
    have ep: "endpoint_ok (p_kcp ?p)" using test_ok_side [OF ok] by (simp add: side_ok_def)
    have room: "acks p v + 62 < 2 ^ 31" using few(1,2) packet(1) by simp
    obtain ret k where k: "ikcp_input (te_acks e ?t) (te_segs e ?t) (p_kcp ?p) (Some data) (int (length data)) = Inr (ret, k)"
      "ikcp_input (te_acks e ?t) (te_segs e ?t) (p_kcp ?p) (Some (data @ drop (length data) (v_buffer v))) (int (length data)) = Inr (ret, k)"
      "endpoint_ok k" "unat (k_ackcount k) \<le> acks p v + 62"
      by (rule endpoint_input [OF ep, of "te_acks e ?t" "te_segs e ?t" data]) (use env len room in \<open>auto simp: env_ok_def\<close>)
    let ?v = "set_side p (?p\<lparr>p_kcp := k\<rparr>) (v\<lparr>v_net := net', v_buffer := data @ drop (length data) (v_buffer v), v_tick := ?t\<rparr>)"
    have run: "test_input e p v = Inr (True, ?v)" using re packet(3) k(2) by (simp add: test_input_def b)
    have step: "(peer_step (p_out (side (1 - p) v)))\<^sup>*\<^sup>* ?p (?p\<lparr>p_kcp := k\<rparr>)"
      by (rule r_into_rtranclp, rule peer_step.input [OF k(1) data]) (use env len room in \<open>simp_all add: env_ok_def\<close>)
    have "net_ok ?v" by (rule sim_recv_net [OF net re]) (use p in \<open>auto simp: set_side_def\<close>)
    moreover have "side_ok (?p\<lparr>p_kcp := k\<rparr>)" using test_ok_side [OF ok, of p] k(3) by (simp add: side_ok_def)
    ultimately have "test_ok ?v" by (intro test_ok_step [OF ok step order_refl p]) (use len buf in simp_all)
    moreover have "queued p ?v = rest" using packet(4) by simp
    moreover have "acks p ?v \<le> acks p v + 62" using k(4) p by simp
    moreover have "acks p ?v \<le> n" "acks (1 - p) ?v = acks (1 - p) v" using k(4) few(1) packet(1) p by auto
    ultimately show ?thesis using run packet(1) few(1) by (intro exI [of _ True] exI [of _ ?v]) auto
  qed
qed

lemma input_loop_ends:
  assumes ok: "test_ok v" and env: "env_ok e" and p: "p = 0 \<or> p = 1" and few: "acks p v + 62000 \<le> n" "n < 2 ^ 31"
  shows "\<exists>v'. while_true (test_input e p) v = Some (Inr v') \<and> test_ok v' \<and> acks p v' \<le> n \<and> acks (1 - p) v' = acks (1 - p) v"
proof -
  let ?P = "\<lambda>w. test_ok w \<and> acks p w + 62 * length (queued p w) \<le> n \<and> acks (1 - p) w = acks (1 - p) v"
  have "length (queued p v) \<le> 1000" using net_ok_queued(1) [OF _ p] ok by (simp add: test_ok_def)
  then have "acks p v + 62 * length (queued p v) \<le> n" using few(1) by linarith
  then have start: "?P v" using ok by blast
  have "\<exists>go w'. test_input e p w = Inr (go, w') \<and>
      (if go then ?P w' \<and> length (queued p w') < length (queued p w)
       else test_ok w' \<and> acks p w' \<le> n \<and> acks (1 - p) w' = acks (1 - p) v)" if P: "?P w" for w
  proof -
    from test_input_ok [OF _ env p _ few(2), of w] P obtain go w' where "test_input e p w = Inr (go, w')" "test_ok w'"
      "go \<longrightarrow> length (queued p w') < length (queued p w) \<and> acks p w' + 62 * length (queued p w') \<le> n"
      "acks p w' \<le> n" "acks (1 - p) w' = acks (1 - p) w" by blast
    with P show ?thesis by (intro exI [of _ go] exI [of _ w']) auto
  qed
  from while_true_ends [where P = ?P, OF start this] show ?thesis .
qed

subsection \<open>Echo and reply\<close>

lemma test_echo_ok:
  assumes ok: "test_ok v" and env: "env_ok e" and few: "\<And>q. acks q v \<le> n"
  shows "\<exists>go v'. test_echo e v = Inr (go, v') \<and> test_ok v' \<and> (\<forall>q. acks q v' \<le> n) \<and>
    (go \<longrightarrow> length (p_sent (v_a v')) - length (p_sent (v_b v')) < length (p_sent (v_a v)) - length (p_sent (v_b v)))"
proof -
  have p: "(1 :: int) = 0 \<or> (1 :: int) = 1" by simp
  from ok p show ?thesis
  proof (cases rule: test_recv_cases)
    case none
    then show ?thesis using ok few by (auto simp: test_echo_def)
  next
    case (got out k b)
    let ?q = "v_b v"
    have al: "\<forall>i. te_segs e (v_tick v) i \<noteq> None" using env by (simp add: env_ok_def)
    have "length out \<le> 1500" using got(5) by simp
    then obtain k' where k': "ikcp_send (te_segs e (v_tick v)) k (Some b) (int (length out)) = Inr (0, k')"
      "ikcp_send (te_segs e (v_tick v)) k (Some out) (int (length out)) = Inr (0, k')" "endpoint_ok k'" "k_ackcount k' = k_ackcount k"
      unfolding got(6) by (rule endpoint_send [OF got(3) al])
    let ?q1 = "?q\<lparr>p_kcp := k, p_got := p_got ?q @ [out]\<rparr>"
    define q where "q = ?q\<lparr>p_got := p_got ?q @ [out], p_kcp := k', p_sent := p_sent ?q @ [out]\<rparr>"
    define v' where "v' = v\<lparr>v_b := q, v_buffer := b, v_tick := Suc (v_tick v)\<rparr>"
    have run: "test_echo e v = Inr (True, v')"
      using got(1,6) k'(1) by (simp add: test_echo_def set_side_def v'_def q_def)
    have "peer_step {} ?q1 (?q1\<lparr>p_kcp := k', p_sent := p_sent ?q1 @ [out]\<rparr>)"
      by (rule peer_step.send [where alloc = "te_segs e (v_tick v)"]) (use got(3) k'(2) al in simp_all)
    then have "peer_step {} ?q1 q" by (simp add: q_def)
    with got(2) have steps: "(peer_step {})\<^sup>*\<^sup>* ?q q" by (auto intro: peer_chain)
    have pair: "pair_inv (v_a v) ?q" and echoed: "p_sent q = p_got q" using ok by (simp_all add: test_ok_def q_def)
    have small: "small_msgs q" by (rule echo_step_small [OF pair steps _ _ echoed]) (use test_ok_small [OF ok, of 0] in simp_all)
    have pair': "pair_inv (v_a v) q" using pair_step [OF pair_inv_sym [OF pair] steps empty_subsetI small] by (rule pair_inv_sym)
    have "net_ok v'" by (rule net_ok_same [of v]) (use ok in \<open>simp_all add: test_ok_def v'_def q_def\<close>)
    moreover have "msgs_ok v'" using ok by (simp add: test_ok_def msgs_ok_def v'_def)
    moreover have "side_ok q" using ok k'(3) by (simp add: test_ok_def side_ok_def q_def)
    ultimately have "test_ok v'" using ok pair' echoed got(7) by (simp add: test_ok_def v'_def)
    moreover have "acks r v' \<le> n" for r using few [of r] got(4) k'(4) by (cases "r = 0") (simp_all add: side_def v'_def q_def)
    moreover have "length (p_sent (v_a v')) - length (p_sent (v_b v')) < length (p_sent (v_a v)) - length (p_sent (v_b v))"
      using prefix_length_le [OF pair_prefix [OF pair']] echoed by (simp add: v'_def q_def)
    ultimately show ?thesis using run by blast
  qed
qed

lemma echo_loop_ends:
  assumes "test_ok v" and "env_ok e" and "\<And>q. acks q v \<le> n"
  shows "\<exists>v'. while_true (test_echo e) v = Some (Inr v') \<and> test_ok v' \<and> (\<forall>q. acks q v' \<le> n)"
proof (rule while_true_ends [where P = "\<lambda>v. test_ok v \<and> (\<forall>q. acks q v \<le> n)" and m = "\<lambda>v. length (p_sent (v_a v)) - length (p_sent (v_b v))"])
  show "\<exists>go v'. test_echo e v = Inr (go, v') \<and>
      (if go then (test_ok v' \<and> (\<forall>q. acks q v' \<le> n)) \<and>
         length (p_sent (v_a v')) - length (p_sent (v_b v')) < length (p_sent (v_a v)) - length (p_sent (v_b v))
       else test_ok v' \<and> (\<forall>q. acks q v' \<le> n))" if "test_ok v \<and> (\<forall>q. acks q v \<le> n)" for v
    using test_echo_ok [OF conjunct1 [OF that] assms(2) spec [OF conjunct2 [OF that]]] by (elim exE conjE) auto
qed (use assms in simp)

text \<open>The message that comes back is the next one that was sent, so its number is the one expected.\<close>

lemma reply_number:
  assumes ok: "test_ok v" and step: "peer_step {} (v_a v) p" and p: "p_sent p = p_sent (v_a v)" "p_got p = p_got (v_a v) @ [out]"
  shows "pair_inv p (v_b v)" and "length (p_got (v_a v)) < length (p_sent (v_b v))" and "unat (v_next v) < 2 ^ 30"
    and "length out = 8" and "take 4 out = object_bytes 4 (v_next v)"
proof -
  have m: "msgs_ok v" and n: "length (p_got (v_a v)) = unat (v_next v)" and pair: "pair_inv (v_a v) (v_b v)"
    using ok by (simp_all add: test_ok_def)
  have "small_msgs p" using test_ok_small [OF ok, of 0] p(1) by (simp add: small_msgs_def)
  from pair_step [OF pair r_into_rtranclp [of "peer_step {}", OF step] empty_subsetI this] show pair': "pair_inv p (v_b v)" .
  have b: "prefix (p_got (v_a v) @ [out]) (p_sent (v_b v))" using pair_prefix [OF pair_inv_sym [OF pair']] p(2) by simp
  from prefix_length_le [OF this] show "length (p_got (v_a v)) < length (p_sent (v_b v))" by simp
  have "prefix (p_sent (v_b v)) (p_sent (v_a v))" using ok pair_prefix [OF pair] by (simp add: test_ok_def)
  with b have a: "prefix (p_got (v_a v) @ [out]) (p_sent (v_a v))" by (rule prefix_order.trans)
  then have lt: "unat (v_next v) < length (p_sent (v_a v))" and out: "p_sent (v_a v) ! unat (v_next v) = out"
    using n by (auto simp: prefix_def nth_append)
  show "unat (v_next v) < 2 ^ 30" using lt msgs_ok_small [OF m] by (simp add: small_msgs_def)
  show "length out = 8" "take 4 out = object_bytes 4 (v_next v)" using m lt out by (auto simp: msgs_ok_def)
qed

lemma test_reply_ok:
  assumes ok: "test_ok v" and few: "\<And>q. acks q v \<le> n"
  shows "\<exists>go v'. test_reply current (False, v) = Inr (go, False, v') \<and> test_ok v' \<and> (\<forall>q. acks q v' \<le> n) \<and>
    (go \<longrightarrow> length (p_sent (v_b v')) - length (p_got (v_a v')) < length (p_sent (v_b v)) - length (p_got (v_a v)))"
proof -
  have p0: "(0 :: int) = 0 \<or> (0 :: int) = 1" by simp
  from ok p0 show ?thesis
  proof (cases rule: test_recv_cases)
    case none
    then show ?thesis using ok few by (auto simp: test_reply_def)
  next
    case (got out k b)
    let ?p = "(v_a v)\<lparr>p_kcp := k, p_got := p_got (v_a v) @ [out]\<rparr>"
    note num = reply_number [OF ok, of ?p out]
    have step: "peer_step {} (v_a v) ?p" using got(2) by simp
    have b: "take 4 b = object_bytes 4 (v_next v)" using num(4,5) [OF step] got(6) by simp
    then have sn: "object_value (take 4 b) = v_next v" by (simp add: object_value_bytes take_bit_word_eq_self)
    let ?rtt = "current - object_value (take 4 (drop 4 b))"
    define v' where "v' = v\<lparr>v_buffer := b, v_a := ?p, v_next := v_next v + 1, v_sumrtt := v_sumrtt v + uint ?rtt,
      v_count := wrap_i32 (v_count v + 1), v_maxrtt := (if ?rtt > word_of_int (v_maxrtt v) then sint ?rtt else v_maxrtt v)\<rparr>"
    have run: "test_reply current (False, v) = Inr (True, False, v')"
      using got(1) by (simp add: test_reply_def set_side_def Let_def sn v'_def)
    have small: "unat (v_next v) < 2 ^ 30" using num(3) [OF step] by simp
    then have next1: "unat (v_next v + 1) = Suc (unat (v_next v))" by (intro unat_Suc_u32) simp
    have "net_ok v'" by (rule net_ok_same [of v]) (use ok in \<open>simp_all add: test_ok_def v'_def\<close>)
    moreover have "msgs_ok v'" using ok by (simp add: test_ok_def msgs_ok_def v'_def)
    moreover have "pair_inv ?p (v_b v)" using num(1) [OF step] by simp
    moreover have "wrap_i32 (v_count v + 1) = int (unat (v_next v + 1))"
      using small ok unfolding next1 by (subst wrap_i32_id) (simp_all add: test_ok_def)
    ultimately have "test_ok v'" using ok got(3,7) next1 by (simp add: test_ok_def side_ok_def v'_def)
    moreover have "acks r v' \<le> n" for r using few [of r] got(4) by (cases "r = 0") (simp_all add: side_def v'_def)
    moreover have "length (p_sent (v_b v')) - length (p_got (v_a v')) < length (p_sent (v_b v)) - length (p_got (v_a v))"
      using num(2) [OF step] by (simp add: v'_def)
    ultimately show ?thesis using run by blast
  qed
qed

lemma reply_loop_ends:
  assumes "test_ok v" and "\<And>q. acks q v \<le> n"
  shows "\<exists>v'. while_true (test_reply current) (False, v) = Some (Inr (False, v')) \<and> test_ok v' \<and> (\<forall>q. acks q v' \<le> n)"
proof -
  let ?P = "\<lambda>(failed, v). \<not> failed \<and> test_ok v \<and> (\<forall>q. acks q v \<le> n)"
  have "\<exists>go s'. test_reply current s = Inr (go, s') \<and>
      (if go then ?P s' \<and> length (p_sent (v_b (snd s'))) - length (p_got (v_a (snd s'))) < length (p_sent (v_b (snd s))) - length (p_got (v_a (snd s)))
       else ?P s')" if P: "?P s" for s
  proof -
    obtain v where s: "s = (False, v)" "test_ok v" "\<And>q. acks q v \<le> n" using P by (cases s) auto
    from test_reply_ok [OF s(2,3), of current] obtain go v' where "test_reply current (False, v) = Inr (go, False, v')" "test_ok v'"
      "\<forall>q. acks q v' \<le> n" "go \<longrightarrow> length (p_sent (v_b v')) - length (p_got (v_a v')) < length (p_sent (v_b v)) - length (p_got (v_a v))" by blast
    then show ?thesis unfolding s(1) by (intro exI [of _ go] exI [of _ "(False, v')"]) auto
  qed
  from while_true_ends [where P = ?P and s = "(False, v)" and Q = ?P, OF _ this] assms show ?thesis by fastforce
qed

subsection \<open>Rounds\<close>

lemma test_round_ok:
  assumes ok: "test_ok v" and env: "env_ok e" and few: "\<And>q. acks q v \<le> n" "n + 62000 < 2 ^ 31"
  shows "\<exists>v'. test_round e v = Some (Inr (False, v')) \<and> test_ok v' \<and> (\<forall>q. acks q v' \<le> n + 62000)"
proof -
  let ?c = "iclock (te_clock e (v_tick v))" and ?v0 = "v\<lparr>v_tick := Suc (v_tick v)\<rparr>"
  have "net_ok ?v0" by (rule net_ok_same [of v]) (use ok in \<open>simp_all add: test_ok_def\<close>)
  then have v0: "test_ok ?v0" "\<And>q. acks q ?v0 \<le> n" using ok few(1) by (simp_all add: test_ok_def msgs_ok_def)
  have n: "n < 2 ^ 31" using few(2) by simp
  obtain v1 where v1: "test_update e 0 ?v0 = Inr v1" "test_ok v1" "\<And>q. acks q v1 \<le> n" using test_update_ok [OF v0 n, of 0] by blast
  obtain v2 where v2: "test_update e 1 v1 = Inr v2" "test_ok v2" "\<And>q. acks q v2 \<le> n" using test_update_ok [OF v1(2,3) n, of 1] by blast
  have cur: "unat ?c < 2 ^ 32 - 20" using env by (simp add: env_ok_def)
  obtain v3 where v3: "while_true (test_send e ?c) v2 = Some (Inr v3)" "test_ok v3" "\<And>q. acks q v3 \<le> n"
    using send_loop_ok [OF v2(2) env v2(3) cur] by blast
  have "acks 1 v3 + 62000 \<le> n + 62000" using v3(3) [of 1] by simp
  from input_loop_ends [OF v3(2) env _ this few(2)] obtain v4 where v4: "while_true (test_input e 1) v3 = Some (Inr v4)" "test_ok v4"
    "acks 1 v4 \<le> n + 62000" "acks 0 v4 = acks 0 v3" by auto
  have "acks 0 v4 + 62000 \<le> n + 62000" using v3(3) [of 0] v4(4) by simp
  from input_loop_ends [OF v4(2) env _ this few(2)] obtain v5 where v5: "while_true (test_input e 0) v4 = Some (Inr v5)" "test_ok v5"
    "acks 0 v5 \<le> n + 62000" "acks 1 v5 = acks 1 v4" by auto
  have a5: "acks q v5 \<le> n + 62000" for q using v4(3) v5(3,4) by (cases "q = 0") (simp_all add: side_def)
  obtain v6 where v6: "while_true (test_echo e) v5 = Some (Inr v6)" "test_ok v6" "\<And>q. acks q v6 \<le> n + 62000"
    using echo_loop_ends [OF v5(2) env a5] by blast
  obtain v7 where v7: "while_true (test_reply ?c) (False, v6) = Some (Inr (False, v7))" "test_ok v7" "\<forall>q. acks q v7 \<le> n + 62000"
    using reply_loop_ends [OF v6(2,3), of ?c] by blast
  have "test_round e v = Some (Inr (False, v7))"
    unfolding test_round_def Let_def v1(1) rbind_simps v2(1) obind_simps v3(1) v4(1) v5(1) v6(1) v7(1) ..
  with v7(2,3) show ?thesis by blast
qed

lemma test_rounds_ok:
  "test_ok v \<Longrightarrow> env_ok e \<Longrightarrow> (\<And>q. acks q v \<le> n) \<Longrightarrow> n + 62000 * m < 2 ^ 31 \<Longrightarrow>
   \<exists>v'. test_ok v' \<and> (test_rounds e m v = Some (Inr (Running v')) \<or> test_rounds e m v = Some (Inr (Finished v')) \<and> v_next v' > 1000)"
proof (induction m arbitrary: v n)
  case (Suc m)
  have n: "n + 62000 < 2 ^ 31" "n + 62000 + 62000 * m < 2 ^ 31" using Suc.prems(4) by simp_all
  obtain v' where v': "test_round e v = Some (Inr (False, v'))" "test_ok v'" "\<And>q. acks q v' \<le> n + 62000"
    using test_round_ok [OF Suc.prems(1,2,3) n(1)] by blast
  show ?case
  proof (cases "v_next v' > 1000")
    case True
    then show ?thesis using v' by (intro exI [of _ v']) simp
  next
    case False
    then show ?thesis using Suc.IH [OF v'(2) Suc.prems(2) v'(3) n(2)] v'(1) by simp
  qed
qed auto

subsection \<open>The test never fails\<close>

lemma test_config_ok:
  assumes k1: "ikcp_create alloc1 conv u1 = Some k1" and k2: "ikcp_create alloc2 conv u2 = Some k2" and cfg: "test_config mode k1 k2 = (a, b)"
    and k: "k = a \<or> k = b"
  shows "endpoint_ok k" "mute k" "k_snd_nxt k = 0" "k_rcv_nxt k = 0" "k_rcv_queue k = []" "k_rcv_buf k = []"
proof -
  have inv: "kcp_inv (snd (ikcp_nodelay (snd (ikcp_wndsize (ikcp_setoutput j (Some 1)) 128 128)) nd iv rs nc))"
    if "ikcp_create alloc conv u = Some j" for alloc u j nd iv rs nc
    by (intro ikcp_nodelay_inv ikcp_wndsize_inv ikcp_setoutput_inv ikcp_create_inv [OF that]) simp_all
  have fast: "kcp_inv j \<Longrightarrow> kcp_inv (j\<lparr>k_rx_minrto := 10, k_fastresend := 1\<rparr>)" for j
    by (simp add: kcp_inv_def timer_ok_def)
  have "kcp_inv k" using k cfg inv [OF k1] inv [OF k2] fast [OF inv [OF k1]] by (auto simp: test_config_def Let_def split: if_splits)
  moreover have "k_output k \<noteq> None \<and> k_stream k = 0 \<and> unat (k_mtu k) = 1400 \<and> k_rcv_wnd k = 128 \<and> mute k \<and>
      k_snd_nxt k = 0 \<and> k_rcv_nxt k = 0 \<and> k_rcv_queue k = [] \<and> k_rcv_buf k = [] \<and> k_nrcv_que k = 0"
    using k1 k2 k cfg
    by (auto simp: test_config_def Let_def ikcp_create_def ikcp_setoutput_def ikcp_nodelay_def
        ikcp_wndsize_def kcp_consts imax_def mute_def split: if_splits)
  ultimately show "endpoint_ok k" "mute k" "k_snd_nxt k = 0" "k_rcv_nxt k = 0" "k_rcv_queue k = []" "k_rcv_buf k = []"
    by (auto simp: endpoint_ok_def rcv_small_def)
qed

lemma test_start_ok:
  assumes "alloc1 0 \<noteq> None" "alloc1 1 \<noteq> None" "alloc2 0 \<noteq> None" "alloc2 1 \<noteq> None" and buf: "length junk = 2000"
  shows "\<exists>v. test_start e alloc1 alloc2 junk mode = Inr v \<and> test_ok v \<and> (\<forall>q. acks q v \<le> 0)"
proof -
  obtain k1 where k1: "ikcp_create alloc1 0x11223344 0 = Some k1" using assms by (auto simp: ikcp_create_def)
  obtain k2 where k2: "ikcp_create alloc2 0x11223344 1 = Some k2" using assms by (auto simp: ikcp_create_def)
  obtain a b where cfg: "test_config mode k1 k2 = (a, b)" by (cases "test_config mode k1 k2")
  note pa = test_config_ok [OF k1 k2 cfg disjI1 [OF refl]] and pb = test_config_ok [OF k1 k2 cfg disjI2 [OF refl]]
  define v where "v = \<lparr>v_net = sim_new (te_clock e 0) 10 60 125 1000, v_a = \<lparr>p_kcp = a, p_out = {}, p_sent = [], p_got = []\<rparr>,
    v_b = \<lparr>p_kcp = b, p_out = {}, p_sent = [], p_got = []\<rparr>, v_slap = iclock (te_clock e 1) + 20, v_index = 0, v_next = 0,
    v_sumrtt = 0, v_count = 0, v_maxrtt = 0, v_buffer = junk, v_tick = 2\<rparr>"
  have run: "test_start e alloc1 alloc2 junk mode = Inr v" unfolding test_start_def k1 k2 cfg option.case prod.case v_def ..
  have "net_ok v"
    using sim_new_ok [of 10 1000 "te_clock e 0" 60 125] unfolding net_ok_def
    by (intro exI [of _ "\<lambda>_. []"]) (simp add: v_def)
  moreover have "pair_inv (v_a v) (v_b v)"
    unfolding pair_inv_def using pa pb by (intro conjI link_init) (simp_all add: v_def)
  ultimately have "test_ok v" using pa(1) pb(1) buf by (simp add: test_ok_def side_ok_def msgs_ok_def) (simp add: v_def)
  moreover have "acks q v \<le> 0" for q using pa(2) pb(2) by (simp add: side_def v_def mute_def)
  ultimately show ?thesis using run by blast
qed

lemma test_report_ok:
  "test_ok v \<Longrightarrow> v_next v > 1000 \<Longrightarrow> mode \<in> {0, 1, 2} \<Longrightarrow> \<exists>l. test_report mode v = Inr l"
  by (auto simp: test_report_def test_ok_def word_less_nat_alt load_def)

text \<open>
  C3. The test of the protocol never fails. In each of the three modes, whatever \<open>rand\<close> and the clock return and
  however the simulated network delays and loses packets, as long as the clock
  stays 20 ms below its wrap-around and the allocations succeed, and in the first \<open>2 ^ 15\<close> rounds: every loop of a
  round ends, no call faults, no number comes back out of order, and what has come back
  is a prefix of what was sent. When the test ends it prints its report without dividing by zero.
\<close>

theorem kcp_test_never_fails:
  assumes "env_ok e" and "alloc1 0 \<noteq> None" "alloc1 1 \<noteq> None" "alloc2 0 \<noteq> None" "alloc2 1 \<noteq> None"
    and "length junk = 2000" and "mode \<in> {0, 1, 2}" and "n \<le> 2 ^ 15"
  shows "\<exists>r. kcp_test e alloc1 alloc2 junk n mode = Some (Inr r) \<and> (\<forall>v. r \<noteq> Error v) \<and>
    (\<forall>v. r = Ongoing v \<longrightarrow> prefix (p_got (v_a v)) (p_sent (v_a v)) \<and> length (p_got (v_a v)) = unat (v_next v))"
proof -
  obtain v where v: "test_start e alloc1 alloc2 junk mode = Inr v" "test_ok v" "\<And>q. acks q v \<le> 0"
    using test_start_ok [OF assms(2-6)] by blast
  have n: "0 + 62000 * n < 2 ^ 31" using assms(8) by simp
  obtain v' where v': "test_ok v'" and run: "test_rounds e n v = Some (Inr (Running v')) \<or>
      test_rounds e n v = Some (Inr (Finished v')) \<and> v_next v' > 1000"
    using test_rounds_ok [OF v(2) assms(1) v(3) n] by blast
  have pre: "prefix (p_got (v_a v')) (p_sent (v_a v'))" "length (p_got (v_a v')) = unat (v_next v')"
    using v' pair_prefix [of "v_a v'" "v_b v'"] pair_prefix [of "v_b v'" "v_a v'"]
    by (auto simp: test_ok_def dest: pair_inv_sym intro: prefix_order.trans)
  from run show ?thesis
  proof (elim disjE conjE)
    assume "test_rounds e n v = Some (Inr (Running v'))"
    then have "kcp_test e alloc1 alloc2 junk n mode = Some (Inr (Ongoing v'))" by (simp add: kcp_test_def v(1))
    with pre show ?thesis by auto
  next
    assume fin: "test_rounds e n v = Some (Inr (Finished v'))" and "v_next v' > 1000"
    then obtain l where "test_report mode v' = Inr l" using test_report_ok [OF v' _ assms(7)] by blast
    with fin have "kcp_test e alloc1 alloc2 junk n mode = Some (Inr (Report l))" by (simp add: kcp_test_def v(1))
    then show ?thesis by auto
  qed
qed

definition example_test_env :: test_env where
  "example_test_env = \<lparr>te_clock = (\<lambda>_. (1, 0)), te_rand = (\<lambda>i. i), te_acks = (\<lambda>_ _. Some (\<lambda>_. 0)), te_segs = (\<lambda>_. example_alloc)\<rparr>"

theorem kcp_test_never_fails_witness:
  "\<exists>r. kcp_test example_test_env (\<lambda>_. Some (\<lambda>_. 0)) (\<lambda>_. Some (\<lambda>_. 0)) (replicate 2000 0) 3 2 = Some (Inr r) \<and> (\<forall>v. r \<noteq> Error v)"
proof -
  have "env_ok example_test_env" by (simp add: env_ok_def example_test_env_def example_alloc_def iclock_wraps iclock64_def)
  then show ?thesis
    using kcp_test_never_fails [of example_test_env "\<lambda>_. Some (\<lambda>_. 0)" "\<lambda>_. Some (\<lambda>_. 0)" "replicate 2000 0" 2 3] by auto
qed

subsection \<open>Where the clock wraps\<close>

text \<open>
  The condition \<open>current >= slap\<close> compares unsigned times. At the last millisecond before the wrap-around of the
  clock, every 50 days, it is always true: the loop that sends never returns.
\<close>

lemma while_true_forever:
  assumes "while_true body s = Some r" and "\<And>s go s'. body s = Inr (go, s') \<Longrightarrow> go"
  shows "\<exists>err. r = Inl err"
proof -
  have "(\<forall>s go s'. body s = Inr (go, s') \<longrightarrow> go) \<longrightarrow> (\<exists>err. r = Inl err)"
  proof (rule while_true.raw_induct [where P = "\<lambda>body s r. (\<forall>s go s'. body s = Inr (go, s') \<longrightarrow> go) \<longrightarrow> (\<exists>err. r = Inl err)", OF _ assms(1)], intro impI)
    fix loop :: "('a \<Rightarrow> (bool \<times> 'a) cresult) \<Rightarrow> 'a \<Rightarrow> 'a cresult option" and body s r
    assume IH: "\<And>body s r. loop body s = Some r \<Longrightarrow> (\<forall>s go s'. body s = Inr (go, s') \<longrightarrow> go) \<longrightarrow> (\<exists>err. r = Inl err)"
      and eq: "(case body s of Inl err \<Rightarrow> Some (Inl err) | Inr (go, s) \<Rightarrow> if go then loop body s else Some (Inr s)) = Some r"
      and go: "\<forall>s go s'. body s = Inr (go, s') \<longrightarrow> go"
    show "\<exists>err. r = Inl err"
      using eq go IH [of body _ r] by (cases "body s") (auto split: prod.splits if_splits)
  qed
  with assms(2) show ?thesis by blast
qed

lemma send_loop_at_wrap: "while_true (test_send e (- 1)) v \<noteq> Some (Inr v')"
proof
  assume "while_true (test_send e (- 1)) v = Some (Inr v')"
  from while_true_forever [OF this] show False by (auto simp: test_send_def Let_def rbind_Inr_iff)
qed

end
