(* ===== verification/EventLoop.thy ===== *)
theory EventLoop
  imports CPrelude
begin

text \<open>
  The event loop shared by the epoll servers (\<open>epoll/epoll_v1.c\<close>, \<open>epoll/epoll_v2.c\<close>,
  \<open>c10M/server.c\<close>, \<open>websocket/websocket.c\<close>, \<open>websocket/epoll_websocket.c\<close>): one heap item per socket with
  the callback that handles its next event, a registration of each socket at the kernel, and
  a loop that calls the callback of every item the kernel reports.

  The kernel's part is an argument: what \<open>epoll_wait\<close>, \<open>accept\<close>, \<open>recv\<close>, \<open>send\<close> and \<open>malloc\<close> return, as values of
  \<open>event\<close> and \<open>os\<close>. The registrations, the open descriptors and the bytes that went in and out per
  descriptor are part of the state \<open>server\<close>. What the calls are documented to respect (\<open>ready\<close>, \<open>os_ok\<close>) is a
  hypothesis of the theorems. Text printed on the terminal is not recorded, but a \<open>printf\<close> that reads a buffer
  with \<open>%s\<close> is a step of its own (\<open>print_buffer\<close>): it runs past the buffer when that holds no zero byte.
  A \<open>send\<close> on a connection the client has closed may end the process by a signal; a run is then one
  that stops there. A change of a registration (\<open>EPOLL_CTL_MOD\<close>, which allocates nothing) is taken to
  succeed; a new one (\<open>EPOLL_CTL_ADD\<close>) may be refused.
\<close>

subsection \<open>Registrations\<close>

type_synonym ptr = nat
type_synonym fd = int

definition EPOLLIN :: u32 where "EPOLLIN = 0x001"
definition EPOLLOUT :: u32 where "EPOLLOUT = 0x004"
definition EPOLLERR :: u32 where "EPOLLERR = 0x008"
definition EPOLLHUP :: u32 where "EPOLLHUP = 0x010"
definition EPOLLET :: u32 where "EPOLLET = 0x80000000"

lemmas epoll_defs = EPOLLIN_def EPOLLOUT_def EPOLLERR_def EPOLLHUP_def EPOLLET_def

definition BUFFER_SIZE :: nat where "BUFFER_SIZE = 1024"

text \<open>The function a callback pointer points to, and the item of a socket.\<close>

datatype handler = Accept_CB | Recv_CB | Send_CB

record sockitem =
  sock_fd :: fd
  callback :: handler
  recv_buffer :: bytes
  send_buffer :: bytes

record sockitem_len = sockitem +
  rlength :: int
  slength :: int

record 'i server =
  items :: "ptr \<rightharpoonup> 'i"
  interest :: "fd \<rightharpoonup> u32 \<times> ptr"
  opened :: "fd set"
  in_bytes :: "fd \<Rightarrow> bytes"
  out_bytes :: "fd \<Rightarrow> bytes"
  refused :: "fd set" \<comment> \<open>the descriptors that \<open>epoll_ctl\<close> did not register\<close>

datatype received = Recv_Again | Recv_Failed | Recv_Data bytes

text \<open>
  The results of the system calls of one callback. A fresh block has unspecified contents, the
  second component of \<open>os_malloc\<close>.
\<close>

record 'i os =
  os_accept :: int
  os_malloc :: "ptr \<times> 'i"
  os_recv :: received
  os_send :: int
  os_ctl :: int \<comment> \<open>the result of \<open>epoll_ctl\<close> for a new descriptor\<close>

record 'i event =
  ev_ptr :: ptr
  ev_events :: u32
  ev_os1 :: "'i os"
  ev_os2 :: "'i os"

subsection \<open>System calls\<close>

definition epoll_add :: "int \<Rightarrow> fd \<Rightarrow> u32 \<Rightarrow> ptr \<Rightarrow> 'i server \<Rightarrow> 'i server" where
  "epoll_add ctl fd ev p s =
     (if 0 \<le> ctl \<and> fd \<in> opened s \<and> interest s fd = None then s\<lparr>interest := (interest s)(fd \<mapsto> (ev, p))\<rparr>
      else s\<lparr>refused := insert fd (refused s)\<rparr>)"

definition epoll_mod :: "fd \<Rightarrow> u32 \<Rightarrow> ptr \<Rightarrow> 'i server \<Rightarrow> 'i server" where
  "epoll_mod fd ev p s = (if interest s fd = None then s else s\<lparr>interest := (interest s)(fd \<mapsto> (ev, p))\<rparr>)"

definition epoll_del :: "fd \<Rightarrow> 'i server \<Rightarrow> 'i server" where
  "epoll_del fd s = s\<lparr>interest := (interest s)(fd := None)\<rparr>"

text \<open>Closing a descriptor ends its registration.\<close>

definition close :: "fd \<Rightarrow> 'i server \<Rightarrow> 'i server" where
  "close fd s = s\<lparr>opened := opened s - {fd}, interest := (interest s)(fd := None)\<rparr>"

definition open_fd :: "fd \<Rightarrow> 'i server \<Rightarrow> 'i server" where
  "open_fd fd s = s\<lparr>opened := insert fd (opened s), in_bytes := (in_bytes s)(fd := []), out_bytes := (out_bytes s)(fd := [])\<rparr>"

definition free_item :: "ptr \<Rightarrow> 'i server \<Rightarrow> 'i server cresult" where
  "free_item p s = (if items s p = None then Inl Bad_Free else Inr (s\<lparr>items := (items s)(p := None)\<rparr>))"

definition update_item :: "ptr \<Rightarrow> ('i \<Rightarrow> 'i) \<Rightarrow> 'i server \<Rightarrow> 'i server cresult" where
  "update_item p f s = (case items s p of None \<Rightarrow> Inl Wild_Pointer | Some it \<Rightarrow> Inr (s\<lparr>items := (items s)(p \<mapsto> f it)\<rparr>))"

definition log_in :: "fd \<Rightarrow> bytes \<Rightarrow> 'i server \<Rightarrow> 'i server" where
  "log_in fd d s = s\<lparr>in_bytes := (in_bytes s)(fd := in_bytes s fd @ d)\<rparr>"

definition send :: "fd \<Rightarrow> bytes \<Rightarrow> 'i os \<Rightarrow> 'i server \<Rightarrow> 'i server" where
  "send fd d o' s = s\<lparr>out_bytes := (out_bytes s)(fd := out_bytes s fd @ take (nat (os_send o')) d)\<rparr>"

text \<open>The string that starts at the beginning of a buffer, as \<open>strlen\<close>, \<open>printf\<close> and the like read it.\<close>

definition c_string :: "bytes \<Rightarrow> bytes cresult" where
  "c_string b = (if 0 \<in> set b then Inr (takeWhile (\<lambda>c. c \<noteq> 0) b) else Inl Out_Of_Bounds)"

subsection \<open>The parts of the callbacks that the servers share\<close>

text \<open>A new item, registered for input; the code does not test the results of \<open>malloc\<close> and \<open>epoll_ctl\<close>.\<close>

definition add_item :: "int \<Rightarrow> u32 \<Rightarrow> fd \<Rightarrow> ptr \<Rightarrow> 'i \<Rightarrow> 'i server \<Rightarrow> 'i server cresult" where
  "add_item ctl ev fd p it s =
     (if p = 0 then Inl Null_Deref else Inr (epoll_add ctl fd ev p (s\<lparr>items := (items s)(p \<mapsto> it)\<rparr>)))"

text \<open>\<open>printf("... %s", si->recv_buffer)\<close>.\<close>

definition print_buffer :: "ptr \<Rightarrow> 'a sockitem_scheme server \<Rightarrow> 'a sockitem_scheme server cresult" where
  "print_buffer p s =
     (case items s p of None \<Rightarrow> Inl Wild_Pointer | Some it \<Rightarrow> rbind (c_string (recv_buffer it)) (\<lambda>_. Inr s))"

definition drop_client :: "fd \<Rightarrow> ptr \<Rightarrow> 'i server \<Rightarrow> 'i server cresult" where
  "drop_client fd p s = free_item p (close fd (epoll_del fd s))"

text \<open>The end of \<open>recv\<close> and \<open>send\<close> callbacks: the other callback, and the registration for its event.\<close>

definition rearm :: "handler \<Rightarrow> u32 \<Rightarrow> fd \<Rightarrow> ptr \<Rightarrow> 'a sockitem_scheme server \<Rightarrow> 'a sockitem_scheme server cresult" where
  "rearm h ev fd p s =
     rbind (update_item p (\<lambda>it. it\<lparr>sock_fd := fd, callback := h\<rparr>) s) (\<lambda>s. Inr (epoll_mod fd ev p s))"

subsection \<open>The loop\<close>

definition dispatch ::
  "(handler \<Rightarrow> fd \<Rightarrow> ptr \<Rightarrow> 'a sockitem_scheme os \<Rightarrow> 'a sockitem_scheme server \<Rightarrow> (int \<times> 'a sockitem_scheme server) cresult) \<Rightarrow>
   ptr \<Rightarrow> 'a sockitem_scheme os \<Rightarrow> 'a sockitem_scheme server \<Rightarrow> 'a sockitem_scheme server cresult" where
  "dispatch call p o' s =
     (case items s p of
        None \<Rightarrow> Inl Wild_Pointer
      | Some it \<Rightarrow> rbind (call (callback it) (sock_fd it) p o' s) (\<lambda>(r, s). Inr s))"

definition handle_event ::
  "(handler \<Rightarrow> fd \<Rightarrow> ptr \<Rightarrow> 'a sockitem_scheme os \<Rightarrow> 'a sockitem_scheme server \<Rightarrow> (int \<times> 'a sockitem_scheme server) cresult) \<Rightarrow>
   'a sockitem_scheme event \<Rightarrow> 'a sockitem_scheme server \<Rightarrow> 'a sockitem_scheme server cresult" where
  "handle_event call e s =
     rbind (if ev_events e AND EPOLLIN \<noteq> 0 then dispatch call (ev_ptr e) (ev_os1 e) s else Inr s) (\<lambda>s.
     if ev_events e AND EPOLLOUT \<noteq> 0 then dispatch call (ev_ptr e) (ev_os2 e) s else Inr s)"

fun handle_events :: "('e \<Rightarrow> 's \<Rightarrow> 's cresult) \<Rightarrow> 'e list \<Rightarrow> 's \<Rightarrow> 's cresult" where
  "handle_events h [] s = Inr s"
| "handle_events h (e # es) s = rbind (h e s) (handle_events h es)"

text \<open>
  The endless loop, for the list of the results of \<open>epoll_wait\<close> up to the moment of observation.
\<close>

fun event_loop :: "('e \<Rightarrow> 's \<Rightarrow> 's cresult) \<Rightarrow> (int \<times> 'e list) list \<Rightarrow> 's \<Rightarrow> 's cresult" where
  "event_loop h [] s = Inr s"
| "event_loop h ((nready, es) # bs) s =
     (if nready < -1 then Inr s
      else rbind (handle_events h (take (nat nready) es) s) (event_loop h bs))"

subsection \<open>Servers driven by events\<close>

text \<open>The conditions on what the kernel does along a run.\<close>

fun env_along :: "('e \<Rightarrow> 's \<Rightarrow> 's cresult) \<Rightarrow> ('s \<Rightarrow> 'e \<Rightarrow> bool) \<Rightarrow> 'e list \<Rightarrow> 's \<Rightarrow> bool" where
  "env_along h env [] s \<longleftrightarrow> True"
| "env_along h env (e # es) s \<longleftrightarrow> env s e \<and> (case h e s of Inl _ \<Rightarrow> True | Inr s' \<Rightarrow> env_along h env es s')"

fun loop_env ::
  "('e \<Rightarrow> 's \<Rightarrow> 's cresult) \<Rightarrow> ('s \<Rightarrow> 'e \<Rightarrow> bool) \<Rightarrow> ('s \<Rightarrow> 'e \<Rightarrow> bool) \<Rightarrow> ('e \<Rightarrow> 'k) \<Rightarrow> (int \<times> 'e list) list \<Rightarrow> 's \<Rightarrow> bool" where
  "loop_env h env rdy key [] s \<longleftrightarrow> True"
| "loop_env h env rdy key ((nready, es) # bs) s \<longleftrightarrow>
     (nready = -1 \<or> nready = int (length es) \<and> list_all (rdy s) es \<and> distinct (map key es) \<and> env_along h env es s) \<and>
     (case handle_events h (take (nat nready) es) s of Inl _ \<Rightarrow> True | Inr s' \<Rightarrow> loop_env h env rdy key bs s')"

text \<open>
  The contract of a server: an event on a registered socket is handled without an error, keeps the
  invariant, and leaves the events on other sockets valid; or it ends in one of the faults \<open>flt\<close> that the
  event may cause. The loop then ends in no other fault, whatever the kernel reports and in whatever order.
\<close>

locale event_driven =
  fixes inv :: "'s \<Rightarrow> bool"
    and env :: "'s \<Rightarrow> 'e \<Rightarrow> bool"
    and rdy :: "'s \<Rightarrow> 'e \<Rightarrow> bool"
    and key :: "'e \<Rightarrow> 'k"
    and handle :: "'e \<Rightarrow> 's \<Rightarrow> 's cresult"
    and flt :: "'e \<Rightarrow> c_error \<Rightarrow> bool"
  assumes handled: "inv s \<Longrightarrow> rdy s e \<Longrightarrow> env s e \<Longrightarrow>
    (\<exists>s'. handle e s = Inr s' \<and> inv s' \<and> (\<forall>e'. key e' \<noteq> key e \<longrightarrow> rdy s e' \<longrightarrow> rdy s' e')) \<or>
    (\<exists>x. handle e s = Inl x \<and> flt e x)"
begin

lemma batch_safe:
  assumes "inv s" and "list_all (rdy s) es" and "distinct (map key es)" and "env_along handle env es s"
  shows "(\<exists>s'. handle_events handle es s = Inr s' \<and> inv s') \<or> (\<exists>x. handle_events handle es s = Inl x \<and> (\<exists>e\<in>set es. flt e x))"
  using assms
proof (induction es arbitrary: s)
  case (Cons e es)
  from handled [of s e] Cons.prems
  consider (ok) s' where "handle e s = Inr s'" "inv s'" "\<forall>e'. key e' \<noteq> key e \<longrightarrow> rdy s e' \<longrightarrow> rdy s' e'"
    | (fault) x where "handle e s = Inl x" "flt e x" by auto
  then show ?case
  proof cases
    case (ok s')
    have "rdy s' e'" if "e' \<in> set es" for e'
    proof -
      have "key e' \<noteq> key e" using Cons.prems(3) that by (metis distinct.simps(2) image_eqI list.set_map list.simps(9))
      then show ?thesis using Cons.prems(2) ok(3) that by (simp add: list_all_iff)
    qed
    then have "list_all (rdy s') es" by (simp add: list_all_iff)
    then show ?thesis using Cons.IH [of s'] Cons.prems ok by auto
  qed simp
qed simp

lemma loop_safe:
  assumes "inv s" and "loop_env handle env rdy key bs s"
  shows "(\<exists>s'. event_loop handle bs s = Inr s' \<and> inv s') \<or>
    (\<exists>x. event_loop handle bs s = Inl x \<and> (\<exists>b\<in>set bs. \<exists>e\<in>set (take (nat (fst b)) (snd b)). flt e x))"
  using assms
proof (induction bs arbitrary: s)
  case (Cons b bs)
  obtain n es where b: "b = (n, es)" by (cases b)
  have n: "\<not> n < -1" using Cons.prems(2) b by auto
  have "(\<exists>s'. handle_events handle (take (nat n) es) s = Inr s' \<and> inv s') \<or>
    (\<exists>x. handle_events handle (take (nat n) es) s = Inl x \<and> (\<exists>e\<in>set (take (nat n) es). flt e x))"
  proof (cases "n = -1")
    case False
    then show ?thesis using Cons.prems b batch_safe by auto
  qed (use Cons.prems in simp)
  then consider (ok) s' where "handle_events handle (take (nat n) es) s = Inr s'" "inv s'"
    | (fault) x where "handle_events handle (take (nat n) es) s = Inl x" "\<exists>e\<in>set (take (nat n) es). flt e x" by blast
  then show ?case
  proof cases
    case (ok s')
    then have "loop_env handle env rdy key bs s'" using Cons.prems(2) b by simp
    then show ?thesis using Cons.IH [OF ok(2)] ok n b by auto
  qed (use b n in auto)
qed simp

text \<open>A server whose events cause no fault.\<close>

lemma batch_total:
  assumes "\<And>e x. \<not> flt e x"
    and "inv s" and "list_all (rdy s) es" and "distinct (map key es)" and "env_along handle env es s"
  shows "\<exists>s'. handle_events handle es s = Inr s' \<and> inv s'"
  using batch_safe [OF assms(2-5)] assms(1) by auto

end

subsection \<open>Servers with callbacks\<close>

text \<open>The registration that belongs to a callback.\<close>

fun armed :: "handler \<Rightarrow> u32" where
  "armed Accept_CB = EPOLLIN"
| "armed Recv_CB = EPOLLIN OR EPOLLET"
| "armed Send_CB = EPOLLOUT OR EPOLLET"

text \<open>
  Every registration carries the pointer of an allocated item of the same descriptor, whose callback
  is the one for the registered event and whose data satisfy \<open>Q\<close>; and every item, except those that \<open>epoll_ctl\<close> refused, is registered.
\<close>

definition conn_ok :: "(bytes \<Rightarrow> bytes \<Rightarrow> 'a sockitem_scheme \<Rightarrow> bool) \<Rightarrow> 'a sockitem_scheme server \<Rightarrow> fd \<Rightarrow> u32 \<Rightarrow> ptr \<Rightarrow> bool" where
  "conn_ok Q s fd ev p \<longleftrightarrow>
     fd \<in> opened s \<and> 0 \<le> fd \<and>
     (\<exists>it. items s p = Some it \<and> sock_fd it = fd \<and> ev = armed (callback it) \<and> Q (in_bytes s fd) (out_bytes s fd) it)"

definition server_inv :: "(bytes \<Rightarrow> bytes \<Rightarrow> 'a sockitem_scheme \<Rightarrow> bool) \<Rightarrow> 'a sockitem_scheme server \<Rightarrow> bool" where
  "server_inv Q s \<longleftrightarrow>
     (\<forall>fd ev p. interest s fd = Some (ev, p) \<longrightarrow> conn_ok Q s fd ev p) \<and>
     (\<forall>p it. items s p = Some it \<longrightarrow> sock_fd it \<in> refused s \<or> (\<exists>ev. interest s (sock_fd it) = Some (ev, p)))"

lemma server_inv_conn: "server_inv Q s \<Longrightarrow> interest s fd = Some (ev, p) \<Longrightarrow> conn_ok Q s fd ev p"
  by (simp add: server_inv_def)

lemma server_inv_item:
  "server_inv Q s \<Longrightarrow> items s p = Some it \<Longrightarrow> sock_fd it \<in> refused s \<or> (\<exists>ev. interest s (sock_fd it) = Some (ev, p))"
  by (simp add: server_inv_def)

text \<open>What \<open>epoll_wait\<close> reports: a registered pointer, with events asked for, or an error.\<close>

definition ready :: "'i server \<Rightarrow> 'i event \<Rightarrow> bool" where
  "ready s e \<longleftrightarrow>
     (\<exists>fd ev. interest s fd = Some (ev, ev_ptr e) \<and> ev_events e AND NOT (ev OR EPOLLERR OR EPOLLHUP) = 0)"

text \<open>What the other calls return: descriptors that were not open, no more bytes than asked for, and fresh blocks (no server tests whether \<open>malloc\<close> failed).\<close>

definition os_ok :: "('i \<Rightarrow> bool) \<Rightarrow> 'i server \<Rightarrow> 'i os \<Rightarrow> bool" where
  "os_ok J s o' \<longleftrightarrow>
     (0 \<le> os_accept o' \<longrightarrow> os_accept o' \<notin> opened s) \<and>
     fst (os_malloc o') \<noteq> 0 \<and> items s (fst (os_malloc o')) = None \<and> J (snd (os_malloc o')) \<and>
     (case os_recv o' of Recv_Data d \<Rightarrow> length d \<le> BUFFER_SIZE | _ \<Rightarrow> True)"

lemma reported_subset:
  assumes "r AND NOT m = 0" and "m AND x = 0"
  shows "r AND x = (0 :: u32)"
proof (rule bit_eqI)
  fix n
  have "bit (r AND NOT m) n = False" "bit (m AND x) n = False" using assms by simp_all
  then show "bit (r AND x) n = bit 0 n" if "possible_bit TYPE(u32) n" using that by (auto simp: bit_simps)
qed

lemma reported_armed:
  assumes "r AND NOT (armed h OR EPOLLERR OR EPOLLHUP) = 0"
  shows "r AND EPOLLIN = 0 \<or> r AND EPOLLOUT = 0"
proof (cases h)
  case Send_CB
  have "(armed Send_CB OR EPOLLERR OR EPOLLHUP) AND EPOLLIN = 0" by (simp add: epoll_defs)
  then show ?thesis using assms reported_subset Send_CB by blast
next
  case Recv_CB
  have "(armed Recv_CB OR EPOLLERR OR EPOLLHUP) AND EPOLLOUT = 0" by (simp add: epoll_defs)
  then show ?thesis using assms reported_subset Recv_CB by blast
next
  case Accept_CB
  have "(armed Accept_CB OR EPOLLERR OR EPOLLHUP) AND EPOLLOUT = 0" by (simp add: epoll_defs)
  then show ?thesis using assms reported_subset Accept_CB by blast
qed

definition others_kept :: "fd \<Rightarrow> 'i server \<Rightarrow> 'i server \<Rightarrow> bool" where
  "others_kept fd s s' \<longleftrightarrow> (\<forall>fd' x. fd' \<noteq> fd \<longrightarrow> interest s fd' = Some x \<longrightarrow> interest s' fd' = Some x)"

lemma others_kept_refl [simp]: "others_kept fd s s"
  by (simp add: others_kept_def)

definition kernel_ok :: "('i \<Rightarrow> bool) \<Rightarrow> ('i os \<Rightarrow> bool) \<Rightarrow> 'i server \<Rightarrow> 'i event \<Rightarrow> bool" where
  "kernel_ok J fair s e \<longleftrightarrow> os_ok J s (ev_os1 e) \<and> os_ok J s (ev_os2 e) \<and> fair (ev_os1 e) \<and> fair (ev_os2 e)"

text \<open>The common end of the callbacks: a step and a constant result, or a fault that \<open>P\<close> allows.\<close>

definition returns_ok :: "(bytes \<Rightarrow> bytes \<Rightarrow> 'a sockitem_scheme \<Rightarrow> bool) \<Rightarrow> (c_error \<Rightarrow> bool) \<Rightarrow> fd \<Rightarrow> 'a sockitem_scheme server \<Rightarrow>
    (int \<times> 'a sockitem_scheme server) cresult \<Rightarrow> bool" where
  "returns_ok Q P fd s m \<longleftrightarrow> (\<exists>r s'. m = Inr (r, s') \<and> server_inv Q s' \<and> others_kept fd s s') \<or> (\<exists>x. m = Inl x \<and> P x)"

lemma returns_ok_const:
  "\<exists>s'. m = Inr s' \<and> server_inv Q s' \<and> others_kept fd s s' \<Longrightarrow> returns_ok Q P fd s (rbind m (\<lambda>s. Inr (k, s)))"
  by (auto simp: returns_ok_def)

lemma returns_ok_same: "server_inv Q s \<Longrightarrow> returns_ok Q P fd s (Inr (k, s))"
  by (auto simp: returns_ok_def)

text \<open>The results of the system calls that an event makes use of, and the messages they bring.\<close>

definition event_os :: "'i event \<Rightarrow> 'i os set" where
  "event_os e =
     (if ev_events e AND EPOLLIN \<noteq> 0 then {ev_os1 e} else {}) \<union> (if ev_events e AND EPOLLOUT \<noteq> 0 then {ev_os2 e} else {})"

definition messages :: "(int \<times> 'i event list) list \<Rightarrow> bytes set" where
  "messages bs = {d. \<exists>b\<in>set bs. \<exists>e\<in>set (take (nat (fst b)) (snd b)). \<exists>o'\<in>event_os e. os_recv o' = Recv_Data d}"

definition event_fault :: "('i os \<Rightarrow> c_error \<Rightarrow> bool) \<Rightarrow> 'i event \<Rightarrow> c_error \<Rightarrow> bool" where
  "event_fault bad e x \<longleftrightarrow> (\<exists>o'\<in>event_os e. bad o' x)"

text \<open>The only fault of the echo servers: a message without a zero byte is printed as a string.\<close>

definition overread :: "'i os \<Rightarrow> c_error \<Rightarrow> bool" where
  "overread o' x \<longleftrightarrow> x = Out_Of_Bounds \<and> (\<exists>d. os_recv o' = Recv_Data d \<and> 0 \<notin> set d)"

lemma overread_message:
  "\<exists>b\<in>set bs. \<exists>e\<in>set (take (nat (fst b)) (snd b)). event_fault overread e x \<Longrightarrow> x = Out_Of_Bounds \<and> (\<exists>d\<in>messages bs. 0 \<notin> set d)"
  by (auto simp: event_fault_def overread_def messages_def)

text \<open>
  The contract of the callbacks. It gives the contract of the server, because an event never asks for
  two callbacks: a registration is for input or for output.
\<close>

locale callback_server =
  fixes call :: "handler \<Rightarrow> fd \<Rightarrow> ptr \<Rightarrow> 'a sockitem_scheme os \<Rightarrow> 'a sockitem_scheme server \<Rightarrow> (int \<times> 'a sockitem_scheme server) cresult"
    and Q :: "bytes \<Rightarrow> bytes \<Rightarrow> 'a sockitem_scheme \<Rightarrow> bool"
    and J :: "'a sockitem_scheme \<Rightarrow> bool"
    and fair :: "'a sockitem_scheme os \<Rightarrow> bool"
    and bad :: "'a sockitem_scheme os \<Rightarrow> c_error \<Rightarrow> bool"
  assumes callback_ok: "server_inv Q s \<Longrightarrow> interest s fd = Some (armed (callback it), p) \<Longrightarrow> items s p = Some it \<Longrightarrow>
    sock_fd it = fd \<Longrightarrow> Q (in_bytes s fd) (out_bytes s fd) it \<Longrightarrow> fd \<in> opened s \<Longrightarrow> 0 \<le> fd \<Longrightarrow> os_ok J s o' \<Longrightarrow> fair o' \<Longrightarrow>
    returns_ok Q (bad o') fd s (call (callback it) fd p o' s)"
begin

lemma event_ok:
  assumes inv: "server_inv Q s" and rdy: "ready s e" and env: "kernel_ok J fair s e"
  shows "(\<exists>s'. handle_event call e s = Inr s' \<and> server_inv Q s' \<and> (\<forall>e'. ev_ptr e' \<noteq> ev_ptr e \<longrightarrow> ready s e' \<longrightarrow> ready s' e')) \<or>
    (\<exists>x. handle_event call e s = Inl x \<and> event_fault bad e x)"
proof -
  obtain fd ev where reg: "interest s fd = Some (ev, ev_ptr e)" "ev_events e AND NOT (ev OR EPOLLERR OR EPOLLHUP) = 0"
    using rdy by (auto simp: ready_def)
  then obtain it where it: "items s (ev_ptr e) = Some it" "sock_fd it = fd" "ev = armed (callback it)"
      "Q (in_bytes s fd) (out_bytes s fd) it" "fd \<in> opened s" "0 \<le> fd"
    using server_inv_conn [OF inv reg(1)] by (auto simp: conn_ok_def)
  have run: "(\<exists>s'. dispatch call (ev_ptr e) o' s = Inr s' \<and> server_inv Q s' \<and> others_kept fd s s') \<or>
      (\<exists>x. dispatch call (ev_ptr e) o' s = Inl x \<and> bad o' x)" if "os_ok J s o'" "fair o'" for o'
    using callback_ok [OF inv reg(1) [unfolded it(3)] it(1,2,4-6) that] it(1,2) by (auto simp: dispatch_def returns_ok_def)
  have ready: "ready s' e'" if s': "others_kept fd s s'" and ne: "ev_ptr e' \<noteq> ev_ptr e" and r: "ready s e'" for s' e'
  proof -
    obtain x ev' where x: "interest s x = Some (ev', ev_ptr e')" "ev_events e' AND NOT (ev' OR EPOLLERR OR EPOLLHUP) = 0"
      using r by (auto simp: ready_def)
    then have "x \<noteq> fd" using reg(1) ne by auto
    then have "interest s' x = Some (ev', ev_ptr e')" using s' x(1) by (simp add: others_kept_def)
    then show ?thesis using x(2) unfolding ready_def by blast
  qed
  have "(\<exists>s'. handle_event call e s = Inr s' \<and> server_inv Q s' \<and> others_kept fd s s') \<or>
    (\<exists>x. handle_event call e s = Inl x \<and> event_fault bad e x)"
    using run [of "ev_os1 e"] run [of "ev_os2 e"] env inv reported_armed [OF reg(2) [unfolded it(3)]]
    by (auto simp: handle_event_def kernel_ok_def event_fault_def event_os_def)
  then show ?thesis using ready by blast
qed

end

sublocale callback_server \<subseteq> event_driven "server_inv Q" "kernel_ok J fair" ready ev_ptr "handle_event call" "event_fault bad"
  by unfold_locales (rule event_ok)

subsection \<open>The state changes of the callbacks\<close>

lemma accept_step:
  assumes inv: "server_inv Q s" and new: "fd \<notin> opened s" "0 \<le> fd" and p: "p \<noteq> 0" "items s p = None"
    and it: "sock_fd it = fd" "callback it = Recv_CB" "Q [] [] it"
  shows "\<exists>s'. add_item ctl (EPOLLIN OR EPOLLET) fd p it (open_fd fd s) = Inr s' \<and> server_inv Q s' \<and> others_kept fd' s s'"
proof -
  let ?s = "s\<lparr>opened := insert fd (opened s), in_bytes := (in_bytes s)(fd := []), out_bytes := (out_bytes s)(fd := []),
    items := (items s)(p \<mapsto> it),
    interest := (if 0 \<le> ctl then (interest s)(fd \<mapsto> (EPOLLIN OR EPOLLET, p)) else interest s),
    refused := (if 0 \<le> ctl then refused s else insert fd (refused s))\<rparr>"
  have none: "interest s fd = None" using new server_inv_conn [OF inv, of fd] by (cases "interest s fd") (auto simp: conn_ok_def)
  then have "add_item ctl (EPOLLIN OR EPOLLET) fd p it (open_fd fd s) = Inr ?s"
    using p by (simp add: add_item_def open_fd_def epoll_add_def)
  moreover have "conn_ok Q ?s x ev q" if "interest ?s x = Some (ev, q)" for x ev q
  proof (cases "x = fd")
    case False
    then have "conn_ok Q s x ev q" using inv that by (simp add: server_inv_def split: if_splits)
    then show ?thesis using False p by (auto simp: conn_ok_def)
  qed (use that new it none in \<open>auto simp: conn_ok_def split: if_splits\<close>)
  moreover have "sock_fd i \<in> refused ?s \<or> (\<exists>ev. interest ?s (sock_fd i) = Some (ev, q))" if "items ?s q = Some i" for q i
    using server_inv_item [OF inv, of q i] that it none by (auto split: if_splits)
  moreover have "others_kept fd' s ?s" using none by (auto simp: others_kept_def)
  ultimately show ?thesis unfolding server_inv_def by blast
qed

lemma drop_step:
  assumes inv: "server_inv Q s" and reg: "interest s fd = Some (ev, p)"
  shows "\<exists>s'. drop_client fd p s = Inr s' \<and> server_inv Q s' \<and> others_kept fd s s'"
proof -
  let ?s = "s\<lparr>opened := opened s - {fd}, interest := (interest s)(fd := None), items := (items s)(p := None)\<rparr>"
  obtain it where it: "items s p = Some it" "sock_fd it = fd" using server_inv_conn [OF inv reg] by (auto simp: conn_ok_def)
  then have "drop_client fd p s = Inr ?s" by (simp add: drop_client_def free_item_def close_def epoll_del_def)
  moreover have "conn_ok Q ?s x e q" if "interest ?s x = Some (e, q)" for x e q
  proof -
    have x: "x \<noteq> fd" "conn_ok Q s x e q" using that server_inv_conn [OF inv, of x] by (auto split: if_splits)
    then show ?thesis using it by (auto simp: conn_ok_def)
  qed
  moreover have "sock_fd i \<in> refused ?s \<or> (\<exists>ev. interest ?s (sock_fd i) = Some (ev, q))" if "items ?s q = Some i" for q i
    using server_inv_item [OF inv, of q i] reg that by (auto split: if_splits)
  moreover have "others_kept fd s ?s" by (auto simp: others_kept_def)
  ultimately show ?thesis unfolding server_inv_def by blast
qed

text \<open>An update of the item of a connection, of its traffic and of its registration.\<close>

lemma switch_step:
  assumes inv: "server_inv Q s" and reg: "interest s fd = Some (ev, p)"
    and s': "s' = s\<lparr>items := (items s)(p \<mapsto> it'), interest := (interest s)(fd \<mapsto> (armed (callback it'), p)),
               in_bytes := (in_bytes s)(fd := i), out_bytes := (out_bytes s)(fd := u)\<rparr>"
    and it': "sock_fd it' = fd" "Q i u it'"
  shows "server_inv Q s' \<and> others_kept fd s s'"
proof -
  have c: "conn_ok Q s fd ev p" using inv reg by (simp add: server_inv_def)
  have "conn_ok Q s' x e q" if "interest s' x = Some (e, q)" for x e q
  proof (cases "x = fd")
    case False
    then have cx: "conn_ok Q s x e q" using inv that by (simp add: server_inv_def s')
    then have "q \<noteq> p" using c False by (auto simp: conn_ok_def)
    then show ?thesis using cx False by (simp add: conn_ok_def s')
  qed (use that c it' in \<open>auto simp: conn_ok_def s'\<close>)
  moreover have "sock_fd x \<in> refused s' \<or> (\<exists>ev. interest s' (sock_fd x) = Some (ev, q))" if "items s' q = Some x" for q x
    using server_inv_item [OF inv, of q x] that reg it' by (auto simp: s' split: if_splits)
  moreover have "others_kept fd s s'" by (simp add: others_kept_def s')
  ultimately show ?thesis unfolding server_inv_def by blast
qed

lemma rearm_registered:
  "items s p = Some it \<Longrightarrow> interest s fd = Some x \<Longrightarrow>
   rearm h ev fd p s = Inr (s\<lparr>items := (items s)(p \<mapsto> it\<lparr>sock_fd := fd, callback := h\<rparr>), interest := (interest s)(fd \<mapsto> (ev, p))\<rparr>)"
  by (simp add: rearm_def update_item_def epoll_mod_def)

lemma switch_rearm:
  assumes inv: "server_inv Q s" and reg: "interest s fd = Some (ev, p)"
    and t: "items t = (items s)(p \<mapsto> it)" "interest t = interest s" "opened t = opened s" "refused t = refused s"
      "in_bytes t = (in_bytes s)(fd := i)" "out_bytes t = (out_bytes s)(fd := u)"
    and ok: "ev' = armed h" "Q i u (it\<lparr>sock_fd := fd, callback := h\<rparr>)"
  shows "\<exists>s'. rearm h ev' fd p t = Inr s' \<and> server_inv Q s' \<and> others_kept fd s s'"
proof -
  let ?s = "s\<lparr>items := (items s)(p \<mapsto> it\<lparr>sock_fd := fd, callback := h\<rparr>), interest := (interest s)(fd \<mapsto> (armed h, p)),
    in_bytes := (in_bytes s)(fd := i), out_bytes := (out_bytes s)(fd := u)\<rparr>"
  have "rearm h ev' fd p t = Inr ?s"
    using rearm_registered [of t p it fd "(ev, p)" h ev'] reg ok(1) t by (auto intro!: server.equality)
  moreover have "server_inv Q ?s \<and> others_kept fd s ?s"
    using ok by (intro switch_step [OF inv reg, where it' = "it\<lparr>sock_fd := fd, callback := h\<rparr>" and i = i and u = u]) simp_all
  ultimately show ?thesis by blast
qed

text \<open>A state with one listening socket.\<close>

lemma listen_step:
  assumes inv: "server_inv Q s" and new: "interest s fd = None" and p: "p \<noteq> 0" "items s p = None"
    and fd: "if 0 \<le> fd then fd \<in> opened s else fd \<notin> opened s"
    and it: "sock_fd it = fd" "callback it = Accept_CB" "Q (in_bytes s fd) (out_bytes s fd) it"
  shows "\<exists>s'. add_item ctl EPOLLIN fd p it s = Inr s' \<and> server_inv Q s' \<and> opened s' = opened s"
proof -
  let ?ok = "0 \<le> ctl \<and> 0 \<le> fd"
  let ?s = "s\<lparr>items := (items s)(p \<mapsto> it), interest := (if ?ok then (interest s)(fd \<mapsto> (EPOLLIN, p)) else interest s),
    refused := (if ?ok then refused s else insert fd (refused s))\<rparr>"
  have "add_item ctl EPOLLIN fd p it s = Inr ?s" using p new fd by (auto simp: add_item_def epoll_add_def)
  moreover have "conn_ok Q ?s x ev q" if "interest ?s x = Some (ev, q)" for x ev q
  proof (cases "x = fd \<and> ?ok")
    case False
    then have "conn_ok Q s x ev q" using server_inv_conn [OF inv, of x] that by (auto split: if_splits)
    then show ?thesis using p by (auto simp: conn_ok_def)
  qed (use that it fd in \<open>auto simp: conn_ok_def\<close>)
  moreover have "sock_fd i \<in> refused ?s \<or> (\<exists>ev. interest ?s (sock_fd i) = Some (ev, q))" if "items ?s q = Some i" for q i
    using server_inv_item [OF inv, of q i] that it new by (auto split: if_splits)
  ultimately show ?thesis unfolding server_inv_def by (intro exI [of _ ?s]) auto
qed

lemma server_inv_open: "server_inv Q s \<Longrightarrow> fd \<notin> opened s \<Longrightarrow> server_inv Q (open_fd fd s) \<and> interest s fd = None"
  unfolding server_inv_def conn_ok_def open_fd_def by (cases "interest s fd") auto

end
