(* ===== verification/TcpLatency.thy ===== *)
theory TcpLatency
  imports KcpClient EventLoop
begin

text \<open>
  The latency test over TCP (\<open>src/kcp_learn/tcp/\<close>): an echo server on epoll (\<open>server.c\<close>) and a client
  (\<open>client.c\<close>) that sends the measurement objects of \<open>delay.c\<close>, which is the same file as for KCP.

  The server is an instance of \<open>event_driven\<close>: it sends back what it receives on every connection. Of the client's two
  tests the first measures each object correctly when the server echoes; the second,
  which is the one that runs, always leaves its array after five objects.
\<close>

subsection \<open>The server\<close>

text \<open>
  \<open>ts_exit\<close> is the value \<open>main\<close> has returned. \<open>ts_in\<close> and \<open>ts_out\<close> are the bytes received and sent per connection. An event carries the results of
  the calls it leads to; \<open>None\<close> is a \<open>recv\<close> that returned -1.
\<close>

record tcp_server =
  ts_buf :: "bytes option"
  ts_registered :: "fd set"
  ts_opened :: "fd set"
  ts_in :: "fd \<Rightarrow> bytes"
  ts_out :: "fd \<Rightarrow> bytes"
  ts_exit :: "int option"

record tcp_event =
  tv_fd :: fd
  tv_accept :: int
  tv_ctl :: int
  tv_recv :: "bytes option"
  tv_send :: int

definition tcp_accept :: "tcp_event \<Rightarrow> tcp_server \<Rightarrow> tcp_server" where
  "tcp_accept e s =
     (let client_fd = tv_accept e in
      if client_fd = -1 then s\<lparr>ts_exit := Some 1\<rparr>
      else
        let s = s\<lparr>ts_opened := insert client_fd (ts_opened s),
                  ts_in := (ts_in s)(client_fd := []), ts_out := (ts_out s)(client_fd := [])\<rparr> in
        if tv_ctl e = -1 then s\<lparr>ts_exit := Some 1\<rparr>
        else s\<lparr>ts_registered := insert client_fd (ts_registered s)\<rparr>)"

text \<open>Closing a descriptor ends its registration; the \<open>epoll_ctl\<close> after it has nothing left to remove.\<close>

definition tcp_close :: "fd \<Rightarrow> tcp_server \<Rightarrow> tcp_server" where
  "tcp_close fd s = s\<lparr>ts_opened := ts_opened s - {fd}, ts_registered := ts_registered s - {fd}\<rparr>"

definition tcp_serve :: "tcp_event \<Rightarrow> tcp_server \<Rightarrow> tcp_server cresult" where
  "tcp_serve e s =
     (let fd = tv_fd e in
      case tv_recv e of
        None \<Rightarrow> Inr (tcp_close fd s)
      | Some d \<Rightarrow>
          if d = [] then Inr (tcp_close fd s)
          else
            case ts_buf s of
              None \<Rightarrow> Inl Null_Deref
            | Some buf \<Rightarrow>
                rbind (rguard (length d \<le> length buf) Out_Of_Bounds) (\<lambda>_.
                let buf = memcpy_at buf 0 d in
                Inr (s\<lparr>ts_buf := Some buf, ts_in := (ts_in s)(fd := ts_in s fd @ d),
                       ts_out := (ts_out s)(fd := ts_out s fd @ take (nat (tv_send e)) (take (length d) buf))\<rparr>)))"

text \<open>One iteration of the loop over the events; none is left once \<open>main\<close> has returned.\<close>

definition tcp_handle :: "fd \<Rightarrow> tcp_event \<Rightarrow> tcp_server \<Rightarrow> tcp_server cresult" where
  "tcp_handle server_fd e s =
     (if ts_exit s \<noteq> None then Inr s
      else if tv_fd e = server_fd then Inr (tcp_accept e s)
      else tcp_serve e s)"

fun tcp_loop :: "fd \<Rightarrow> (int \<times> tcp_event list) list \<Rightarrow> tcp_server \<Rightarrow> tcp_server cresult" where
  "tcp_loop server_fd [] s = Inr s"
| "tcp_loop server_fd ((ready_count, es) # bs) s =
     (if ts_exit s \<noteq> None then Inr s
      else if ready_count = -1 then Inr (s\<lparr>ts_exit := Some 1\<rparr>)
      else rbind (handle_events (tcp_handle server_fd) (take (nat ready_count) es) s) (tcp_loop server_fd bs))"

text \<open>\<open>main\<close>: \<open>buf\<close> is the block that \<open>malloc\<close> returned, the other arguments are what the calls of the set-up return.\<close>

definition main_tcp :: "bytes option \<Rightarrow> int \<Rightarrow> int \<Rightarrow> int \<Rightarrow> int \<Rightarrow> int \<Rightarrow> (int \<times> tcp_event list) list \<Rightarrow> tcp_server cresult" where
  "main_tcp buf sock bind listen epoll ctl bs =
     (let s = \<lparr>ts_buf = buf, ts_registered = {}, ts_opened = {}, ts_in = (\<lambda>_. []), ts_out = (\<lambda>_. []), ts_exit = None\<rparr> in
      if sock = -1 then Inr (s\<lparr>ts_exit := Some 1\<rparr>)
      else
        let s = s\<lparr>ts_opened := {sock}\<rparr> in
        if bind = -1 \<or> listen = -1 \<or> epoll = -1 \<or> ctl = -1 then Inr (s\<lparr>ts_exit := Some 1\<rparr>)
        else tcp_loop sock bs (s\<lparr>ts_registered := {sock}\<rparr>))"

subsection \<open>The client\<close>

definition DELAY_TEST1_N :: nat where "DELAY_TEST1_N = 100"

text \<open>What \<open>send\<close>, \<open>recv\<close> and the clock return for object \<open>i\<close>; \<open>None\<close> is a \<open>recv\<close> that returned -1.\<close>

record tcp_peer =
  tc_send :: "nat \<Rightarrow> int"
  tc_recv :: "nat \<Rightarrow> bytes option"
  tc_send_time :: "nat \<Rightarrow> timeval"
  tc_recv_time :: "nat \<Rightarrow> timeval"

text \<open>Sending and receiving object \<open>i\<close>; the flag is \<open>False\<close> when the test gives up.\<close>

definition tcp_send_obj :: "tcp_peer \<Rightarrow> nat \<Rightarrow> t_delay_obj list \<Rightarrow> (bool \<times> t_delay_obj list) cresult" where
  "tcp_send_obj e i objs =
     rbind (load objs i) (\<lambda>obj.
     Inr (tc_send e i = int obj_size, objs[i := delay_set_seqno_send_time (tc_send_time e i) obj (of_nat i)]))"

definition tcp_recv_obj :: "tcp_peer \<Rightarrow> nat \<Rightarrow> t_delay_obj list \<Rightarrow> (bool \<times> t_delay_obj list) cresult" where
  "tcp_recv_obj e i objs =
     rbind (load objs i) (\<lambda>obj.
     case tc_recv e i of
       None \<Rightarrow> Inr (False, objs)
     | Some d \<Rightarrow>
         if length d \<noteq> obj_size then Inr (False, objs[i := overwrite obj d])
         else Inr (True, objs[i := delay_set_recv_time (tc_recv_time e i) (overwrite obj d)]))"

text \<open>The loops, over the numbers that are left; \<open>Some\<close> are the lines of a test that has given up.\<close>

fun test1_send :: "tcp_peer \<Rightarrow> nat list \<Rightarrow> t_delay_obj list \<Rightarrow> ((u16 \<times> int) list option \<times> t_delay_obj list) cresult" where
  "test1_send e [] objs = Inr (None, objs)"
| "test1_send e (i # is) objs =
     rbind (tcp_send_obj e i objs) (\<lambda>(ok, objs). if ok then test1_send e is objs else Inr (Some [], objs))"

fun test1_recv :: "tcp_peer \<Rightarrow> nat list \<Rightarrow> t_delay_obj list \<Rightarrow> ((u16 \<times> int) list option \<times> t_delay_obj list) cresult" where
  "test1_recv e [] objs = Inr (None, objs)"
| "test1_recv e (i # is) objs =
     rbind (tcp_recv_obj e i objs) (\<lambda>(ok, objs).
     if ok then test1_recv e is objs
     else rbind (delay_print_rtt_time objs i) (\<lambda>ls. Inr (Some ls, objs)))"

fun test2_loop :: "tcp_peer \<Rightarrow> nat list \<Rightarrow> t_delay_obj list \<Rightarrow> ((u16 \<times> int) list option \<times> t_delay_obj list) cresult" where
  "test2_loop e [] objs = Inr (None, objs)"
| "test2_loop e (i # is) objs =
     rbind (tcp_send_obj e i objs) (\<lambda>(ok, objs).
     if \<not> ok then Inr (Some [], objs)
     else
       rbind (tcp_recv_obj e i objs) (\<lambda>(ok, objs).
       if ok then test2_loop e is objs
       else rbind (delay_print_rtt_time objs i) (\<lambda>ls. Inr (Some ls, objs))))"

text \<open>The two tests; \<open>objs\<close> is the array that \<open>malloc\<close> returned, used without a test for \<open>NULL\<close>.\<close>

definition delay_test1 :: "tcp_peer \<Rightarrow> t_delay_obj list option \<Rightarrow> (u16 \<times> int) list cresult" where
  "delay_test1 e objs =
     (case objs of
        None \<Rightarrow> Inl Null_Deref
      | Some objs \<Rightarrow>
          rbind (test1_send e [0..<DELAY_TEST1_N] objs) (\<lambda>(stop, objs).
          case stop of
            Some ls \<Rightarrow> Inr ls
          | None \<Rightarrow>
              rbind (test1_recv e [0..<DELAY_TEST1_N] objs) (\<lambda>(stop, objs).
              case stop of
                Some ls \<Rightarrow> Inr ls
              | None \<Rightarrow> delay_print_rtt_time objs DELAY_TEST1_N)))"

definition delay_test2_tcp :: "tcp_peer \<Rightarrow> t_delay_obj list option \<Rightarrow> (u16 \<times> int) list cresult" where
  "delay_test2_tcp e objs =
     (case objs of
        None \<Rightarrow> Inl Null_Deref
      | Some objs \<Rightarrow>
          rbind (test2_loop e [0..<DELAY_TEST1_N] objs) (\<lambda>(stop, objs).
          case stop of
            Some ls \<Rightarrow> Inr ls
          | None \<Rightarrow> delay_print_rtt_time objs DELAY_TEST1_N))"

definition connect_server :: "int \<Rightarrow> int \<Rightarrow> int" where
  "connect_server sock con_result = (if sock = -1 then -1 else if con_result < 0 then -1 else sock)"

text \<open>The thread that \<open>main\<close> starts and joins; the array has \<open>DELAY_TEST2_N\<close> objects.\<close>

definition test_thread :: "int \<Rightarrow> int \<Rightarrow> tcp_peer \<Rightarrow> t_delay_obj list option \<Rightarrow> (u16 \<times> int) list cresult" where
  "test_thread sock con_result e objs =
     (if connect_server sock con_result < 0 then Inr [] else delay_test2_tcp e objs)"

subsection \<open>The server sends back what it receives\<close>

text \<open>When \<open>send\<close> takes everything, what was sent is what was received; otherwise a subsequence of it.\<close>

definition data_ok :: "bool \<Rightarrow> bytes \<Rightarrow> bytes \<Rightarrow> bool" where
  "data_ok full inp out \<longleftrightarrow> (if full then out = inp else subseq out inp)"

definition tcp_inv :: "bool \<Rightarrow> fd \<Rightarrow> tcp_server \<Rightarrow> bool" where
  "tcp_inv full server_fd s \<longleftrightarrow>
     ts_registered s \<subseteq> ts_opened s \<and> (\<forall>buf. ts_buf s = Some buf \<longrightarrow> length buf = obj_size) \<and>
     (\<forall>fd \<in> ts_opened s - {server_fd}. data_ok full (ts_in s fd) (ts_out s fd)) \<and>
     (ts_exit s = None \<longrightarrow> server_fd \<in> ts_registered s)"

text \<open>
  What the calls promise: \<open>accept\<close> returns a descriptor that was not open, \<open>recv\<close> no more than asked for and nothing into \<open>NULL\<close>.
\<close>

definition tcp_os_ok :: "bool \<Rightarrow> tcp_server \<Rightarrow> tcp_event \<Rightarrow> bool" where
  "tcp_os_ok full s e \<longleftrightarrow>
     (tv_accept e = -1 \<or> tv_accept e \<notin> ts_opened s) \<and>
     (case tv_recv e of
        None \<Rightarrow> True
      | Some d \<Rightarrow> length d \<le> obj_size \<and> (ts_buf s = None \<longrightarrow> d = []) \<and> (full \<longrightarrow> tv_send e = int (length d)))"

definition tcp_ready :: "tcp_server \<Rightarrow> tcp_event \<Rightarrow> bool" where
  "tcp_ready s e \<longleftrightarrow> ts_exit s \<noteq> None \<or> tv_fd e \<in> ts_registered s"

lemma data_okD: "data_ok full inp out \<Longrightarrow> subseq out inp \<and> (full \<longrightarrow> out = inp)"
  by (simp add: data_ok_def split: if_splits)

lemma data_ok_step:
  assumes "data_ok full inp out" and "full \<longrightarrow> n = length d"
  shows "data_ok full (inp @ d) (out @ take n d)"
proof (cases full)
  case False
  have "subseq (take n d) d" by (metis append_take_drop_id list_emb_prefix subseq_order.order_refl)
  with assms False show ?thesis by (auto simp: data_ok_def intro: list_emb_append_mono)
qed (use assms in \<open>simp add: data_ok_def\<close>)

lemma tcp_accept_ok:
  assumes inv: "tcp_inv full srv s" and os: "tcp_os_ok full s e"
  shows "tcp_inv full srv (tcp_accept e s) \<and> ts_registered s \<subseteq> ts_registered (tcp_accept e s)"
  using assms by (auto simp: tcp_inv_def tcp_os_ok_def tcp_accept_def Let_def data_ok_def)

lemma tcp_serve_ok:
  assumes inv: "tcp_inv full srv s" and os: "tcp_os_ok full s e" and other: "tv_fd e \<noteq> srv"
  shows "\<exists>s'. tcp_serve e s = Inr s' \<and> tcp_inv full srv s' \<and> ts_exit s' = ts_exit s \<and> ts_registered s - {tv_fd e} \<subseteq> ts_registered s'"
proof (cases "tv_recv e = None \<or> tv_recv e = Some []")
  case True
  then have "tcp_serve e s = Inr (tcp_close (tv_fd e) s)" by (auto simp: tcp_serve_def)
  moreover have "tcp_inv full srv (tcp_close (tv_fd e) s)" using inv other by (auto simp: tcp_inv_def tcp_close_def)
  ultimately show ?thesis by (auto simp: tcp_close_def)
next
  case False
  then obtain d where d: "tv_recv e = Some d" "d \<noteq> []" by auto
  obtain buf where buf: "ts_buf s = Some buf" "length buf = obj_size" using os d inv by (auto simp: tcp_os_ok_def tcp_inv_def)
  have len: "length d \<le> length buf" using os d buf by (simp add: tcp_os_ok_def)
  let ?fd = "tv_fd e" and ?b = "memcpy_at buf 0 d"
  define s' where "s' = s\<lparr>ts_buf := Some ?b, ts_in := (ts_in s)(?fd := ts_in s ?fd @ d),
    ts_out := (ts_out s)(?fd := ts_out s ?fd @ take (nat (tv_send e)) d)\<rparr>"
  have "take (min n (length d)) d = take n d" for n by (simp add: min_def)
  then have "tcp_serve e s = Inr s'"
    using d buf(1) len by (simp add: tcp_serve_def Let_def s'_def memcpy_at_prefix)
  moreover have "data_ok full (ts_in s' fd) (ts_out s' fd)" if "fd \<in> ts_opened s - {srv}" for fd
    using that inv os d(1) data_ok_step [of full "ts_in s ?fd" "ts_out s ?fd" "nat (tv_send e)" d]
    by (auto simp: tcp_inv_def tcp_os_ok_def s'_def)
  then have "tcp_inv full srv s'" using inv buf len by (simp add: tcp_inv_def s'_def)
  ultimately show ?thesis by (auto simp: s'_def)
qed

lemma tcp_handle_ok:
  assumes inv: "tcp_inv full srv s" and rdy: "tcp_ready s e" and os: "tcp_os_ok full s e"
  shows "\<exists>s'. tcp_handle srv e s = Inr s' \<and> tcp_inv full srv s' \<and>
    (\<forall>e'. tv_fd e' \<noteq> tv_fd e \<longrightarrow> tcp_ready s e' \<longrightarrow> tcp_ready s' e')"
proof (cases "ts_exit s \<noteq> None \<or> tv_fd e = srv")
  case True
  then show ?thesis using assms tcp_accept_ok [OF inv os] by (auto simp: tcp_handle_def tcp_ready_def)
next
  case False
  then show ?thesis using tcp_serve_ok [OF inv os] by (fastforce simp: tcp_handle_def tcp_ready_def)
qed

interpretation tcp: event_driven "tcp_inv full srv" "tcp_os_ok full" tcp_ready tv_fd "tcp_handle srv" "\<lambda>_ _. False"
  by unfold_locales (rule disjI1, rule tcp_handle_ok)

lemma tcp_loop_ok:
  assumes "tcp_inv full srv s" and "loop_env (tcp_handle srv) (tcp_os_ok full) tcp_ready tv_fd bs s"
  shows "\<exists>s'. tcp_loop srv bs s = Inr s' \<and> tcp_inv full srv s'"
  using assms
proof (induction srv bs s rule: tcp_loop.induct)
  case (2 srv n es bs s)
  show ?case
  proof (cases "ts_exit s \<noteq> None \<or> n = -1")
    case True
    then show ?thesis using 2(2) by (auto simp: tcp_inv_def)
  next
    case False
    then have "nat n = length es" "list_all (tcp_ready s) es" "distinct (map tv_fd es)" "env_along (tcp_handle srv) (tcp_os_ok full) es s"
      using 2(3) by auto
    with tcp.batch_total [OF _ 2(2)] obtain s' where s': "handle_events (tcp_handle srv) (take (nat n) es) s = Inr s'" "tcp_inv full srv s'" by auto
    then have "loop_env (tcp_handle srv) (tcp_os_ok full) tcp_ready tv_fd bs s'" using 2(3) by simp
    from 2(1) [OF _ _ s'(1,2) this] False s'(1) show ?thesis by auto
  qed
qed auto

text \<open>
  C14. The TCP echo server. From the start of \<open>main\<close> on, whatever connections come and go and however the kernel batches and
  orders the events, no call faults, and on every open connection the bytes sent are a subsequence of the bytes
  received; when \<open>send\<close> takes all it is given they are equal. Only a failure of \<open>accept\<close>, of a
  registration or of \<open>epoll_wait\<close> ends the server, with exit code 1.
\<close>

theorem tcp_server_echoes:
  assumes buf: "\<And>b. buf = Some b \<Longrightarrow> length b = obj_size"
    and kernel: "loop_env (tcp_handle sock) (tcp_os_ok full) tcp_ready tv_fd bs
      \<lparr>ts_buf = buf, ts_registered = {sock}, ts_opened = {sock}, ts_in = (\<lambda>_. []), ts_out = (\<lambda>_. []), ts_exit = None\<rparr>"
  shows "\<exists>s. main_tcp buf sock bind listen epoll ctl bs = Inr s \<and>
    (\<forall>fd \<in> ts_opened s - {sock}. subseq (ts_out s fd) (ts_in s fd) \<and> (full \<longrightarrow> ts_out s fd = ts_in s fd)) \<and>
    (ts_exit s = None \<longrightarrow> sock \<in> ts_registered s)"
proof -
  define s0 where "s0 = \<lparr>ts_buf = buf, ts_registered = {sock}, ts_opened = {sock}, ts_in = (\<lambda>_. []), ts_out = (\<lambda>_. []), ts_exit = None\<rparr>"
  have "tcp_inv full sock s0" using buf by (simp add: tcp_inv_def s0_def)
  from tcp_loop_ok [OF this kernel [folded s0_def]] obtain s where s: "tcp_loop sock bs s0 = Inr s" "tcp_inv full sock s" by blast
  have "\<exists>s. main_tcp buf sock bind listen epoll ctl bs = Inr s \<and> tcp_inv full sock s"
    using s buf by (auto simp: main_tcp_def Let_def s0_def tcp_inv_def)
  then obtain s where s: "main_tcp buf sock bind listen epoll ctl bs = Inr s" "tcp_inv full sock s" by blast
  have "subseq (ts_out s fd) (ts_in s fd) \<and> (full \<longrightarrow> ts_out s fd = ts_in s fd)" if "fd \<in> ts_opened s - {sock}" for fd
    by (rule data_okD) (use s(2) that in \<open>simp add: tcp_inv_def\<close>)
  then show ?thesis using s by (intro exI [of _ s]) (simp add: tcp_inv_def)
qed

definition tcp_example_run :: "(int \<times> tcp_event list) list" where
  "tcp_example_run =
     [(1, [\<lparr>tv_fd = 3, tv_accept = 5, tv_ctl = 0, tv_recv = None, tv_send = 0\<rparr>]),
      (1, [\<lparr>tv_fd = 5, tv_accept = -1, tv_ctl = 0, tv_recv = Some [1, 2, 3], tv_send = 3\<rparr>])]"

theorem tcp_server_echoes_witness:
  "\<exists>s. main_tcp (Some (replicate obj_size 0)) 3 0 0 4 0 tcp_example_run = Inr s \<and> 5 \<in> ts_opened s \<and>
    ts_in s 5 = [1, 2, 3] \<and> ts_out s 5 = ts_in s 5"
proof -
  have sz: "(3 :: nat) \<le> obj_size" by (simp add: obj_size_def)
  have "loop_env (tcp_handle 3) (tcp_os_ok True) tcp_ready tv_fd tcp_example_run
      \<lparr>ts_buf = Some (replicate obj_size 0), ts_registered = {3}, ts_opened = {3}, ts_in = (\<lambda>_. []), ts_out = (\<lambda>_. []), ts_exit = None\<rparr>"
    using sz by (simp add: tcp_example_run_def tcp_ready_def tcp_os_ok_def tcp_handle_def tcp_accept_def split: sum.split)
  from tcp_server_echoes [where buf = "Some (replicate obj_size 0)" and bind = 0 and listen = 0 and epoll = 4 and ctl = 0, OF _ this]
  obtain s where s: "main_tcp (Some (replicate obj_size 0)) 3 0 0 4 0 tcp_example_run = Inr s"
    "\<forall>fd \<in> ts_opened s - {3}. ts_out s fd = ts_in s fd" by auto
  have "5 \<in> ts_opened s \<and> ts_in s 5 = [1, 2, 3]"
    using s(1) sz by (auto simp: main_tcp_def tcp_example_run_def tcp_handle_def tcp_accept_def tcp_serve_def Let_def)
  with s show ?thesis by auto
qed

subsection \<open>What the client measures\<close>

lemma send_obj_ok:
  "i < length objs \<Longrightarrow> tc_send e i = int obj_size \<Longrightarrow>
   tcp_send_obj e i objs = Inr (True, objs[i := delay_set_seqno_send_time (tc_send_time e i) (objs ! i) (of_nat i)])"
  by (simp add: tcp_send_obj_def)

lemma recv_obj_ok:
  "i < length objs \<Longrightarrow> tc_recv e i = Some d \<Longrightarrow> length d = obj_size \<Longrightarrow> obj_ok (objs ! i) \<Longrightarrow>
   tcp_recv_obj e i objs = Inr (True, objs[i := delay_set_recv_time (tc_recv_time e i) (bytes_obj d)])"
  by (simp add: tcp_recv_obj_def overwrite_all)

text \<open>The loops of the first test, when every call succeeds, are maps over the array.\<close>

lemma update_range:
  assumes "k < length xs"
  shows "take (Suc k) (xs[k := f k (xs ! k)]) @ map (\<lambda>i. f i (xs[k := f k (xs ! k)] ! i)) [Suc k..<length xs] =
    take k xs @ map (\<lambda>i. f i (xs ! i)) [k..<length xs]"
proof -
  have "map (\<lambda>i. f i (xs[k := f k (xs ! k)] ! i)) [Suc k..<length xs] = map (\<lambda>i. f i (xs ! i)) [Suc k..<length xs]" by simp
  then show ?thesis using assms by (simp add: take_Suc_conv_app_nth upt_conv_Cons)
qed

lemma test1_send_all:
  assumes "\<And>i. i < length objs \<Longrightarrow> tc_send e i = int obj_size" and "k \<le> length objs"
  shows "test1_send e [k..<length objs] objs =
    Inr (None, take k objs @ map (\<lambda>i. delay_set_seqno_send_time (tc_send_time e i) (objs ! i) (of_nat i)) [k..<length objs])"
  using assms
proof (induction "length objs - k" arbitrary: k objs)
  case (Suc n)
  let ?f = "\<lambda>i obj. delay_set_seqno_send_time (tc_send_time e i) obj (of_nat i)"
  let ?o = "objs[k := ?f k (objs ! k)]"
  have k: "k < length objs" using Suc(2) by simp
  have "test1_send e [k..<length objs] objs = test1_send e [Suc k..<length ?o] ?o"
    using k Suc(3) [of k] by (subst upt_conv_Cons) (simp_all add: send_obj_ok)
  also have "\<dots> = Inr (None, take (Suc k) ?o @ map (\<lambda>i. ?f i (?o ! i)) [Suc k..<length ?o])"
    by (rule Suc(1)) (use Suc(2,3) k in simp_all)
  finally show ?case using update_range [OF k, of ?f] by simp
qed simp

lemma test1_recv_all:
  assumes "list_all obj_ok objs" and "\<And>i. k \<le> i \<Longrightarrow> i < length objs \<Longrightarrow> tc_recv e i = Some (obj_bytes (objs ! i))" and "k \<le> length objs"
  shows "test1_recv e [k..<length objs] objs =
    Inr (None, take k objs @ map (\<lambda>i. delay_set_recv_time (tc_recv_time e i) (objs ! i)) [k..<length objs])"
  using assms
proof (induction "length objs - k" arbitrary: k objs)
  case (Suc n)
  let ?f = "\<lambda>i. delay_set_recv_time (tc_recv_time e i)"
  let ?o = "objs[k := ?f k (objs ! k)]"
  have k: "k < length objs" using Suc(2) by simp
  have ok: "obj_ok (objs ! k)" "list_all obj_ok ?o" using Suc(3) k by (auto simp: list_all_length nth_list_update)
  have "test1_recv e [k..<length objs] objs = test1_recv e [Suc k..<length ?o] ?o"
    using k Suc(4) [of k] ok by (subst upt_conv_Cons) (simp_all add: recv_obj_ok length_obj_bytes bytes_obj_roundtrip)
  also have "\<dots> = Inr (None, take (Suc k) ?o @ map (\<lambda>i. ?f i (?o ! i)) [Suc k..<length ?o])"
    by (rule Suc(1)) (use Suc(2,4) k ok(2) in simp_all)
  finally show ?case using update_range [OF k, of ?f] by simp
qed simp

lemma print_all:
  "delay_print_rtt_time objs (length objs) = Inr (map (\<lambda>obj. (d_seqno obj, sint (d_recv_time obj - d_send_time obj))) objs)"
  by (induction objs) simp_all

lemma time_difference:
  assumes "0 \<le> a" "a < 2 ^ 62" "0 \<le> b" "b < 2 ^ 62"
  shows "sint (word_of_int a - word_of_int b :: u64) = a - b"
proof -
  have "sint (word_of_int (a - b) :: u64) = a - b"
    using assms by (simp only: signed_of_int) (simp add: signed_take_bit_int_eq_self)
  then show ?thesis by simp
qed

text \<open>
  The first latency test measures every object. When \<open>send\<close> takes each object whole and the server echoes it whole and in
  order, \<open>delay_test1\<close> prints a hundred lines, the line of object \<open>i\<close> with its number and the time between
  its sending and its arrival.
\<close>

theorem delay_test1_measures:
  assumes objs: "length objs = 100" "list_all obj_ok objs" and sends: "\<And>i. i < 100 \<Longrightarrow> tc_send e i = int obj_size"
    and echo: "\<And>i. i < 100 \<Longrightarrow> tc_recv e i = Some (obj_bytes (delay_set_seqno_send_time (tc_send_time e i) (objs ! i) (of_nat i)))"
    and clock: "\<And>i. 0 \<le> iclock64 (tc_send_time e i) \<and> iclock64 (tc_send_time e i) < 2 ^ 62"
      "\<And>i. 0 \<le> iclock64 (tc_recv_time e i) \<and> iclock64 (tc_recv_time e i) < 2 ^ 62"
  shows "delay_test1 e (Some objs) =
    Inr (map (\<lambda>i. (of_nat i, iclock64 (tc_recv_time e i) - iclock64 (tc_send_time e i))) [0..<100])"
proof -
  define sent where "sent = map (\<lambda>i. delay_set_seqno_send_time (tc_send_time e i) (objs ! i) (of_nat i)) [0..<100]"
  define got where "got = map (\<lambda>i. delay_set_recv_time (tc_recv_time e i) (sent ! i)) [0..<100]"
  have s: "test1_send e [0..<100] objs = Inr (None, sent)" using test1_send_all [of objs e 0] sends objs by (simp add: sent_def)
  have "list_all obj_ok sent" using objs by (simp add: sent_def list_all_length)
  moreover have len: "length sent = 100" "length got = 100" by (simp_all add: sent_def got_def)
  moreover have "tc_recv e i = Some (obj_bytes (sent ! i))" if "i < length sent" for i using that echo [of i] len by (simp add: sent_def)
  ultimately have r: "test1_recv e [0..<100] sent = Inr (None, got)"
    using test1_recv_all [of sent 0 e] by (simp add: got_def)
  have "delay_test1 e (Some objs) = delay_print_rtt_time got (length got)"
    using s r len by (simp add: delay_test1_def DELAY_TEST1_N_def)
  also have "\<dots> = Inr (map (\<lambda>i. (of_nat i, iclock64 (tc_recv_time e i) - iclock64 (tc_send_time e i))) [0..<100])"
    unfolding print_all using clock
    by (simp add: got_def sent_def delay_set_recv_time_def delay_set_seqno_send_time_def time_difference)
  finally show ?thesis .
qed

definition tcp_example_obj :: t_delay_obj where
  "tcp_example_obj = \<lparr>d_seqno = 0, d_pad = replicate 6 0, d_send_time = 0, d_recv_time = 0, d_body = replicate 1304 0\<rparr>"

definition tcp_example_peer :: tcp_peer where
  "tcp_example_peer = \<lparr>tc_send = (\<lambda>_. int obj_size),
     tc_recv = (\<lambda>i. Some (obj_bytes (delay_set_seqno_send_time (int i, 0) tcp_example_obj (of_nat i)))),
     tc_send_time = (\<lambda>i. (int (min i 100), 0)), tc_recv_time = (\<lambda>i. (int (min i 100), 5000))\<rparr>"

theorem delay_test1_measures_witness:
  "delay_test1 tcp_example_peer (Some (replicate 100 tcp_example_obj)) = Inr (map (\<lambda>i. (of_nat i, 5)) [0..<100])"
proof -
  have "delay_test1 tcp_example_peer (Some (replicate 100 tcp_example_obj)) =
      Inr (map (\<lambda>i. (of_nat i, iclock64 (tc_recv_time tcp_example_peer i) - iclock64 (tc_send_time tcp_example_peer i))) [0..<100])"
    by (rule delay_test1_measures) (auto simp: tcp_example_peer_def tcp_example_obj_def obj_ok_def list_all_length iclock64_def min_def)
  also have "\<dots> = Inr (map (\<lambda>i. (of_nat i, 5)) [0..<100])" by (simp add: tcp_example_peer_def iclock64_def)
  finally show ?thesis .
qed

text \<open>
  The second latency test leaves its array. \<open>delay_test2\<close>, which the thread runs, has room for five objects and counts to a
  hundred: whenever the first five objects are sent and come back whole, the sixth is written behind the array. It never ends
  by printing its measurements.
\<close>

theorem delay_test2_overruns:
  assumes "length objs = DELAY_TEST2_N" and "list_all obj_ok objs"
    and "\<And>i. i < DELAY_TEST2_N \<Longrightarrow> tc_send e i = int obj_size \<and> (\<exists>d. tc_recv e i = Some d \<and> length d = obj_size)"
    and "connect_server sock con_result \<ge> 0"
  shows "test_thread sock con_result e (Some objs) = Inl Out_Of_Bounds"
proof -
  have "test2_loop e [k..<100] objs = Inl Out_Of_Bounds" if "length objs = DELAY_TEST2_N" "list_all obj_ok objs" "k \<le> DELAY_TEST2_N" for k objs
    using that
  proof (induction "DELAY_TEST2_N - k" arbitrary: k objs)
    case 0
    then have "\<not> k < length objs" "k < 100" by (simp_all add: DELAY_TEST2_N_def)
    then show ?case by (subst upt_conv_Cons) (simp_all add: tcp_send_obj_def load_def)
  next
    case (Suc n)
    then have k: "k < DELAY_TEST2_N" "k < length objs" "k < 100" by (simp_all add: DELAY_TEST2_N_def)
    obtain d where d: "tc_send e k = int obj_size" "tc_recv e k = Some d" "length d = obj_size" using assms(3) [OF k(1)] by blast
    let ?o = "objs[k := delay_set_seqno_send_time (tc_send_time e k) (objs ! k) (of_nat k)]"
    let ?o' = "?o[k := delay_set_recv_time (tc_recv_time e k) (bytes_obj d)]"
    have ok: "obj_ok (?o ! k)" using Suc(4) k(2) by (simp add: list_all_length)
    have step: "test2_loop e [k..<100] objs = test2_loop e [Suc k..<100] ?o'"
      using k(2,3) d ok by (subst upt_conv_Cons) (simp_all add: send_obj_ok recv_obj_ok)
    have "obj_ok (?o' ! n)" if "n < length objs" for n
      using that Suc(4) d(3) k(2) by (cases "n = k") (simp_all add: list_all_length bytes_obj_ok)
    then have "list_all obj_ok ?o'" by (simp add: list_all_length)
    with step show ?case using Suc(1) [of "Suc k" ?o'] Suc(2,3) k(1) by simp
  qed
  from this [OF assms(1,2), of 0] show ?thesis using assms(4) by (simp add: test_thread_def delay_test2_tcp_def DELAY_TEST1_N_def)
qed

theorem delay_test2_overruns_witness:
  "test_thread 3 0 tcp_example_peer (Some (replicate 5 tcp_example_obj)) = Inl Out_Of_Bounds"
  by (rule delay_test2_overruns)
    (auto simp: DELAY_TEST2_N_def tcp_example_peer_def tcp_example_obj_def obj_ok_def list_all_length connect_server_def obj_bytes_def obj_size_def delay_set_seqno_send_time_def)

end
