(* ===== verification/IQueue.thy ===== *)
theory IQueue
  imports CPrelude
begin

text \<open>
  The intrusive doubly linked ring of \<open>src/kcp_learn/ikcp.h\<close> (\<open>struct IQUEUEHEAD\<close> and the
  \<open>IQUEUE_...\<close> macros) on an explicit heap, and the proof that its operations
  are the list operations by which the KCP theories model the four queues of the control
  block. A node is identified by its address; \<open>IQUEUE_ENTRY\<close>, which subtracts a constant
  offset, is a bijection between nodes and segments and is left out. Address 0 is \<open>NULL\<close>.

  The interface that clients of a queue rely on is the locale \<open>node_queue\<close>.
\<close>

subsection \<open>The heap and the macros\<close>

type_synonym addr = nat

record qheap =
  q_next :: "addr \<Rightarrow> addr"
  q_prev :: "addr \<Rightarrow> addr"

definition set_next :: "addr \<Rightarrow> addr \<Rightarrow> qheap \<Rightarrow> qheap" where
  "set_next p v h = h\<lparr>q_next := (q_next h)(p := v)\<rparr>"

definition set_prev :: "addr \<Rightarrow> addr \<Rightarrow> qheap \<Rightarrow> qheap" where
  "set_prev p v h = h\<lparr>q_prev := (q_prev h)(p := v)\<rparr>"

definition iqueue_init :: "addr \<Rightarrow> qheap \<Rightarrow> qheap" where
  "iqueue_init p h = set_prev p p (set_next p p h)"

definition iqueue_add :: "addr \<Rightarrow> addr \<Rightarrow> qheap \<Rightarrow> qheap" where
  "iqueue_add node head h =
     (let h = set_prev node head h;
          h = set_next node (q_next h head) h;
          h = set_prev (q_next h head) node h
      in set_next head node h)"

definition iqueue_add_tail :: "addr \<Rightarrow> addr \<Rightarrow> qheap \<Rightarrow> qheap" where
  "iqueue_add_tail node head h =
     (let h = set_prev node (q_prev h head) h;
          h = set_next node head h;
          h = set_next (q_prev h head) node h
      in set_prev head node h)"

definition iqueue_del :: "addr \<Rightarrow> qheap \<Rightarrow> qheap" where
  "iqueue_del entry h =
     (let h = set_prev (q_next h entry) (q_prev h entry) h;
          h = set_next (q_prev h entry) (q_next h entry) h;
          h = set_next entry 0 h
      in set_prev entry 0 h)"

definition iqueue_del_init :: "addr \<Rightarrow> qheap \<Rightarrow> qheap" where
  "iqueue_del_init entry h = iqueue_init entry (iqueue_del entry h)"

definition iqueue_is_empty :: "addr \<Rightarrow> qheap \<Rightarrow> bool" where
  "iqueue_is_empty entry h \<longleftrightarrow> entry = q_next h entry"

definition iqueue_splice :: "addr \<Rightarrow> addr \<Rightarrow> qheap \<Rightarrow> qheap" where
  "iqueue_splice lst head h =
     (if iqueue_is_empty lst h then h
      else
        let first = q_next h lst; last = q_prev h lst; at = q_next h head;
            h = set_prev first head h;
            h = set_next head first h;
            h = set_next last at h
        in set_prev at last h)"

definition iqueue_splice_init :: "addr \<Rightarrow> addr \<Rightarrow> qheap \<Rightarrow> qheap" where
  "iqueue_splice_init lst head h = iqueue_init lst (iqueue_splice lst head h)"

subsection \<open>Rings\<close>

text \<open>\<open>links h a xs b\<close>: following \<open>next\<close> from \<open>a\<close> passes the nodes \<open>xs\<close> and reaches \<open>b\<close>, and \<open>prev\<close> leads back.\<close>

fun links :: "qheap \<Rightarrow> addr \<Rightarrow> addr list \<Rightarrow> addr \<Rightarrow> bool" where
  "links h a [] b \<longleftrightarrow> q_next h a = b \<and> q_prev h b = a"
| "links h a (x # xs) b \<longleftrightarrow> q_next h a = x \<and> q_prev h x = a \<and> links h x xs b"

definition ring :: "addr \<Rightarrow> qheap \<Rightarrow> addr list \<Rightarrow> bool" where
  "ring head h xs \<longleftrightarrow> distinct (head # xs) \<and> links h head xs head"

lemma links_append:
  "links h a (xs @ y # ys) b \<longleftrightarrow> links h a xs y \<and> links h y ys b"
  by (induction xs arbitrary: a) auto

lemma links_snoc: "links h a (xs @ [y]) b \<longleftrightarrow> links h a xs y \<and> q_next h y = b \<and> q_prev h b = y"
  by (simp add: links_append)

lemma links_frame:
  assumes "links h a xs b"
    and "\<And>n. n \<in> insert a (set xs) \<Longrightarrow> q_next h' n = q_next h n"
    and "\<And>n. n \<in> insert b (set xs) \<Longrightarrow> q_prev h' n = q_prev h n"
  shows "links h' a xs b"
  using assms by (induction xs arbitrary: a) auto

lemma links_last: "links h a xs b \<Longrightarrow> q_prev h b = last (a # xs)"
  by (induction xs arbitrary: a) auto

lemma links_first: "links h a xs b \<Longrightarrow> q_next h a = hd (xs @ [b])"
  by (cases xs) auto

lemmas heap_ops = set_next_def set_prev_def

lemma ring_init: "ring p (iqueue_init p h) []"
  by (simp add: ring_def iqueue_init_def heap_ops)

lemma ring_is_empty: "ring head h xs \<Longrightarrow> iqueue_is_empty head h \<longleftrightarrow> xs = []"
  by (cases xs) (auto simp: ring_def iqueue_is_empty_def)

text \<open>Insertion behind any node of the ring, the head included.\<close>

lemma links_insert:
  assumes "links h p ys b" and "node \<notin> insert p (insert b (set ys))" and "distinct ys"
    and "p \<notin> set ys" and "b \<notin> set ys"
  shows "links (iqueue_add node p h) p (node # ys) b"
proof (cases ys)
  case Nil
  then show ?thesis using assms by (auto simp: iqueue_add_def heap_ops Let_def)
next
  case (Cons y zs)
  have "links (iqueue_add node p h) y zs b"
    by (rule links_frame [of h]) (use assms Cons in \<open>auto simp: iqueue_add_def heap_ops Let_def\<close>)
  then show ?thesis using assms Cons by (auto simp: iqueue_add_def heap_ops Let_def)
qed

lemma iqueue_add_fields:
  assumes "node \<noteq> p"
  shows "q_next (iqueue_add node p h) = (q_next h)(node := q_next h p, p := node)"
    and "q_prev (iqueue_add node p h) = (q_prev h)(node := p, q_next h p := node)"
  using assms by (auto simp: iqueue_add_def heap_ops Let_def)

lemma ring_add:
  assumes "ring head h xs" and "node \<notin> set (head # xs)"
  shows "ring head (iqueue_add node head h) (node # xs)"
  using assms links_insert [of h head xs head node] by (auto simp: ring_def)

lemma ring_add_after:
  assumes "ring head h (xs @ p # ys)" and "node \<notin> set (head # xs @ p # ys)"
  shows "ring head (iqueue_add node p h) (xs @ p # node # ys)"
proof -
  have l: "links h head xs p" "links h p ys head" using assms(1) by (simp_all add: ring_def links_append)
  have "links (iqueue_add node p h) p (node # ys) head"
    using assms l(2) by (intro links_insert) (auto simp: ring_def)
  moreover have "links (iqueue_add node p h) head xs p"
  proof (rule links_frame [OF l(1)])
    have d: "distinct (head # xs @ p # ys)" "node \<noteq> p" using assms by (auto simp: ring_def)
    note upd = iqueue_add_fields [OF d(2), of h]
    have "q_next h p = hd (ys @ [head])" using l(2) by (rule links_first)
    then have nx: "q_next h p \<notin> insert p (set xs)" using d by (cases ys) auto
    show "q_next (iqueue_add node p h) n = q_next h n" if "n \<in> insert head (set xs)" for n
      using that d assms(2) by (auto simp: upd)
    show "q_prev (iqueue_add node p h) n = q_prev h n" if "n \<in> insert p (set xs)" for n
      using that d assms(2) nx by (auto simp: upd)
  qed
  ultimately show ?thesis
    using assms links_append [of "iqueue_add node p h" head xs p "node # ys" head] by (auto simp: ring_def)
qed

lemma add_tail_eq_add:
  assumes "ring head h xs" and "node \<notin> set (head # xs)"
  shows "iqueue_add_tail node head h = iqueue_add node (last (head # xs)) h"
proof -
  have "q_prev h head = last (head # xs)" using assms(1) links_last by (simp add: ring_def)
  moreover have "q_next h (last (head # xs)) = head"
    using assms(1) by (cases xs rule: rev_cases) (auto simp: ring_def links_snoc)
  moreover have "last (head # xs) \<noteq> node" using assms(2) by (cases xs rule: rev_cases) auto
  moreover have "head \<noteq> node" using assms(2) by auto
  ultimately show ?thesis
    by (simp add: iqueue_add_tail_def iqueue_add_def heap_ops Let_def fun_upd_twist del: last.simps)
qed

lemma ring_add_tail:
  assumes "ring head h xs" and "node \<notin> set (head # xs)"
  shows "ring head (iqueue_add_tail node head h) (xs @ [node])"
proof (cases xs rule: rev_cases)
  case Nil
  then show ?thesis using ring_add [OF assms] add_tail_eq_add [OF assms] by simp
next
  case (snoc ys y)
  then show ?thesis
    using ring_add_after [of head h ys y "[]" node] assms add_tail_eq_add [OF assms] by simp
qed

lemma ring_del:
  assumes "ring head h (xs @ e # ys)"
  shows "ring head (iqueue_del e h) (xs @ ys)"
proof -
  have l: "links h head xs e" "links h e ys head" and d: "distinct (head # xs @ e # ys)"
    using assms by (simp_all add: ring_def links_append)
  define a b where "a = last (head # xs)" and "b = hd (ys @ [head])"
  have e: "q_prev h e = a" "q_next h e = b" using links_last [OF l(1)] links_first [OF l(2)] by (simp_all add: a_def b_def)
  have ne: "a \<noteq> e" "b \<noteq> e" using d by (cases xs rule: rev_cases; cases ys; auto simp: a_def b_def)+
  let ?h = "iqueue_del e h"
  have upd: "q_next ?h = (q_next h)(a := b, e := 0)" "q_prev ?h = (q_prev h)(b := a, e := 0)"
    using e ne by (auto simp: iqueue_del_def heap_ops Let_def)
  have a_in: "a \<in> insert head (set xs)" by (cases xs rule: rev_cases) (auto simp: a_def)
  have b_in: "b \<in> insert head (set ys)" by (cases ys) (auto simp: b_def)
  have right: "links ?h x zs head" if ys: "ys = x # zs" for x zs
  proof (rule links_frame [of h])
    show "links h x zs head" using l(2) ys by simp
    show "q_next ?h n = q_next h n" if "n \<in> insert x (set zs)" for n
      using that d a_in ys by (auto simp: upd)
    have "b = x" using ys by (simp add: b_def)
    then show "q_prev ?h n = q_prev h n" if "n \<in> insert head (set zs)" for n
      using that d ys by (auto simp: upd)
  qed
  have left: "links ?h head zs x" if xs: "xs = zs @ [x]" for x zs
  proof (rule links_frame [of h])
    show "links h head zs x" using l(1) xs by (simp add: links_snoc)
    have "a = x" using xs by (simp add: a_def)
    then show "q_next ?h n = q_next h n" if "n \<in> insert head (set zs)" for n
      using that d xs by (auto simp: upd)
    show "q_prev ?h n = q_prev h n" if "n \<in> insert x (set zs)" for n
      using that d b_in xs by (auto simp: upd)
  qed
  have join: "q_next ?h a = b" "q_prev ?h b = a" using ne by (simp_all add: upd)
  have "links ?h head (xs @ ys) head"
  proof (cases ys)
    case Nil
    then show ?thesis using left join by (cases xs rule: rev_cases) (auto simp: a_def b_def links_snoc)
  next
    case (Cons x zs)
    then show ?thesis
      using right left join by (cases xs rule: rev_cases) (auto simp: a_def b_def links_append)
  qed
  then show ?thesis using d by (auto simp: ring_def)
qed

lemma ring_del_init:
  assumes "ring head h (xs @ e # ys)"
  shows "ring head (iqueue_del_init e h) (xs @ ys)" and "ring e (iqueue_del_init e h) []"
proof -
  have d: "e \<notin> set (head # xs @ ys)" using assms by (auto simp: ring_def)
  have r: "ring head (iqueue_del e h) (xs @ ys)" using assms by (rule ring_del)
  have "links (iqueue_init e (iqueue_del e h)) head (xs @ ys) head"
  proof (rule links_frame)
    show "links (iqueue_del e h) head (xs @ ys) head" using r by (simp add: ring_def)
  qed (use d in \<open>auto simp: iqueue_init_def heap_ops\<close>)
  then show "ring head (iqueue_del_init e h) (xs @ ys)"
    using r by (simp add: ring_def iqueue_del_init_def)
  show "ring e (iqueue_del_init e h) []" by (simp add: iqueue_del_init_def ring_init)
qed

lemma ring_outside:
  assumes "ring head h xs"
    and "\<And>n. n \<in> set (head # xs) \<Longrightarrow> q_next h' n = q_next h n \<and> q_prev h' n = q_prev h n"
  shows "ring head h' xs"
proof -
  have "links h head xs head" using assms(1) by (simp add: ring_def)
  then have "links h' head xs head"
  proof (rule links_frame)
    show "q_next h' n = q_next h n" if "n \<in> insert head (set xs)" for n using assms(2) [of n] that by simp
    show "q_prev h' n = q_prev h n" if "n \<in> insert head (set xs)" for n using assms(2) [of n] that by simp
  qed
  then show ?thesis using assms(1) by (simp add: ring_def)
qed

lemma ring_splice:
  assumes l: "ring lst h xs" and r: "ring head h ys" and d: "set (lst # xs) \<inter> set (head # ys) = {}"
  shows "ring head (iqueue_splice lst head h) (xs @ ys)"
proof (cases xs rule: rev_cases)
  case Nil
  then show ?thesis using l r ring_is_empty [OF l] by (simp add: iqueue_splice_def)
next
  case (snoc zs z)
  define a b where "a = hd xs" and "b = hd (ys @ [head])"
  have ll: "links h lst xs lst" and lr: "links h head ys head" using l r by (simp_all add: ring_def)
  have a: "q_next h lst = a" "q_prev h lst = z" and b: "q_next h head = b"
    using links_first [OF ll] links_last [OF ll] links_first [OF lr] by (simp_all add: a_def b_def snoc hd_append)
  have mem: "a \<in> set xs" "z \<in> set xs" "b \<in> insert head (set ys)"
    using snoc by (auto simp: a_def b_def hd_append split: list.splits)
  let ?h = "iqueue_splice lst head h"
  have "z \<noteq> head" "a \<noteq> b" using mem d by auto
  then have upd: "q_next ?h = (q_next h)(head := a, z := b)" "q_prev ?h = (q_prev h)(a := head, b := z)"
    using snoc ring_is_empty [OF l] a b by (auto simp: iqueue_splice_def heap_ops Let_def)
  have dx: "distinct xs" "distinct (head # ys)" using l r by (auto simp: ring_def)
  have left: "links ?h head zs z"
  proof (cases zs)
    case Nil
    then have "a = z" by (simp add: a_def snoc)
    with Nil \<open>z \<noteq> head\<close> \<open>a \<noteq> b\<close> show ?thesis by (auto simp: upd)
  next
    case (Cons x us)
    have "links h x us z" using l snoc Cons by (auto simp: ring_def links_append)
    then have "links ?h x us z"
    proof (rule links_frame)
      show "q_next ?h n = q_next h n" if "n \<in> insert x (set us)" for n
        using that dx(1) d snoc Cons by (auto simp: upd)
      show "q_prev ?h n = q_prev h n" if "n \<in> insert z (set us)" for n
        using that dx(1) d snoc Cons mem(3) by (auto simp: upd a_def)
    qed
    moreover have "x = a" by (simp add: a_def snoc Cons)
    ultimately show ?thesis using \<open>z \<noteq> head\<close> \<open>a \<noteq> b\<close> Cons by (auto simp: upd)
  qed
  have right: "links ?h z ys head"
  proof (cases ys)
    case Nil
    then show ?thesis using mem(2) by (simp add: upd b_def)
  next
    case (Cons y us)
    have "links h y us head" using r Cons by (simp add: ring_def)
    then have "links ?h y us head"
    proof (rule links_frame)
      show "q_next ?h n = q_next h n" if "n \<in> insert y (set us)" for n
        using that dx(2) d Cons mem(2) by (auto simp: upd)
      show "q_prev ?h n = q_prev h n" if "n \<in> insert head (set us)" for n
        using that dx(2) d Cons mem(1) by (auto simp: upd b_def)
    qed
    then show ?thesis using Cons by (simp add: upd b_def)
  qed
  show ?thesis
    using left right dx d links_append [of ?h head zs z ys head] by (auto simp: ring_def snoc)
qed

subsection \<open>The interface of a queue of nodes\<close>

text \<open>
  The loop every client of a queue runs, \<open>while (!is_empty) { entry = first; del(entry); ... }\<close>,
  as \<open>ikcp_release\<close> does for its four queues: the nodes it takes, in order, and the
  final state; \<open>None\<close> when the fuel does not suffice.
\<close>

fun drain_loop :: "('h \<Rightarrow> bool) \<Rightarrow> ('h \<Rightarrow> 'a) \<Rightarrow> ('h \<Rightarrow> 'h) \<Rightarrow> nat \<Rightarrow> 'h \<Rightarrow> ('a list \<times> 'h) option" where
  "drain_loop is_empty first pop fuel h =
     (if is_empty h then Some ([], h)
      else case fuel of
             0 \<Rightarrow> None
           | Suc n \<Rightarrow> map_option (\<lambda>(xs, h'). (first h # xs, h')) (drain_loop is_empty first pop n (pop h)))"

declare drain_loop.simps [simp del]

text \<open>
  A container of nodes from which the first is taken. A queue adds behind the last, a stack in front
  of the first.
\<close>

locale node_container =
  fixes rep :: "'h \<Rightarrow> 'a list \<Rightarrow> bool"
    and first :: "'h \<Rightarrow> 'a"
    and pop :: "'h \<Rightarrow> 'h"
    and is_empty :: "'h \<Rightarrow> bool"
  assumes first: "rep h (x # xs) \<Longrightarrow> first h = x"
    and pop: "rep h (x # xs) \<Longrightarrow> rep (pop h) xs"
    and is_empty: "rep h xs \<Longrightarrow> is_empty h \<longleftrightarrow> xs = []"
begin

lemma drain:
  assumes "rep h xs" and "length xs \<le> fuel"
  shows "\<exists>h'. drain_loop is_empty first pop fuel h = Some (xs, h') \<and> rep h' []"
  using assms
proof (induction xs arbitrary: h fuel)
  case Nil
  then show ?case using is_empty by (subst drain_loop.simps) auto
next
  case (Cons x xs)
  then obtain n where n: "fuel = Suc n" "length xs \<le> n" by (cases fuel) auto
  have "\<not> is_empty h" using is_empty [OF Cons.prems(1)] by simp
  with Cons.IH [OF pop [OF Cons.prems(1)] n(2)] first [OF Cons.prems(1)] n(1) show ?case
    by (subst drain_loop.simps) auto
qed

end

locale node_queue = node_container rep first pop is_empty
  for rep :: "'h \<Rightarrow> 'a list \<Rightarrow> bool" and first :: "'h \<Rightarrow> 'a" and pop :: "'h \<Rightarrow> 'h" and is_empty :: "'h \<Rightarrow> bool" +
  fixes fresh :: "'a \<Rightarrow> 'a list \<Rightarrow> bool"
    and push :: "'a \<Rightarrow> 'h \<Rightarrow> 'h"
  assumes push: "rep h xs \<Longrightarrow> fresh x xs \<Longrightarrow> rep (push x h) (xs @ [x])"
begin

lemma push_all:
  assumes "rep h xs" and "\<And>i. i < length ys \<Longrightarrow> fresh (ys ! i) (xs @ take i ys)"
  shows "rep (fold push ys h) (xs @ ys)"
  using assms
proof (induction ys arbitrary: h xs)
  case (Cons y ys)
  have "rep (push y h) (xs @ [y])" using push Cons.prems(1) Cons.prems(2) [of 0] by simp
  from Cons.IH [OF this] Cons.prems(2) show ?case by fastforce
qed simp

text \<open>First in, first out.\<close>

lemma push_all_drain:
  assumes "rep h []" and "\<And>i. i < length ys \<Longrightarrow> fresh (ys ! i) (take i ys)" and "length ys \<le> fuel"
  shows "\<exists>h'. drain_loop is_empty first pop fuel (fold push ys h) = Some (ys, h') \<and> rep h' []"
  using drain [OF _ assms(3)] push_all [OF assms(1)] assms(2) by simp

end

locale node_stack = node_container rep first pop is_empty
  for rep :: "'h \<Rightarrow> 'a list \<Rightarrow> bool" and first :: "'h \<Rightarrow> 'a" and pop :: "'h \<Rightarrow> 'h" and is_empty :: "'h \<Rightarrow> bool" +
  fixes fresh :: "'a \<Rightarrow> 'a list \<Rightarrow> bool"
    and push :: "'a \<Rightarrow> 'h \<Rightarrow> 'h"
  assumes push: "rep h xs \<Longrightarrow> fresh x xs \<Longrightarrow> rep (push x h) (x # xs)"
begin

lemma push_all_rev:
  assumes "rep h xs" and "\<And>i. i < length ys \<Longrightarrow> fresh (ys ! i) (rev (take i ys) @ xs)"
  shows "rep (fold push ys h) (rev ys @ xs)"
  using assms
proof (induction ys arbitrary: h xs)
  case (Cons y ys)
  have "rep (push y h) (y # xs)" using push Cons.prems(1) Cons.prems(2) [of 0] by simp
  from Cons.IH [OF this] Cons.prems(2) show ?case by fastforce
qed simp

text \<open>Last in, first out.\<close>

lemma push_all_drain_rev:
  assumes "rep h []" and "\<And>i. i < length ys \<Longrightarrow> fresh (ys ! i) (rev (take i ys))" and "length ys \<le> fuel"
  shows "\<exists>h'. drain_loop is_empty first pop fuel (fold push ys h) = Some (rev ys, h') \<and> rep h' []"
proof -
  have "rep (fold push ys h) (rev ys)" using push_all_rev [OF assms(1)] assms(2) by simp
  from drain [OF this, of fuel] assms(3) show ?thesis by simp
qed

end

text \<open>The ring of \<open>ikcp.h\<close> with its head at a fixed address is a queue.\<close>

definition iqueue_pop :: "addr \<Rightarrow> qheap \<Rightarrow> qheap" where
  "iqueue_pop head h = iqueue_del (q_next h head) h"

interpretation iq: node_queue "ring head" "\<lambda>h. q_next h head" "iqueue_pop head" "iqueue_is_empty head"
    "\<lambda>x xs. x \<notin> set (head # xs)" "\<lambda>x. iqueue_add_tail x head" for head
proof
  fix h x xs
  show "ring head (iqueue_add_tail x head h) (xs @ [x])" if "ring head h xs" "x \<notin> set (head # xs)"
    using that by (rule ring_add_tail)
  show "q_next h head = x" if "ring head h (x # xs)" using that by (simp add: ring_def)
  show "ring head (iqueue_pop head h) xs" if "ring head h (x # xs)"
    using ring_del [of head h "[]" x xs] that by (simp add: iqueue_pop_def ring_def)
  show "iqueue_is_empty head h \<longleftrightarrow> xs = []" if "ring head h xs" using that by (rule ring_is_empty)
qed

subsection \<open>Properties of the ring\<close>

text \<open>
  C30. The pointer operations on the intrusive ring are list operations. Adding at the tail, at the
  head or behind a node of the ring inserts the node there, deleting a node removes exactly it (with
  \<open>iqueue_del_init\<close> leaving the node a ring of its own), and
  splicing puts one queue in front of another, for every ring of distinct nodes and every
  node that is not in it.
\<close>

theorem iqueue_operations:
  assumes "ring head h (xs @ p # ys)" and "node \<notin> set (head # xs @ p # ys)"
    and "ring lst h zs" and "set (lst # zs) \<inter> set (head # xs @ p # ys) = {}"
  shows "ring head (iqueue_add_tail node head h) (xs @ p # ys @ [node]) \<and>
    ring head (iqueue_add node head h) (node # xs @ p # ys) \<and>
    ring head (iqueue_add node p h) (xs @ p # node # ys) \<and>
    ring head (iqueue_del p h) (xs @ ys) \<and>
    ring head (iqueue_del_init p h) (xs @ ys) \<and> ring p (iqueue_del_init p h) [] \<and>
    ring head (iqueue_splice lst head h) (zs @ xs @ p # ys)"
  using ring_add_tail [OF assms(1,2)] ring_add [OF assms(1,2)] ring_add_after [OF assms(1,2)]
    ring_del [OF assms(1)] ring_del_init [OF assms(1)] ring_splice [OF assms(3,1,4)]
  by simp

definition example_rings :: qheap where
  "example_rings = iqueue_add_tail 2 1 (iqueue_init 1 (iqueue_init 5 \<lparr>q_next = (\<lambda>_. 0), q_prev = (\<lambda>_. 0)\<rparr>))"

theorem iqueue_operations_witness:
  "ring 1 (iqueue_add 3 2 example_rings) [2, 3] \<and> ring 1 (iqueue_del 2 example_rings) []"
proof -
  have "ring 1 example_rings ([] @ 2 # [])" "ring 5 example_rings []"
    by (simp_all add: ring_def example_rings_def iqueue_init_def iqueue_add_tail_def heap_ops)
  from iqueue_operations [OF this(1) _ this(2), of 3] show ?thesis by simp
qed

text \<open>
  C31. A queue is first in, first out, and the loop that empties it ends: nodes
  appended with \<open>iqueue_add_tail\<close> to an empty ring are taken out by the loop of
  \<open>ikcp_release\<close> each exactly once, in the order they were appended, after as many rounds as there are
  nodes, and the ring is empty then.
\<close>

theorem iqueue_fifo:
  assumes "distinct (head # ys)"
  shows "\<exists>h'. drain_loop (iqueue_is_empty head) (\<lambda>h. q_next h head) (iqueue_pop head) (length ys)
                (fold (\<lambda>x. iqueue_add_tail x head) ys (iqueue_init head h)) = Some (ys, h') \<and> ring head h' []"
proof (rule iq.push_all_drain)
  show "ring head (iqueue_init head h) []" by (rule ring_init)
  show "ys ! i \<notin> set (head # take i ys)" if "i < length ys" for i
    using assms that by (auto simp: in_set_conv_nth nth_eq_iff_index_eq)
qed simp

theorem iqueue_fifo_witness:
  "\<exists>h'. drain_loop (iqueue_is_empty 1) (\<lambda>h. q_next h 1) (iqueue_pop 1) 2
          (fold (\<lambda>x. iqueue_add_tail x 1) [7, 4] (iqueue_init 1 example_rings)) = Some ([7, 4], h')"
  using iqueue_fifo [of 1 "[7, 4]" example_rings] by (auto simp: numeral_2_eq_2)

end
