(* ===== verification/MemPool.thy ===== *)
theory MemPool
  imports CPrelude
begin

text \<open>
  The memory pool of \<open>mempool/mmpool.c\<close>, after the pool of nginx: small requests are cut
  from a chain of nodes, large ones are blocks of their own, listed in the pool.

  Addresses are 64-bit words, so that \<open>(size_t)(p->end - m)\<close> wraps as it does in C. The chain of
  nodes and the list of large blocks are lists in the order of their \<open>next\<close> pointers, each
  entry with its own address; \<open>p_tail\<close> is the \<open>next\<close> field of the last node (0 is \<open>NULL\<close>),
  which \<open>mp_create_pool\<close> leaves uninitialised. The system heap is the list of allocated
  blocks and the bytes of memory; what \<open>malloc\<close> and \<open>posix_memalign\<close> return is a
  parameter, a function of the blocks allocated, the alignment and the size.
\<close>

subsection \<open>Data\<close>

definition MP_ALIGNMENT :: u64 where "MP_ALIGNMENT = 32"
definition MP_PAGE_SIZE :: u64 where "MP_PAGE_SIZE = 4096"
definition MP_MAX_ALLOC_FROM_POOL :: u64 where "MP_MAX_ALLOC_FROM_POOL = MP_PAGE_SIZE - 1"

definition mp_align :: "u64 \<Rightarrow> u64 \<Rightarrow> u64" where
  "mp_align n alignment = (n + (alignment - 1)) AND NOT (alignment - 1)"

definition mp_align_ptr :: "u64 \<Rightarrow> u64 \<Rightarrow> u64" where
  "mp_align_ptr p alignment = (p + (alignment - 1)) AND NOT (alignment - 1)"

text \<open>The sizes of \<open>struct mp_pool_s\<close>, \<open>mp_node_s\<close> and \<open>mp_large_s\<close> with 8-byte pointers.\<close>

definition SIZEOF_POOL :: u64 where "SIZEOF_POOL = 24"
definition SIZEOF_NODE :: u64 where "SIZEOF_NODE = 32"
definition SIZEOF_LARGE :: u64 where "SIZEOF_LARGE = 16"

record mp_large_s =
  l_addr :: u64
  l_alloc :: u64

record mp_node_s =
  n_addr :: u64
  n_last :: u64
  n_end :: u64
  n_failed :: u64

record mp_pool_s =
  p_addr :: u64
  p_max :: u64
  p_current :: u64
  p_large :: "mp_large_s list"
  p_nodes :: "mp_node_s list"
  p_tail :: u64

record sys_heap =
  h_live :: "(u64 \<times> u64) list"
  h_mem :: "u64 \<Rightarrow> u8"

type_synonym sys_alloc = "(u64 \<times> u64) list \<Rightarrow> u64 \<Rightarrow> u64 \<Rightarrow> u64 option"

subsection \<open>The system heap\<close>

definition posix_memalign :: "sys_alloc \<Rightarrow> sys_heap \<Rightarrow> u64 \<Rightarrow> u64 \<Rightarrow> (u64 \<times> sys_heap) option" where
  "posix_memalign sa h alignment sz =
     (case sa (h_live h) alignment sz of
        None \<Rightarrow> None
      | Some a \<Rightarrow> Some (a, h\<lparr>h_live := (a, sz) # h_live h\<rparr>))"

text \<open>\<open>malloc\<close> aligns for every type, which is 16 bytes here.\<close>

definition malloc :: "sys_alloc \<Rightarrow> sys_heap \<Rightarrow> u64 \<Rightarrow> (u64 \<times> sys_heap) option" where
  "malloc sa h sz = posix_memalign sa h 16 sz"

fun remove_block :: "u64 \<Rightarrow> (u64 \<times> u64) list \<Rightarrow> (u64 \<times> u64) list" where
  "remove_block a [] = []"
| "remove_block a (b # bs) = (if fst b = a then bs else b # remove_block a bs)"

definition free :: "sys_heap \<Rightarrow> u64 \<Rightarrow> sys_heap cresult" where
  "free h a =
     (if a = 0 then Inr h
      else if a \<in> fst ` set (h_live h) then Inr (h\<lparr>h_live := remove_block a (h_live h)\<rparr>)
      else Inl Bad_Free)"

text \<open>Does a range of addresses lie in an allocated block?\<close>

definition in_block :: "u64 \<Rightarrow> u64 \<Rightarrow> u64 \<times> u64 \<Rightarrow> bool" where
  "in_block a n b \<longleftrightarrow> unat (fst b) \<le> unat a \<and> unat a + unat n \<le> unat (fst b) + unat (snd b)"

definition memset :: "sys_heap \<Rightarrow> u64 \<Rightarrow> u8 \<Rightarrow> u64 \<Rightarrow> sys_heap cresult" where
  "memset h a v n =
     (if n = 0 \<or> (\<exists>b \<in> set (h_live h). in_block a n b)
      then Inr (h\<lparr>h_mem := (\<lambda>x. if unat a \<le> unat x \<and> unat x < unat a + unat n then v else h_mem h x)\<rparr>)
      else Inl Out_Of_Bounds)"

subsection \<open>Creation and release\<close>

definition mp_create_pool :: "sys_alloc \<Rightarrow> u64 \<Rightarrow> sys_heap \<Rightarrow> u64 \<Rightarrow> (mp_pool_s \<times> sys_heap) option" where
  "mp_create_pool sa junk h sz =
     (case posix_memalign sa h MP_ALIGNMENT (sz + SIZEOF_POOL + SIZEOF_NODE) of
        None \<Rightarrow> None
      | Some (p, h) \<Rightarrow>
          let head = p + SIZEOF_POOL; last = p + SIZEOF_POOL + SIZEOF_NODE
          in Some (\<lparr>p_addr = p, p_max = (if sz < MP_MAX_ALLOC_FROM_POOL then sz else MP_MAX_ALLOC_FROM_POOL),
                    p_current = head, p_large = [],
                    p_nodes = [\<lparr>n_addr = head, n_last = last, n_end = last + sz, n_failed = 0\<rparr>],
                    p_tail = junk\<rparr>, h))"

fun free_larges :: "sys_heap \<Rightarrow> mp_large_s list \<Rightarrow> sys_heap cresult" where
  "free_larges h [] = Inr h"
| "free_larges h (l # ls) =
     (if l_alloc l \<noteq> 0 then rbind (free h (l_alloc l)) (\<lambda>h. free_larges h ls) else free_larges h ls)"

text \<open>The loop over the nodes behind the head; at the end it reads the last \<open>next\<close> field.\<close>

fun free_nodes :: "sys_heap \<Rightarrow> mp_node_s list \<Rightarrow> u64 \<Rightarrow> sys_heap cresult" where
  "free_nodes h [] tail = (if tail = 0 then Inr h else Inl Wild_Pointer)"
| "free_nodes h (n # ns) tail = rbind (free h (n_addr n)) (\<lambda>h. free_nodes h ns tail)"

definition mp_destory_pool :: "sys_heap \<Rightarrow> mp_pool_s \<Rightarrow> sys_heap cresult" where
  "mp_destory_pool h pool =
     rbind (free_larges h (p_large pool)) (\<lambda>h.
     rbind (free_nodes h (tl (p_nodes pool)) (p_tail pool)) (\<lambda>h.
     free h (p_addr pool)))"

definition mp_reset_pool :: "sys_heap \<Rightarrow> mp_pool_s \<Rightarrow> (mp_pool_s \<times> sys_heap) cresult" where
  "mp_reset_pool h pool =
     rbind (free_larges h (p_large pool)) (\<lambda>h.
       if p_tail pool = 0
       then Inr (pool\<lparr>p_large := [],
                      p_nodes := map (\<lambda>n. n\<lparr>n_last := n_addr n + SIZEOF_NODE\<rparr>) (p_nodes pool)\<rparr>, h)
       else Inl Wild_Pointer)"

subsection \<open>Small requests\<close>

text \<open>
  The walk from \<open>current\<close>: the first node with room is advanced. The result is \<open>None\<close> when the
  walk reaches \<open>NULL\<close>. \<open>aligned\<close> distinguishes \<open>mp_alloc\<close> from \<open>mp_nalloc\<close>.
\<close>

fun alloc_walk :: "bool \<Rightarrow> u64 \<Rightarrow> u64 \<Rightarrow> mp_node_s list \<Rightarrow> (u64 \<times> mp_node_s list) option cresult" where
  "alloc_walk aligned sz tail [] = (if tail = 0 then Inr None else Inl Wild_Pointer)"
| "alloc_walk aligned sz tail (n # ns) =
     (let m = (if aligned then mp_align_ptr (n_last n) MP_ALIGNMENT else n_last n)
      in if n_end n - m \<ge> sz then Inr (Some (m, n\<lparr>n_last := m + sz\<rparr> # ns))
         else rbind (alloc_walk aligned sz tail ns) (\<lambda>r.
              Inr (map_option (\<lambda>(m, ns). (m, n # ns)) r)))"

text \<open>The nodes before \<open>current\<close> and those from it on.\<close>

definition before_current :: "mp_pool_s \<Rightarrow> mp_node_s list" where
  "before_current pool = takeWhile (\<lambda>n. n_addr n \<noteq> p_current pool) (p_nodes pool)"

definition from_current :: "mp_pool_s \<Rightarrow> mp_node_s list" where
  "from_current pool = dropWhile (\<lambda>n. n_addr n \<noteq> p_current pool) (p_nodes pool)"

text \<open>
  The loop of \<open>mp_alloc_block\<close> over all nodes but the last: the failure counts go up, and
  \<open>current\<close> moves behind the last node that has failed more than four times before.
\<close>

fun count_failures :: "u64 \<Rightarrow> mp_node_s list \<Rightarrow> u64 \<times> mp_node_s list" where
  "count_failures current (n # n' # ns) =
     (let (c, ns') = count_failures (if n_failed n > 4 then n_addr n' else current) (n' # ns)
      in (c, n\<lparr>n_failed := n_failed n + 1\<rparr> # ns'))"
| "count_failures current ns = (current, ns)"

definition mp_alloc_block :: "sys_alloc \<Rightarrow> sys_heap \<Rightarrow> mp_pool_s \<Rightarrow> u64 \<Rightarrow> (u64 \<times> mp_pool_s \<times> sys_heap) cresult" where
  "mp_alloc_block sa h pool sz =
     (case p_nodes pool of
        [] \<Rightarrow> Inl Wild_Pointer
      | head # _ \<Rightarrow>
          let psize = n_end head - n_addr head in
          (case posix_memalign sa h MP_ALIGNMENT psize of
             None \<Rightarrow> Inr (0, pool, h)
           | Some (b, h) \<Rightarrow>
               let m = mp_align_ptr (b + SIZEOF_NODE) MP_ALIGNMENT;
                   new_node = \<lparr>n_addr = b, n_last = m + sz, n_end = b + psize, n_failed = 0\<rparr>;
                   (current, ns) = count_failures (p_current pool) (from_current pool)
               in if p_tail pool = 0
                  then Inr (m, pool\<lparr>p_current := (if current \<noteq> 0 then current else b),
                                    p_nodes := before_current pool @ ns @ [new_node]\<rparr>, h)
                  else Inl Wild_Pointer))"

definition alloc_small :: "bool \<Rightarrow> sys_alloc \<Rightarrow> sys_heap \<Rightarrow> mp_pool_s \<Rightarrow> u64 \<Rightarrow> (u64 \<times> mp_pool_s \<times> sys_heap) cresult" where
  "alloc_small aligned sa h pool sz =
     (if from_current pool = [] then Inl Wild_Pointer
      else rbind (alloc_walk aligned sz (p_tail pool) (from_current pool)) (\<lambda>r.
        case r of
          Some (m, ns) \<Rightarrow> Inr (m, pool\<lparr>p_nodes := before_current pool @ ns\<rparr>, h)
        | None \<Rightarrow> mp_alloc_block sa h pool sz))"

subsection \<open>Large requests\<close>

text \<open>The search for a free slot looks at five entries at most: \<open>n\<close> counts the entries passed.\<close>

fun take_slot :: "nat \<Rightarrow> u64 \<Rightarrow> mp_large_s list \<Rightarrow> mp_large_s list option" where
  "take_slot n p [] = None"
| "take_slot n p (l # ls) =
     (if l_alloc l = 0 then Some (l\<lparr>l_alloc := p\<rparr> # ls)
      else if n > 3 then None
      else map_option (Cons l) (take_slot (n + 1) p ls))"

text \<open>
  The part of \<open>mp_alloc_large\<close> before it asks the pool for a \<open>struct mp_large_s\<close>: it is finished
  (\<open>Inl\<close>), or it has a block that is to be listed.
\<close>

definition large_begin ::
  "sys_alloc \<Rightarrow> sys_heap \<Rightarrow> mp_pool_s \<Rightarrow> u64 \<Rightarrow> (u64 \<times> mp_pool_s \<times> sys_heap) + (u64 \<times> sys_heap)" where
  "large_begin sa h pool sz =
     (case malloc sa h sz of
        None \<Rightarrow> Inl (0, pool, h)
      | Some (p, h) \<Rightarrow>
          (case take_slot 0 p (p_large pool) of
             Some ls \<Rightarrow> Inl (p, pool\<lparr>p_large := ls\<rparr>, h)
           | None \<Rightarrow> Inr (p, h)))"

text \<open>The part behind it: the block \<open>p\<close> is listed, or released when there is no entry for it.\<close>

definition large_end :: "u64 \<Rightarrow> (u64 \<times> mp_pool_s \<times> sys_heap) cresult \<Rightarrow> (u64 \<times> mp_pool_s \<times> sys_heap) cresult" where
  "large_end p r =
     rbind r (\<lambda>(large, pool, h).
       if large = 0 then rbind (free h p) (\<lambda>h. Inr (0, pool, h))
       else if \<exists>b \<in> set (h_live h). in_block large SIZEOF_LARGE b
       then Inr (p, pool\<lparr>p_large := \<lparr>l_addr = large, l_alloc = p\<rparr> # p_large pool\<rparr>, h)
       else Inl Out_Of_Bounds)"

text \<open>
  \<open>mp_alloc\<close> and \<open>mp_alloc_large\<close> call each other. The recursion may not end (then the value is
  \<open>None\<close>): a pool of less than 16 bytes treats the request for a list entry as a large one.
\<close>

partial_function (option) mp_alloc ::
  "sys_alloc \<Rightarrow> sys_heap \<Rightarrow> mp_pool_s \<Rightarrow> u64 \<Rightarrow> (u64 \<times> mp_pool_s \<times> sys_heap) cresult option" where
  "mp_alloc sa h pool sz =
     (if sz \<le> p_max pool then Some (alloc_small True sa h pool sz)
      else case large_begin sa h pool sz of
        Inl r \<Rightarrow> Some (Inr r)
      | Inr (p, h1) \<Rightarrow> Option.bind (mp_alloc sa h1 pool SIZEOF_LARGE) (\<lambda>r. Some (large_end p r)))"

declare mp_alloc.simps [code]

definition mp_alloc_large ::
  "sys_alloc \<Rightarrow> sys_heap \<Rightarrow> mp_pool_s \<Rightarrow> u64 \<Rightarrow> (u64 \<times> mp_pool_s \<times> sys_heap) cresult option" where
  "mp_alloc_large sa h pool sz =
     (case large_begin sa h pool sz of
        Inl r \<Rightarrow> Some (Inr r)
      | Inr (p, h1) \<Rightarrow> Option.bind (mp_alloc sa h1 pool SIZEOF_LARGE) (\<lambda>r. Some (large_end p r)))"

lemma mp_alloc_eq:
  "mp_alloc sa h pool sz =
     (if sz \<le> p_max pool then Some (alloc_small True sa h pool sz) else mp_alloc_large sa h pool sz)"
  by (subst mp_alloc.simps) (simp add: mp_alloc_large_def)

definition mp_memalign ::
  "sys_alloc \<Rightarrow> sys_heap \<Rightarrow> mp_pool_s \<Rightarrow> u64 \<Rightarrow> u64 \<Rightarrow> (u64 \<times> mp_pool_s \<times> sys_heap) cresult option" where
  "mp_memalign sa h pool sz alignment =
     (case posix_memalign sa h alignment sz of
        None \<Rightarrow> Some (Inr (0, pool, h))
      | Some (p, h1) \<Rightarrow> Option.bind (mp_alloc sa h1 pool SIZEOF_LARGE) (\<lambda>r. Some (large_end p r)))"

definition mp_nalloc ::
  "sys_alloc \<Rightarrow> sys_heap \<Rightarrow> mp_pool_s \<Rightarrow> u64 \<Rightarrow> (u64 \<times> mp_pool_s \<times> sys_heap) cresult option" where
  "mp_nalloc sa h pool sz =
     (if sz \<le> p_max pool then Some (alloc_small False sa h pool sz) else mp_alloc_large sa h pool sz)"

definition mp_calloc ::
  "sys_alloc \<Rightarrow> sys_heap \<Rightarrow> mp_pool_s \<Rightarrow> u64 \<Rightarrow> (u64 \<times> mp_pool_s \<times> sys_heap) cresult option" where
  "mp_calloc sa h pool sz =
     map_option (\<lambda>r. rbind r (\<lambda>(p, pool, h).
       if p \<noteq> 0 then rbind (memset h p 0 sz) (\<lambda>h. Inr (p, pool, h)) else Inr (p, pool, h)))
       (mp_alloc sa h pool sz)"

fun free_slot :: "sys_heap \<Rightarrow> u64 \<Rightarrow> mp_large_s list \<Rightarrow> (mp_large_s list \<times> sys_heap) cresult" where
  "free_slot h p [] = Inr ([], h)"
| "free_slot h p (l # ls) =
     (if p = l_alloc l then rbind (free h (l_alloc l)) (\<lambda>h. Inr (l\<lparr>l_alloc := 0\<rparr> # ls, h))
      else rbind (free_slot h p ls) (\<lambda>(ls, h). Inr (l # ls, h)))"

definition mp_free :: "sys_heap \<Rightarrow> mp_pool_s \<Rightarrow> u64 \<Rightarrow> (mp_pool_s \<times> sys_heap) cresult" where
  "mp_free h pool p = rbind (free_slot h p (p_large pool)) (\<lambda>(ls, h). Inr (pool\<lparr>p_large := ls\<rparr>, h))"

subsection \<open>Alignment\<close>

lemma and_not_31: "(x :: u64) AND - 32 = x div 32 * 32"
proof -
  have "x AND NOT (mask 5) = push_bit 5 (drop_bit 5 x)"
    by (rule bit_word_eqI) (auto simp: bit_simps)
  moreover have "NOT (mask 5) = (- 32 :: u64)" by (simp add: mask_eq_exp_minus_1)
  ultimately show ?thesis by (simp add: push_bit_eq_mult drop_bit_eq_div)
qed

definition align_up :: "nat \<Rightarrow> nat" where
  "align_up n = (n + 31) div 32 * 32"

lemma unat_align_ptr:
  assumes "unat p + 31 < 2 ^ 64"
  shows "unat (mp_align_ptr p MP_ALIGNMENT) = align_up (unat p)"
proof -
  have "unat (p + 31) = unat p + 31" using assms by (simp add: unat_word_ariths)
  moreover have "unat ((p + 31) div 32 * 32) = unat ((p + 31) div 32) * 32"
    using unat_div [of "p + 31" 32] unsigned_less [of "p + 31", where 'a = nat] by (simp add: unat_word_ariths)
  ultimately show ?thesis
    by (simp add: mp_align_ptr_def MP_ALIGNMENT_def and_not_31 align_up_def unat_div)
qed

lemma align_up_ge: "n \<le> align_up n" and align_up_dvd: "32 dvd align_up n"
  and align_up_id: "32 dvd n \<Longrightarrow> align_up n = n"
  by (auto simp: align_up_def)

subsection \<open>What the pool relies on and keeps\<close>

text \<open>
  The documented behaviour of \<open>malloc\<close> and \<open>posix_memalign\<close>: a block has the alignment asked for,
  ends below the top of the address space, and has no byte and no address in common with an
  allocated block.
\<close>

definition region :: "u64 \<Rightarrow> u64 \<Rightarrow> nat set" where
  "region a n = {unat a..<unat a + unat n}"

definition sys_alloc_ok :: "sys_alloc \<Rightarrow> bool" where
  "sys_alloc_ok sa \<longleftrightarrow>
     (\<forall>live al n a. sa live al n = Some a \<longrightarrow>
        a \<noteq> 0 \<and> unat al dvd unat a \<and> unat a + unat n < 2 ^ 64 \<and> a \<notin> fst ` set live \<and>
        (\<forall>b \<in> set live. region a n \<inter> region (fst b) (snd b) = {}))"

lemma sys_alloc_okD:
  "sys_alloc_ok sa \<Longrightarrow> sa live al n = Some a \<Longrightarrow>
   a \<noteq> 0 \<and> unat al dvd unat a \<and> unat a + unat n < 2 ^ 64 \<and> a \<notin> fst ` set live \<and>
   (\<forall>b \<in> set live. region a n \<inter> region (fst b) (snd b) = {})"
  unfolding sys_alloc_ok_def by blast

text \<open>What matters of a node: its address, the end of what is used and the end of its block.\<close>

type_synonym shape = "u64 \<times> u64 \<times> u64"

definition shape :: "mp_node_s \<Rightarrow> shape" where
  "shape n = (n_addr n, n_last n, n_end n)"

fun shape_ok :: "(u64 \<times> u64) list \<Rightarrow> shape \<Rightarrow> bool" where
  "shape_ok live (a, l, e) \<longleftrightarrow>
     unat a + 32 \<le> unat l \<and> unat l \<le> unat e \<and> (\<exists>b \<in> set live. in_block a (e - a) b)"

fun shape_extent :: "shape \<Rightarrow> nat set" where
  "shape_extent (a, l, e) = {unat a..<unat e}"

fun shape_used :: "shape \<Rightarrow> nat set" where
  "shape_used (a, l, e) = {unat a..<unat l}"

definition shapes_ok :: "(u64 \<times> u64) list \<Rightarrow> shape list \<Rightarrow> bool" where
  "shapes_ok live ss \<longleftrightarrow>
     (\<forall>x \<in> set ss. shape_ok live x) \<and> sorted_wrt (\<lambda>x y. shape_extent x \<inter> shape_extent y = {}) ss"

text \<open>The headers and the memory handed out for small requests.\<close>

definition used_space :: "mp_pool_s \<Rightarrow> nat set" where
  "used_space pool = (\<Union>x \<in> set (map shape (p_nodes pool)). shape_used x)"

text \<open>The blocks of the system heap that belong to the pool.\<close>

definition owned :: "mp_pool_s \<Rightarrow> u64 list" where
  "owned pool = p_addr pool # map n_addr (tl (p_nodes pool)) @ filter (\<lambda>a. a \<noteq> 0) (map l_alloc (p_large pool))"

text \<open>The blocks of the pool itself and of its further nodes.\<close>

definition node_blocks :: "sys_heap \<Rightarrow> mp_pool_s \<Rightarrow> (u64 \<times> u64) list" where
  "node_blocks h pool = filter (\<lambda>b. fst b \<in> set (p_addr pool # map n_addr (tl (p_nodes pool)))) (h_live h)"

definition heap_ok :: "(u64 \<times> u64) list \<Rightarrow> (u64 \<times> u64) list \<Rightarrow> u64 list \<Rightarrow> bool" where
  "heap_ok base live own \<longleftrightarrow>
     distinct (map fst live) \<and> 0 \<notin> fst ` set live \<and> distinct own \<and> set own \<subseteq> fst ` set live \<and>
     filter (\<lambda>b. fst b \<notin> set own) live = base"

definition pool_ok :: "(u64 \<times> u64) list \<Rightarrow> sys_heap \<Rightarrow> mp_pool_s \<Rightarrow> bool" where
  "pool_ok base h pool \<longleftrightarrow>
     shapes_ok (node_blocks h pool) (map shape (p_nodes pool)) \<and> p_nodes pool \<noteq> [] \<and> p_tail pool = 0 \<and>
     p_current pool \<in> n_addr ` set (p_nodes pool) \<and> 0 \<notin> n_addr ` set (p_nodes pool) \<and>
     unat (p_max pool) + 32 \<le> unat (n_end (hd (p_nodes pool))) - unat (n_addr (hd (p_nodes pool))) \<and>
     heap_ok base (h_live h) (owned pool)"

text \<open>
  The condition under which the test of \<open>mp_alloc\<close> means what it should: rounding the end of the
  used part up does not pass the end of the block.
\<close>

definition headroom :: "mp_pool_s \<Rightarrow> bool" where
  "headroom pool \<longleftrightarrow> (\<forall>n \<in> set (from_current pool). align_up (unat (n_last n)) \<le> unat (n_end n))"

lemma before_from_current: "before_current pool @ from_current pool = p_nodes pool"
  by (simp add: before_current_def from_current_def)

lemma from_current_not_Nil: "p_current pool \<in> n_addr ` set (p_nodes pool) \<Longrightarrow> from_current pool \<noteq> []"
  by (auto simp: from_current_def dropWhile_eq_Nil_conv)

lemma shapes_ok_more_live: "shapes_ok live ss \<Longrightarrow> set live \<subseteq> set live' \<Longrightarrow> shapes_ok live' ss"
  by (fastforce simp: shapes_ok_def)

lemma align_up_fits: "align_up n \<le> m \<Longrightarrow> m < 2 ^ 64 \<Longrightarrow> n + 31 < 2 ^ 64"
  unfolding align_up_def by simp presburger

subsection \<open>The walk\<close>

lemma alloc_walk_cases:
  assumes "\<forall>n \<in> set ns. unat (n_last n) \<le> unat (n_end n)"
    and "aligned \<longrightarrow> (\<forall>n \<in> set ns. align_up (unat (n_last n)) \<le> unat (n_end n))"
  obtains (full) "alloc_walk aligned sz 0 ns = Inr None"
  | (room) pre n post m where "ns = pre @ n # post"
      "alloc_walk aligned sz 0 ns = Inr (Some (m, pre @ n\<lparr>n_last := m + sz\<rparr> # post))"
      "unat (n_last n) \<le> unat m" "unat (m + sz) = unat m + unat sz" "unat m + unat sz \<le> unat (n_end n)"
      "aligned \<longrightarrow> 32 dvd unat m"
  using assms
proof (induction ns arbitrary: thesis)
  case Nil
  then show ?case by simp
next
  case (Cons n ns)
  define m where "m = (if aligned then mp_align_ptr (n_last n) MP_ALIGNMENT else n_last n)"
  have al: "unat m = align_up (unat (n_last n))" "align_up (unat (n_last n)) \<le> unat (n_end n)" if aligned
    using that Cons.prems(4) align_up_fits [of "unat (n_last n)" "unat (n_end n)"]
      unsigned_less [of "n_end n", where 'a = nat]
    by (simp_all add: m_def unat_align_ptr)
  have m: "unat (n_last n) \<le> unat m" "unat m \<le> unat (n_end n)"
    using Cons.prems(3) al align_up_ge [of "unat (n_last n)"] by (cases aligned; simp add: m_def)+
  show ?case
  proof (cases "n_end n - m \<ge> sz")
    case True
    have "unat sz \<le> unat (n_end n) - unat m"
      using True m(2) by (simp add: word_le_nat_alt unat_sub)
    then have le: "unat m + unat sz \<le> unat (n_end n)" using m(2) by simp
    then have "unat (m + sz) = unat m + unat sz"
      using unsigned_less [of "n_end n", where 'a = nat] by (simp add: unat_word_ariths)
    then show ?thesis
      using True m(1) le al(1) align_up_dvd
      by (intro Cons.prems(2) [of "[]" n ns m]) (auto simp: m_def [symmetric] Let_def)
  next
    case False
    have step: "alloc_walk aligned sz 0 (n # ns) =
        rbind (alloc_walk aligned sz 0 ns) (\<lambda>r. Inr (map_option (\<lambda>(m, ns). (m, n # ns)) r))"
      using False by (simp add: m_def [symmetric] Let_def)
    show ?thesis
    proof (rule Cons.IH)
      assume "alloc_walk aligned sz 0 ns = Inr None"
      then show ?thesis by (intro Cons.prems(1)) (simp add: step del: alloc_walk.simps)
    next
      fix pre n' post m'
      assume "ns = pre @ n' # post" and "alloc_walk aligned sz 0 ns = Inr (Some (m', pre @ n'\<lparr>n_last := m' + sz\<rparr> # post))"
        and "unat (n_last n') \<le> unat m'" "unat (m' + sz) = unat m' + unat sz" "unat m' + unat sz \<le> unat (n_end n')"
        "aligned \<longrightarrow> 32 dvd unat m'"
      then show ?thesis using step by (intro Cons.prems(2) [of "n # pre" n' post m']) (simp_all del: alloc_walk.simps)
    qed (use Cons.prems(3,4) in auto)
  qed
qed

subsection \<open>Small requests are carved from unused memory\<close>

text \<open>
  What an allocation promises: it leaves everything as it was and returns \<open>NULL\<close>, or it returns
  memory of the pool's blocks that no header and no earlier request occupies, and occupies it.
\<close>

definition carved :: "mp_pool_s \<Rightarrow> mp_pool_s \<Rightarrow> sys_heap \<Rightarrow> u64 \<Rightarrow> u64 \<Rightarrow> bool" where
  "carved pool pool' h a sz \<longleftrightarrow>
     a \<noteq> 0 \<and> region a sz \<inter> used_space pool = {} \<and> used_space pool \<union> region a sz \<subseteq> used_space pool' \<and>
     (\<exists>b \<in> set (h_live h). in_block a sz b)"

lemma shape_used_extent: "shape_ok live x \<Longrightarrow> shape_used x \<subseteq> shape_extent x"
  by (cases x) auto

lemma sorted_wrt_disjoint_mid:
  assumes "sorted_wrt (\<lambda>x y. f x \<inter> f y = {}) (xs @ y # zs)" and "x \<in> set (xs @ zs)"
  shows "f x \<inter> f y = {}"
  using assms by (auto simp: sorted_wrt_append)

lemma carve_node:
  assumes ok: "pool_ok base h pool" and ns: "p_nodes pool = pre @ n # post"
    and m: "unat (n_last n) \<le> unat m" "unat (m + sz) = unat m + unat sz" "unat m + unat sz \<le> unat (n_end n)"
    and pool': "pool' = pool\<lparr>p_nodes := pre @ n\<lparr>n_last := m + sz\<rparr> # post\<rparr>"
  shows "pool_ok base h pool' \<and> carved pool pool' h m sz"
proof -
  let ?n = "n\<lparr>n_last := m + sz\<rparr>"
  have shapes: "shapes_ok (node_blocks h pool) (map shape pre @ shape n # map shape post)"
    using ok by (simp add: pool_ok_def ns)
  then have n: "unat (n_addr n) + 32 \<le> unat (n_last n)" "\<exists>b \<in> set (node_blocks h pool). in_block (n_addr n) (n_end n - n_addr n) b"
    by (simp_all add: shapes_ok_def shape_def)
  have ext: "shape_extent (shape ?n) = shape_extent (shape n)" by (simp add: shape_def)
  have "shapes_ok (node_blocks h pool) (map shape pre @ shape ?n # map shape post)"
    using shapes n m unfolding shapes_ok_def by (auto simp: sorted_wrt_append ext) (auto simp: shape_def)
  moreover have "owned pool' = owned pool" "node_blocks h pool' = node_blocks h pool"
    by (cases pre; simp add: owned_def node_blocks_def pool' ns)+
  moreover have "n_addr ` set (p_nodes pool') = n_addr ` set (p_nodes pool)" by (simp add: pool' ns)
  moreover have "n_end (hd (p_nodes pool')) = n_end (hd (p_nodes pool)) \<and> n_addr (hd (p_nodes pool')) = n_addr (hd (p_nodes pool))"
    by (cases pre) (simp_all add: pool' ns)
  ultimately have ok': "pool_ok base h pool'" using ok by (simp add: pool_ok_def pool')
  have other: "region m sz \<inter> shape_used x = {}" if "x \<in> set (map shape pre @ map shape post)" for x
  proof -
    have "shape_extent x \<inter> shape_extent (shape n) = {}"
      using sorted_wrt_disjoint_mid [of shape_extent "map shape pre" "shape n" "map shape post" x] shapes that
      by (simp add: shapes_ok_def)
    moreover have "region m sz \<subseteq> shape_extent (shape n)" using m n(1) by (auto simp: region_def shape_def)
    moreover have "shape_used x \<subseteq> shape_extent x"
      using shapes that by (intro shape_used_extent [of "node_blocks h pool"]) (auto simp: shapes_ok_def)
    ultimately show ?thesis by blast
  qed
  have own: "region m sz \<inter> shape_used (shape n) = {}" using m(1) by (auto simp: region_def shape_def)
  have more: "shape_used (shape n) \<union> region m sz \<subseteq> shape_used (shape ?n)"
    using m n(1) by (auto simp: region_def shape_def)
  have "used_space pool = (\<Union>x \<in> set (map shape pre @ map shape post). shape_used x) \<union> shape_used (shape n)"
    unfolding used_space_def ns by (simp add: Un_ac)
  then have "region m sz \<inter> used_space pool = {}" using other own by blast
  moreover have "used_space pool \<union> region m sz \<subseteq> used_space pool'" using more by (auto simp: used_space_def pool' ns)
  moreover have "unat (n_end n - n_addr n) = unat (n_end n) - unat (n_addr n)"
    using m n(1) by (intro unat_sub) (simp add: word_le_nat_alt)
  then have "in_block m sz b" if "in_block (n_addr n) (n_end n - n_addr n) b" for b
    using that n(1) m by (simp add: in_block_def)
  then have "\<exists>b \<in> set (h_live h). in_block m sz b" using n(2) by (auto simp: node_blocks_def)
  moreover have "m \<noteq> 0" using m(1) n(1) by auto
  ultimately show ?thesis using ok' by (simp add: carved_def)
qed

lemma count_failures_shape: "map shape (snd (count_failures c ns)) = map shape ns"
  by (induction c ns rule: count_failures.induct) (auto simp: shape_def split: prod.splits)

lemma count_failures_current: "fst (count_failures c ns) \<in> insert c (n_addr ` set ns)"
  by (induction c ns rule: count_failures.induct) (auto split: prod.splits if_splits)

lemma shape_addr: "map n_addr ns = map fst (map shape ns)"
  by (simp add: shape_def)

lemma shapes_ok_new:
  assumes "shapes_ok live ss" and "unat b + unat psize < 2 ^ 64" and "unat l \<le> unat b + unat psize" and "unat b + 32 \<le> unat l"
    and "\<forall>c \<in> set live. region b psize \<inter> region (fst c) (snd c) = {}"
  shows "shapes_ok ((b, psize) # live) (ss @ [(b, l, b + psize)])"
proof -
  have e: "unat (b + psize) = unat b + unat psize" using assms(2) by (simp add: unat_word_ariths)
  have new: "shape_ok ((b, psize) # live) (b, l, b + psize)" using assms(3,4) e by (simp add: in_block_def)
  have dis: "shape_extent x \<inter> shape_extent (b, l, b + psize) = {}" if x: "x \<in> set ss" for x
  proof (cases x)
    case (fields a' l' e')
    have ok: "shape_ok live (a', l', e')" using assms(1) x fields by (auto simp: shapes_ok_def)
    then obtain c where c: "c \<in> set live" "in_block a' (e' - a') c" by auto
    have "unat (e' - a') = unat e' - unat a'" using ok by (intro unat_sub) (simp add: word_le_nat_alt)
    then have "shape_extent x \<subseteq> region (fst c) (snd c)" using c(2) ok by (auto simp: fields region_def in_block_def)
    moreover have "shape_extent (b, l, b + psize) = region b psize" by (simp add: region_def e)
    ultimately show ?thesis using assms(5) c(1) by blast
  qed
  have "shapes_ok ((b, psize) # live) ss" using assms(1) by (rule shapes_ok_more_live) auto
  then show ?thesis using new dis by (auto simp: shapes_ok_def sorted_wrt_append simp del: shape_ok.simps shape_extent.simps)
qed

lemma heap_ok_new:
  assumes "heap_ok base live own" and "b \<noteq> 0" and "b \<notin> fst ` set live" and "set own' = insert b (set own)" and "distinct own'"
  shows "heap_ok base ((b, n) # live) own'"
proof -
  have "filter (\<lambda>c. fst c \<notin> set own') live = filter (\<lambda>c. fst c \<notin> set own) live"
    using assms(3,4) by (intro filter_cong) auto
  then show ?thesis using assms by (auto simp: heap_ok_def)
qed

lemma alloc_block_ok:
  assumes ok: "pool_ok base h pool" and sa: "sys_alloc_ok sa" and sz: "sz \<le> p_max pool"
  shows "mp_alloc_block sa h pool sz = Inr (0, pool, h) \<or>
    (\<exists>a pool' h'. mp_alloc_block sa h pool sz = Inr (a, pool', h') \<and> pool_ok base h' pool' \<and>
       carved pool pool' h' a sz \<and> 32 dvd unat a \<and> p_max pool' = p_max pool)"
proof -
  obtain head ns0 where nodes: "p_nodes pool = head # ns0" using ok by (cases "p_nodes pool") (simp_all add: pool_ok_def)
  define psize where "psize = n_end head - n_addr head"
  have hd: "unat (n_addr head) + 32 \<le> unat (n_end head)" "unat (p_max pool) + 32 \<le> unat (n_end head) - unat (n_addr head)"
    using ok by (auto simp: pool_ok_def nodes shapes_ok_def shape_def)
  then have ps: "unat psize = unat (n_end head) - unat (n_addr head)"
    unfolding psize_def by (intro unat_sub) (simp add: word_le_nat_alt)
  show ?thesis
  proof (cases "sa (h_live h) MP_ALIGNMENT psize")
    case None
    then show ?thesis using nodes by (simp add: mp_alloc_block_def posix_memalign_def psize_def)
  next
    case (Some b)
    have al: "unat MP_ALIGNMENT = 32" by (simp add: MP_ALIGNMENT_def)
    have b: "b \<noteq> 0" "32 dvd unat b" "unat b + unat psize < 2 ^ 64" "b \<notin> fst ` set (h_live h)"
      "\<forall>c \<in> set (h_live h). region b psize \<inter> region (fst c) (snd c) = {}"
      using sys_alloc_okD [OF sa Some] unfolding al by blast+
    have b32: "unat (b + 32) = unat b + 32" using b(3) ps hd(2) by (simp add: unat_word_ariths)
    define m where "m = mp_align_ptr (b + SIZEOF_NODE) MP_ALIGNMENT"
    have m: "unat m = unat b + 32"
      using b(2,3) b32 ps hd(2) unat_align_ptr [of "b + 32"] align_up_id [of "unat b + 32"]
      by (simp add: m_def SIZEOF_NODE_def) presburger
    have msz: "unat (m + sz) = unat m + unat sz" "unat m + unat sz \<le> unat b + unat psize"
      using m b(3) ps hd(2) sz by (simp_all add: unat_word_ariths word_le_nat_alt)
    obtain c ns where cf: "count_failures (p_current pool) (from_current pool) = (c, ns)" by fastforce
    define new where "new = \<lparr>n_addr = b, n_last = m + sz, n_end = b + psize, n_failed = 0\<rparr>"
    define pool' where "pool' = pool\<lparr>p_current := c, p_nodes := before_current pool @ ns @ [new]\<rparr>"
    define h' where "h' = h\<lparr>h_live := (b, psize) # h_live h\<rparr>"
    have shapes: "map shape (before_current pool @ ns) = map shape (p_nodes pool)"
      using count_failures_shape [of "p_current pool" "from_current pool"] before_from_current [of pool]
      by (metis cf map_append snd_conv)
    then have addrs: "map n_addr (before_current pool @ ns) = map n_addr (p_nodes pool)" by (simp only: shape_addr)
    have "set (from_current pool) \<subseteq> set (p_nodes pool)" by (metis before_from_current set_append Un_upper2)
    moreover have "p_current pool \<in> n_addr ` set (p_nodes pool)" using ok by (simp add: pool_ok_def)
    ultimately have c: "c \<in> n_addr ` set (p_nodes pool)"
      using count_failures_current [of "p_current pool" "from_current pool"] by (auto simp: cf)
    then have "c \<noteq> 0" using ok by (auto simp: pool_ok_def)
    then have run: "mp_alloc_block sa h pool sz = Inr (m, pool', h')"
      using Some ok unfolding mp_alloc_block_def nodes psize_def [symmetric]
      by (simp add: posix_memalign_def Let_def m_def [symmetric] cf pool'_def new_def h'_def pool_ok_def psize_def [symmetric])
    have sh: "map shape (p_nodes pool') = map shape (p_nodes pool) @ [(b, m + sz, b + psize)]"
      using shapes by (simp add: pool'_def new_def shape_def)
    have hd': "map shape (p_nodes pool') = shape head # map shape (ns0 @ [new])"
      using sh by (simp add: nodes new_def shape_def)
    then have nth: "n_addr (hd (p_nodes pool')) = n_addr head" "n_end (hd (p_nodes pool')) = n_end head" "p_nodes pool' \<noteq> []"
      by (cases "p_nodes pool'"; simp add: shape_def)+
    have own: "owned pool' = p_addr pool # (map n_addr ns0 @ [b]) @ filter (\<lambda>a. a \<noteq> 0) (map l_alloc (p_large pool))"
    proof -
      have "map n_addr (p_nodes pool') = n_addr head # map n_addr ns0 @ [b]"
        unfolding shape_addr sh by (simp add: nodes shape_def)
      then have "map n_addr (tl (p_nodes pool')) = map n_addr ns0 @ [b]" by (simp add: map_tl)
      then show ?thesis by (simp add: owned_def) (simp add: pool'_def)
    qed
    have tl': "set (map n_addr (tl (p_nodes pool'))) = insert b (set (map n_addr ns0))" "p_addr pool' = p_addr pool"
      using arg_cong [OF hd', of "\<lambda>xs. map fst (tl xs)"]
      by (simp_all add: map_tl shape_def comp_def new_def pool'_def)
    have nb: "node_blocks h' pool' = (b, psize) # node_blocks h pool"
      using b(4) unfolding node_blocks_def h'_def
      by (auto simp del: set_map simp: tl' nodes intro!: filter_cong)
    have "\<forall>c \<in> set (node_blocks h pool). region b psize \<inter> region (fst c) (snd c) = {}"
      using b(5) by (simp add: node_blocks_def)
    then have sok: "shapes_ok (node_blocks h' pool') (map shape (p_nodes pool'))"
      unfolding sh nb using ok b(3) msz m by (intro shapes_ok_new) (simp_all add: pool_ok_def)
    have heap: "heap_ok base (h_live h) (owned pool)" using ok by (simp add: pool_ok_def)
    then have "b \<notin> set (owned pool)" using b(4) by (auto simp: heap_ok_def)
    moreover have "distinct (owned pool)" using heap by (simp add: heap_ok_def)
    ultimately have "distinct (owned pool')" "set (owned pool') = insert b (set (owned pool))"
      unfolding own by (auto simp: owned_def nodes)
    with heap_ok_new [OF heap b(1,4)] have "heap_ok base (h_live h') (owned pool')" by (simp add: h'_def)
    moreover have "n_addr ` set (p_nodes pool') = insert b (n_addr ` set (p_nodes pool))"
      using arg_cong [OF sh, of "\<lambda>x. set (map fst x)"] by (simp add: shape_def image_image)
    ultimately have "pool_ok base h' pool'"
      using ok c b(1) nth hd(2) sok by (auto simp: pool_ok_def nodes) (simp_all add: pool'_def)
    moreover have "carved pool pool' h' m sz"
    proof -
      have r: "region m sz \<subseteq> region b psize" "region m sz \<subseteq> {unat b..<unat (m + sz)}" using m msz by (auto simp: region_def)
      have "shape_used x \<inter> region b psize = {}" if "x \<in> set (map shape (p_nodes pool))" for x
        using sok that b(3) shape_used_extent [of "node_blocks h' pool'" x]
        unfolding sh shapes_ok_def
        by (fastforce simp: sorted_wrt_append region_def unat_word_ariths simp del: shape_used.simps)
      then have "region m sz \<inter> used_space pool = {}" using r(1) unfolding used_space_def by blast
      moreover have "used_space pool \<union> region m sz \<subseteq> used_space pool'" using r(2) unfolding used_space_def sh by auto
      moreover have "in_block m sz (b, psize)" using m msz by (simp add: in_block_def)
      ultimately show ?thesis using m by (auto simp: carved_def h'_def)
    qed
    moreover have "32 dvd unat m" using m b(2) by simp
    moreover have "p_max pool' = p_max pool" by (simp add: pool'_def)
    ultimately show ?thesis using run by blast
  qed
qed

lemma alloc_small_ok:
  assumes ok: "pool_ok base h pool" and sa: "sys_alloc_ok sa" and sz: "sz \<le> p_max pool"
    and head: "aligned \<longrightarrow> headroom pool"
  shows "alloc_small aligned sa h pool sz = Inr (0, pool, h) \<or>
    (\<exists>a pool' h'. alloc_small aligned sa h pool sz = Inr (a, pool', h') \<and> pool_ok base h' pool' \<and>
       carved pool pool' h' a sz \<and> (aligned \<longrightarrow> 32 dvd unat a) \<and> p_max pool' = p_max pool)"
proof -
  have ne: "from_current pool \<noteq> []" using ok from_current_not_Nil by (simp add: pool_ok_def)
  have sub: "set (from_current pool) \<subseteq> set (p_nodes pool)" by (metis before_from_current set_append Un_upper2)
  have "\<forall>n \<in> set (p_nodes pool). unat (n_last n) \<le> unat (n_end n)"
    using ok by (auto simp: pool_ok_def shapes_ok_def shape_def)
  with sub have le: "\<forall>n \<in> set (from_current pool). unat (n_last n) \<le> unat (n_end n)" by blast
  have hr: "aligned \<longrightarrow> (\<forall>n \<in> set (from_current pool). align_up (unat (n_last n)) \<le> unat (n_end n))"
    using head by (simp add: headroom_def)
  have tail: "p_tail pool = 0" using ok by (simp add: pool_ok_def)
  from le hr show ?thesis
  proof (cases rule: alloc_walk_cases [where sz = sz])
    case full
    then have "alloc_small aligned sa h pool sz = mp_alloc_block sa h pool sz"
      using ne by (simp add: alloc_small_def tail)
    then show ?thesis using alloc_block_ok [OF ok sa sz] by auto
  next
    case (room pre n post m)
    let ?pool = "pool\<lparr>p_nodes := (before_current pool @ pre) @ n\<lparr>n_last := m + sz\<rparr> # post\<rparr>"
    have run: "alloc_small aligned sa h pool sz = Inr (m, ?pool, h)"
      using room ne by (simp add: alloc_small_def tail)
    have nodes: "p_nodes pool = (before_current pool @ pre) @ n # post"
      using before_from_current [of pool] room(1) by simp
    from carve_node [OF ok nodes room(3-5) refl] run room(6) show ?thesis by auto
  qed
qed

subsection \<open>The interface of a region allocator\<close>

text \<open>
  What a user of small requests relies on: a request that is not refused gets memory nobody
  uses, and uses it from then on. A sequence of requests then gets pairwise disjoint memory.
\<close>

fun alloc_all :: "('s \<Rightarrow> u64 \<Rightarrow> (u64 \<times> 's) option) \<Rightarrow> 's \<Rightarrow> u64 list \<Rightarrow> ((u64 \<times> u64) list \<times> 's) option" where
  "alloc_all alloc s [] = Some ([], s)"
| "alloc_all alloc s (n # ns) =
     (case alloc s n of
        None \<Rightarrow> None
      | Some (a, s') \<Rightarrow> map_option (\<lambda>(rs, t). ((a, n) # rs, t)) (alloc_all alloc s' ns))"

locale region_allocator =
  fixes alloc :: "'s \<Rightarrow> u64 \<Rightarrow> (u64 \<times> 's) option"
    and inv :: "'s \<Rightarrow> bool"
    and used :: "'s \<Rightarrow> nat set"
  assumes alloc_inv: "inv s \<Longrightarrow> alloc s n = Some (a, s') \<Longrightarrow> inv s'"
    and alloc_fresh: "inv s \<Longrightarrow> alloc s n = Some (a, s') \<Longrightarrow> a \<noteq> 0 \<Longrightarrow> region a n \<inter> used s = {}"
    and alloc_used: "inv s \<Longrightarrow> alloc s n = Some (a, s') \<Longrightarrow> used s \<subseteq> used s' \<and> (a \<noteq> 0 \<longrightarrow> region a n \<subseteq> used s')"
begin

lemma alloc_all_fresh:
  "inv s \<Longrightarrow> alloc_all alloc s ns = Some (rs, t) \<Longrightarrow>
   inv t \<and> used s \<subseteq> used t \<and> (\<forall>(a, n) \<in> set rs. a \<noteq> 0 \<longrightarrow> region a n \<inter> used s = {} \<and> region a n \<subseteq> used t)"
proof (induction ns arbitrary: s rs)
  case (Cons n ns)
  then obtain a s' rs' where step: "alloc s n = Some (a, s')" "alloc_all alloc s' ns = Some (rs', t)" "rs = (a, n) # rs'"
    by (auto split: option.splits)
  have inv': "inv s'" using alloc_inv [OF Cons.prems(1) step(1)] .
  note u = alloc_used [OF Cons.prems(1) step(1)]
  from Cons.IH [OF inv' step(2)] have IH: "inv t" "used s' \<subseteq> used t"
    "\<forall>(a, n) \<in> set rs'. a \<noteq> 0 \<longrightarrow> region a n \<inter> used s' = {} \<and> region a n \<subseteq> used t" by blast+
  have "region b k \<inter> used s = {} \<and> region b k \<subseteq> used t" if "(b, k) \<in> set rs" "b \<noteq> 0" for b k
  proof (cases "(b, k) = (a, n)")
    case True
    then show ?thesis using that(2) alloc_fresh [OF Cons.prems(1) step(1)] u IH(2) by auto
  next
    case False
    then have "region b k \<inter> used s' = {}" "region b k \<subseteq> used t" using that IH(3) by (auto simp: step(3))
    then show ?thesis using u by blast
  qed
  then show ?case using IH(1,2) u by auto
qed auto

lemma alloc_all_disjoint:
  "inv s \<Longrightarrow> alloc_all alloc s ns = Some (rs, t) \<Longrightarrow>
   sorted_wrt (\<lambda>(a, n) (b, k). a = 0 \<or> b = 0 \<or> region a n \<inter> region b k = {}) rs"
proof (induction ns arbitrary: s rs)
  case (Cons n ns)
  then obtain a s' rs' where step: "alloc s n = Some (a, s')" "alloc_all alloc s' ns = Some (rs', t)" "rs = (a, n) # rs'"
    by (auto split: option.splits)
  have inv': "inv s'" using alloc_inv [OF Cons.prems(1) step(1)] .
  have "a = 0 \<or> b = 0 \<or> region a n \<inter> region b k = {}" if "(b, k) \<in> set rs'" for b k
    using alloc_all_fresh [OF inv' step(2)] that alloc_used [OF Cons.prems(1) step(1)] by fastforce
  then show ?case using Cons.IH [OF inv' step(2)] by (auto simp: step(3))
qed auto

end

subsection \<open>Releasing blocks\<close>

lemma remove_block_eq: "distinct (map fst bs) \<Longrightarrow> remove_block a bs = filter (\<lambda>b. fst b \<noteq> a) bs"
proof (induction bs)
  case (Cons b bs)
  have "fst b \<notin> fst ` set bs" using Cons.prems by simp
  then have "\<forall>c \<in> set bs. fst c \<noteq> fst b" by (metis imageI)
  then have "filter (\<lambda>c. fst c \<noteq> fst b) bs = bs" by (simp add: filter_id_conv)
  then show ?case using Cons by auto
qed simp

lemma distinct_fst_filter: "distinct (map fst bs) \<Longrightarrow> distinct (map fst (filter P bs))"
  by (induction bs) auto

lemma fst_filter: "fst ` set (filter (\<lambda>b. P (fst b)) bs) = {a \<in> fst ` set bs. P a}"
  by auto

text \<open>Freeing what is allocated takes its block out of the heap and nothing else.\<close>

lemma free_ok:
  assumes "distinct (map fst (h_live h))" and "a \<in> fst ` set (h_live h)" and "a \<noteq> 0"
  shows "free h a = Inr (h\<lparr>h_live := filter (\<lambda>b. fst b \<noteq> a) (h_live h)\<rparr>)"
  using assms by (simp add: free_def remove_block_eq)

fun free_all :: "sys_heap \<Rightarrow> u64 list \<Rightarrow> sys_heap cresult" where
  "free_all h [] = Inr h"
| "free_all h (a # as) = rbind (free h a) (\<lambda>h. free_all h as)"

lemma free_all_append: "free_all h (as @ bs) = rbind (free_all h as) (\<lambda>h. free_all h bs)"
proof (induction as arbitrary: h)
  case (Cons a as)
  then show ?case by (cases "free h a") simp_all
qed simp

lemma free_all_ok:
  assumes "distinct (map fst (h_live h))" and "distinct as" and "0 \<notin> set as" and "set as \<subseteq> fst ` set (h_live h)"
  shows "free_all h as = Inr (h\<lparr>h_live := filter (\<lambda>b. fst b \<notin> set as) (h_live h)\<rparr>)"
  using assms
proof (induction as arbitrary: h)
  case (Cons a as)
  let ?h = "h\<lparr>h_live := filter (\<lambda>b. fst b \<noteq> a) (h_live h)\<rparr>"
  have "free h a = Inr ?h" using Cons.prems by (intro free_ok) auto
  moreover have "free_all ?h as = Inr (?h\<lparr>h_live := filter (\<lambda>b. fst b \<notin> set as) (h_live ?h)\<rparr>)"
  proof (rule Cons.IH)
    show "set as \<subseteq> fst ` set (h_live ?h)" using Cons.prems fst_filter [of "\<lambda>x. x \<noteq> a" "h_live h"] by auto
  qed (use Cons.prems in \<open>auto intro: distinct_fst_filter\<close>)
  ultimately show ?case by (simp add: conj_commute)
qed simp

lemma free_larges_all: "free_larges h ls = free_all h (filter (\<lambda>a. a \<noteq> 0) (map l_alloc ls))"
  by (induction ls arbitrary: h) auto

lemma free_nodes_all: "free_nodes h ns 0 = free_all h (map n_addr ns)"
  by (induction ns arbitrary: h) auto

lemma mp_destory_pool_ok:
  assumes ok: "pool_ok base h pool"
  shows "mp_destory_pool h pool = Inr (h\<lparr>h_live := base\<rparr>)"
proof -
  let ?ls = "filter (\<lambda>a. a \<noteq> 0) (map l_alloc (p_large pool))"
  let ?as = "?ls @ map n_addr (tl (p_nodes pool)) @ [p_addr pool]"
  have heap: "distinct (map fst (h_live h))" "0 \<notin> fst ` set (h_live h)" "distinct (owned pool)"
    "set (owned pool) \<subseteq> fst ` set (h_live h)" "filter (\<lambda>b. fst b \<notin> set (owned pool)) (h_live h) = base"
    using ok by (simp_all add: pool_ok_def heap_ok_def)
  have own: "set ?as = set (owned pool)" "distinct ?as" using heap(3) by (auto simp: owned_def)
  have tail: "p_tail pool = 0" using ok by (simp add: pool_ok_def)
  have "free_all h [p_addr pool] = rbind (free h (p_addr pool)) Inr" for h by simp
  then have "mp_destory_pool h pool = free_all h ?as"
    by (simp add: mp_destory_pool_def tail free_larges_all free_nodes_all free_all_append)
       (auto simp: rbind_def split: sum.splits intro!: arg_cong [where f = "rbind _"])
  also have "\<dots> = Inr (h\<lparr>h_live := filter (\<lambda>b. fst b \<notin> set ?as) (h_live h)\<rparr>)"
    using heap own by (intro free_all_ok) auto
  finally show ?thesis unfolding own(1) heap(5) .
qed

subsection \<open>Large requests are blocks of their own\<close>

lemma heap_ok_extra:
  assumes "heap_ok base live own" and "p \<noteq> 0" and "p \<notin> fst ` set live"
  shows "heap_ok ((p, n) # base) ((p, n) # live) own"
  using assms by (auto simp: heap_ok_def)

lemma heap_ok_adopt:
  assumes "heap_ok ((p, n) # base) live own" and "distinct own'" and "set own' = insert p (set own)"
  shows "heap_ok base live own'"
proof -
  have f: "filter (\<lambda>b. fst b \<notin> set own) live = (p, n) # base" and d: "distinct (map fst live)"
    using assms(1) by (simp_all add: heap_ok_def)
  have "distinct (map fst ((p, n) # base))" unfolding f [symmetric] using d by (rule distinct_fst_filter)
  then have "filter (\<lambda>b. fst b \<noteq> p) ((p, n) # base) = base" by (auto simp: filter_id_conv)
  moreover have "filter (\<lambda>b. fst b \<notin> set own') live = filter (\<lambda>b. fst b \<noteq> p) (filter (\<lambda>b. fst b \<notin> set own) live)"
    by (simp add: assms(3) conj_commute)
  moreover have "(p, n) \<in> set (filter (\<lambda>b. fst b \<notin> set own) live)" unfolding f by simp
  then have "(p, n) \<in> set live" by simp
  then have "p \<in> fst ` set live" by force
  ultimately show ?thesis using assms f by (auto simp: heap_ok_def)
qed

lemma heap_ok_disown:
  assumes "heap_ok ((p, n) # base) live own"
  shows "heap_ok base (filter (\<lambda>b. fst b \<noteq> p) live) own" and "p \<in> fst ` set live" and "p \<notin> set own" and "p \<noteq> 0"
proof -
  have f: "filter (\<lambda>b. fst b \<notin> set own) live = (p, n) # base" and d: "distinct (map fst live)"
    using assms(1) by (simp_all add: heap_ok_def)
  then have mem: "(p, n) \<in> set (filter (\<lambda>b. fst b \<notin> set own) live)" by simp
  then show p: "p \<in> fst ` set live" "p \<notin> set own" by force+
  then show "p \<noteq> 0" using assms by (auto simp: heap_ok_def)
  have "distinct (map fst ((p, n) # base))" unfolding f [symmetric] using d by (rule distinct_fst_filter)
  then have "filter (\<lambda>b. fst b \<noteq> p) ((p, n) # base) = base" by (auto simp: filter_id_conv)
  moreover have "filter (\<lambda>b. fst b \<notin> set own) (filter (\<lambda>b. fst b \<noteq> p) live) = filter (\<lambda>b. fst b \<noteq> p) (filter (\<lambda>b. fst b \<notin> set own) live)"
    by (simp add: conj_commute)
  moreover have "set own \<subseteq> fst ` set (filter (\<lambda>b. fst b \<noteq> p) live)"
    using assms p fst_filter [of "\<lambda>x. x \<noteq> p" live] by (auto simp: heap_ok_def)
  ultimately show "heap_ok base (filter (\<lambda>b. fst b \<noteq> p) live) own"
    using assms f by (auto simp: heap_ok_def intro: distinct_fst_filter)
qed

text \<open>A block the pool does not own does not touch its nodes.\<close>

lemma pool_ok_extra:
  assumes ok: "pool_ok base h pool" and p: "p \<noteq> 0" "p \<notin> fst ` set (h_live h)"
  shows "pool_ok ((p, n) # base) (h\<lparr>h_live := (p, n) # h_live h\<rparr>) pool"
proof -
  have heap: "heap_ok base (h_live h) (owned pool)" using ok by (simp add: pool_ok_def)
  then have "p \<notin> set (owned pool)" using p(2) by (auto simp: heap_ok_def)
  then have "node_blocks (h\<lparr>h_live := (p, n) # h_live h\<rparr>) pool = node_blocks h pool"
    by (auto simp: node_blocks_def owned_def)
  then show ?thesis using ok heap_ok_extra [OF heap p] by (simp add: pool_ok_def)
qed

lemma pool_ok_disown:
  assumes ok: "pool_ok ((p, n) # base) h pool"
  shows "free h p = Inr (h\<lparr>h_live := filter (\<lambda>b. fst b \<noteq> p) (h_live h)\<rparr>)"
    and "pool_ok base (h\<lparr>h_live := filter (\<lambda>b. fst b \<noteq> p) (h_live h)\<rparr>) pool"
proof -
  have heap: "heap_ok ((p, n) # base) (h_live h) (owned pool)" using ok by (simp add: pool_ok_def)
  note d = heap_ok_disown [OF heap]
  show "free h p = Inr (h\<lparr>h_live := filter (\<lambda>b. fst b \<noteq> p) (h_live h)\<rparr>)"
    using d heap by (intro free_ok) (simp_all add: heap_ok_def)
  have "node_blocks (h\<lparr>h_live := filter (\<lambda>b. fst b \<noteq> p) (h_live h)\<rparr>) pool = node_blocks h pool"
    using d(3) by (auto simp: node_blocks_def owned_def intro!: filter_cong)
  then show "pool_ok base (h\<lparr>h_live := filter (\<lambda>b. fst b \<noteq> p) (h_live h)\<rparr>) pool"
    using ok d(1) by (simp add: pool_ok_def)
qed

lemma pool_ok_adopt:
  assumes ok: "pool_ok ((p, n) # base) h pool" and same: "set (filter (\<lambda>a. a \<noteq> 0) (map l_alloc ls)) = insert p (set (filter (\<lambda>a. a \<noteq> 0) (map l_alloc (p_large pool))))"
    and dist: "distinct (filter (\<lambda>a. a \<noteq> 0) (map l_alloc ls))"
  shows "pool_ok base h (pool\<lparr>p_large := ls\<rparr>)"
proof -
  let ?pool = "pool\<lparr>p_large := ls\<rparr>"
  have heap: "heap_ok ((p, n) # base) (h_live h) (owned pool)" using ok by (simp add: pool_ok_def)
  have "p \<notin> set (owned pool)" using heap_ok_disown(3) [OF heap] .
  moreover have "distinct (owned pool)" using heap by (simp add: heap_ok_def)
  ultimately have "distinct (owned ?pool)" "set (owned ?pool) = insert p (set (owned pool))"
    using same dist by (auto simp: owned_def)
  from heap_ok_adopt [OF heap this] ok show ?thesis by (simp add: pool_ok_def node_blocks_def)
qed

lemma take_slot_alloc:
  assumes "take_slot k p ls = Some ls'" and "p \<noteq> 0"
  shows "set (filter (\<lambda>a. a \<noteq> 0) (map l_alloc ls')) = insert p (set (filter (\<lambda>a. a \<noteq> 0) (map l_alloc ls)))"
    and "distinct (filter (\<lambda>a. a \<noteq> 0) (map l_alloc ls)) \<Longrightarrow> p \<notin> l_alloc ` set ls \<Longrightarrow>
         distinct (filter (\<lambda>a. a \<noteq> 0) (map l_alloc ls'))"
proof -
  have "set (filter (\<lambda>a. a \<noteq> 0) (map l_alloc ls')) = insert p (set (filter (\<lambda>a. a \<noteq> 0) (map l_alloc ls))) \<and>
    (distinct (filter (\<lambda>a. a \<noteq> 0) (map l_alloc ls)) \<longrightarrow> p \<notin> l_alloc ` set ls \<longrightarrow>
         distinct (filter (\<lambda>a. a \<noteq> 0) (map l_alloc ls')))"
    using assms
  proof (induction k p ls arbitrary: ls' rule: take_slot.induct)
    case (2 k p l ls)
    show ?case
    proof (cases "l_alloc l = 0")
      case False
      then obtain ms where ms: "take_slot (k + 1) p ls = Some ms" "ls' = l # ms" "\<not> k > 3"
        using 2(2) by (auto split: if_splits)
      from 2(1) [OF False ms(3,1) 2(3)] show ?thesis using False by (auto simp: ms(2))
    qed (use 2 in auto)
  qed simp
  then show "set (filter (\<lambda>a. a \<noteq> 0) (map l_alloc ls')) = insert p (set (filter (\<lambda>a. a \<noteq> 0) (map l_alloc ls)))"
    and "distinct (filter (\<lambda>a. a \<noteq> 0) (map l_alloc ls)) \<Longrightarrow> p \<notin> l_alloc ` set ls \<Longrightarrow>
         distinct (filter (\<lambda>a. a \<noteq> 0) (map l_alloc ls'))" by blast+
qed

lemma large_entry_ok:
  assumes ok: "pool_ok ((p, sz) # base) h pool" and sa: "sys_alloc_ok sa" and head: "headroom pool"
    and max: "SIZEOF_LARGE \<le> p_max pool"
  shows "\<exists>a pool' h'. large_end p (alloc_small True sa h pool SIZEOF_LARGE) = Inr (a, pool', h') \<and> pool_ok base h' pool' \<and>
    (a = 0 \<or> a = p \<and> p \<in> set (owned pool') \<and> (p, sz) \<in> set (h_live h'))"
proof -
  have mem: "(p, sz) \<in> set (h_live h)" if "heap_ok ((p, sz) # base) (h_live h) own" for own h
  proof -
    have "(p, sz) \<in> set (filter (\<lambda>b. fst b \<notin> set own) (h_live h))" using that by (simp add: heap_ok_def)
    then show ?thesis by simp
  qed
  consider "alloc_small True sa h pool SIZEOF_LARGE = Inr (0, pool, h)"
    | a pool1 h1 where "alloc_small True sa h pool SIZEOF_LARGE = Inr (a, pool1, h1)"
      "pool_ok ((p, sz) # base) h1 pool1" "carved pool pool1 h1 a SIZEOF_LARGE"
    using alloc_small_ok [OF ok sa max, of True] head by auto
  then show ?thesis
  proof cases
    case 1
    then show ?thesis using pool_ok_disown [OF ok] by (simp add: large_end_def)
  next
    case (2 a pool1 h1)
    let ?ls = "\<lparr>l_addr = a, l_alloc = p\<rparr> # p_large pool1"
    have heap: "heap_ok ((p, sz) # base) (h_live h1) (owned pool1)" using 2(2) by (simp add: pool_ok_def)
    note d = heap_ok_disown [OF heap]
    have "distinct (owned pool1)" using heap by (simp add: heap_ok_def)
    then have "distinct (filter (\<lambda>a. a \<noteq> 0) (map l_alloc ?ls))" using d(3,4) by (auto simp: owned_def)
    then have "pool_ok base h1 (pool1\<lparr>p_large := ?ls\<rparr>)"
      using d(4) by (intro pool_ok_adopt [OF 2(2)]) auto
    moreover have "p \<in> set (owned (pool1\<lparr>p_large := ?ls\<rparr>))" using d(4) by (simp add: owned_def)
    moreover have "large_end p (alloc_small True sa h pool SIZEOF_LARGE) = Inr (p, pool1\<lparr>p_large := ?ls\<rparr>, h1)"
      using 2(1,3) by (auto simp: large_end_def carved_def)
    ultimately show ?thesis using mem [OF heap] by blast
  qed
qed

lemma mp_alloc_large_ok:
  assumes ok: "pool_ok base h pool" and sa: "sys_alloc_ok sa" and head: "headroom pool"
    and max: "SIZEOF_LARGE \<le> p_max pool"
  shows "\<exists>a pool' h'. mp_alloc_large sa h pool sz = Some (Inr (a, pool', h')) \<and> pool_ok base h' pool' \<and>
    (a = 0 \<or> a \<in> set (owned pool') \<and> (a, sz) \<in> set (h_live h') \<and>
       (\<forall>b \<in> set (h_live h). region a sz \<inter> region (fst b) (snd b) = {}))"
proof (cases "sa (h_live h) 16 sz")
  case None
  then show ?thesis using ok by (simp add: mp_alloc_large_def large_begin_def malloc_def posix_memalign_def)
next
  case (Some p)
  note p = sys_alloc_okD [OF sa Some]
  let ?h = "h\<lparr>h_live := (p, sz) # h_live h\<rparr>"
  have ok1: "pool_ok ((p, sz) # base) ?h pool" using p by (intro pool_ok_extra [OF ok]) auto
  then have heap: "heap_ok ((p, sz) # base) (h_live ?h) (owned pool)" by (simp add: pool_ok_def)
  show ?thesis
  proof (cases "take_slot 0 p (p_large pool)")
    case None
    then have "mp_alloc_large sa h pool sz = Some (large_end p (alloc_small True sa ?h pool SIZEOF_LARGE))"
      using Some max by (simp add: mp_alloc_large_def large_begin_def malloc_def posix_memalign_def mp_alloc.simps)
    then show ?thesis using large_entry_ok [OF ok1 sa head max] p by auto
  next
    case slot: (Some ls)
    have "distinct (owned pool)" using heap by (simp add: heap_ok_def)
    moreover have "p \<notin> set (owned pool)" using heap_ok_disown(3) [OF heap] .
    ultimately have "distinct (filter (\<lambda>a. a \<noteq> 0) (map l_alloc ls))"
      using take_slot_alloc(2) [OF slot] p by (auto simp: owned_def)
    then have "pool_ok base ?h (pool\<lparr>p_large := ls\<rparr>)"
      using p by (intro pool_ok_adopt [OF ok1] take_slot_alloc(1) [OF slot]) auto
    moreover have "mp_alloc_large sa h pool sz = Some (Inr (p, pool\<lparr>p_large := ls\<rparr>, ?h))"
      using Some slot by (simp add: mp_alloc_large_def large_begin_def malloc_def posix_memalign_def)
    moreover have "p \<in> set (owned (pool\<lparr>p_large := ls\<rparr>))" using take_slot_alloc(1) [OF slot] p by (auto simp: owned_def)
    ultimately show ?thesis using p by auto
  qed
qed

lemma mp_create_pool_ok:
  assumes sa: "sys_alloc_ok sa" and run: "mp_create_pool sa 0 h sz = Some (pool, h')"
    and sz: "unat sz + 56 < 2 ^ 64" and base: "distinct (map fst (h_live h))" "0 \<notin> fst ` set (h_live h)"
  shows "pool_ok (h_live h) h' pool" and "p_max pool = min sz MP_MAX_ALLOC_FROM_POOL"
proof -
  define n where "n = sz + SIZEOF_POOL + SIZEOF_NODE"
  obtain p where p: "sa (h_live h) MP_ALIGNMENT n = Some p"
    using run by (auto simp: mp_create_pool_def posix_memalign_def n_def split: option.splits)
  note a = sys_alloc_okD [OF sa p]
  have n: "unat n = unat sz + 56" using sz by (simp add: n_def SIZEOF_POOL_def SIZEOF_NODE_def unat_word_ariths)
  let ?node = "\<lparr>n_addr = p + 24, n_last = p + 24 + 32, n_end = p + 24 + 32 + sz, n_failed = 0\<rparr>"
  have pool: "pool = \<lparr>p_addr = p, p_max = (if sz < MP_MAX_ALLOC_FROM_POOL then sz else MP_MAX_ALLOC_FROM_POOL),
      p_current = p + 24, p_large = [], p_nodes = [?node], p_tail = 0\<rparr>"
    and h': "h' = h\<lparr>h_live := (p, n) # h_live h\<rparr>"
    using run p by (auto simp: mp_create_pool_def posix_memalign_def n_def Let_def SIZEOF_POOL_def SIZEOF_NODE_def)
  have u: "unat (p + 24) = unat p + 24" "unat (p + 24 + 32) = unat p + 56" "unat (p + 24 + 32 + sz) = unat p + 56 + unat sz"
    using a n by (simp_all add: unat_word_ariths)
  have "(p + 24 + 32 + sz) - (p + 24) = 32 + sz" by simp
  then have e: "unat ((p + 24 + 32 + sz) - (p + 24)) = 32 + unat sz" using sz by (simp add: unat_word_ariths)
  have "filter (\<lambda>b. fst b = p) (h_live h) = []" using a by (metis (mono_tags, lifting) filter_False imageI)
  then have blk: "node_blocks h' pool = [(p, n)]" by (simp add: node_blocks_def h' pool)
  have "shapes_ok (node_blocks h' pool) (map shape (p_nodes pool))"
    unfolding blk using u e n by (simp add: pool shape_def shapes_ok_def in_block_def)
  moreover have "heap_ok (h_live h) (h_live h') (owned pool)"
    using a base by (auto simp: heap_ok_def h' pool owned_def filter_id_conv)
  moreover have "p + 24 \<noteq> 0" using u(1) by auto
  moreover have "unat (p_max pool) \<le> unat sz" by (auto simp: pool not_less simp flip: word_le_nat_alt)
  ultimately show "pool_ok (h_live h) h' pool" using u by (simp add: pool_ok_def) (simp add: pool)
  show "p_max pool = min sz MP_MAX_ALLOC_FROM_POOL" by (auto simp: pool min_def)
qed

text \<open>No allocation writes to memory itself.\<close>

lemma alloc_small_mem: "alloc_small aligned sa h pool sz = Inr (a, pool', h') \<Longrightarrow> h_mem h' = h_mem h"
  by (auto simp: alloc_small_def mp_alloc_block_def posix_memalign_def Let_def rbind_Inr_iff
        split: if_splits option.splits list.splits prod.splits)

lemma large_end_mem:
  "large_end p r = Inr (a, pool', h') \<Longrightarrow> \<exists>a1 pool1 h1. r = Inr (a1, pool1, h1) \<and> h_mem h' = h_mem h1"
  by (auto simp: large_end_def free_def rbind_Inr_iff split: if_splits)

lemma mp_alloc_mem:
  assumes "pool_ok base h pool" and "sys_alloc_ok sa" and "headroom pool" and "SIZEOF_LARGE \<le> p_max pool"
  shows "\<exists>a pool' h'. mp_alloc sa h pool sz = Some (Inr (a, pool', h')) \<and> h_mem h' = h_mem h \<and>
    (a \<noteq> 0 \<longrightarrow> (\<exists>b \<in> set (h_live h'). in_block a sz b))"
proof (cases "sz \<le> p_max pool")
  case True
  from alloc_small_ok [OF assms(1,2) True, of True] assms(3) obtain a pool' h' where
    "alloc_small True sa h pool sz = Inr (a, pool', h')" "a \<noteq> 0 \<longrightarrow> carved pool pool' h' a sz" by auto
  then show ?thesis using True alloc_small_mem by (auto simp: mp_alloc_eq carved_def)
next
  case False
  from mp_alloc_large_ok [OF assms, of sz] obtain a pool' h' where
    run: "mp_alloc_large sa h pool sz = Some (Inr (a, pool', h'))" and a: "a \<noteq> 0 \<longrightarrow> (a, sz) \<in> set (h_live h')" by auto
  have "h_mem h' = h_mem h"
    using run assms(4) alloc_small_mem
    by (auto simp: mp_alloc_large_def large_begin_def malloc_def posix_memalign_def mp_alloc_eq
          split: option.splits dest!: large_end_mem)
  moreover have "in_block a sz (a, sz)" by (simp add: in_block_def)
  ultimately show ?thesis using run a False by (auto simp: mp_alloc_eq)
qed

subsection \<open>Resetting and freeing\<close>

lemma heap_ok_release:
  assumes "heap_ok base live own" and "set own = set own' \<union> set gone" and "set own' \<inter> set gone = {}" and "distinct own'"
  shows "heap_ok base (filter (\<lambda>b. fst b \<notin> set gone) live) own'"
proof -
  have "filter (\<lambda>b. fst b \<notin> set own') (filter (\<lambda>b. fst b \<notin> set gone) live) = filter (\<lambda>b. fst b \<notin> set own) live"
    unfolding filter_filter assms(2) by (rule filter_cong) auto
  moreover have "set own' \<subseteq> fst ` set (filter (\<lambda>b. fst b \<notin> set gone) live)"
    using assms fst_filter [of "\<lambda>x. x \<notin> set gone" live] by (auto simp: heap_ok_def)
  ultimately show ?thesis using assms by (auto simp: heap_ok_def intro: distinct_fst_filter)
qed

lemma heap_ok_release_all:
  "heap_ok base live (own @ gone) \<Longrightarrow> heap_ok base (filter (\<lambda>b. fst b \<notin> set gone) live) own"
  by (rule heap_ok_release [of _ _ "own @ gone"]) (auto simp: heap_ok_def)

lemma heap_ok_release_one:
  assumes "heap_ok base live (own @ ls)" and "p \<in> set ls"
  shows "heap_ok base (filter (\<lambda>b. fst b \<noteq> p) live) (own @ filter (\<lambda>a. a \<noteq> p) ls)"
proof -
  have "distinct (own @ ls)" using assms(1) by (simp add: heap_ok_def)
  then have "heap_ok base (filter (\<lambda>b. fst b \<notin> set [p]) live) (own @ filter (\<lambda>a. a \<noteq> p) ls)"
    using assms(2) by (intro heap_ok_release [OF assms(1)]) auto
  then show ?thesis by simp
qed

lemma mp_reset_pool_ok:
  assumes ok: "pool_ok base h pool"
  shows "\<exists>pool' h'. mp_reset_pool h pool = Inr (pool', h') \<and> pool_ok base h' pool' \<and> p_large pool' = [] \<and>
    used_space pool' = (\<Union>n \<in> set (p_nodes pool). {unat (n_addr n)..<unat (n_addr n) + 32})"
proof -
  let ?ls = "filter (\<lambda>a. a \<noteq> 0) (map l_alloc (p_large pool))"
  let ?own = "p_addr pool # map n_addr (tl (p_nodes pool))"
  define h' where "h' = h\<lparr>h_live := filter (\<lambda>b. fst b \<notin> set ?ls) (h_live h)\<rparr>"
  define clear where "clear n = n\<lparr>n_last := n_addr n + SIZEOF_NODE\<rparr>" for n :: mp_node_s
  define pool' where "pool' = pool\<lparr>p_large := [], p_nodes := map clear (p_nodes pool)\<rparr>"
  have heap: "heap_ok base (h_live h) (owned pool)" using ok by (simp add: pool_ok_def)
  have own: "owned pool = ?own @ ?ls" by (simp add: owned_def)
  have dis: "distinct (?own @ ?ls)" "0 \<notin> set (?own @ ?ls)" "set (?own @ ?ls) \<subseteq> fst ` set (h_live h)" "distinct (map fst (h_live h))"
    using heap unfolding heap_ok_def own [symmetric] by blast+
  have "free_larges h (p_large pool) = Inr h'"
    unfolding free_larges_all h'_def using dis by (intro free_all_ok) auto
  then have run: "mp_reset_pool h pool = Inr (pool', h')"
    using ok by (simp add: mp_reset_pool_def pool_ok_def pool'_def clear_def)
  have own': "owned pool' = ?own" by (simp add: owned_def pool'_def clear_def map_tl [symmetric] comp_def)
  have "heap_ok base (h_live h') (owned pool')"
    unfolding own' h'_def using heap_ok_release_all [OF heap [unfolded own]] by simp
  moreover have nb: "node_blocks h' pool' = node_blocks h pool"
    unfolding node_blocks_def h'_def filter_filter using dis(1)
    by (auto simp: pool'_def clear_def map_tl [symmetric] comp_def intro!: filter_cong)
  moreover have clear: "shape_ok bs (shape (clear n)) \<and> shape_extent (shape (clear n)) = shape_extent (shape n)"
      "shape_used (shape (clear n)) = {unat (n_addr n)..<unat (n_addr n) + 32}" if "shape_ok bs (shape n)" for n bs
  proof -
    have "unat (n_addr n + 32) = unat (n_addr n) + 32"
      using that unsigned_less [of "n_last n", where 'a = nat] by (simp add: shape_def unat_word_ariths)
    then show "shape_ok bs (shape (clear n)) \<and> shape_extent (shape (clear n)) = shape_extent (shape n)"
      "shape_used (shape (clear n)) = {unat (n_addr n)..<unat (n_addr n) + 32}"
      using that by (auto simp: clear_def shape_def SIZEOF_NODE_def)
  qed
  have sh: "shapes_ok (node_blocks h pool) (map shape (p_nodes pool))" using ok by (simp add: pool_ok_def)
  then have okn: "\<forall>n \<in> set (p_nodes pool). shape_ok (node_blocks h pool) (shape n)" by (simp add: shapes_ok_def)
  have "sorted_wrt (\<lambda>n n'. shape_extent (shape (clear n)) \<inter> shape_extent (shape (clear n')) = {}) (p_nodes pool)"
    using sh by (simp add: shapes_ok_def sorted_wrt_map clear_def shape_def)
  then have "shapes_ok (node_blocks h' pool') (map shape (p_nodes pool'))"
    unfolding nb using okn clear(1) by (simp add: shapes_ok_def pool'_def sorted_wrt_map)
  moreover have "n_addr ` set (p_nodes pool') = n_addr ` set (p_nodes pool)" by (simp add: pool'_def clear_def image_image)
  moreover have "p_nodes pool \<noteq> []" using ok by (simp add: pool_ok_def)
  then have "n_addr (hd (p_nodes pool')) = n_addr (hd (p_nodes pool))" "n_end (hd (p_nodes pool')) = n_end (hd (p_nodes pool))"
    by (simp_all add: pool'_def clear_def hd_map)
  ultimately have "pool_ok base h' pool'" using ok by (simp add: pool_ok_def) (simp add: pool'_def)
  moreover have "used_space pool' = (\<Union>n \<in> set (p_nodes pool). {unat (n_addr n)..<unat (n_addr n) + 32})"
  proof -
    have "\<forall>n \<in> set (p_nodes pool). shape_used (shape (clear n)) = {unat (n_addr n)..<unat (n_addr n) + 32}"
      using okn clear(2) by blast
    then show ?thesis by (simp add: used_space_def pool'_def)
  qed
  ultimately show ?thesis using run by (auto simp: pool'_def)
qed

lemma free_slot_ok:
  assumes "p \<noteq> 0" and "p \<in> l_alloc ` set ls" and "distinct (map fst (h_live h))" and "p \<in> fst ` set (h_live h)"
    and "distinct (filter (\<lambda>a. a \<noteq> 0) (map l_alloc ls))"
  shows "\<exists>ls'. free_slot h p ls = Inr (ls', h\<lparr>h_live := filter (\<lambda>b. fst b \<noteq> p) (h_live h)\<rparr>) \<and>
    filter (\<lambda>a. a \<noteq> 0) (map l_alloc ls') = filter (\<lambda>a. a \<noteq> p) (filter (\<lambda>a. a \<noteq> 0) (map l_alloc ls))"
  using assms
proof (induction ls)
  case (Cons l ls)
  show ?case
  proof (cases "p = l_alloc l")
    case True
    then have "p \<notin> set (filter (\<lambda>a. a \<noteq> 0) (map l_alloc ls))" using Cons.prems(1,5) by auto
    then have "filter (\<lambda>a. a \<noteq> p) (filter (\<lambda>a. a \<noteq> 0) (map l_alloc ls)) = filter (\<lambda>a. a \<noteq> 0) (map l_alloc ls)"
      by (metis (mono_tags, lifting) filter_id_conv)
    then show ?thesis using True Cons.prems(1) free_ok [OF Cons.prems(3,4,1)] by simp
  next
    case False
    then obtain ls' where "free_slot h p ls = Inr (ls', h\<lparr>h_live := filter (\<lambda>b. fst b \<noteq> p) (h_live h)\<rparr>)"
      "filter (\<lambda>a. a \<noteq> 0) (map l_alloc ls') = filter (\<lambda>a. a \<noteq> p) (filter (\<lambda>a. a \<noteq> 0) (map l_alloc ls))"
      using Cons by (auto split: if_splits)
    then show ?thesis using False by auto
  qed
qed simp

lemma free_slot_none:
  "p \<notin> l_alloc ` set ls \<or> p = 0 \<Longrightarrow> \<exists>ls'. free_slot h p ls = Inr (ls', h) \<and> map l_alloc ls' = map l_alloc ls"
proof (induction ls)
  case (Cons l ls)
  then show ?case by (cases "p = l_alloc l") (auto simp: free_def)
qed simp

lemma mp_free_ok:
  assumes ok: "pool_ok base h pool"
  shows "\<exists>pool' h'. mp_free h pool p = Inr (pool', h') \<and> pool_ok base h' pool' \<and>
    (if p \<noteq> 0 \<and> p \<in> l_alloc ` set (p_large pool) then h_live h' = filter (\<lambda>b. fst b \<noteq> p) (h_live h) else h' = h)"
proof (cases "p \<noteq> 0 \<and> p \<in> l_alloc ` set (p_large pool)")
  case True
  let ?ls = "filter (\<lambda>a. a \<noteq> 0) (map l_alloc (p_large pool))"
  have heap: "heap_ok base (h_live h) (owned pool)" using ok by (simp add: pool_ok_def)
  then have d: "distinct (owned pool)" "set (owned pool) \<subseteq> fst ` set (h_live h)" "distinct (map fst (h_live h))"
    by (simp_all add: heap_ok_def)
  have p: "p \<in> set ?ls" using True by auto
  then have mem: "p \<in> fst ` set (h_live h)" using d(2) by (auto simp: owned_def)
  obtain ls where ls: "free_slot h p (p_large pool) = Inr (ls, h\<lparr>h_live := filter (\<lambda>b. fst b \<noteq> p) (h_live h)\<rparr>)"
    "filter (\<lambda>a. a \<noteq> 0) (map l_alloc ls) = filter (\<lambda>a. a \<noteq> p) ?ls"
    using free_slot_ok [OF conjunct1 [OF True] conjunct2 [OF True] d(3) mem] d(1) by (auto simp: owned_def)
  let ?pool = "pool\<lparr>p_large := ls\<rparr>" and ?h = "h\<lparr>h_live := filter (\<lambda>b. fst b \<notin> set [p]) (h_live h)\<rparr>"
  have "owned pool = (p_addr pool # map n_addr (tl (p_nodes pool))) @ ?ls" by (simp add: owned_def)
  from heap_ok_release_one [OF heap [unfolded this] p] have "heap_ok base (h_live ?h) (owned ?pool)"
    by (simp add: owned_def ls(2) del: filter_filter)
  moreover have "node_blocks ?h ?pool = node_blocks h pool"
    using d(1) p by (auto simp: node_blocks_def owned_def intro!: filter_cong)
  ultimately have "pool_ok base ?h ?pool" using ok by (simp add: pool_ok_def)
  then show ?thesis using True ls(1) by (simp add: mp_free_def)
next
  case False
  then obtain ls where ls: "free_slot h p (p_large pool) = Inr (ls, h)" "map l_alloc ls = map l_alloc (p_large pool)"
    using free_slot_none [of p "p_large pool" h] by auto
  have "pool_ok base h (pool\<lparr>p_large := ls\<rparr>)"
    using ok ls(2) by (simp add: pool_ok_def owned_def node_blocks_def)
  then show ?thesis using False ls(1) by (auto simp: mp_free_def)
qed

subsection \<open>Properties\<close>

text \<open>An allocator for the examples: the next multiple of 4096 above everything allocated.\<close>

definition example_sa :: sys_alloc where
  "example_sa live al n =
     (let top = fold (\<lambda>b t. max t (unat (fst b) + unat (snd b))) live 0; a = (top div 4096 + 1) * 4096
      in if unat al dvd 4096 \<and> a + unat n < 2 ^ 64 then Some (of_nat a) else None)"

lemma unat_of_nat_u64: "n < 2 ^ 64 \<Longrightarrow> unat (of_nat n :: u64) = n"
  by (simp add: unsigned_of_nat take_bit_nat_eq_self)

lemma fold_max_ge:
  "t \<le> fold (\<lambda>b t. max t (f b)) bs (t :: nat)" "b \<in> set bs \<Longrightarrow> f b \<le> fold (\<lambda>b t. max t (f b)) bs t"
proof (induction bs arbitrary: t)
  case (Cons c bs)
  { case 1 then show ?case using Cons(1) [of "max t (f c)"] by simp
  next
    case 2 then show ?case using Cons(1,2) [of "max t (f c)"] by auto }
qed simp_all

lemma example_sa_ok: "sys_alloc_ok example_sa"
  unfolding sys_alloc_ok_def
proof (intro allI impI)
  fix live :: "(u64 \<times> u64) list" and al n a
  assume run: "example_sa live al n = Some a"
  define top where "top = fold (\<lambda>b t. max t (unat (fst b) + unat (snd b))) live 0"
  have a: "unat al dvd 4096" "(top div 4096 + 1) * 4096 + unat n < 2 ^ 64" "a = of_nat ((top div 4096 + 1) * 4096)"
    using run by (auto simp: example_sa_def Let_def top_def split: if_splits)
  have u: "unat a = (top div 4096 + 1) * 4096" unfolding a(3) using a(2) by (intro unat_of_nat_u64) simp
  have gt: "top < unat a" unfolding u using dividend_less_div_times [of 4096 top] by (simp add: algebra_simps)
  have le: "unat (fst b) + unat (snd b) \<le> top" if "b \<in> set live" for b
    using that fold_max_ge(2) [of b live "\<lambda>b. unat (fst b) + unat (snd b)" 0] by (simp add: top_def)
  have "unat al dvd unat a" unfolding u using a(1) by (rule dvd_mult)
  moreover have "a \<notin> fst ` set live" using le gt by force
  moreover have "region a n \<inter> region (fst b) (snd b) = {}" if "b \<in> set live" for b
    using le [OF that] gt by (auto simp: region_def)
  moreover have "a \<noteq> 0" "unat a + unat n < 2 ^ 64" using gt a(2) u by auto
  ultimately show "a \<noteq> 0 \<and> unat al dvd unat a \<and> unat a + unat n < 2 ^ 64 \<and> a \<notin> fst ` set live \<and>
      (\<forall>b \<in> set live. region a n \<inter> region (fst b) (snd b) = {})" by blast
qed

text \<open>A fresh pool of 4096 bytes in an empty heap.\<close>

definition example_heap :: sys_heap where
  "example_heap = \<lparr>h_live = [], h_mem = (\<lambda>_. 170)\<rparr>"

definition example_pool :: mp_pool_s where
  "example_pool = fst (the (mp_create_pool example_sa 0 example_heap 4096))"

definition example_pool_heap :: sys_heap where
  "example_pool_heap = snd (the (mp_create_pool example_sa 0 example_heap 4096))"

lemma example_pool_eq:
  "example_pool = \<lparr>p_addr = 4096, p_max = 4095, p_current = 4120, p_large = [],
     p_nodes = [\<lparr>n_addr = 4120, n_last = 4152, n_end = 8248, n_failed = 0\<rparr>], p_tail = 0\<rparr>"
  "example_pool_heap = \<lparr>h_live = [(4096, 4152)], h_mem = (\<lambda>_. 170)\<rparr>"
  by (simp_all add: example_pool_def example_pool_heap_def mp_create_pool_def posix_memalign_def example_sa_def
        example_heap_def MP_ALIGNMENT_def SIZEOF_POOL_def SIZEOF_NODE_def MP_MAX_ALLOC_FROM_POOL_def MP_PAGE_SIZE_def Let_def)

lemma example_pool_ok: "pool_ok [] example_pool_heap example_pool"
proof -
  have "mp_create_pool example_sa 0 example_heap 4096 = Some (example_pool, example_pool_heap)"
    by (simp add: example_pool_def example_pool_heap_def mp_create_pool_def posix_memalign_def example_sa_def
        example_heap_def MP_ALIGNMENT_def SIZEOF_POOL_def SIZEOF_NODE_def Let_def)
  from mp_create_pool_ok(1) [OF example_sa_ok this] show ?thesis by (simp add: example_heap_def)
qed

lemma example_headroom: "headroom example_pool"
  by (simp add: headroom_def from_current_def example_pool_eq align_up_def)

text \<open>
  The test for room in \<open>mp_alloc\<close> is wrong next to the end of a node. When rounding the end of
  the used part up to a multiple of 32 passes the end of the node, the difference
  \<open>p->end - m\<close> is negative, its conversion to \<open>size_t\<close> is huge, and \<open>mp_alloc\<close> returns
  an address behind the end of the node's block.
\<close>

lemma mp_alloc_overflow:
  assumes "pool_ok base h pool" and "from_current pool = n # ns" and "sz \<le> p_max pool" and "unat sz < 2 ^ 63"
    and "unat (n_end n) < align_up (unat (n_last n))" and "unat (n_end n) < 2 ^ 63"
  shows "\<exists>m pool'. mp_alloc sa h pool sz = Some (Inr (m, pool', h)) \<and> m \<noteq> 0 \<and> unat (n_end n) < unat m"
proof -
  define m where "m = mp_align_ptr (n_last n) MP_ALIGNMENT"
  have "n \<in> set (p_nodes pool)" using assms(2) before_from_current [of pool] by (metis in_set_conv_decomp append.assoc append_Cons)
  then have le: "unat (n_last n) \<le> unat (n_end n)"
    using assms(1) by (auto simp: pool_ok_def shapes_ok_def shape_def)
  then have m: "unat m = align_up (unat (n_last n))" using assms(6) by (simp add: m_def unat_align_ptr)
  have gap: "align_up (unat (n_last n)) \<le> unat (n_last n) + 31" by (simp add: align_up_def)
  have "unat (n_end n - m) = unat (n_end n) + 2 ^ 64 - unat m" using m assms(5) by (simp add: unat_sub_if_size word_size)
  then have "2 ^ 63 \<le> unat (n_end n - m)" using m gap le by simp
  then have "sz \<le> n_end n - m" using assms(4) by (simp add: word_le_nat_alt)
  then have "alloc_small True sa h pool sz =
      Inr (m, pool\<lparr>p_nodes := before_current pool @ n\<lparr>n_last := m + sz\<rparr> # ns\<rparr>, h)"
    using assms(2) by (simp add: alloc_small_def m_def [symmetric] Let_def)
  then show ?thesis using m assms(3,5) by (auto simp: mp_alloc_eq)
qed



text \<open>The two ways of asking for small memory as region allocators.\<close>

definition small_request ::
  "(sys_alloc \<Rightarrow> sys_heap \<Rightarrow> mp_pool_s \<Rightarrow> u64 \<Rightarrow> (u64 \<times> mp_pool_s \<times> sys_heap) cresult option) \<Rightarrow>
   (mp_pool_s \<Rightarrow> bool) \<Rightarrow> sys_alloc \<Rightarrow> sys_heap \<times> mp_pool_s \<Rightarrow> u64 \<Rightarrow> (u64 \<times> sys_heap \<times> mp_pool_s) option" where
  "small_request f ok sa s n =
     (if n \<le> p_max (snd s) \<and> ok (snd s)
      then (case f sa (fst s) (snd s) n of Some (Inr (a, pool, h)) \<Rightarrow> Some (a, h, pool) | _ \<Rightarrow> None)
      else None)"

definition session_inv :: "sys_alloc \<Rightarrow> sys_heap \<times> mp_pool_s \<Rightarrow> bool" where
  "session_inv sa s \<longleftrightarrow> sys_alloc_ok sa \<and> (\<exists>base. pool_ok base (fst s) (snd s))"

lemma session_invI: "sys_alloc_ok sa \<Longrightarrow> pool_ok base h pool \<Longrightarrow> session_inv sa (h, pool)"
  by (auto simp: session_inv_def)

lemma small_request_cases:
  assumes "session_inv sa s" and "small_request f ok sa s n = Some (a, s')"
    and f: "\<And>h pool. n \<le> p_max pool \<Longrightarrow> f sa h pool n = Some (alloc_small aligned sa h pool n)"
    and ok: "\<And>pool. ok pool \<Longrightarrow> aligned \<Longrightarrow> headroom pool"
  shows "session_inv sa s' \<and> (a = 0 \<and> s' = s \<or> carved (snd s) (snd s') (fst s') a n)"
proof -
  obtain base where inv: "sys_alloc_ok sa" "pool_ok base (fst s) (snd s)" using assms(1) by (auto simp: session_inv_def)
  have n: "n \<le> p_max (snd s)" "ok (snd s)" using assms(2) by (auto simp: small_request_def split: if_splits)
  from alloc_small_ok [OF inv(2,1) n(1), of aligned] ok [OF n(2)] show ?thesis
    using assms(1,2) inv(1) n by (auto simp: small_request_def f intro: session_invI)
qed

interpretation aligned_pool: region_allocator "small_request mp_alloc headroom sa" "session_inv sa" "\<lambda>s. used_space (snd s)" for sa
proof unfold_locales
  fix s n a s'
  assume *: "session_inv sa s" "small_request mp_alloc headroom sa s n = Some (a, s')"
  note c = small_request_cases [OF *, where aligned = True]
  show "session_inv sa s'" using c by (simp add: mp_alloc_eq)
  show "region a n \<inter> used_space (snd s) = {}" if "a \<noteq> 0" using c that by (simp add: mp_alloc_eq carved_def)
  show "used_space (snd s) \<subseteq> used_space (snd s') \<and> (a \<noteq> 0 \<longrightarrow> region a n \<subseteq> used_space (snd s'))"
    using c by (auto simp: mp_alloc_eq carved_def)
qed

interpretation packed_pool: region_allocator "small_request mp_nalloc (\<lambda>_. True) sa" "session_inv sa" "\<lambda>s. used_space (snd s)" for sa
proof unfold_locales
  fix s n a s'
  assume *: "session_inv sa s" "small_request mp_nalloc (\<lambda>_. True) sa s n = Some (a, s')"
  note c = small_request_cases [OF *, where aligned = False]
  show "session_inv sa s'" using c by (simp add: mp_nalloc_def)
  show "region a n \<inter> used_space (snd s) = {}" if "a \<noteq> 0" using c that by (simp add: mp_nalloc_def carved_def)
  show "used_space (snd s) \<subseteq> used_space (snd s') \<and> (a \<noteq> 0 \<longrightarrow> region a n \<subseteq> used_space (snd s'))"
    using c by (auto simp: mp_nalloc_def carved_def)
qed

text \<open>
  Small requests never overlap. In any sequence of calls of \<open>mp_nalloc\<close>, or of
  calls of \<open>mp_alloc\<close> each made while rounding up stays inside the nodes, the memory returned for one
  request has no byte in common with the memory returned for another, across any number of nodes.
\<close>

theorem small_requests_disjoint:
  assumes "session_inv sa s"
    and "alloc_all (small_request mp_nalloc (\<lambda>_. True) sa) s ns = Some (rs, t) \<or>
         alloc_all (small_request mp_alloc headroom sa) s ns = Some (rs, t)"
  shows "session_inv sa t \<and> sorted_wrt (\<lambda>(a, n) (b, k). a = 0 \<or> b = 0 \<or> region a n \<inter> region b k = {}) rs"
  using assms(2) packed_pool.alloc_all_disjoint [OF assms(1)] packed_pool.alloc_all_fresh [OF assms(1)]
    aligned_pool.alloc_all_disjoint [OF assms(1)] aligned_pool.alloc_all_fresh [OF assms(1)] by blast

lemma example_requests:
  "\<exists>t. alloc_all (small_request mp_nalloc (\<lambda>_. True) example_sa) (example_pool_heap, example_pool) [4000, 200] =
     Some ([(4152, 4000), (12320, 200)], t)"
  by (simp add: small_request_def mp_nalloc_def alloc_small_def from_current_def before_current_def example_pool_eq
        mp_alloc_block_def posix_memalign_def example_sa_def MP_ALIGNMENT_def SIZEOF_NODE_def Let_def and_not_31 mp_align_ptr_def)

theorem small_requests_disjoint_witness:
  "\<exists>t. session_inv example_sa t \<and> region 4152 4000 \<inter> region 12320 200 = {}"
proof -
  obtain t where "alloc_all (small_request mp_nalloc (\<lambda>_. True) example_sa) (example_pool_heap, example_pool) [4000, 200] =
     Some ([(4152, 4000), (12320, 200)], t)" using example_requests by blast
  with small_requests_disjoint [OF session_invI [OF example_sa_ok example_pool_ok]] show ?thesis by fastforce
qed

definition example_full :: mp_pool_s where
  "example_full = fst (snd (projr (the (mp_alloc example_sa example_pool_heap example_pool 4076))))"

lemma example_full_eq:
  "mp_alloc example_sa example_pool_heap example_pool 4076 = Some (Inr (4160, example_full, example_pool_heap))"
  "example_full = example_pool\<lparr>p_nodes := [\<lparr>n_addr = 4120, n_last = 8236, n_end = 8248, n_failed = 0\<rparr>]\<rparr>"
  by (simp_all add: example_full_def mp_alloc_eq alloc_small_def from_current_def before_current_def example_pool_eq
        MP_ALIGNMENT_def mp_align_ptr_def and_not_31 Let_def)

lemma mp_alloc_overflow_example:
  "\<exists>m pool'. mp_alloc example_sa example_pool_heap example_full 512 = Some (Inr (m, pool', example_pool_heap)) \<and> 8248 < unat m"
proof -
  have cur: "from_current example_full = [\<lparr>n_addr = 4120, n_last = 8236, n_end = 8248, n_failed = 0\<rparr>]" "p_max example_full = 4095"
    by (simp_all add: from_current_def example_full_eq example_pool_eq)
  have "4076 \<le> p_max example_pool" by (simp add: example_pool_eq)
  from alloc_small_ok [OF example_pool_ok example_sa_ok this, of True] example_headroom
  have "pool_ok [] example_pool_heap example_full"
    using example_full_eq(1) by (auto simp: mp_alloc_eq \<open>4076 \<le> p_max example_pool\<close>)
  from mp_alloc_overflow [OF this cur(1), of 512 example_sa] show ?thesis
    by (auto simp: cur(2) align_up_def)
qed

lemma take_slot_full: "\<forall>l \<in> set ls. l_alloc l \<noteq> 0 \<Longrightarrow> take_slot k p ls = None"
  by (induction k p ls rule: take_slot.induct) auto

text \<open>
  A pool of less than 16 bytes recurses without end. The entry of a large block in the pool's
  list is itself allocated from the pool; when the pool's limit is below the size of the entry,
  this is again a large request, so a request above the limit calls \<open>mp_alloc_large\<close> for ever, one more
  block of the system heap each time, as long as \<open>malloc\<close> succeeds and no entry is free.
\<close>

theorem mp_alloc_small_pool_diverges:
  assumes "p_max pool < SIZEOF_LARGE" and "p_max pool < sz" and "\<forall>live al n. sa live al n \<noteq> None"
    and "\<forall>l \<in> set (p_large pool). l_alloc l \<noteq> 0"
  shows "mp_alloc sa h pool sz = None"
proof -
  let ?P = "\<lambda>sa h pool sz r. \<not> (p_max pool < SIZEOF_LARGE \<and> p_max pool < sz \<and> (\<forall>live al n. sa live al n \<noteq> None) \<and>
      (\<forall>l \<in> set (p_large pool). l_alloc l \<noteq> 0))"
  have "?P sa h pool sz r" if "mp_alloc sa h pool sz = Some r" for r
  proof (rule mp_alloc.raw_induct [of ?P, OF _ that])
    fix rec sa h pool sz r
    assume IH: "\<And>sa h pool sz r. rec sa h pool sz = Some r \<Longrightarrow> ?P sa h pool sz r"
      and run: "(if sz \<le> p_max pool then Some (alloc_small True sa h pool sz)
          else case large_begin sa h pool sz of Inl r \<Rightarrow> Some (Inr r)
            | Inr (p, h1) \<Rightarrow> Option.bind (rec sa h1 pool SIZEOF_LARGE) (\<lambda>r. Some (large_end p r))) = Some r"
    show "?P sa h pool sz r"
    proof
      assume *: "p_max pool < SIZEOF_LARGE \<and> p_max pool < sz \<and> (\<forall>live al n. sa live al n \<noteq> None) \<and>
        (\<forall>l \<in> set (p_large pool). l_alloc l \<noteq> 0)"
      then obtain p where "sa (h_live h) 16 sz = Some p" by blast
      then have "large_begin sa h pool sz = Inr (p, h\<lparr>h_live := (p, sz) # h_live h\<rparr>)"
        using * by (simp add: large_begin_def malloc_def posix_memalign_def take_slot_full)
      then obtain r' where "rec sa (h\<lparr>h_live := (p, sz) # h_live h\<rparr>) pool SIZEOF_LARGE = Some r'"
        using run * by (auto simp: not_le [symmetric] bind_eq_Some_conv)
      from IH [OF this] * show False by blast
    qed
  qed
  then show ?thesis using assms by (cases "mp_alloc sa h pool sz") auto
qed

theorem mp_alloc_small_pool_diverges_witness:
  "mp_alloc (\<lambda>live al n. Some 4096) example_heap (fst (the (mp_create_pool (\<lambda>live al n. Some 4096) 0 example_heap 8))) 9 = None"
  by (rule mp_alloc_small_pool_diverges)
    (simp_all add: mp_create_pool_def posix_memalign_def Let_def SIZEOF_LARGE_def MP_MAX_ALLOC_FROM_POOL_def MP_PAGE_SIZE_def)

subsection \<open>The life of a pool\<close>

text \<open>The calls of a user between the creation and the release of a pool.\<close>

datatype pool_op = Op_Alloc u64 | Op_Nalloc u64 | Op_Calloc u64 | Op_Memalign u64 u64 | Op_Free u64 | Op_Reset

fun pool_apply :: "sys_alloc \<Rightarrow> pool_op \<Rightarrow> mp_pool_s \<times> sys_heap \<Rightarrow> (mp_pool_s \<times> sys_heap) cresult option" where
  "pool_apply sa (Op_Alloc sz) (pool, h) = obind (mp_alloc sa h pool sz) (\<lambda>(_, pool, h). Some (Inr (pool, h)))"
| "pool_apply sa (Op_Nalloc sz) (pool, h) = obind (mp_nalloc sa h pool sz) (\<lambda>(_, pool, h). Some (Inr (pool, h)))"
| "pool_apply sa (Op_Calloc sz) (pool, h) = obind (mp_calloc sa h pool sz) (\<lambda>(_, pool, h). Some (Inr (pool, h)))"
| "pool_apply sa (Op_Memalign sz al) (pool, h) = obind (mp_memalign sa h pool sz al) (\<lambda>(_, pool, h). Some (Inr (pool, h)))"
| "pool_apply sa (Op_Free p) (pool, h) = Some (mp_free h pool p)"
| "pool_apply sa Op_Reset (pool, h) = Some (mp_reset_pool h pool)"

fun pool_run :: "sys_alloc \<Rightarrow> pool_op list \<Rightarrow> mp_pool_s \<times> sys_heap \<Rightarrow> (mp_pool_s \<times> sys_heap) cresult option" where
  "pool_run sa [] s = Some (Inr s)"
| "pool_run sa (x # xs) s = obind (pool_apply sa x s) (pool_run sa xs)"

text \<open>
  The calls that round up, directly or for the entry of a large block, are made while that stays inside of the nodes.
\<close>

fun rounds_up :: "pool_op \<Rightarrow> mp_pool_s \<Rightarrow> bool" where
  "rounds_up (Op_Nalloc sz) pool \<longleftrightarrow> p_max pool < sz"
| "rounds_up (Op_Free p) pool \<longleftrightarrow> False"
| "rounds_up Op_Reset pool \<longleftrightarrow> False"
| "rounds_up _ pool \<longleftrightarrow> True"

fun room_along :: "sys_alloc \<Rightarrow> pool_op list \<Rightarrow> mp_pool_s \<times> sys_heap \<Rightarrow> bool" where
  "room_along sa [] s \<longleftrightarrow> True"
| "room_along sa (x # xs) s \<longleftrightarrow>
     (rounds_up x (fst s) \<longrightarrow> headroom (fst s)) \<and>
     (case pool_apply sa x s of Some (Inr s') \<Rightarrow> room_along sa xs s' | _ \<Rightarrow> True)"

lemma alloc_small_max: "alloc_small aligned sa h pool sz = Inr (a, pool', h') \<Longrightarrow> p_max pool' = p_max pool"
  by (auto simp: alloc_small_def mp_alloc_block_def posix_memalign_def Let_def rbind_Inr_iff
        split: if_splits option.splits list.splits prod.splits)

lemma large_end_max:
  "large_end p r = Inr (a, pool', h') \<Longrightarrow> \<exists>a1 pool1 h1. r = Inr (a1, pool1, h1) \<and> p_max pool' = p_max pool1"
  by (auto simp: large_end_def free_def rbind_Inr_iff split: if_splits)

lemma mp_alloc_large_max:
  assumes "mp_alloc_large sa h pool sz = Some (Inr (a, pool', h'))" and "SIZEOF_LARGE \<le> p_max pool"
  shows "p_max pool' = p_max pool"
  using assms alloc_small_max
  by (auto simp: mp_alloc_large_def large_begin_def malloc_def posix_memalign_def mp_alloc_eq split: option.splits dest!: large_end_max)

lemma pool_ok_mem: "pool_ok base (h\<lparr>h_mem := m\<rparr>) pool = pool_ok base h pool"
  by (simp add: pool_ok_def node_blocks_def)

text \<open>What every call keeps.\<close>

definition keeps :: "(u64 \<times> u64) list \<Rightarrow> mp_pool_s \<Rightarrow> (u64 \<times> mp_pool_s \<times> sys_heap) cresult option \<Rightarrow> bool" where
  "keeps base pool r \<longleftrightarrow> (\<exists>a pool' h'. r = Some (Inr (a, pool', h')) \<and> pool_ok base h' pool' \<and> p_max pool' = p_max pool)"

lemma alloc_small_keeps:
  assumes "pool_ok base h pool" and "sys_alloc_ok sa" and "sz \<le> p_max pool" and "aligned \<longrightarrow> headroom pool"
  shows "keeps base pool (Some (alloc_small aligned sa h pool sz))"
  using alloc_small_ok [OF assms] assms(1) by (auto simp: keeps_def)

lemma mp_alloc_large_keeps:
  assumes "pool_ok base h pool" and "sys_alloc_ok sa" and "headroom pool" and "SIZEOF_LARGE \<le> p_max pool"
  shows "keeps base pool (mp_alloc_large sa h pool sz)"
  using mp_alloc_large_ok [OF assms, of sz] mp_alloc_large_max [of sa h pool sz] assms(4) by (fastforce simp: keeps_def)

lemma mp_alloc_keeps:
  assumes "pool_ok base h pool" and "sys_alloc_ok sa" and "headroom pool" and "SIZEOF_LARGE \<le> p_max pool"
  shows "keeps base pool (mp_alloc sa h pool sz)"
  using alloc_small_keeps [OF assms(1,2), of sz True] mp_alloc_large_keeps [OF assms, of sz] assms(3) by (simp add: mp_alloc_eq)

lemma mp_calloc_keeps:
  assumes "pool_ok base h pool" and "sys_alloc_ok sa" and "headroom pool" and "SIZEOF_LARGE \<le> p_max pool"
  shows "keeps base pool (mp_calloc sa h pool sz)"
  using mp_alloc_keeps [OF assms, of sz] mp_alloc_mem [OF assms, of sz]
  by (auto simp: keeps_def mp_calloc_def memset_def pool_ok_mem)

lemma mp_memalign_keeps:
  assumes ok: "pool_ok base h pool" and sa: "sys_alloc_ok sa" and head: "headroom pool" and max: "SIZEOF_LARGE \<le> p_max pool"
  shows "keeps base pool (mp_memalign sa h pool sz al)"
proof (cases "sa (h_live h) al sz")
  case None
  then show ?thesis using ok by (simp add: keeps_def mp_memalign_def posix_memalign_def)
next
  case (Some p)
  let ?h = "h\<lparr>h_live := (p, sz) # h_live h\<rparr>"
  have "pool_ok ((p, sz) # base) ?h pool" using sys_alloc_okD [OF sa Some] by (intro pool_ok_extra [OF ok]) auto
  from large_entry_ok [OF this sa head max] obtain a pool' h' where
    run: "large_end p (alloc_small True sa ?h pool SIZEOF_LARGE) = Inr (a, pool', h')" "pool_ok base h' pool'" by blast
  moreover have "p_max pool' = p_max pool" using large_end_max [OF run(1)] alloc_small_max by fastforce
  ultimately show ?thesis using Some max by (simp add: keeps_def mp_memalign_def posix_memalign_def mp_alloc_eq)
qed

lemma keeps_obind: "keeps base pool r \<Longrightarrow> \<exists>pool' h'. obind r (\<lambda>(_, pool, h). Some (Inr (pool, h))) = Some (Inr (pool', h')) \<and>
    pool_ok base h' pool' \<and> p_max pool' = p_max pool"
  by (auto simp: keeps_def)

lemma pool_apply_ok:
  assumes ok: "pool_ok base h pool" and sa: "sys_alloc_ok sa" and max: "SIZEOF_LARGE \<le> p_max pool" and head: "rounds_up x pool \<Longrightarrow> headroom pool"
  shows "\<exists>pool' h'. pool_apply sa x (pool, h) = Some (Inr (pool', h')) \<and> pool_ok base h' pool' \<and> p_max pool' = p_max pool"
proof (cases x)
  case (Op_Alloc sz)
  then show ?thesis using head keeps_obind [OF mp_alloc_keeps [OF ok sa _ max]] by simp
next
  case (Op_Nalloc sz)
  have "keeps base pool (mp_nalloc sa h pool sz)"
    using alloc_small_keeps [OF ok sa, of sz False] mp_alloc_large_keeps [OF ok sa _ max, of sz] head Op_Nalloc
    by (auto simp: mp_nalloc_def not_le)
  then show ?thesis using Op_Nalloc keeps_obind by simp
next
  case (Op_Calloc sz)
  then show ?thesis using head keeps_obind [OF mp_calloc_keeps [OF ok sa _ max]] by simp
next
  case (Op_Memalign sz al)
  then show ?thesis using head keeps_obind [OF mp_memalign_keeps [OF ok sa _ max]] by simp
next
  case (Op_Free p)
  moreover have "p_max pool' = p_max pool" if "mp_free h pool p = Inr (pool', h')" for pool' h'
    using that by (auto simp: mp_free_def rbind_Inr_iff)
  ultimately show ?thesis using mp_free_ok [OF ok, of p] by fastforce
next
  case Op_Reset
  moreover have "p_max pool' = p_max pool" if "mp_reset_pool h pool = Inr (pool', h')" for pool' h'
    using that by (auto simp: mp_reset_pool_def rbind_Inr_iff split: if_splits)
  ultimately show ?thesis using mp_reset_pool_ok [OF ok] by fastforce
qed

lemma pool_run_ok:
  assumes "pool_ok base h pool" and sa: "sys_alloc_ok sa" and "SIZEOF_LARGE \<le> p_max pool" and "room_along sa xs (pool, h)"
  shows "\<exists>pool' h'. pool_run sa xs (pool, h) = Some (Inr (pool', h')) \<and> pool_ok base h' pool'"
  using assms(1,3,4)
proof (induction xs arbitrary: pool h)
  case (Cons x xs)
  obtain pool1 h1 where r: "pool_apply sa x (pool, h) = Some (Inr (pool1, h1))" "pool_ok base h1 pool1" "p_max pool1 = p_max pool"
    using pool_apply_ok [OF Cons.prems(1) sa Cons.prems(2), of x] Cons.prems(3) by auto
  then show ?case using Cons.IH [OF r(2)] Cons.prems(2,3) by simp
qed simp

text \<open>
  C23. A pool gives everything back. Let a pool of at least 16 bytes be created and used by any sequence of calls of \<open>mp_alloc\<close>,
  \<open>mp_nalloc\<close>, \<open>mp_calloc\<close>, \<open>mp_memalign\<close>, \<open>mp_free\<close> and \<open>mp_reset_pool\<close>, in which every call that rounds up is made while this stays inside the
  nodes. If the memory the pool is created in happens to be zero where \<open>head->next\<close> is, which \<open>mp_create_pool\<close> does not set, then no
  call faults, and \<open>mp_destory_pool\<close> frees every block of the pool exactly once and no other, so that the
  system heap is what it was before the creation. If not, \<open>mp_destory_pool\<close> follows the uninitialised pointer.
\<close>

theorem mp_pool_lifecycle:
  assumes "sys_alloc_ok sa" and "unat sz + 56 < 2 ^ 64" "16 \<le> sz" and "distinct (map fst (h_live h0))" "0 \<notin> fst ` set (h_live h0)"
    and "mp_create_pool sa junk h0 sz = Some (pool0, h1)" and "room_along sa xs (pool0, h1)"
  shows "if junk = 0
    then \<exists>pool h. pool_run sa xs (pool0, h1) = Some (Inr (pool, h)) \<and> pool_ok (h_live h0) h pool \<and>
           mp_destory_pool h pool = Inr (h\<lparr>h_live := h_live h0\<rparr>)
    else mp_destory_pool h1 pool0 = Inl Wild_Pointer"
proof (cases "junk = 0")
  case True
  note create = assms(6) [unfolded True]
  have "SIZEOF_LARGE \<le> p_max pool0"
    using mp_create_pool_ok(2) [OF assms(1) create assms(2,4,5)] assms(3)
    by (simp add: SIZEOF_LARGE_def MP_MAX_ALLOC_FROM_POOL_def MP_PAGE_SIZE_def)
  from pool_run_ok [OF mp_create_pool_ok(1) [OF assms(1) create assms(2,4,5)] assms(1) this assms(7)] True show ?thesis
    using mp_destory_pool_ok by fastforce
next
  case False
  have "p_large pool0 = []" "tl (p_nodes pool0) = []" "p_tail pool0 = junk"
    using assms(6) by (auto simp: mp_create_pool_def Let_def split: option.splits)
  then show ?thesis using False by (simp add: mp_destory_pool_def)
qed

definition example_ops :: "pool_op list" where
  "example_ops = [Op_Alloc 512, Op_Alloc 8192, Op_Free 12288, Op_Reset, Op_Nalloc 256]"

definition example_state :: "u64 \<Rightarrow> mp_large_s list \<Rightarrow> (u64 \<times> u64) list \<Rightarrow> mp_pool_s \<times> sys_heap" where
  "example_state lst ls live =
     (\<lparr>p_addr = 4096, p_max = 4095, p_current = 4120, p_large = ls,
       p_nodes = [\<lparr>n_addr = 4120, n_last = lst, n_end = 8248, n_failed = 0\<rparr>], p_tail = 0\<rparr>,
      \<lparr>h_live = live @ [(4096, 4152)], h_mem = (\<lambda>_. 170)\<rparr>)"

lemmas pool_defs = from_current_def before_current_def mp_alloc_eq alloc_small_def MP_ALIGNMENT_def mp_align_ptr_def and_not_31 Let_def

lemma example_steps:
  "(example_pool, example_pool_heap) = example_state 4152 [] []"
  "pool_apply example_sa (Op_Alloc 512) (example_state 4152 [] []) = Some (Inr (example_state 4672 [] []))"
  "pool_apply example_sa (Op_Alloc 8192) (example_state 4672 [] []) =
     Some (Inr (example_state 4688 [\<lparr>l_addr = 4672, l_alloc = 12288\<rparr>] [(12288, 8192)]))"
  "pool_apply example_sa (Op_Free 12288) (example_state 4688 [\<lparr>l_addr = 4672, l_alloc = 12288\<rparr>] [(12288, 8192)]) =
     Some (Inr (example_state 4688 [\<lparr>l_addr = 4672, l_alloc = 0\<rparr>] []))"
  "pool_apply example_sa Op_Reset (example_state 4688 [\<lparr>l_addr = 4672, l_alloc = 0\<rparr>] []) = Some (Inr (example_state 4152 [] []))"
  "pool_apply example_sa (Op_Nalloc 256) (example_state 4152 [] []) = Some (Inr (example_state 4408 [] []))"
  by (simp_all add: example_state_def example_pool_eq pool_defs)
    (simp_all add: example_state_def pool_defs mp_alloc_large_def large_begin_def large_end_def malloc_def posix_memalign_def example_sa_def
      SIZEOF_LARGE_def in_block_def mp_free_def free_def mp_reset_pool_def SIZEOF_NODE_def mp_nalloc_def)

lemma example_room: "headroom (fst (example_state 4152 [] []))" "headroom (fst (example_state 4672 [] []))"
  by (simp_all add: example_state_def headroom_def from_current_def align_up_def)

theorem mp_pool_lifecycle_witness:
  "pool_run example_sa example_ops (example_pool, example_pool_heap) = Some (Inr (example_state 4408 [] [])) \<and>
   (case example_state 4408 [] [] of (pool, h) \<Rightarrow> mp_destory_pool h pool = Inr (h\<lparr>h_live := []\<rparr>))"
proof -
  have create: "mp_create_pool example_sa 0 example_heap 4096 = Some (example_pool, example_pool_heap)"
    by (simp add: example_pool_def example_pool_heap_def mp_create_pool_def posix_memalign_def example_sa_def
        example_heap_def MP_ALIGNMENT_def SIZEOF_POOL_def SIZEOF_NODE_def Let_def)
  have run: "pool_run example_sa example_ops (example_pool, example_pool_heap) = Some (Inr (example_state 4408 [] []))"
    unfolding example_ops_def by (simp add: example_steps)
  have "p_max (fst (example_state l ls live)) = 4095" for l ls live by (simp add: example_state_def)
  then have room: "room_along example_sa example_ops (example_pool, example_pool_heap)"
    unfolding example_ops_def by (simp add: example_steps example_room)
  have "h_live example_heap = []" by (simp add: example_heap_def)
  with mp_pool_lifecycle [OF example_sa_ok _ _ _ _ create room] run show ?thesis by (auto split: prod.split)
qed

text \<open>
  \<open>mp_calloc\<close> zeroes what it returns and nothing else: on the conditions of \<open>mp_alloc\<close> the
  call succeeds, every byte of the memory returned is 0 and every other byte is unchanged.
\<close>

theorem mp_calloc_zeroes:
  assumes "pool_ok base h pool" and "sys_alloc_ok sa" and "headroom pool" and "SIZEOF_LARGE \<le> p_max pool"
  shows "\<exists>a pool' h'. mp_calloc sa h pool sz = Some (Inr (a, pool', h')) \<and>
    (\<forall>x. h_mem h' x = (if a \<noteq> 0 \<and> unat x \<in> region a sz then 0 else h_mem h x))"
proof -
  obtain a pool' h' where run: "mp_alloc sa h pool sz = Some (Inr (a, pool', h'))"
    and mem: "h_mem h' = h_mem h" and blk: "a \<noteq> 0 \<longrightarrow> (\<exists>b \<in> set (h_live h'). in_block a sz b)"
    using mp_alloc_mem [OF assms] by blast
  show ?thesis
  proof (cases "a = 0")
    case True
    then show ?thesis using run mem by (auto simp: mp_calloc_def)
  next
    case False
    then show ?thesis using run mem blk by (auto simp: mp_calloc_def memset_def region_def)
  qed
qed

theorem mp_calloc_zeroes_witness:
  "\<exists>a pool' h'. mp_calloc example_sa example_pool_heap example_pool 32 = Some (Inr (a, pool', h')) \<and>
     (\<forall>x. h_mem h' x = (if a \<noteq> 0 \<and> unat x \<in> region a 32 then 0 else 170))"
proof -
  have "SIZEOF_LARGE \<le> p_max example_pool" "h_mem example_pool_heap = (\<lambda>_. 170)"
    by (simp_all add: example_pool_eq SIZEOF_LARGE_def)
  with mp_calloc_zeroes [OF example_pool_ok example_sa_ok example_headroom this(1), of 32] show ?thesis by (simp only:)
qed

end
