(* ===== verification/PagePool.thy ===== *)
theory PagePool
  imports MemPool
begin

text \<open>
  The smaller pool of \<open>mempool/mem_pool.c\<close>, on the system heap of \<open>MemPool\<close>. Its operations have
  the names of the larger one; here they carry the suffix \<open>_page\<close>. \<open>pg_nodes\<close> is the chain of
  nodes from \<open>head\<close>; \<open>current\<close> is set once, to the head. The counter of a node and the limit of the pool
  are never initialised: their contents are the parameter \<open>junk\<close>.
\<close>

record mp_pool_t =
  pg_addr :: u64
  pg_max :: u64
  pg_current :: u64
  pg_large :: "mp_large_s list"
  pg_nodes :: "mp_node_s list"

definition SIZEOF_PAGE_POOL :: u64 where "SIZEOF_PAGE_POOL = 32"

definition mp_alloc_block_page ::
  "sys_alloc \<Rightarrow> u64 \<Rightarrow> sys_heap \<Rightarrow> mp_pool_t \<Rightarrow> u64 \<Rightarrow> u64 \<times> mp_pool_t \<times> sys_heap" where
  "mp_alloc_block_page sa junk h mp sz =
     (case posix_memalign sa h MP_ALIGNMENT MP_PAGE_SIZE of
        None \<Rightarrow> (0, mp, h)
      | Some (b, h) \<Rightarrow>
          let node = \<lparr>n_addr = b, n_last = b + SIZEOF_NODE, n_end = b + MP_PAGE_SIZE, n_failed = junk\<rparr>;
              before = takeWhile (\<lambda>n. n_addr n \<noteq> pg_current mp) (pg_nodes mp);
              rest = dropWhile (\<lambda>n. n_addr n \<noteq> pg_current mp) (pg_nodes mp)
          in (b, mp\<lparr>pg_nodes := before @ snd (count_failures (pg_current mp) rest) @ [node]\<rparr>, h))"

text \<open>The first three fields of the first node are written, whether or not the block reaches that far.\<close>

definition mp_create_page :: "sys_alloc \<Rightarrow> u64 \<Rightarrow> sys_heap \<Rightarrow> u64 \<Rightarrow> (mp_pool_t \<times> sys_heap) option cresult" where
  "mp_create_page sa junk h sz =
     (case posix_memalign sa h MP_ALIGNMENT (SIZEOF_PAGE_POOL + sz) of
        None \<Rightarrow> Inr None
      | Some (mp, h) \<Rightarrow>
          let head = mp + SIZEOF_PAGE_POOL
          in rbind (rguard (in_block mp SIZEOF_PAGE_POOL (mp, SIZEOF_PAGE_POOL + sz) \<and> in_block head 24 (mp, SIZEOF_PAGE_POOL + sz)) Out_Of_Bounds) (\<lambda>_.
             Inr (Some (\<lparr>pg_addr = mp, pg_max = junk, pg_current = head, pg_large = [],
                         pg_nodes = [\<lparr>n_addr = head, n_last = mp + SIZEOF_PAGE_POOL + SIZEOF_NODE,
                                      n_end = mp + sz, n_failed = junk\<rparr>]\<rparr>, h))))"

text \<open>
  A request that fits a page: \<open>node->end - last\<close> is converted to the unsigned type of \<open>size\<close>; when
  there is no room the function ends without a result.
\<close>

definition alloc_current_page :: "mp_pool_t \<Rightarrow> u64 \<Rightarrow> (u64 \<times> mp_pool_t) cresult" where
  "alloc_current_page mp sz =
     (case dropWhile (\<lambda>n. n_addr n \<noteq> pg_current mp) (pg_nodes mp) of
        [] \<Rightarrow> Inl Wild_Pointer
      | node # rest \<Rightarrow>
          if n_end node - n_last node \<ge> sz
          then Inr (n_last node, mp\<lparr>pg_nodes :=
                 takeWhile (\<lambda>n. n_addr n \<noteq> pg_current mp) (pg_nodes mp) @
                 node\<lparr>n_last := n_last node + sz\<rparr> # rest\<rparr>)
          else Inl Missing_Return)"

fun take_slot_page :: "u64 \<Rightarrow> mp_large_s list \<Rightarrow> mp_large_s list option" where
  "take_slot_page m [] = None"
| "take_slot_page m (l # ls) =
     (if l_alloc l = 0 then Some (l\<lparr>l_alloc := m\<rparr> # ls) else map_option (Cons l) (take_slot_page m ls))"

text \<open>The entry for a new block is filled in but not linked: \<open>mp->large\<close> is not assigned.\<close>

definition mp_alloc_large_page ::
  "sys_alloc \<Rightarrow> sys_heap \<Rightarrow> mp_pool_t \<Rightarrow> u64 \<Rightarrow> (u64 \<times> mp_pool_t \<times> sys_heap) cresult" where
  "mp_alloc_large_page sa h mp sz =
     (case posix_memalign sa h MP_ALIGNMENT sz of
        None \<Rightarrow> Inr (0, mp, h)
      | Some (m, h) \<Rightarrow>
          (case take_slot_page m (pg_large mp) of
             Some ls \<Rightarrow> Inr (m, mp\<lparr>pg_large := ls\<rparr>, h)
           | None \<Rightarrow>
               rbind (alloc_current_page mp SIZEOF_LARGE) (\<lambda>(large, mp).
                 if \<exists>b \<in> set (h_live h). in_block large SIZEOF_LARGE b then Inr (m, mp, h) else Inl Out_Of_Bounds)))"

definition mp_alloc_page :: "sys_alloc \<Rightarrow> sys_heap \<Rightarrow> mp_pool_t \<Rightarrow> u64 \<Rightarrow> (u64 \<times> mp_pool_t \<times> sys_heap) cresult" where
  "mp_alloc_page sa h mp sz =
     (if sz > MP_PAGE_SIZE - SIZEOF_NODE then mp_alloc_large_page sa h mp sz
      else rbind (alloc_current_page mp sz) (\<lambda>(last, mp). Inr (last, mp, h)))"

subsection \<open>Properties\<close>

text \<open>The memory left in a pool of one node.\<close>

definition page_ok :: "sys_heap \<Rightarrow> mp_pool_t \<Rightarrow> bool" where
  "page_ok h mp \<longleftrightarrow>
     (\<exists>node. pg_nodes mp = [node] \<and> pg_current mp = n_addr node \<and> unat (n_addr node) + 32 \<le> unat (n_last node) \<and>
        unat (n_last node) \<le> unat (n_end node) \<and> (\<exists>b \<in> set (h_live h). in_block (n_addr node) (n_end node - n_addr node) b))"

definition page_room :: "mp_pool_t \<Rightarrow> nat" where
  "page_room mp = unat (n_end (hd (pg_nodes mp))) - unat (n_last (hd (pg_nodes mp)))"

definition page_used :: "mp_pool_t \<Rightarrow> nat set" where
  "page_used mp = {unat (n_addr (hd (pg_nodes mp)))..<unat (n_last (hd (pg_nodes mp)))}"

lemma alloc_current_page_ok:
  assumes ok: "page_ok h mp" and room: "unat sz \<le> page_room mp"
  shows "\<exists>a mp'. alloc_current_page mp sz = Inr (a, mp') \<and> page_ok h mp' \<and> page_room mp' = page_room mp - unat sz \<and>
    a \<noteq> 0 \<and> page_used mp \<inter> region a sz = {} \<and> page_used mp' = page_used mp \<union> region a sz \<and> pg_large mp' = pg_large mp \<and>
    (\<exists>b \<in> set (h_live h). in_block a sz b)"
proof -
  obtain node b where n: "pg_nodes mp = [node]" "pg_current mp = n_addr node" "unat (n_addr node) + 32 \<le> unat (n_last node)"
    "unat (n_last node) \<le> unat (n_end node)" "b \<in> set (h_live h)" "in_block (n_addr node) (n_end node - n_addr node) b"
    using ok by (auto simp: page_ok_def)
  let ?mp = "mp\<lparr>pg_nodes := [node\<lparr>n_last := n_last node + sz\<rparr>]\<rparr>"
  have le: "unat (n_last node) + unat sz \<le> unat (n_end node)" using room n by (simp add: page_room_def)
  have "unat (n_end node - n_last node) = unat (n_end node) - unat (n_last node)"
    using n(4) by (intro unat_sub) (simp add: word_le_nat_alt)
  then have "sz \<le> n_end node - n_last node" using le n(4) by (simp add: word_le_nat_alt)
  then have run: "alloc_current_page mp sz = Inr (n_last node, ?mp)" using n by (simp add: alloc_current_page_def)
  have u: "unat (n_last node + sz) = unat (n_last node) + unat sz"
    using le unsigned_less [of "n_end node", where 'a = nat] by (simp add: unat_word_ariths)
  have "unat (n_end node - n_addr node) = unat (n_end node) - unat (n_addr node)"
    using n(3,4) by (intro unat_sub) (simp add: word_le_nat_alt)
  then have "in_block (n_last node) sz b" using n(3,6) le by (simp add: in_block_def)
  moreover have "page_ok h ?mp" using n u le by (auto simp: page_ok_def)
  moreover have "page_used mp \<inter> region (n_last node) sz = {}" "page_used ?mp = page_used mp \<union> region (n_last node) sz"
    using n u by (auto simp: page_used_def region_def)
  moreover have "page_room ?mp = page_room mp - unat sz" using n u by (simp add: page_room_def)
  moreover have "n_last node \<noteq> 0" using n(3) by auto
  ultimately show ?thesis using run n(5) by (intro exI [of _ "n_last node"] exI [of _ ?mp]) auto
qed

lemma alloc_current_page_full:
  assumes "page_ok h mp" and "page_room mp < unat sz"
  shows "alloc_current_page mp sz = Inl Missing_Return"
proof -
  obtain node where n: "pg_nodes mp = [node]" "pg_current mp = n_addr node" "unat (n_last node) \<le> unat (n_end node)"
    using assms(1) by (auto simp: page_ok_def)
  have "unat (n_end node - n_last node) = unat (n_end node) - unat (n_last node)"
    using n(3) by (intro unat_sub) (simp add: word_le_nat_alt)
  then have "\<not> sz \<le> n_end node - n_last node" using assms(2) n by (simp add: word_le_nat_alt page_room_def)
  then show ?thesis using n by (simp add: alloc_current_page_def)
qed

text \<open>A pool created with at least 64 bytes ends behind its headers.\<close>

lemma mp_create_page_ok:
  assumes sa: "sys_alloc_ok sa" and sz: "64 \<le> unat sz" "unat sz + 32 < 2 ^ 64" and run: "mp_create_page sa junk h sz = Inr (Some (mp, h'))"
  shows "page_ok h' mp \<and> pg_large mp = [] \<and> page_room mp = unat sz - 64"
proof -
  obtain p where p: "sa (h_live h) MP_ALIGNMENT (SIZEOF_PAGE_POOL + sz) = Some p"
    using run by (auto simp: mp_create_page_def posix_memalign_def split: option.splits)
  note a = sys_alloc_okD [OF sa p]
  have n: "unat (32 + sz) = 32 + unat sz" using sz by (simp add: unat_word_ariths)
  have eq: "mp = \<lparr>pg_addr = p, pg_max = junk, pg_current = p + 32, pg_large = [],
      pg_nodes = [\<lparr>n_addr = p + 32, n_last = p + 32 + 32, n_end = p + sz, n_failed = junk\<rparr>]\<rparr>" "h' = h\<lparr>h_live := (p, 32 + sz) # h_live h\<rparr>"
    using run p by (auto simp: mp_create_page_def posix_memalign_def Let_def SIZEOF_PAGE_POOL_def SIZEOF_NODE_def rbind_Inr_iff)
  have b: "unat p + (32 + unat sz) < 2 ^ 64" using a n by (simp add: SIZEOF_PAGE_POOL_def)
  have u: "unat (p + 32) = unat p + 32" "unat (p + 32 + 32) = unat p + 64" "unat (p + sz) = unat p + unat sz"
    using b sz(1) by (simp_all add: unat_word_ariths)
  have "unat (p + sz - (p + 32)) = unat sz - 32" using u sz(1) by (simp add: unat_sub word_le_nat_alt)
  then have "in_block (p + 32) (p + sz - (p + 32)) (p, 32 + sz)" using u n sz(1) by (simp add: in_block_def)
  then show ?thesis using u sz(1) by (auto simp: page_ok_def page_room_def eq)
qed

text \<open>
  C38. What \<open>mp_alloc\<close> of the page pool does, on a pool whose only node ends behind its used part and which has
  no listed large block; this covers every pool created with at least 64 bytes, and every state such a pool reaches, since each
  case leads to another such pool. A small request that fits the rest of the node gets its next bytes, which no earlier request uses. A small request that does not fit
  makes the function run off its end without a result; no further node is ever allocated. A large request gets \<open>NULL\<close> if the system has no memory;
  otherwise, if the node has room for a list entry of 16 bytes, the new block, aligned and apart from all others, of which the pool keeps no record
  in its list; otherwise the request for the entry runs off the end.
\<close>

theorem mp_alloc_page_behaviour:
  assumes "page_ok h mp" and "pg_large mp = []" and "sys_alloc_ok sa"
  shows "(unat sz \<le> 4064 \<and> unat sz \<le> page_room mp \<longrightarrow>
      (\<exists>a mp'. mp_alloc_page sa h mp sz = Inr (a, mp', h) \<and> page_ok h mp' \<and> pg_large mp' = [] \<and> a \<noteq> 0 \<and> page_used mp \<inter> region a sz = {} \<and>
         page_used mp' = page_used mp \<union> region a sz \<and> page_room mp' = page_room mp - unat sz \<and> (\<exists>b \<in> set (h_live h). in_block a sz b))) \<and>
    (unat sz \<le> 4064 \<and> page_room mp < unat sz \<longrightarrow> mp_alloc_page sa h mp sz = Inl Missing_Return) \<and>
    (4064 < unat sz \<and> sa (h_live h) 32 sz = None \<longrightarrow> mp_alloc_page sa h mp sz = Inr (0, mp, h)) \<and>
    (\<forall>m. 4064 < unat sz \<and> sa (h_live h) 32 sz = Some m \<and> 16 \<le> page_room mp \<longrightarrow>
      m \<noteq> 0 \<and> 32 dvd unat m \<and> (\<forall>b \<in> set (h_live h). region m sz \<inter> region (fst b) (snd b) = {}) \<and>
      (\<exists>mp' h'. mp_alloc_page sa h mp sz = Inr (m, mp', h') \<and> h_live h' = (m, sz) # h_live h \<and> page_ok h' mp' \<and> pg_large mp' = [] \<and>
         page_used mp \<subseteq> page_used mp' \<and> page_room mp' = page_room mp - 16)) \<and>
    (4064 < unat sz \<and> sa (h_live h) 32 sz \<noteq> None \<and> page_room mp < 16 \<longrightarrow> mp_alloc_page sa h mp sz = Inl Missing_Return)"
proof -
  have small: "sz > MP_PAGE_SIZE - SIZEOF_NODE \<longleftrightarrow> 4064 < unat sz"
    by (simp add: MP_PAGE_SIZE_def SIZEOF_NODE_def word_less_nat_alt)
  have sixteen: "unat SIZEOF_LARGE = 16" by (simp add: SIZEOF_LARGE_def)
  have large: "mp_alloc_page sa h mp sz = rbind (alloc_current_page mp SIZEOF_LARGE) (\<lambda>(large, mp).
      if \<exists>b \<in> set ((m, sz) # h_live h). in_block large SIZEOF_LARGE b then Inr (m, mp, h\<lparr>h_live := (m, sz) # h_live h\<rparr>) else Inl Out_Of_Bounds)"
    if "4064 < unat sz" "sa (h_live h) 32 sz = Some m" for m
    using that assms(2) by (simp add: mp_alloc_page_def small mp_alloc_large_page_def posix_memalign_def MP_ALIGNMENT_def)
  show ?thesis
  proof (intro conjI impI allI; elim conjE)
    assume "unat sz \<le> 4064" "unat sz \<le> page_room mp"
    then show "\<exists>a mp'. mp_alloc_page sa h mp sz = Inr (a, mp', h) \<and> page_ok h mp' \<and> pg_large mp' = [] \<and> a \<noteq> 0 \<and> page_used mp \<inter> region a sz = {} \<and>
         page_used mp' = page_used mp \<union> region a sz \<and> page_room mp' = page_room mp - unat sz \<and> (\<exists>b \<in> set (h_live h). in_block a sz b)"
      using alloc_current_page_ok [OF assms(1), of sz] assms(2) by (auto simp: mp_alloc_page_def small)
  next
    assume "unat sz \<le> 4064" "page_room mp < unat sz"
    then show "mp_alloc_page sa h mp sz = Inl Missing_Return"
      using alloc_current_page_full [OF assms(1), of sz] by (simp add: mp_alloc_page_def small)
  next
    assume "4064 < unat sz" "sa (h_live h) 32 sz = None"
    then show "mp_alloc_page sa h mp sz = Inr (0, mp, h)"
      by (simp add: mp_alloc_page_def small mp_alloc_large_page_def posix_memalign_def MP_ALIGNMENT_def)
  next
    fix m
    assume m: "4064 < unat sz" "sa (h_live h) 32 sz = Some m" "16 \<le> page_room mp"
    from sys_alloc_okD [OF assms(3) m(2)]
    show "m \<noteq> 0" "32 dvd unat m" "\<forall>b \<in> set (h_live h). region m sz \<inter> region (fst b) (snd b) = {}" by simp_all
    from alloc_current_page_ok [OF assms(1), of SIZEOF_LARGE] m(3) obtain a mp' where e: "alloc_current_page mp SIZEOF_LARGE = Inr (a, mp')"
      "page_ok h mp'" "page_room mp' = page_room mp - 16" "page_used mp \<subseteq> page_used mp'" "pg_large mp' = []" "\<exists>b \<in> set (h_live h). in_block a SIZEOF_LARGE b"
      using assms(2) by (auto simp: sixteen)
    have "page_ok (h\<lparr>h_live := (m, sz) # h_live h\<rparr>) mp'" using e(2) by (auto simp: page_ok_def)
    then show "\<exists>mp' h'. mp_alloc_page sa h mp sz = Inr (m, mp', h') \<and> h_live h' = (m, sz) # h_live h \<and> page_ok h' mp' \<and> pg_large mp' = [] \<and>
         page_used mp \<subseteq> page_used mp' \<and> page_room mp' = page_room mp - 16"
      using large [OF m(1,2)] e by simp
  next
    assume *: "4064 < unat sz" "sa (h_live h) 32 sz \<noteq> None" "page_room mp < 16"
    then obtain m where "sa (h_live h) 32 sz = Some m" by blast
    from large [OF *(1) this] show "mp_alloc_page sa h mp sz = Inl Missing_Return"
      using *(3) alloc_current_page_full [OF assms(1), of SIZEOF_LARGE] by (simp add: sixteen)
  qed
qed

definition example_page :: mp_pool_t where
  "example_page = \<lparr>pg_addr = 4096, pg_max = 0, pg_current = 4128, pg_large = [],
     pg_nodes = [\<lparr>n_addr = 4128, n_last = 4160, n_end = 4608, n_failed = 0\<rparr>]\<rparr>"

theorem mp_alloc_page_behaviour_witness:
  "mp_create_page example_sa 0 \<lparr>h_live = [], h_mem = (\<lambda>_. 0)\<rparr> 512 =
     Inr (Some (example_page, \<lparr>h_live = [(4096, 544)], h_mem = (\<lambda>_. 0)\<rparr>)) \<and>
   mp_alloc_page example_sa \<lparr>h_live = [(4096, 544)], h_mem = (\<lambda>_. 0)\<rparr> example_page 500 = Inl Missing_Return \<and>
   (\<exists>mp' h'. mp_alloc_page example_sa \<lparr>h_live = [(4096, 544)], h_mem = (\<lambda>_. 0)\<rparr> example_page 5000 = Inr (8192, mp', h') \<and> page_room mp' = 432)"
proof -
  let ?h = "\<lparr>h_live = [(4096, 544)], h_mem = (\<lambda>_. 0)\<rparr> :: sys_heap"
  have ok: "page_ok ?h example_page" "pg_large example_page = []" "page_room example_page = 448"
    by (simp_all add: page_ok_def example_page_def in_block_def page_room_def)
  have "mp_alloc_page example_sa ?h example_page 500 = Inl Missing_Return"
    using mp_alloc_page_behaviour [OF ok(1,2) example_sa_ok, of 500] ok(3) by simp
  moreover have sa: "example_sa (h_live ?h) 32 5000 = Some 8192" by (simp add: example_sa_def)
  have "\<exists>mp' h'. mp_alloc_page example_sa ?h example_page 5000 = Inr (8192, mp', h') \<and> page_room mp' = 432"
    using mp_alloc_page_behaviour [OF ok(1,2) example_sa_ok, of 5000] ok(3) sa by simp blast
  moreover have "mp_create_page example_sa 0 \<lparr>h_live = [], h_mem = (\<lambda>_. 0)\<rparr> 512 = Inr (Some (example_page, ?h))"
    by (simp add: mp_create_page_def posix_memalign_def example_sa_def MP_ALIGNMENT_def SIZEOF_PAGE_POOL_def SIZEOF_NODE_def
          example_page_def Let_def in_block_def)
  ultimately show ?thesis by blast
qed

text \<open>
  A pool created with fewer than 64 bytes ends before its used part begins; the difference wraps, and a
  request gets memory behind the pool's block. With fewer than 24 bytes the creation itself writes behind the block.
\<close>

lemma small_page_pool_overruns:
  "\<exists>mp h. mp_create_page example_sa 0 \<lparr>h_live = [], h_mem = (\<lambda>_. 0)\<rparr> 40 = Inr (Some (mp, h)) \<and> h_live h = [(4096, 72)] \<and>
     (\<exists>mp'. mp_alloc_page example_sa h mp 100 = Inr (4160, mp', h))"
  "mp_create_page example_sa 0 \<lparr>h_live = [], h_mem = (\<lambda>_. 0)\<rparr> 16 = Inl Out_Of_Bounds"
  by (simp_all add: mp_create_page_def mp_alloc_page_def alloc_current_page_def posix_memalign_def example_sa_def MP_ALIGNMENT_def
        SIZEOF_PAGE_POOL_def SIZEOF_NODE_def MP_PAGE_SIZE_def Let_def in_block_def)

end
