(* ===== verification/LinkList.thy ===== *)
theory LinkList
  imports IQueue
begin

text \<open>
  The list macros of the two thread pools: \<open>LIST_ADD\<close> and \<open>LIST_REMOVE\<close> of
  \<open>threadpool/thread_pool.c\<close>, and \<open>LL_ADD\<close> and \<open>LL_REMOVE\<close> of \<open>threadpool/tp.c\<close>, which
  expand to the same code. A list is the address of its first node (0 is \<open>NULL\<close>) and the heap.
\<close>

type_synonym llist = "addr \<times> qheap"

definition LIST_ADD :: "addr \<Rightarrow> llist \<Rightarrow> llist" where
  "LIST_ADD item l =
     (let h = set_prev item 0 (snd l); h = set_next item (fst l) h in (item, h))"

definition LIST_REMOVE :: "addr \<Rightarrow> llist \<Rightarrow> llist" where
  "LIST_REMOVE item l =
     (let h = snd l;
          h = (if q_prev h item \<noteq> 0 then set_next (q_prev h item) (q_next h item) h else h);
          h = (if q_next h item \<noteq> 0 then set_prev (q_next h item) (q_prev h item) h else h);
          lst = (if item = fst l then q_next h item else fst l)
      in (lst, set_prev item 0 (set_next item 0 h)))"

text \<open>The macros of \<open>tp.c\<close>.\<close>

definition LL_ADD :: "addr \<Rightarrow> llist \<Rightarrow> llist" where
  "LL_ADD item l = (item, set_next item (fst l) (set_prev item 0 (snd l)))"

definition LL_REMOVE :: "addr \<Rightarrow> llist \<Rightarrow> llist" where
  "LL_REMOVE item l =
     (let h = snd l;
          h = (if q_prev h item \<noteq> 0 then set_next (q_prev h item) (q_next h item) h else h);
          h = (if q_next h item \<noteq> 0 then set_prev (q_next h item) (q_prev h item) h else h);
          first = (if fst l = item then q_next h item else fst l)
      in (first, set_prev item 0 (set_next item 0 h)))"

lemma ll_macros: "LL_ADD = LIST_ADD" "LL_REMOVE = LIST_REMOVE"
  by (auto simp: LL_ADD_def LIST_ADD_def LL_REMOVE_def LIST_REMOVE_def Let_def fun_eq_iff)

text \<open>Following \<open>next\<close> from the first node.\<close>

fun chain :: "qheap \<Rightarrow> addr \<Rightarrow> addr list \<Rightarrow> bool" where
  "chain h a [] \<longleftrightarrow> a = 0"
| "chain h a (x # xs) \<longleftrightarrow> a = x \<and> x \<noteq> 0 \<and> chain h (q_next h x) xs"

text \<open>
  What the macros build. \<open>LIST_ADD\<close> never sets the \<open>prev\<close> field of the old first node, so all of them
  are \<open>NULL\<close>.
\<close>

definition llist_rep :: "llist \<Rightarrow> addr list \<Rightarrow> bool" where
  "llist_rep l xs \<longleftrightarrow> chain (snd l) (fst l) xs \<and> distinct xs \<and> (\<forall>x \<in> set xs. q_prev (snd l) x = 0)"

lemma heap_fields [simp]:
  "q_next (set_next p v h) = (q_next h)(p := v)" "q_prev (set_next p v h) = q_prev h"
  "q_prev (set_prev p v h) = (q_prev h)(p := v)" "q_next (set_prev p v h) = q_next h"
  by (simp_all add: set_next_def set_prev_def)

lemma chain_frame: "chain h a xs \<Longrightarrow> \<forall>x \<in> set xs. q_next h' x = q_next h x \<Longrightarrow> chain h' a xs"
  by (induction xs arbitrary: a) auto

lemma chain_nonzero: "chain h a xs \<Longrightarrow> 0 \<notin> set xs"
  by (induction xs arbitrary: a) auto

lemma list_add_rep:
  assumes "llist_rep l xs" and "x \<noteq> 0" and "x \<notin> set xs"
  shows "llist_rep (LIST_ADD x l) (x # xs)"
proof -
  have "chain (snd (LIST_ADD x l)) (fst l) xs"
    by (rule chain_frame [of "snd l"]) (use assms in \<open>auto simp: llist_rep_def LIST_ADD_def\<close>)
  then show ?thesis using assms by (auto simp: llist_rep_def LIST_ADD_def)
qed

lemma list_remove_first_rep:
  assumes "llist_rep l (x # xs)"
  shows "llist_rep (LIST_REMOVE x l) xs"
proof -
  have l: "fst l = x" "x \<noteq> 0" "q_prev (snd l) x = 0" "chain (snd l) (q_next (snd l) x) xs" "x \<notin> set xs" "distinct xs"
    "\<forall>y \<in> set xs. q_prev (snd l) y = 0"
    using assms by (auto simp: llist_rep_def)
  have "fst (LIST_REMOVE x l) = q_next (snd l) x" using l by (auto simp: LIST_REMOVE_def Let_def)
  moreover have "\<forall>y \<in> set xs. q_next (snd (LIST_REMOVE x l)) y = q_next (snd l) y"
    using l by (auto simp: LIST_REMOVE_def Let_def)
  moreover have "\<forall>y \<in> set xs. q_prev (snd (LIST_REMOVE x l)) y = 0" using l by (auto simp: LIST_REMOVE_def Let_def)
  ultimately show ?thesis using l chain_frame by (auto simp: llist_rep_def)
qed

text \<open>The list as a stack of nodes.\<close>

interpretation ll: node_stack llist_rep fst "\<lambda>l. LIST_REMOVE (fst l) l" "\<lambda>l. fst l = 0"
    "\<lambda>x xs. x \<noteq> 0 \<and> x \<notin> set xs" LIST_ADD
proof
  fix l x xs
  show "fst l = x" if "llist_rep l (x # xs)" using that by (simp add: llist_rep_def)
  then show "llist_rep (LIST_REMOVE (fst l) l) xs" if "llist_rep l (x # xs)"
    using that list_remove_first_rep by simp
  show "fst l = 0 \<longleftrightarrow> xs = []" if "llist_rep l xs" using that by (cases xs) (auto simp: llist_rep_def)
  show "llist_rep (LIST_ADD x l) (x # xs)" if "llist_rep l xs" "x \<noteq> 0 \<and> x \<notin> set xs"
    using that list_add_rep by blast
qed

text \<open>The macros write to the node itself and, on removal, to its neighbours.\<close>

lemma list_add_frame: "y \<noteq> x \<Longrightarrow> q_next (snd (LIST_ADD x l)) y = q_next (snd l) y \<and> q_prev (snd (LIST_ADD x l)) y = q_prev (snd l) y"
  by (simp add: LIST_ADD_def)

lemma list_remove_first_frame:
  assumes "llist_rep l (x # xs)" and "y \<notin> set (x # xs)"
  shows "q_next (snd (LIST_REMOVE x l)) y = q_next (snd l) y \<and> q_prev (snd (LIST_REMOVE x l)) y = q_prev (snd l) y"
proof -
  have "q_prev (snd l) x = 0" "q_next (snd l) x = 0 \<or> q_next (snd l) x \<in> set xs"
    using assms(1) by (cases xs; auto simp: llist_rep_def)+
  then show ?thesis using assms(2) by (auto simp: LIST_REMOVE_def Let_def)
qed

text \<open>
  C39. The list macros of both thread pools, on pointers, at the head of the list. \<open>LIST_ADD\<close> (\<open>LL_ADD\<close>) puts a new node in front of the
  nodes of the list; the list pointer is the first node, or \<open>NULL\<close> exactly if there is none; \<open>LIST_REMOVE\<close> (\<open>LL_REMOVE\<close>) of the
  first node leaves the list of the others, and clears the links of the removed node. None of them changes a node that is not of the list.
\<close>

theorem list_macros_refine:
  assumes "llist_rep l xs" and "(add, remove) \<in> {(LIST_ADD, LIST_REMOVE), (LL_ADD, LL_REMOVE)}"
  shows "(fst l = 0 \<longleftrightarrow> xs = []) \<and>
    (\<forall>x. x \<noteq> 0 \<and> x \<notin> set xs \<longrightarrow> llist_rep (add x l) (x # xs) \<and>
       (\<forall>y. y \<noteq> x \<longrightarrow> q_next (snd (add x l)) y = q_next (snd l) y \<and> q_prev (snd (add x l)) y = q_prev (snd l) y)) \<and>
    (\<forall>x ys. xs = x # ys \<longrightarrow> fst l = x \<and> llist_rep (remove x l) ys \<and>
       q_next (snd (remove x l)) x = 0 \<and> q_prev (snd (remove x l)) x = 0 \<and>
       (\<forall>y. y \<notin> set xs \<longrightarrow> q_next (snd (remove x l)) y = q_next (snd l) y \<and> q_prev (snd (remove x l)) y = q_prev (snd l) y))"
proof -
  have am: "add = LIST_ADD" "remove = LIST_REMOVE" using assms(2) by (auto simp: ll_macros)
  have "fst l = 0 \<longleftrightarrow> xs = []" using assms(1) by (cases xs) (auto simp: llist_rep_def)
  moreover have "fst l = x" if "xs = x # ys" for x ys using assms(1) that by (simp add: llist_rep_def)
  moreover have "q_next (snd (LIST_REMOVE x l)) x = 0 \<and> q_prev (snd (LIST_REMOVE x l)) x = 0" for x by (simp add: LIST_REMOVE_def Let_def)
  moreover have "llist_rep (LIST_ADD x l) (x # xs)" if "x \<noteq> 0 \<and> x \<notin> set xs" for x using list_add_rep [OF assms(1)] that by simp
  moreover have "llist_rep (LIST_REMOVE x l) ys" if "xs = x # ys" for x ys using list_remove_first_rep [of l x ys] assms(1) that by simp
  moreover have "q_next (snd (LIST_REMOVE x l)) y = q_next (snd l) y \<and> q_prev (snd (LIST_REMOVE x l)) y = q_prev (snd l) y"
    if "xs = x # ys" "y \<notin> set xs" for x ys y
    using list_remove_first_frame [of l x ys y] assms(1) that by simp
  ultimately show ?thesis unfolding am by (simp add: list_add_frame)
qed

theorem list_macros_refine_witness:
  "llist_rep (LL_REMOVE 3 (LL_ADD 3 (0, \<lparr>q_next = (\<lambda>_. 9), q_prev = (\<lambda>_. 9)\<rparr>))) []"
proof -
  let ?l = "(0, \<lparr>q_next = (\<lambda>_. 9), q_prev = (\<lambda>_. 9)\<rparr>)"
  have "llist_rep ?l []" by (simp add: llist_rep_def)
  with list_macros_refine [of ?l "[]" LL_ADD LL_REMOVE] have "llist_rep (LL_ADD 3 ?l) [3]" by simp
  with list_macros_refine [of "LL_ADD 3 ?l" "[3]" LL_ADD LL_REMOVE] show ?thesis by simp
qed

text \<open>
  Hence the jobs of the thread pools, which are added and taken at the head, are taken in the reverse of the order in which they were
  added: the newest one runs first.
\<close>

lemma list_macros_lifo:
  assumes "distinct ys" and "0 \<notin> set ys" and "(add, remove) \<in> {(LIST_ADD, LIST_REMOVE), (LL_ADD, LL_REMOVE)}"
  shows "\<exists>l. drain_loop (\<lambda>l. fst l = 0) fst (\<lambda>l. remove (fst l) l) (length ys) (fold add ys (0, h)) = Some (rev ys, l) \<and>
    fst l = 0"
proof -
  have "llist_rep (0, h) []" by (simp add: llist_rep_def)
  moreover have "ys ! i \<noteq> 0 \<and> ys ! i \<notin> set (rev (take i ys))" if "i < length ys" for i
    using that assms(1,2) by (auto simp: in_set_conv_nth nth_eq_iff_index_eq)
  ultimately obtain l where l: "drain_loop (\<lambda>l. fst l = 0) fst (\<lambda>l. LIST_REMOVE (fst l) l) (length ys) (fold LIST_ADD ys (0, h)) = Some (rev ys, l)"
    "llist_rep l []"
    using ll.push_all_drain_rev [of "(0, h)" ys "length ys"] by blast
  then show ?thesis using assms(3) by (auto simp: llist_rep_def ll_macros)
qed

text \<open>
  Removing a node that is not the first corrupts the list. The \<open>prev\<close> field of every node is
  \<open>NULL\<close>, so \<open>LIST_REMOVE\<close> does not unlink the node from its predecessor: the node stays in the list
  as its last one, and all nodes behind it are lost.
\<close>

theorem list_remove_inner:
  assumes "llist_rep l (xs @ y # zs)" and "xs \<noteq> []"
  shows "llist_rep (LIST_REMOVE y l) (xs @ [y])"
proof -
  have l: "chain (snd l) (fst l) (xs @ y # zs)" "distinct (xs @ y # zs)" "\<forall>x \<in> set (xs @ y # zs). q_prev (snd l) x = 0"
    using assms(1) by (simp_all add: llist_rep_def)
  have split: "chain h a (xs @ y # zs) \<Longrightarrow> \<forall>x \<in> set xs. q_next h' x = q_next h x \<Longrightarrow> q_next h' y = 0 \<Longrightarrow> chain h' a (xs @ [y])"
    for h h' a
    by (induction xs arbitrary: a) auto
  have "fst l \<noteq> y" using l(1,2) assms(2) by (cases xs) auto
  then have "fst (LIST_REMOVE y l) = fst l" by (simp add: LIST_REMOVE_def Let_def)
  moreover have "\<forall>x \<in> set xs. q_next (snd (LIST_REMOVE y l)) x = q_next (snd l) x" "q_next (snd (LIST_REMOVE y l)) y = 0"
    using l(2,3) by (auto simp: LIST_REMOVE_def Let_def)
  moreover have "\<forall>x \<in> set (xs @ [y]). q_prev (snd (LIST_REMOVE y l)) x = 0"
    using l(2,3) by (auto simp: LIST_REMOVE_def Let_def)
  ultimately show ?thesis using split [OF l(1)] l(2) by (auto simp: llist_rep_def)
qed

definition example_list :: llist where
  "example_list = fold LIST_ADD [1, 2, 3] (0, \<lparr>q_next = (\<lambda>_. 0), q_prev = (\<lambda>_. 0)\<rparr>)"

lemma example_list_rep: "llist_rep example_list [3, 2, 1]"
  by (simp add: example_list_def llist_rep_def LIST_ADD_def)

theorem list_remove_inner_witness: "llist_rep (LIST_REMOVE 2 example_list) [3, 2]"
  using list_remove_inner [of example_list "[3]" 2 "[1]"] example_list_rep by simp

end
