(* ===== verification/ThreadPool.thy ===== *)
theory ThreadPool
  imports LinkList
begin

text \<open>
  The thread pool of \<open>threadpool/thread_pool.c\<close>. A worker thread is a program counter in
  \<open>thread_pool_cycle\<close>; each of its steps is one access to shared data: a test of a flag, or one critical
  section, which the mutexes make atomic with respect to the other critical sections of the
  same mutex (no section takes a second mutex). The wait on the condition variable ends one
  section (the worker is then \<open>Waiting\<close>) and the wake-up begins another (the worker is
  \<open>Woken\<close> until it has the mutex again). The calls of the pool's user are steps too. The loops of
  \<open>thread_pool_remove_workers\<close> and \<open>thread_pool_destroy\<close> each hold one of the two mutexes only, so that their single
  stores interleave with sections of the other mutex: \<open>pool_step\<close> has each loop as one step,
  \<open>micro_step\<close> also every single store and the broadcast at any moment.

  Workers and jobs are named by their addresses. \<open>t_state\<close> is the memory of the workers (\<open>None\<close>: not
  allocated, or freed), \<open>t_workers\<close> their linked list, \<open>t_jobs\<close> the list of the jobs from
  its first node (by \<open>LinkList\<close>, the macros act on it as on a stack). \<open>t_added\<close> and \<open>t_ran\<close> record
  the jobs handed in and executed.
\<close>

subsection \<open>State\<close>

datatype pc =
    Loop_Test
  | Fetch
  | Waiting
  | Woken
  | Mark nat
  | Count nat
  | Run nat
  | Unmark
  | Uncount
  | Closing

record worker =
  w_pc :: pc
  w_running :: int
  w_terminate :: int

record thread_pool =
  t_workers :: llist
  t_jobs :: "nat list"
  t_waiting_jobs_num :: int
  t_total_workers_num :: int
  t_running_workers_num :: int
  t_terminate_workers_num :: int
  t_state :: "addr \<Rightarrow> worker option"
  t_added :: "nat list"
  t_ran :: "nat list"

definition set_worker :: "addr \<Rightarrow> (worker \<Rightarrow> worker) \<Rightarrow> thread_pool \<Rightarrow> thread_pool" where
  "set_worker w f s = s\<lparr>t_state := (\<lambda>x. if x = w then map_option f (t_state s x) else t_state s x)\<rparr>"

abbreviation goto :: "addr \<Rightarrow> pc \<Rightarrow> thread_pool \<Rightarrow> thread_pool" where
  "goto w p \<equiv> set_worker w (\<lambda>k. k\<lparr>w_pc := p\<rparr>)"

subsection \<open>The worker\<close>

text \<open>The end of the first critical section: take the first job, if there is one.\<close>

definition take_job :: "addr \<Rightarrow> thread_pool \<Rightarrow> thread_pool" where
  "take_job w s =
     (case t_jobs s of
        [] \<Rightarrow> goto w Loop_Test s
      | j # js \<Rightarrow> goto w (Mark j) (s\<lparr>t_jobs := js, t_waiting_jobs_num := t_waiting_jobs_num s - 1\<rparr>))"

text \<open>
  One step of \<open>thread_pool_cycle\<close>; \<open>None\<close> when the worker is blocked or gone. At its end the worker unlinks itself,
  which writes to its neighbours in the list; a neighbour that has been freed is an error.
\<close>

definition neighbours_freed :: "addr \<Rightarrow> thread_pool \<Rightarrow> bool" where
  "neighbours_freed w s \<longleftrightarrow>
     (\<exists>x \<in> {q_prev (snd (t_workers s)) w, q_next (snd (t_workers s)) w}. x \<noteq> 0 \<and> t_state s x = None)"

definition thread_pool_cycle :: "addr \<Rightarrow> thread_pool \<Rightarrow> thread_pool cresult option" where
  "thread_pool_cycle w s =
     (case t_state s w of
        None \<Rightarrow> None
      | Some k \<Rightarrow>
          (case w_pc k of
             Loop_Test \<Rightarrow> Some (Inr (goto w (if w_terminate k = 0 then Fetch else Closing) s))
           | Fetch \<Rightarrow> Some (Inr (if t_waiting_jobs_num s = 0 then goto w Waiting s else take_job w s))
           | Waiting \<Rightarrow> None
           | Woken \<Rightarrow> Some (Inr (take_job w s))
           | Mark j \<Rightarrow> Some (Inr (set_worker w (\<lambda>k. k\<lparr>w_running := 1, w_pc := Count j\<rparr>) s))
           | Count j \<Rightarrow> Some (Inr (goto w (Run j) (s\<lparr>t_running_workers_num := t_running_workers_num s + 1\<rparr>)))
           | Run j \<Rightarrow> Some (Inr (goto w Unmark (s\<lparr>t_ran := t_ran s @ [j]\<rparr>)))
           | Unmark \<Rightarrow> Some (Inr (set_worker w (\<lambda>k. k\<lparr>w_running := 0, w_pc := Uncount\<rparr>) s))
           | Uncount \<Rightarrow> Some (Inr (goto w Loop_Test (s\<lparr>t_running_workers_num := t_running_workers_num s - 1\<rparr>)))
           | Closing \<Rightarrow>
               if neighbours_freed w s then Some (Inl Wild_Pointer)
               else Some (Inr (s\<lparr>t_workers := LIST_REMOVE w (t_workers s),
                                 t_total_workers_num := t_total_workers_num s - 1,
                                 t_terminate_workers_num := t_terminate_workers_num s - 1,
                                 t_state := (t_state s)(w := None)\<rparr>))))"

subsection \<open>The calls of the user\<close>

definition waiting :: "thread_pool \<Rightarrow> addr set" where
  "waiting s = {w. \<exists>k. t_state s w = Some k \<and> w_pc k = Waiting}"

text \<open>
  Waking the workers in \<open>W\<close>. A broadcast wakes all that wait; a signal at least one of them, if any
  waits; and the condition variable may wake a worker without a cause.
\<close>

definition wake :: "addr set \<Rightarrow> thread_pool \<Rightarrow> thread_pool" where
  "wake W s = s\<lparr>t_state := (\<lambda>x. if x \<in> W then map_option (\<lambda>k. k\<lparr>w_pc := Woken\<rparr>) (t_state s x) else t_state s x)\<rparr>"

definition thread_pool_add_job :: "addr set \<Rightarrow> nat \<Rightarrow> thread_pool \<Rightarrow> thread_pool" where
  "thread_pool_add_job W j s =
     wake W (s\<lparr>t_waiting_jobs_num := t_waiting_jobs_num s + 1, t_jobs := j # t_jobs s, t_added := t_added s @ [j]\<rparr>)"

text \<open>
  Adding a worker: the thread is created first, on a structure filled with zeros, and may run before the worker is listed.
\<close>

definition spawn_worker :: "addr \<Rightarrow> thread_pool \<Rightarrow> thread_pool" where
  "spawn_worker w s = s\<lparr>t_workers := (fst (t_workers s), set_prev w 0 (set_next w 0 (snd (t_workers s)))), t_state := (t_state s)(w \<mapsto> \<lparr>w_pc = Loop_Test, w_running = 0, w_terminate = 0\<rparr>)\<rparr>"

definition enlist_worker :: "addr \<Rightarrow> thread_pool \<Rightarrow> thread_pool" where
  "enlist_worker w s =
     s\<lparr>t_workers := LIST_ADD w (t_workers s), t_total_workers_num := t_total_workers_num s + 1\<rparr>"

text \<open>
  The whole function, for a list of the outcomes of the two calls of \<open>malloc\<close> (the worker and its name; an address or \<open>NULL\<close>) and of
  \<open>pthread_create\<close>, one for each round; a list that is too short stands for \<open>NULL\<close>. The
  allocation of the name is not tested before \<open>snprintf\<close> writes to it.
\<close>

fun add_workers :: "nat \<Rightarrow> (addr \<times> addr \<times> bool) list \<Rightarrow> thread_pool \<Rightarrow> (int \<times> thread_pool) cresult" where
  "add_workers 0 os s = Inr (0, s)"
| "add_workers (Suc n) os s =
     (case os of
        [] \<Rightarrow> Inr (-1, s)
      | (w, worker_name, created) # os' \<Rightarrow>
          if w = 0 then Inr (-1, s)
          else if worker_name = 0 then Inl Null_Deref
          else if \<not> created then Inr (-2, s)
          else add_workers n os' (enlist_worker w (spawn_worker w s)))"

definition thread_pool_add_worker :: "(addr \<times> addr \<times> bool) list \<Rightarrow> int \<Rightarrow> thread_pool \<Rightarrow> (int \<times> thread_pool) cresult" where
  "thread_pool_add_worker os worker_num s = add_workers (nat (if worker_num < 0 then 0 else worker_num)) os s"

definition empty_pool :: "qheap \<Rightarrow> thread_pool" where
  "empty_pool h =
     \<lparr>t_workers = (0, h), t_jobs = [], t_waiting_jobs_num = 0, t_total_workers_num = 0, t_running_workers_num = 0,
      t_terminate_workers_num = 0, t_state = (\<lambda>_. None), t_added = [], t_ran = []\<rparr>"

definition thread_pool_create :: "(addr \<times> addr \<times> bool) list \<Rightarrow> qheap \<Rightarrow> int \<Rightarrow> (int \<times> thread_pool) cresult" where
  "thread_pool_create os h worker_num =
     thread_pool_add_worker os (if worker_num \<le> 0 then 1 else worker_num) (empty_pool h)"

text \<open>
  One loop of \<open>thread_pool_remove_workers\<close>: along the list, workers that are not flagged and are selected
  by \<open>sel\<close> (idle ones, then running ones) are flagged until \<open>n\<close> is 0. Reading a worker that was freed is
  an error; the value is \<open>None\<close> when the list is circular and the loop does not end.
\<close>

partial_function (option) flag_loop ::
  "(worker \<Rightarrow> bool) \<Rightarrow> addr \<Rightarrow> int \<Rightarrow> thread_pool \<Rightarrow> (int \<times> thread_pool) cresult option" where
  "flag_loop sel w n s =
     (if w = 0 \<or> n = 0 then Some (Inr (n, s))
      else case t_state s w of
        None \<Rightarrow> Some (Inl Wild_Pointer)
      | Some k \<Rightarrow>
          if w_terminate k = 0 \<and> sel k
          then flag_loop sel (q_next (snd (t_workers s)) w) (n - 1)
                 (set_worker w (\<lambda>k. k\<lparr>w_terminate := 1\<rparr>)
                   (s\<lparr>t_terminate_workers_num := t_terminate_workers_num s + 1\<rparr>))
          else flag_loop sel (q_next (snd (t_workers s)) w) n s)"

declare flag_loop.simps [code]

definition thread_pool_remove_workers :: "int \<Rightarrow> thread_pool \<Rightarrow> thread_pool cresult option" where
  "thread_pool_remove_workers worker_num s =
     (let can_terminate = t_total_workers_num s - t_terminate_workers_num s;
          n = (if worker_num \<ge> can_terminate then can_terminate - 1 else worker_num);
          first = fst (t_workers s)
      in if first = 0 then Some (Inl Null_Deref)
         else if t_state s first = None then Some (Inl Wild_Pointer)
         else obind (flag_loop (\<lambda>k. w_running k = 0) first n s) (\<lambda>(n, s).
              obind (flag_loop (\<lambda>k. w_running k = 1) first n s) (\<lambda>(n, s).
              Some (Inr (wake (waiting s) s)))))"

partial_function (option) stop_loop :: "addr \<Rightarrow> thread_pool \<Rightarrow> thread_pool cresult option" where
  "stop_loop w s =
     (if w = 0 then Some (Inr s)
      else case t_state s w of
        None \<Rightarrow> Some (Inl Wild_Pointer)
      | Some k \<Rightarrow> stop_loop (q_next (snd (t_workers s)) w) (set_worker w (\<lambda>k. k\<lparr>w_terminate := 1\<rparr>) s))"

declare stop_loop.simps [code]

definition thread_pool_destroy :: "thread_pool \<Rightarrow> thread_pool cresult option" where
  "thread_pool_destroy s =
     obind (stop_loop (fst (t_workers s)) s) (\<lambda>s. Some (Inr (wake (waiting s) s)))"

subsection \<open>The system\<close>

inductive pool_step :: "thread_pool \<Rightarrow> thread_pool \<Rightarrow> bool" where
  work: "thread_pool_cycle w s = Some (Inr s') \<Longrightarrow> pool_step s s'"
| spurious: "w \<in> waiting s \<Longrightarrow> pool_step s (wake {w} s)"
| add_job: "j \<notin> set (t_added s) \<Longrightarrow> W \<subseteq> waiting s \<Longrightarrow> (waiting s \<noteq> {} \<longrightarrow> W \<noteq> {}) \<Longrightarrow>
    pool_step s (thread_pool_add_job W j s)"
| spawn: "t_state s w = None \<Longrightarrow> w \<noteq> 0 \<Longrightarrow> pool_step s (spawn_worker w s)"
| enlist: "t_state s w \<noteq> None \<Longrightarrow> pool_step s (enlist_worker w s)"
| remove: "thread_pool_remove_workers n s = Some (Inr s') \<Longrightarrow> pool_step s s'"
| destroy: "thread_pool_destroy s = Some (Inr s') \<Longrightarrow> pool_step s s'"

text \<open>
  The accesses of \<open>thread_pool_remove_workers\<close> and \<open>thread_pool_destroy\<close> one by one, in any order and at any
  moment, which includes every interleaving of their loops with the workers.
\<close>

inductive micro_step :: "thread_pool \<Rightarrow> thread_pool \<Rightarrow> bool" where
  whole: "pool_step s s' \<Longrightarrow> micro_step s s'"
| flag: "micro_step s (set_worker w (\<lambda>k. k\<lparr>w_terminate := 1\<rparr>) s)"
| count: "micro_step s (s\<lparr>t_terminate_workers_num := t_terminate_workers_num s + 1\<rparr>)"
| broadcast: "micro_step s (wake (waiting s) s)"

definition pool_init :: "thread_pool \<Rightarrow> bool" where
  "pool_init s \<longleftrightarrow> (\<exists>h. s = empty_pool h)"

subsection \<open>Every job is accounted for\<close>

text \<open>The job a worker has taken and not finished, and the workers that are counted as running.\<close>

fun pc_job :: "pc \<Rightarrow> nat option" where
  "pc_job (Mark j) = Some j"
| "pc_job (Count j) = Some j"
| "pc_job (Run j) = Some j"
| "pc_job _ = None"

fun pc_counted :: "pc \<Rightarrow> bool" where
  "pc_counted (Run j) = True"
| "pc_counted Unmark = True"
| "pc_counted Uncount = True"
| "pc_counted _ = False"

definition held :: "thread_pool \<Rightarrow> addr \<Rightarrow> nat option" where
  "held s w = Option.bind (t_state s w) (\<lambda>k. pc_job (w_pc k))"

definition counted :: "thread_pool \<Rightarrow> addr set" where
  "counted s = {w. \<exists>k. t_state s w = Some k \<and> pc_counted (w_pc k)}"

definition jobs_ok :: "nat list \<Rightarrow> nat list \<Rightarrow> nat list \<Rightarrow> (addr \<Rightarrow> nat option) \<Rightarrow> bool" where
  "jobs_ok added queue rn hold \<longleftrightarrow>
     distinct (queue @ rn) \<and> set added = set queue \<union> set rn \<union> {j. \<exists>w. hold w = Some j} \<and>
     (\<forall>w j. hold w = Some j \<longrightarrow> j \<notin> set queue \<union> set rn) \<and>
     (\<forall>w w' j. hold w = Some j \<and> hold w' = Some j \<longrightarrow> w = w')"

definition pool_inv :: "thread_pool \<Rightarrow> bool" where
  "pool_inv s \<longleftrightarrow>
     t_waiting_jobs_num s = int (length (t_jobs s)) \<and> jobs_ok (t_added s) (t_jobs s) (t_ran s) (held s) \<and>
     finite (dom (t_state s)) \<and> t_running_workers_num s = int (card (counted s))"

text \<open>A step that touches neither jobs nor the position of a worker with a job.\<close>

definition quiet :: "thread_pool \<Rightarrow> thread_pool \<Rightarrow> bool" where
  "quiet s s' \<longleftrightarrow>
     t_jobs s' = t_jobs s \<and> t_waiting_jobs_num s' = t_waiting_jobs_num s \<and> t_added s' = t_added s \<and> t_ran s' = t_ran s \<and>
     t_running_workers_num s' = t_running_workers_num s \<and> held s' = held s \<and> counted s' = counted s \<and>
     (finite (dom (t_state s)) \<longrightarrow> finite (dom (t_state s')))"

lemma quiet_inv: "quiet s s' \<Longrightarrow> pool_inv s \<Longrightarrow> pool_inv s'"
  by (simp add: quiet_def pool_inv_def)

lemma quiet_refl [simp]: "quiet s s"
  by (simp add: quiet_def)

lemma quiet_trans: "quiet a b \<Longrightarrow> quiet b c \<Longrightarrow> quiet a c"
  by (simp add: quiet_def)

lemma state_set_worker:
  "t_state (set_worker w f s) x = (if x = w then map_option f (t_state s w) else t_state s x)"
  by (simp add: set_worker_def)

lemma held_set_worker:
  "held (set_worker w f s) = (held s)(w := Option.bind (t_state s w) (\<lambda>k. pc_job (w_pc (f k))))"
  by (rule ext, cases "t_state s w") (auto simp: held_def state_set_worker)

lemma counted_set_worker:
  "counted (set_worker w f s) =
     (if \<exists>k. t_state s w = Some k \<and> pc_counted (w_pc (f k)) then insert w (counted s) else counted s - {w})"
  by (auto simp: counted_def state_set_worker split: if_splits option.splits)

lemma dom_set_worker: "dom (t_state (set_worker w f s)) = dom (t_state s)"
  by (auto simp: state_set_worker split: if_splits)

lemma set_worker_fields [simp]:
  "t_jobs (set_worker w f s) = t_jobs s" "t_waiting_jobs_num (set_worker w f s) = t_waiting_jobs_num s"
  "t_added (set_worker w f s) = t_added s" "t_ran (set_worker w f s) = t_ran s"
  "t_running_workers_num (set_worker w f s) = t_running_workers_num s" "t_workers (set_worker w f s) = t_workers s"
  "t_total_workers_num (set_worker w f s) = t_total_workers_num s"
  "t_terminate_workers_num (set_worker w f s) = t_terminate_workers_num s"
  by (simp_all add: set_worker_def)

lemma quiet_set_worker:
  assumes "\<And>k. t_state s w = Some k \<Longrightarrow> pc_job (w_pc (f k)) = pc_job (w_pc k) \<and> pc_counted (w_pc (f k)) = pc_counted (w_pc k)"
  shows "quiet s (set_worker w f s)"
proof -
  have "held (set_worker w f s) = held s"
    unfolding held_set_worker using assms by (auto simp: held_def fun_eq_iff split: option.splits bind_splits)
  moreover have "counted (set_worker w f s) = counted s"
    unfolding counted_set_worker using assms by (auto simp: counted_def)
  ultimately show ?thesis by (simp add: quiet_def dom_set_worker)
qed

lemma quiet_wake: "W \<subseteq> waiting s \<Longrightarrow> quiet s (wake W s)"
proof -
  assume W: "W \<subseteq> waiting s"
  have "held (wake W s) x = held s x" for x
    using W by (cases "t_state s x") (auto simp: held_def wake_def waiting_def)
  moreover have "x \<in> counted (wake W s) \<longleftrightarrow> x \<in> counted s" for x
    using W by (cases "t_state s x") (auto simp: counted_def wake_def waiting_def)
  moreover have "dom (t_state (wake W s)) = dom (t_state s)" by (auto simp: wake_def split: if_splits)
  ultimately show ?thesis by (auto simp: quiet_def fun_eq_iff) (simp_all add: wake_def)
qed

lemma flag_loop_quiet:
  assumes "flag_loop sel w n s = Some (Inr (n', s'))"
  shows "quiet s s'"
proof -
  have "case r of Inl e \<Rightarrow> True | Inr (n', s') \<Rightarrow> quiet s s'" if "flag_loop sel w n s = Some r" for r
  proof (rule flag_loop.raw_induct [of "\<lambda>sel w n s r. case r of Inl e \<Rightarrow> True | Inr (n', s') \<Rightarrow> quiet s s'", OF _ that])
    fix rec sel w n s r
    assume IH: "\<And>sel w n s r. rec sel w n s = Some r \<Longrightarrow> case r of Inl e \<Rightarrow> True | Inr (n', s') \<Rightarrow> quiet s s'"
      and run: "(if w = 0 \<or> n = 0 then Some (Inr (n, s))
      else case t_state s w of None \<Rightarrow> Some (Inl Wild_Pointer)
        | Some k \<Rightarrow> if w_terminate k = 0 \<and> sel k
            then rec sel (q_next (snd (t_workers s)) w) (n - 1)
                 (set_worker w (\<lambda>k. k\<lparr>w_terminate := 1\<rparr>) (s\<lparr>t_terminate_workers_num := t_terminate_workers_num s + 1\<rparr>))
            else rec sel (q_next (snd (t_workers s)) w) n s) = Some r"
    let ?s = "s\<lparr>t_terminate_workers_num := t_terminate_workers_num s + 1\<rparr>"
    have "quiet s ?s" by (simp add: quiet_def held_def counted_def fun_eq_iff)
    moreover have "quiet ?s (set_worker w (\<lambda>k. k\<lparr>w_terminate := 1\<rparr>) ?s)" by (rule quiet_set_worker) simp
    ultimately have q: "quiet s (set_worker w (\<lambda>k. k\<lparr>w_terminate := 1\<rparr>) ?s)" by (rule quiet_trans)
    show "case r of Inl e \<Rightarrow> True | Inr (n', s') \<Rightarrow> quiet s s'"
      using run by (auto split: if_splits option.splits sum.splits dest!: IH intro: quiet_trans [OF q])
  qed
  from this [OF assms] show ?thesis by simp
qed

lemma stop_loop_quiet:
  assumes "stop_loop w s = Some (Inr s')"
  shows "quiet s s'"
proof -
  have "case r of Inl e \<Rightarrow> True | Inr s' \<Rightarrow> quiet s s'" if "stop_loop w s = Some r" for r
  proof (rule stop_loop.raw_induct [of "\<lambda>w s r. case r of Inl e \<Rightarrow> True | Inr s' \<Rightarrow> quiet s s'", OF _ that])
    fix rec w s r
    assume IH: "\<And>w s r. rec w s = Some r \<Longrightarrow> case r of Inl e \<Rightarrow> True | Inr s' \<Rightarrow> quiet s s'"
      and run: "(if w = 0 then Some (Inr s)
      else case t_state s w of None \<Rightarrow> Some (Inl Wild_Pointer)
        | Some k \<Rightarrow> rec (q_next (snd (t_workers s)) w) (set_worker w (\<lambda>k. k\<lparr>w_terminate := 1\<rparr>) s)) = Some r"
    have q: "quiet s (set_worker w (\<lambda>k. k\<lparr>w_terminate := 1\<rparr>) s)" by (rule quiet_set_worker) simp
    show "case r of Inl e \<Rightarrow> True | Inr s' \<Rightarrow> quiet s s'"
      using run by (auto split: if_splits option.splits sum.splits dest!: IH intro: quiet_trans [OF q])
  qed
  from this [OF assms] show ?thesis by simp
qed

lemma remove_workers_quiet:
  assumes "thread_pool_remove_workers n s = Some (Inr s')"
  shows "quiet s s'"
proof -
  obtain m1 n1 s1 n2 s2 where "flag_loop (\<lambda>k. w_running k = 0) (fst (t_workers s)) m1 s = Some (Inr (n1, s1))"
    "flag_loop (\<lambda>k. w_running k = 1) (fst (t_workers s)) n1 s1 = Some (Inr (n2, s2))" "s' = wake (waiting s2) s2"
    using assms by (auto simp: thread_pool_remove_workers_def Let_def obind_Inr_iff split: if_splits)
  then show ?thesis using flag_loop_quiet quiet_wake [of "waiting s2" s2] by (blast intro: quiet_trans)
qed

lemma destroy_quiet:
  assumes "thread_pool_destroy s = Some (Inr s')"
  shows "quiet s s'"
proof -
  obtain s1 where "stop_loop (fst (t_workers s)) s = Some (Inr s1)" "s' = wake (waiting s1) s1"
    using assms by (auto simp: thread_pool_destroy_def obind_Inr_iff)
  then show ?thesis using stop_loop_quiet quiet_wake [of "waiting s1" s1] by (blast intro: quiet_trans)
qed

lemma jobs_ok_take:
  assumes "jobs_ok added (j # js) rn hold" and "hold w = None"
  shows "jobs_ok added js rn (hold(w := Some j))"
proof -
  have "{i. \<exists>x. (hold(w := Some j)) x = Some i} = insert j {i. \<exists>x. hold x = Some i}"
    using assms(2) by auto (metis option.distinct(1))
  then show ?thesis using assms unfolding jobs_ok_def by (auto split: if_splits)
qed

lemma jobs_ok_done:
  assumes "jobs_ok added js rn hold" and "hold w = Some j"
  shows "jobs_ok added js (rn @ [j]) (hold(w := None))"
proof -
  have "{i. \<exists>x. (hold(w := None)) x = Some i} = {i. \<exists>x. hold x = Some i} - {j}"
    using assms unfolding jobs_ok_def by auto (metis option.inject)
  then show ?thesis using assms unfolding jobs_ok_def by (auto split: if_splits)
qed

lemma jobs_ok_add:
  assumes "jobs_ok added js rn hold" and "j \<notin> set added"
  shows "jobs_ok (added @ [j]) (j # js) rn hold"
  using assms unfolding jobs_ok_def by auto

lemma pool_fields_held:
  "held (s\<lparr>t_jobs := a, t_waiting_jobs_num := b\<rparr>) = held s" "held (s\<lparr>t_running_workers_num := c\<rparr>) = held s"
  "held (s\<lparr>t_ran := r\<rparr>) = held s" "counted (s\<lparr>t_jobs := a, t_waiting_jobs_num := b\<rparr>) = counted s"
  "counted (s\<lparr>t_running_workers_num := c\<rparr>) = counted s" "counted (s\<lparr>t_ran := r\<rparr>) = counted s"
  by (simp_all add: held_def counted_def fun_eq_iff)

lemma counted_finite: "finite (dom (t_state s)) \<Longrightarrow> finite (counted s)"
  by (rule finite_subset [of _ "dom (t_state s)"]) (auto simp: counted_def)

text \<open>One step of a worker, by the position it is at.\<close>

lemma cycle_inv:
  assumes inv: "pool_inv s" and run: "thread_pool_cycle w s = Some (Inr s')"
  shows "pool_inv s'"
proof -
  obtain k where k: "t_state s w = Some k" using run by (auto simp: thread_pool_cycle_def split: option.splits)
  have hold: "held s w = pc_job (w_pc k)" and cnt: "w \<in> counted s \<longleftrightarrow> pc_counted (w_pc k)"
    using k by (simp_all add: held_def counted_def)
  have I: "t_waiting_jobs_num s = int (length (t_jobs s))" "jobs_ok (t_added s) (t_jobs s) (t_ran s) (held s)"
    "finite (dom (t_state s))" "t_running_workers_num s = int (card (counted s))"
    using inv by (simp_all add: pool_inv_def)
  note fin = counted_finite [OF I(3)]
  have take: "pool_inv (take_job w s)" if "pc_job (w_pc k) = None" "\<not> pc_counted (w_pc k)"
  proof (cases "t_jobs s")
    case Nil
    then have "quiet s (take_job w s)" using k that by (auto simp: take_job_def intro: quiet_set_worker)
    then show ?thesis using inv by (rule quiet_inv)
  next
    case (Cons j js)
    have "jobs_ok (t_added s) js (t_ran s) ((held s)(w := Some j))"
      using I(2) hold that(1) by (intro jobs_ok_take) (simp_all add: Cons)
    moreover have "counted s - {w} = counted s" using cnt that(2) by blast
    ultimately show ?thesis
      using I k by (simp add: take_job_def Cons pool_inv_def held_set_worker counted_set_worker pool_fields_held dom_set_worker
          del: fun_upd_apply)
  qed
  have move: "pool_inv (set_worker w f s)"
    if "pc_job (w_pc (f k)) = pc_job (w_pc k)" "pc_counted (w_pc (f k)) = pc_counted (w_pc k)" for f
    using that k by (intro quiet_inv [OF quiet_set_worker inv]) auto
  show ?thesis
  proof (cases "w_pc k")
    case Loop_Test
    then show ?thesis using run k move [of "\<lambda>k. k\<lparr>w_pc := Fetch\<rparr>"] move [of "\<lambda>k. k\<lparr>w_pc := Closing\<rparr>"]
      by (auto simp: thread_pool_cycle_def)
  next
    case Fetch
    then show ?thesis using run k move [of "\<lambda>k. k\<lparr>w_pc := Waiting\<rparr>"] take
      by (auto simp: thread_pool_cycle_def split: if_splits)
  next
    case Woken
    then show ?thesis using run k take by (auto simp: thread_pool_cycle_def)
  next
    case (Mark j)
    then show ?thesis using run k move [of "\<lambda>k. k\<lparr>w_running := 1, w_pc := Count j\<rparr>"] by (auto simp: thread_pool_cycle_def)
  next
    case (Count j)
    have h: "(held s)(w := Some j) = held s" using hold Count by (auto simp: fun_eq_iff)
    have "card (insert w (counted s)) = Suc (card (counted s))" using fin cnt Count by simp
    then show ?thesis using run k I h Count
      by (auto simp: thread_pool_cycle_def pool_inv_def held_set_worker counted_set_worker pool_fields_held dom_set_worker)
  next
    case (Run j)
    have "jobs_ok (t_added s) (t_jobs s) (t_ran s @ [j]) ((held s)(w := None))"
      using I(2) hold Run by (intro jobs_ok_done) simp_all
    moreover have "insert w (counted s) = counted s" using cnt Run by auto
    ultimately show ?thesis using run k I Run
      by (auto simp: thread_pool_cycle_def pool_inv_def held_set_worker counted_set_worker pool_fields_held dom_set_worker)
  next
    case Unmark
    then show ?thesis using run k move [of "\<lambda>k. k\<lparr>w_running := 0, w_pc := Uncount\<rparr>"] by (auto simp: thread_pool_cycle_def)
  next
    case Uncount
    have h: "(held s)(w := None) = held s" using hold Uncount by (auto simp: fun_eq_iff)
    have "Suc (card (counted s - {w})) = card (counted s)" using fin cnt Uncount by (intro card_Suc_Diff1) auto
    then show ?thesis using run k I h Uncount
      by (auto simp: thread_pool_cycle_def pool_inv_def held_set_worker counted_set_worker pool_fields_held dom_set_worker)
  next
    case Closing
    have "held s' = held s" using run k Closing hold by (auto simp: thread_pool_cycle_def held_def fun_eq_iff split: if_splits)
    moreover have "counted s' = counted s" using run k Closing cnt by (auto simp: thread_pool_cycle_def counted_def split: if_splits)
    moreover have "dom (t_state s') \<subseteq> dom (t_state s)" using run k Closing by (auto simp: thread_pool_cycle_def split: if_splits)
    ultimately show ?thesis using run k I Closing finite_subset
      by (auto simp: pool_inv_def thread_pool_cycle_def split: if_splits)
  qed (use run k in \<open>simp add: thread_pool_cycle_def\<close>)
qed

lemma add_job_inv:
  assumes inv: "pool_inv s" and "j \<notin> set (t_added s)" and W: "W \<subseteq> waiting s"
  shows "pool_inv (thread_pool_add_job W j s)"
proof -
  let ?s = "s\<lparr>t_waiting_jobs_num := t_waiting_jobs_num s + 1, t_jobs := j # t_jobs s, t_added := t_added s @ [j]\<rparr>"
  have "held ?s = held s" "counted ?s = counted s" by (simp_all add: held_def counted_def fun_eq_iff)
  then have "pool_inv ?s" using inv assms(2) by (simp add: pool_inv_def jobs_ok_add)
  moreover have "W \<subseteq> waiting ?s" using W by (simp add: waiting_def)
  ultimately show ?thesis unfolding thread_pool_add_job_def by (intro quiet_inv [OF quiet_wake])
qed

lemma spawn_quiet: "t_state s w = None \<Longrightarrow> quiet s (spawn_worker w s)"
  by (auto simp: quiet_def spawn_worker_def held_def counted_def fun_eq_iff)

lemma pool_step_inv: "pool_inv s \<Longrightarrow> pool_step s s' \<Longrightarrow> pool_inv s'"
proof (erule pool_step.cases; hypsubst)
  fix w s
  assume "pool_inv s" "w \<in> waiting s"
  then show "pool_inv (wake {w} s)" by (intro quiet_inv [OF quiet_wake]) auto
next
  fix s w
  assume "pool_inv s"
  moreover have "quiet s (enlist_worker w s)"
    by (simp add: quiet_def enlist_worker_def held_def counted_def fun_eq_iff)
  ultimately show "pool_inv (enlist_worker w s)" by (rule quiet_inv [rotated])
qed (auto intro: cycle_inv add_job_inv quiet_inv [OF spawn_quiet] quiet_inv [OF remove_workers_quiet] quiet_inv [OF destroy_quiet])

lemma pool_init_inv: "pool_init s \<Longrightarrow> pool_inv s"
  by (auto simp: pool_init_def empty_pool_def pool_inv_def jobs_ok_def held_def counted_def)

lemma micro_step_inv: "pool_inv s \<Longrightarrow> micro_step s s' \<Longrightarrow> pool_inv s'"
proof (erule micro_step.cases; hypsubst)
  fix s w
  assume "pool_inv s"
  then show "pool_inv (set_worker w (\<lambda>k. k\<lparr>w_terminate := 1\<rparr>) s)" by (intro quiet_inv [OF quiet_set_worker]) auto
next
  fix s
  assume "pool_inv s"
  moreover have "quiet s (s\<lparr>t_terminate_workers_num := t_terminate_workers_num s + 1\<rparr>)"
    by (simp add: quiet_def held_def counted_def fun_eq_iff)
  ultimately show "pool_inv (s\<lparr>t_terminate_workers_num := t_terminate_workers_num s + 1\<rparr>)" by (rule quiet_inv [rotated])
qed (auto intro: pool_step_inv quiet_inv [OF quiet_wake])

interpretation pool: invariant_system pool_init micro_step pool_inv
  by unfold_locales (fact pool_init_inv, fact micro_step_inv)

lemma reachable_micro: "reachable pool_init pool_step s \<Longrightarrow> reachable pool_init micro_step s"
  by (induction rule: reachable.induct) (auto intro: reachable.start reachable.extend micro_step.whole)

lemmas reach_start = reachable.start [of pool_init _ pool_step]
lemmas reach_step = reachable.extend [of pool_init pool_step]

text \<open>
  C10. No job is lost and none runs twice. In every state the pool reaches without a fault, under every
  interleaving of its workers and its user, including spurious wake-ups, the removal of workers and
  shutdown: each job handed to \<open>thread_pool_add_job\<close> either waits in the job list, or is held by
  exactly one worker, or has been executed exactly once; \<open>waiting_jobs_num\<close> is the length of the list, and
  \<open>running_workers_num\<close> is the number of workers between their two updates of it.
\<close>

theorem thread_pool_accounts_jobs:
  assumes "reachable pool_init micro_step s"
  shows "t_waiting_jobs_num s = int (length (t_jobs s)) \<and> distinct (t_jobs s @ t_ran s) \<and>
    set (t_added s) = set (t_jobs s) \<union> set (t_ran s) \<union> {j. \<exists>w. held s w = Some j} \<and>
    (\<forall>w j. held s w = Some j \<longrightarrow> j \<notin> set (t_jobs s) \<union> set (t_ran s)) \<and>
    (\<forall>w w' j. held s w = Some j \<and> held s w' = Some j \<longrightarrow> w = w') \<and>
    t_running_workers_num s = int (card (counted s))"
  using pool.reachable_inv [OF assms] unfolding pool_inv_def jobs_ok_def by blast

text \<open>A pool with one worker.\<close>

definition example_pool0 :: thread_pool where
  "example_pool0 = snd (projr (thread_pool_create [(1, 101, True)] \<lparr>q_next = (\<lambda>_. 0), q_prev = (\<lambda>_. 0)\<rparr> 0))"

lemma example_pool0_eq:
  "example_pool0 = enlist_worker 1 (spawn_worker 1 (empty_pool \<lparr>q_next = (\<lambda>_. 0), q_prev = (\<lambda>_. 0)\<rparr>))"
  by (simp add: example_pool0_def thread_pool_create_def thread_pool_add_worker_def)

lemma example_pool0_reachable: "reachable pool_init pool_step example_pool0"
proof -
  let ?s = "empty_pool \<lparr>q_next = (\<lambda>_. 0), q_prev = (\<lambda>_. 0)\<rparr>"
  have "reachable pool_init pool_step ?s" by (rule reach_start) (auto simp: pool_init_def)
  moreover have "pool_step ?s (spawn_worker 1 ?s)" by (rule pool_step.spawn) (simp_all add: empty_pool_def)
  ultimately have "reachable pool_init pool_step (spawn_worker 1 ?s)" by (rule reach_step)
  moreover have "pool_step (spawn_worker 1 ?s) (enlist_worker 1 (spawn_worker 1 ?s))"
    by (rule pool_step.enlist) (simp add: spawn_worker_def)
  ultimately show ?thesis unfolding example_pool0_eq by (rule reach_step)
qed

theorem thread_pool_accounts_jobs_witness:
  "\<exists>s. reachable pool_init micro_step s \<and> set (t_added s) = {7} \<and> t_waiting_jobs_num s = int (length (t_jobs s)) \<and>
     distinct (t_jobs s @ t_ran s)"
proof -
  let ?s = "thread_pool_add_job {} 7 example_pool0"
  have "waiting example_pool0 = {}"
    by (auto simp: waiting_def example_pool0_eq enlist_worker_def spawn_worker_def empty_pool_def split: if_splits)
  then have "pool_step example_pool0 ?s"
    by (intro pool_step.add_job) (auto simp: example_pool0_eq enlist_worker_def spawn_worker_def empty_pool_def)
  from reachable_micro [OF reach_step [OF example_pool0_reachable this]] have r: "reachable pool_init micro_step ?s" .
  have "set (t_added ?s) = {7}"
    by (simp add: thread_pool_add_job_def wake_def example_pool0_eq enlist_worker_def spawn_worker_def empty_pool_def)
  with r thread_pool_accounts_jobs [OF r] show ?thesis by blast
qed

subsection \<open>Removing workers\<close>

definition picked :: "(worker \<Rightarrow> bool) \<Rightarrow> thread_pool \<Rightarrow> addr \<Rightarrow> bool" where
  "picked sel s w \<longleftrightarrow> (\<exists>k. t_state s w = Some k \<and> w_terminate k = 0 \<and> sel k)"

definition flag_all :: "addr list \<Rightarrow> thread_pool \<Rightarrow> thread_pool" where
  "flag_all F s = s\<lparr>t_terminate_workers_num := t_terminate_workers_num s + int (length F),
     t_state := (\<lambda>x. if x \<in> set F then map_option (\<lambda>k. k\<lparr>w_terminate := 1\<rparr>) (t_state s x) else t_state s x)\<rparr>"

lemma flag_all_Nil [simp]: "flag_all [] s = s"
  by (simp add: flag_all_def)

lemma flag_all_Cons:
  "w \<notin> set F \<Longrightarrow>
   flag_all F (set_worker w (\<lambda>k. k\<lparr>w_terminate := 1\<rparr>) (s\<lparr>t_terminate_workers_num := t_terminate_workers_num s + 1\<rparr>)) =
   flag_all (w # F) s"
  by (auto simp: flag_all_def set_worker_def fun_eq_iff)

text \<open>On an intact list the loop flags the first \<open>n\<close> workers that are selected.\<close>

lemma flag_loop_list:
  assumes "chain (snd (t_workers s)) w ws" and "distinct ws" and "\<forall>x \<in> set ws. t_state s x \<noteq> None" and "0 \<le> n"
  shows "flag_loop sel w n s =
    (let F = take (nat n) (filter (picked sel s) ws) in Some (Inr (n - int (length F), flag_all F s)))"
  using assms
proof (induction ws arbitrary: w n s)
  case Nil
  then show ?case by (subst flag_loop.simps) simp
next
  case (Cons x ws)
  then have x: "w = x" "x \<noteq> 0" "chain (snd (t_workers s)) (q_next (snd (t_workers s)) x) ws" "x \<notin> set ws" by auto
  obtain k where k: "t_state s x = Some k" using Cons.prems(3) by auto
  show ?case
  proof (cases "n = 0")
    case True
    then show ?thesis by (subst flag_loop.simps) simp
  next
    case n: False
    let ?s = "set_worker x (\<lambda>k. k\<lparr>w_terminate := 1\<rparr>) (s\<lparr>t_terminate_workers_num := t_terminate_workers_num s + 1\<rparr>)"
    show ?thesis
    proof (cases "w_terminate k = 0 \<and> sel k")
      case True
      have same: "filter (picked sel ?s) ws = filter (picked sel s) ws"
        using x(4) by (intro filter_cong) (auto simp: picked_def state_set_worker)
      let ?F = "take (nat (n - 1)) (filter (picked sel s) ws)"
      have "flag_loop sel w n s = flag_loop sel (q_next (snd (t_workers s)) x) (n - 1) ?s"
        using True k n x(1,2) by (subst flag_loop.simps) simp
      also have "\<dots> = Some (Inr (n - 1 - int (length ?F), flag_all ?F ?s))"
        using Cons.IH [of ?s "q_next (snd (t_workers s)) x" "n - 1"] Cons.prems n x(3,4)
        by (simp add: same Let_def state_set_worker)
      also have "flag_all ?F ?s = flag_all (x # ?F) s" using x(4) by (intro flag_all_Cons) (auto dest: in_set_takeD)
      finally have "flag_loop sel w n s = Some (Inr (n - int (length (x # ?F)), flag_all (x # ?F) s))" by simp
      moreover have "take (nat n) (filter (picked sel s) (x # ws)) = x # ?F"
        using True k n Cons.prems(4) by (cases "nat n") (auto simp: picked_def nat_diff_distrib')
      ultimately show ?thesis by (simp only: Let_def)
    next
      case False
      then have "flag_loop sel w n s = flag_loop sel (q_next (snd (t_workers s)) x) n s"
        using k n x(1,2) by (subst flag_loop.simps) auto
      moreover have "filter (picked sel s) (x # ws) = filter (picked sel s) ws" using False k by (auto simp: picked_def)
      ultimately show ?thesis using Cons.IH [OF x(3)] Cons.prems by simp
    qed
  qed
qed

lemma picked_flag_all:
  "picked sel (flag_all F s) w \<longleftrightarrow> w \<notin> set F \<and> picked sel s w"
  by (auto simp: picked_def flag_all_def)

lemma flag_all_append: "flag_all G (flag_all F s) = flag_all (F @ G) s"
proof -
  have "t_state (flag_all G (flag_all F s)) = t_state (flag_all (F @ G) s)"
    by (rule ext) (simp add: flag_all_def option.map_comp comp_def)
  then show ?thesis by (intro thread_pool.equality) (simp_all add: flag_all_def)
qed

lemma flag_all_workers [simp]: "t_workers (flag_all F s) = t_workers s"
  by (simp add: flag_all_def)

lemma no_waiting_after_broadcast: "waiting (wake (waiting s) s) = {}"
  by (auto simp: waiting_def wake_def split: if_splits)

text \<open>
  \<open>thread_pool_remove_workers\<close> on an intact list flags as many workers as asked for but leaves at
  least one, prefers idle ones, counts those it flags and wakes every waiting worker. (The
  counters must be right: the difference of the two is the number of workers not flagged.)
\<close>

theorem remove_workers_spec:
  assumes rep: "llist_rep (t_workers s) ws" and alive: "\<forall>w \<in> set ws. \<exists>k. t_state s w = Some k \<and> w_running k \<in> {0, 1}"
    and n: "0 \<le> n" and u: "u = length (filter (picked (\<lambda>k. True) s) ws)" "0 < u"
    and count: "t_total_workers_num s - t_terminate_workers_num s = int u"
  shows "\<exists>F s'. thread_pool_remove_workers n s = Some (Inr s') \<and> s' = wake (waiting (flag_all F s)) (flag_all F s) \<and>
    length F = min (nat n) (u - 1) \<and> distinct F \<and> (\<forall>w \<in> set F. w \<in> set ws \<and> picked (\<lambda>k. True) s w) \<and>
    (\<exists>w \<in> set ws. picked (\<lambda>k. True) s w \<and> w \<notin> set F) \<and> waiting s' = {} \<and>
    ((\<exists>w \<in> set F. picked (\<lambda>k. w_running k = 1) s w) \<longrightarrow> (\<forall>w \<in> set ws. picked (\<lambda>k. w_running k = 0) s w \<longrightarrow> w \<in> set F))"
proof -
  define m where "m = (if n \<ge> int u then int u - 1 else n)"
  have m: "0 \<le> m" "nat m = min (nat n) (u - 1)" "nat m < u" using n u(2) by (auto simp: m_def)
  let ?idle = "filter (picked (\<lambda>k. w_running k = 0) s) ws" and ?busy = "filter (picked (\<lambda>k. w_running k = 1) s) ws"
  let ?all = "filter (picked (\<lambda>k. True) s) ws"
  define F1 where "F1 = take (nat m) ?idle"
  define F2 where "F2 = take (nat m - length F1) ?busy"
  have ch: "chain (snd (t_workers s)) (fst (t_workers s)) ws" "distinct ws" and al: "\<forall>x \<in> set ws. t_state s x \<noteq> None"
    using rep alive by (auto simp: llist_rep_def)
  have ws: "ws \<noteq> []" using u by auto
  then have first: "fst (t_workers s) \<noteq> 0" "t_state s (fst (t_workers s)) \<noteq> None" using ch(1) al by (cases ws; auto)+
  have l1: "flag_loop (\<lambda>k. w_running k = 0) (fst (t_workers s)) m s = Some (Inr (m - int (length F1), flag_all F1 s))"
    using flag_loop_list [OF ch al m(1)] by (simp add: F1_def Let_def)
  have "w \<notin> set F1" if "picked (\<lambda>k. w_running k = 1) s w" for w
    using that by (auto simp: F1_def picked_def dest!: in_set_takeD)
  then have busy: "filter (picked (\<lambda>k. w_running k = 1) (flag_all F1 s)) ws = ?busy"
    by (intro filter_cong) (auto simp: picked_flag_all)
  have "nat (m - int (length F1)) = nat m - length F1" "0 \<le> m - int (length F1)" using m(1) by (auto simp: F1_def)
  then have l2: "flag_loop (\<lambda>k. w_running k = 1) (fst (t_workers s)) (m - int (length F1)) (flag_all F1 s) =
      Some (Inr (m - int (length F1) - int (length F2), flag_all (F1 @ F2) s))"
    using flag_loop_list [of "flag_all F1 s" "fst (t_workers s)" ws "m - int (length F1)" "\<lambda>k. w_running k = 1"] ch al
    by (simp add: busy F2_def Let_def flag_all_append) (simp add: flag_all_def)
  have run: "thread_pool_remove_workers n s = Some (Inr (wake (waiting (flag_all (F1 @ F2) s)) (flag_all (F1 @ F2) s)))"
    using first unfolding thread_pool_remove_workers_def Let_def count m_def [symmetric] l1 by (simp add: l2)
  have "length ?idle + length ?busy = u" unfolding u(1) using alive by (induction ws) (auto simp: picked_def)
  then have len: "length (F1 @ F2) = nat m" using m(3) by (auto simp: F1_def F2_def)
  have sub: "\<forall>w \<in> set (F1 @ F2). w \<in> set ws \<and> picked (\<lambda>k. True) s w"
    by (auto simp: F1_def F2_def picked_def dest!: in_set_takeD)
  have dist: "distinct (F1 @ F2)"
    using ch(2) by (auto simp: F1_def F2_def picked_def dest!: in_set_takeD)
  have "card (set (F1 @ F2)) = nat m" using distinct_card [OF dist] len by simp
  moreover have "card (set ?all) = u" unfolding u(1) using ch(2) by (intro distinct_card) simp
  ultimately have "card (set (F1 @ F2)) < card (set ?all)" using m(3) by simp
  then have "\<not> set ?all \<subseteq> set (F1 @ F2)" by (metis card_mono finite_set leD)
  then have left: "\<exists>w \<in> set ws. picked (\<lambda>k. True) s w \<and> w \<notin> set (F1 @ F2)" by auto
  have pref: "\<forall>w \<in> set ws. picked (\<lambda>k. w_running k = 0) s w \<longrightarrow> w \<in> set (F1 @ F2)"
    if ex: "\<exists>w \<in> set (F1 @ F2). picked (\<lambda>k. w_running k = 1) s w"
  proof -
    have "F2 \<noteq> []" using ex by (auto simp: F1_def picked_def dest!: in_set_takeD)
    then have "length F1 < nat m" by (auto simp: F2_def)
    then have "F1 = ?idle" by (auto simp: F1_def)
    then show ?thesis by auto
  qed
  have len': "length (F1 @ F2) = min (nat n) (u - 1)" using len m(2) by simp
  show ?thesis
    by (intro exI [of _ "F1 @ F2"] exI [of _ "wake (waiting (flag_all (F1 @ F2) s)) (flag_all (F1 @ F2) s)"] conjI impI)
      (rule run refl len' dist sub left no_waiting_after_broadcast | erule pref)+
qed

text \<open>Two workers, of which the second has been created last and is first in the list.\<close>

definition example_two :: thread_pool where
  "example_two = snd (projr (thread_pool_create [(1, 101, True), (2, 102, True)] \<lparr>q_next = (\<lambda>_. 0), q_prev = (\<lambda>_. 0)\<rparr> 2))"

lemma example_two_eq: "example_two = enlist_worker 2 (spawn_worker 2 example_pool0)"
  by (simp add: example_two_def example_pool0_eq thread_pool_create_def thread_pool_add_worker_def numeral_2_eq_2)

lemmas example_defs = example_two_eq example_pool0_eq enlist_worker_def spawn_worker_def empty_pool_def

theorem remove_workers_spec_witness:
  "\<exists>F :: addr list. \<exists>s'. thread_pool_remove_workers 5 example_two = Some (Inr s') \<and> length F = 1 \<and> waiting s' = {}"
proof -
  have rep: "llist_rep (t_workers example_two) [2, 1]"
    by (simp add: example_defs llist_rep_def LIST_ADD_def)
  have alive: "\<forall>w \<in> set [2, 1]. \<exists>k. t_state example_two w = Some k \<and> w_running k \<in> {0, 1}"
    by (simp add: example_defs)
  have u: "2 = length (filter (picked (\<lambda>k. True) example_two) [2, 1])" "(0 :: nat) < 2"
    by (simp_all add: picked_def example_defs)
  have count: "t_total_workers_num example_two - t_terminate_workers_num example_two = int 2"
    by (simp add: example_defs)
  have "(0 :: int) \<le> 5" by simp
  from remove_workers_spec [OF rep alive this u count] obtain F :: "addr list" and s' where
    "thread_pool_remove_workers 5 example_two = Some (Inr s')" "length F = min (nat 5) (2 - 1)" "waiting s' = {}" by blast
  then show ?thesis by (intro exI [of _ F] exI [of _ s']) simp
qed

subsection \<open>What the pool does not guarantee\<close>

text \<open>Running a worker for a number of steps.\<close>

fun run_worker :: "nat \<Rightarrow> addr \<Rightarrow> thread_pool \<Rightarrow> thread_pool" where
  "run_worker 0 w s = s"
| "run_worker (Suc n) w s = (case thread_pool_cycle w s of Some (Inr s') \<Rightarrow> run_worker n w s' | _ \<Rightarrow> s)"

lemma run_worker_reachable:
  "reachable pool_init pool_step s \<Longrightarrow> reachable pool_init pool_step (run_worker n w s)"
proof (induction n arbitrary: s)
  case (Suc n)
  show ?case
  proof (cases "\<exists>s'. thread_pool_cycle w s = Some (Inr s')")
    case True
    then obtain s' where s': "thread_pool_cycle w s = Some (Inr s')" by blast
    from Suc.IH [OF reach_step [OF Suc.prems pool_step.work [OF s']]] s' show ?thesis by simp
  next
    case False
    then have "run_worker (Suc n) w s = s" by (auto split: option.split sum.split)
    then show ?thesis using Suc.prems by simp
  qed
qed simp

lemma example_two_reachable: "reachable pool_init pool_step example_two"
proof -
  have "pool_step example_pool0 (spawn_worker 2 example_pool0)" by (rule pool_step.spawn) (simp_all add: example_defs)
  from reach_step [OF example_pool0_reachable this]
  have "reachable pool_init pool_step (spawn_worker 2 example_pool0)" .
  moreover have "pool_step (spawn_worker 2 example_pool0) example_two"
    unfolding example_two_eq by (rule pool_step.enlist) (simp add: spawn_worker_def)
  ultimately show ?thesis by (rule reach_step)
qed

text \<open>
  A worker tests its flag outside of the mutex of the condition variable, and the flag is set
  without it; so it can be flagged, and the broadcast sent, between the test and the wait.
\<close>

definition lost_wakeup :: thread_pool where
  "lost_wakeup = run_worker 1 1 (projr (the (thread_pool_destroy (run_worker 1 1 example_pool0))))"

text \<open>
  The wake-up of a stopped worker can be lost. There is a reachable state of a pool with one worker
  in which the worker has been told to stop and waits on the condition variable: no step of
  the worker is possible and no call is under way that would wake it, so the thread does not end.
\<close>

theorem thread_pool_lost_wakeup:
  "reachable pool_init pool_step lost_wakeup \<and> thread_pool_cycle 1 lost_wakeup = None \<and>
   (\<exists>k. t_state lost_wakeup 1 = Some k \<and> w_terminate k = 1 \<and> w_pc k = Waiting)"
proof -
  let ?s = "run_worker 1 1 example_pool0"
  have run: "thread_pool_destroy ?s = Some (Inr (projr (the (thread_pool_destroy ?s))))"
    by (simp add: example_defs thread_pool_cycle_def set_worker_def thread_pool_destroy_def stop_loop.simps LIST_ADD_def)
  have "reachable pool_init pool_step ?s" by (rule run_worker_reachable [OF example_pool0_reachable])
  from reach_step [OF this pool_step.destroy [OF run]] have "reachable pool_init pool_step lost_wakeup"
    unfolding lost_wakeup_def by (rule run_worker_reachable)
  moreover have "\<exists>k. t_state lost_wakeup 1 = Some k \<and> w_terminate k = 1 \<and> w_pc k = Waiting"
    by (simp add: lost_wakeup_def example_defs thread_pool_cycle_def set_worker_def thread_pool_destroy_def stop_loop.simps
          LIST_ADD_def wake_def waiting_def)
  moreover from this have "thread_pool_cycle 1 lost_wakeup = None" by (auto simp: thread_pool_cycle_def)
  ultimately show ?thesis by blast
qed

text \<open>
  Worker 2 takes a job; worker 1, which is behind it in the list, is idle, is told to stop and ends.
\<close>

definition busy_pool :: thread_pool where
  "busy_pool = run_worker 3 2 (thread_pool_add_job {} 7 example_two)"

definition dangling_pool :: thread_pool where
  "dangling_pool = run_worker 2 1 (projr (the (thread_pool_remove_workers 1 busy_pool)))"

lemma busy_pool_eq:
  "t_workers busy_pool = t_workers example_two" "t_total_workers_num busy_pool = 2" "t_terminate_workers_num busy_pool = 0"
  "t_state busy_pool = [2 \<mapsto> \<lparr>w_pc = Count 7, w_running = 1, w_terminate = 0\<rparr>, 1 \<mapsto> \<lparr>w_pc = Loop_Test, w_running = 0, w_terminate = 0\<rparr>]"
  by (auto simp: busy_pool_def numeral_3_eq_3 thread_pool_cycle_def thread_pool_add_job_def wake_def take_job_def set_worker_def
        example_defs fun_eq_iff)

lemma busy_pool_list: "t_workers example_two = (2, \<lparr>q_next = (\<lambda>_. 0)(2 := 1), q_prev = (\<lambda>_. 0)\<rparr>)"
  by (auto simp: example_defs LIST_ADD_def set_next_def set_prev_def fun_eq_iff)

lemma remove_run: "thread_pool_remove_workers 1 busy_pool = Some (Inr (projr (the (thread_pool_remove_workers 1 busy_pool))))"
  by (simp add: thread_pool_remove_workers_def Let_def busy_pool_eq busy_pool_list flag_loop.simps)

text \<open>
  Stopping a worker that is not the first in the list leaves a dangling pointer. There is a reachable state of a pool
  with one busy and one stopped worker in which the list still leads to the worker that has
  ended and freed itself, so that \<open>thread_pool_destroy\<close> writes to freed memory.
\<close>

theorem thread_pool_use_after_free:
  "reachable pool_init pool_step dangling_pool \<and> thread_pool_destroy dangling_pool = Some (Inl Wild_Pointer)"
proof -
  have "waiting example_two = {}" by (auto simp: waiting_def example_defs split: if_splits)
  then have "pool_step example_two (thread_pool_add_job {} 7 example_two)"
    by (intro pool_step.add_job) (auto simp: example_defs)
  from reach_step [OF example_two_reachable this] have "reachable pool_init pool_step busy_pool"
    unfolding busy_pool_def by (rule run_worker_reachable)
  from reach_step [OF this pool_step.remove [OF remove_run]] have "reachable pool_init pool_step dangling_pool"
    unfolding dangling_pool_def by (rule run_worker_reachable)
  moreover have "thread_pool_destroy dangling_pool = Some (Inl Wild_Pointer)"
    by (simp add: dangling_pool_def numeral_2_eq_2 thread_pool_remove_workers_def Let_def busy_pool_eq busy_pool_list flag_loop.simps
          set_worker_def wake_def waiting_def thread_pool_cycle_def neighbours_freed_def thread_pool_destroy_def stop_loop.simps LIST_REMOVE_def)
  ultimately show ?thesis by blast
qed

text \<open>
  Shutting down a pool of two workers. The one that is last in the list ends first and frees itself; it stays in the
  list, and the other one then writes to it when it unlinks itself.
\<close>

definition closing_pool :: thread_pool where
  "closing_pool = run_worker 1 2 (run_worker 2 1 (projr (the (thread_pool_destroy example_two))))"

lemma destroy_run: "thread_pool_destroy example_two = Some (Inr (projr (the (thread_pool_destroy example_two))))"
  by (simp add: thread_pool_destroy_def example_defs stop_loop.simps LIST_ADD_def set_worker_def)

theorem thread_pool_close_after_free:
  "reachable pool_init pool_step closing_pool \<and> thread_pool_cycle 2 closing_pool = Some (Inl Wild_Pointer)"
proof -
  from reach_step [OF example_two_reachable pool_step.destroy [OF destroy_run]]
  have "reachable pool_init pool_step closing_pool" unfolding closing_pool_def by (intro run_worker_reachable)
  moreover have "thread_pool_cycle 2 closing_pool = Some (Inl Wild_Pointer)"
    by (simp add: closing_pool_def numeral_2_eq_2 thread_pool_destroy_def example_defs stop_loop.simps LIST_ADD_def set_worker_def
        wake_def waiting_def thread_pool_cycle_def neighbours_freed_def LIST_REMOVE_def)
  ultimately show ?thesis by blast
qed

end
