(* ===== verification/WorkQueue.thy ===== *)
theory WorkQueue
  imports ThreadPool
begin

text \<open>
  The thread pool of \<open>threadpool/tp.c\<close>, in the style of \<open>ThreadPool\<close>: a worker is a position in
  \<open>ntyWorkerThread\<close>, each step one critical section or one access outside of them. Here a worker
  evaluates its flag and the job list in the same critical section that ends with the wait, and
  shutdown broadcasts inside one. \<open>ntyThreadPoolShutdown\<close> walks the list of workers
  without a lock; its position is part of the state. \<open>n_dropped\<close> records the jobs it discards.
\<close>

subsection \<open>State\<close>

datatype npc = N_Loop | N_Wait | N_Woken | N_Run nat | N_Exit

record nWorker =
  nw_pc :: npc
  nw_terminate :: int

datatype cursor = S_Idle | S_Write addr | S_Next addr | S_Clear | S_Done

record nThreadPool =
  n_workers :: llist
  n_jobs :: "nat list"
  n_state :: "addr \<Rightarrow> nWorker option"
  n_cursor :: cursor
  n_added :: "nat list"
  n_ran :: "nat list"
  n_dropped :: "nat list"

definition set_nworker :: "addr \<Rightarrow> (nWorker \<Rightarrow> nWorker) \<Rightarrow> nThreadPool \<Rightarrow> nThreadPool" where
  "set_nworker w f s = s\<lparr>n_state := (\<lambda>x. if x = w then map_option f (n_state s x) else n_state s x)\<rparr>"

abbreviation ngoto :: "addr \<Rightarrow> npc \<Rightarrow> nThreadPool \<Rightarrow> nThreadPool" where
  "ngoto w p \<equiv> set_nworker w (\<lambda>k. k\<lparr>nw_pc := p\<rparr>)"

subsection \<open>The worker\<close>

text \<open>The critical section, from the lock or from a wake-up to the wait or the unlock.\<close>

definition worker_section :: "addr \<Rightarrow> nWorker \<Rightarrow> nThreadPool \<Rightarrow> nThreadPool" where
  "worker_section w k s =
     (if n_jobs s = [] \<and> nw_terminate k = 0 then ngoto w N_Wait s
      else if nw_terminate k \<noteq> 0 then ngoto w N_Exit s
      else ngoto w (N_Run (hd (n_jobs s))) (s\<lparr>n_jobs := tl (n_jobs s)\<rparr>))"

definition ntyWorkerThread :: "addr \<Rightarrow> nThreadPool \<Rightarrow> nThreadPool option" where
  "ntyWorkerThread w s =
     (case n_state s w of
        None \<Rightarrow> None
      | Some k \<Rightarrow>
          (case nw_pc k of
             N_Loop \<Rightarrow> Some (worker_section w k s)
           | N_Wait \<Rightarrow> None
           | N_Woken \<Rightarrow> Some (worker_section w k s)
           | N_Run j \<Rightarrow> Some (ngoto w N_Loop (s\<lparr>n_ran := n_ran s @ [j]\<rparr>))
           | N_Exit \<Rightarrow> Some (s\<lparr>n_state := (n_state s)(w := None)\<rparr>)))"

subsection \<open>The calls of the user\<close>

definition nwaiting :: "nThreadPool \<Rightarrow> addr set" where
  "nwaiting s = {w. \<exists>k. n_state s w = Some k \<and> nw_pc k = N_Wait}"

definition nwake :: "addr set \<Rightarrow> nThreadPool \<Rightarrow> nThreadPool" where
  "nwake W s = s\<lparr>n_state := (\<lambda>x. if x \<in> W then map_option (\<lambda>k. k\<lparr>nw_pc := N_Woken\<rparr>) (n_state s x) else n_state s x)\<rparr>"

definition nspawn :: "addr \<Rightarrow> nThreadPool \<Rightarrow> nThreadPool" where
  "nspawn w s = s\<lparr>n_state := (n_state s)(w \<mapsto> \<lparr>nw_pc = N_Loop, nw_terminate = 0\<rparr>)\<rparr>"

definition nenlist :: "addr \<Rightarrow> nThreadPool \<Rightarrow> nThreadPool" where
  "nenlist w s = s\<lparr>n_workers := LL_ADD w (n_workers s)\<rparr>"

fun create_workers :: "nat \<Rightarrow> (addr \<times> bool) list \<Rightarrow> nThreadPool \<Rightarrow> int \<times> nThreadPool" where
  "create_workers 0 os s = (0, s)"
| "create_workers (Suc n) os s =
     (case os of
        [] \<Rightarrow> (1, s)
      | (w, created) # os' \<Rightarrow>
          if w = 0 then (1, s) else if \<not> created then (1, s)
          else create_workers n os' (nenlist w (nspawn w s)))"

definition empty_nqueue :: "qheap \<Rightarrow> nThreadPool" where
  "empty_nqueue h = \<lparr>n_workers = (0, h), n_jobs = [], n_state = (\<lambda>_. None), n_cursor = S_Idle, n_added = [], n_ran = [], n_dropped = []\<rparr>"

definition ntyThreadPoolCreate :: "(addr \<times> bool) list \<Rightarrow> qheap \<Rightarrow> int \<Rightarrow> int \<times> nThreadPool" where
  "ntyThreadPoolCreate os h numWorkers = create_workers (nat (if numWorkers < 1 then 1 else numWorkers)) os (empty_nqueue h)"

definition ntyThreadPoolQueue :: "addr set \<Rightarrow> nat \<Rightarrow> nThreadPool \<Rightarrow> nThreadPool" where
  "ntyThreadPoolQueue W j s = nwake W (s\<lparr>n_jobs := j # n_jobs s, n_added := n_added s @ [j]\<rparr>)"

text \<open>One access of \<open>ntyThreadPoolShutdown\<close>: the store to the flag, the load of \<open>next\<close>, the critical section.\<close>

definition shutdown_at :: "addr \<Rightarrow> cursor" where
  "shutdown_at w = (if w = 0 then S_Clear else S_Write w)"

definition ntyThreadPoolShutdown :: "nThreadPool \<Rightarrow> nThreadPool cresult option" where
  "ntyThreadPoolShutdown s =
     (case n_cursor s of
        S_Idle \<Rightarrow> Some (Inr (s\<lparr>n_cursor := shutdown_at (fst (n_workers s))\<rparr>))
      | S_Write w \<Rightarrow>
          (case n_state s w of
             None \<Rightarrow> Some (Inl Wild_Pointer)
           | Some k \<Rightarrow> Some (Inr (set_nworker w (\<lambda>k. k\<lparr>nw_terminate := 1\<rparr>) (s\<lparr>n_cursor := S_Next w\<rparr>))))
      | S_Next w \<Rightarrow>
          (case n_state s w of
             None \<Rightarrow> Some (Inl Wild_Pointer)
           | Some k \<Rightarrow> Some (Inr (s\<lparr>n_cursor := shutdown_at (q_next (snd (n_workers s)) w)\<rparr>)))
      | S_Clear \<Rightarrow>
          Some (Inr (nwake (nwaiting s)
            (s\<lparr>n_workers := (0, snd (n_workers s)), n_dropped := n_dropped s @ n_jobs s, n_jobs := [], n_cursor := S_Done\<rparr>)))
      | S_Done \<Rightarrow> None)"

inductive nstep :: "nThreadPool \<Rightarrow> nThreadPool \<Rightarrow> bool" where
  nwork: "ntyWorkerThread w s = Some s' \<Longrightarrow> nstep s s'"
| nspurious: "w \<in> nwaiting s \<Longrightarrow> nstep s (nwake {w} s)"
| nqueue: "j \<notin> set (n_added s) \<Longrightarrow> W \<subseteq> nwaiting s \<Longrightarrow> (nwaiting s \<noteq> {} \<longrightarrow> W \<noteq> {}) \<Longrightarrow> nstep s (ntyThreadPoolQueue W j s)"
| nspawn: "n_state s w = None \<Longrightarrow> w \<noteq> 0 \<Longrightarrow> n_cursor s = S_Idle \<Longrightarrow> nstep s (nspawn w s)"
| nenlist: "n_state s w \<noteq> None \<Longrightarrow> n_cursor s = S_Idle \<Longrightarrow> nstep s (nenlist w s)"
| nshutdown: "ntyThreadPoolShutdown s = Some (Inr s') \<Longrightarrow> nstep s s'"

definition ninit :: "nThreadPool \<Rightarrow> bool" where
  "ninit s \<longleftrightarrow> (\<exists>h. s = empty_nqueue h)"

subsection \<open>Invariant\<close>

fun npc_job :: "npc \<Rightarrow> nat option" where
  "npc_job (N_Run j) = Some j"
| "npc_job _ = None"

definition nheld :: "nThreadPool \<Rightarrow> addr \<Rightarrow> nat option" where
  "nheld s w = Option.bind (n_state s w) (\<lambda>k. npc_job (nw_pc k))"

text \<open>A worker that waits has not been told to stop, unless the broadcast is still to come.\<close>

definition no_lost_wakeup :: "nThreadPool \<Rightarrow> bool" where
  "no_lost_wakeup s \<longleftrightarrow>
     (\<forall>w k. n_state s w = Some k \<and> nw_pc k = N_Wait \<and> nw_terminate k \<noteq> 0 \<longrightarrow> n_cursor s \<notin> {S_Idle, S_Done})"

definition ninv :: "nThreadPool \<Rightarrow> bool" where
  "ninv s \<longleftrightarrow> jobs_ok (n_added s) (n_jobs s) (n_ran s @ n_dropped s) (nheld s) \<and> no_lost_wakeup s"

lemma nstate_set: "n_state (set_nworker w f s) x = (if x = w then map_option f (n_state s w) else n_state s x)"
  by (simp add: set_nworker_def)

lemma nset_fields [simp]:
  "n_jobs (set_nworker w f s) = n_jobs s" "n_added (set_nworker w f s) = n_added s" "n_ran (set_nworker w f s) = n_ran s"
  "n_dropped (set_nworker w f s) = n_dropped s" "n_cursor (set_nworker w f s) = n_cursor s" "n_workers (set_nworker w f s) = n_workers s"
  by (simp_all add: set_nworker_def)

lemma nheld_set:
  "nheld (set_nworker w f s) = (nheld s)(w := Option.bind (n_state s w) (\<lambda>k. npc_job (nw_pc (f k))))"
  by (rule ext, cases "n_state s w") (auto simp: nheld_def nstate_set)

lemma nheld_cong: "n_state s' = n_state s \<Longrightarrow> nheld s' = nheld s"
  by (simp add: nheld_def fun_eq_iff)

lemma nheld_wake: "W \<subseteq> nwaiting s \<Longrightarrow> nheld (nwake W s) = nheld s"
proof
  fix x assume "W \<subseteq> nwaiting s"
  then show "nheld (nwake W s) x = nheld s x" by (cases "n_state s x") (auto simp: nheld_def nwake_def nwaiting_def)
qed

lemma nwake_fields [simp]:
  "n_jobs (nwake W s) = n_jobs s" "n_added (nwake W s) = n_added s" "n_ran (nwake W s) = n_ran s"
  "n_dropped (nwake W s) = n_dropped s" "n_cursor (nwake W s) = n_cursor s"
  by (simp_all add: nwake_def)

lemma no_lost_wakeup_wake: "no_lost_wakeup s \<Longrightarrow> no_lost_wakeup (nwake W s)"
  by (auto simp: no_lost_wakeup_def nwake_def split: if_splits)

lemma jobs_ok_drop: "jobs_ok added js rn hold \<Longrightarrow> jobs_ok added [] (rn @ js) hold"
  by (auto simp: jobs_ok_def)

lemma jobs_ok_perm: "jobs_ok added js (as @ bs @ cs) hold \<longleftrightarrow> jobs_ok added js (as @ cs @ bs) hold"
  by (auto simp: jobs_ok_def)

lemma no_lost_wakeup_set:
  assumes "no_lost_wakeup s"
    and "\<And>k. n_state s w = Some k \<Longrightarrow> nw_pc (f k) = N_Wait \<Longrightarrow> nw_terminate (f k) \<noteq> 0 \<Longrightarrow> n_cursor s \<notin> {S_Idle, S_Done}"
  shows "no_lost_wakeup (set_nworker w f s)"
  using assms unfolding no_lost_wakeup_def nstate_set by (auto split: if_splits)

lemma no_lost_wakeup_cong:
  "n_state s' = n_state s \<Longrightarrow> n_cursor s' = n_cursor s \<Longrightarrow> no_lost_wakeup s' = no_lost_wakeup s"
  by (simp add: no_lost_wakeup_def)

lemma section_inv:
  assumes inv: "ninv s" and k: "n_state s w = Some k" "npc_job (nw_pc k) = None"
  shows "ninv (worker_section w k s)"
proof -
  have I: "jobs_ok (n_added s) (n_jobs s) (n_ran s @ n_dropped s) (nheld s)" "no_lost_wakeup s"
    using inv by (simp_all add: ninv_def)
  have free: "nheld s w = None" using k by (simp add: nheld_def)
  then have same: "(nheld s)(w := None) = nheld s" by (simp add: fun_upd_idem)
  consider (wait) "n_jobs s = []" "nw_terminate k = 0" | (stop) "nw_terminate k \<noteq> 0"
    | (take) j js where "n_jobs s = j # js" "nw_terminate k = 0" by (cases "n_jobs s") auto
  then show ?thesis
  proof cases
    case wait
    then have "no_lost_wakeup (ngoto w N_Wait s)" using k I(2) by (intro no_lost_wakeup_set) auto
    then show ?thesis using wait I k by (simp add: worker_section_def ninv_def nheld_set same)
  next
    case stop
    then have "no_lost_wakeup (ngoto w N_Exit s)" using k I(2) by (intro no_lost_wakeup_set) auto
    then show ?thesis using stop I k by (simp add: worker_section_def ninv_def nheld_set same)
  next
    case take
    let ?s = "s\<lparr>n_jobs := js\<rparr>"
    have "no_lost_wakeup (ngoto w (N_Run j) ?s)"
      using I(2) by (intro no_lost_wakeup_set) (auto simp: no_lost_wakeup_cong [of ?s s])
    moreover have "jobs_ok (n_added s) js (n_ran s @ n_dropped s) ((nheld s)(w := Some j))"
      using I(1) free take(1) by (intro jobs_ok_take) simp_all
    moreover have "nheld ?s = nheld s" by (rule nheld_cong) simp
    ultimately show ?thesis using take k by (simp add: worker_section_def ninv_def nheld_set)
  qed
qed

lemma worker_inv:
  assumes inv: "ninv s" and run: "ntyWorkerThread w s = Some s'"
  shows "ninv s'"
proof -
  obtain k where k: "n_state s w = Some k" using run by (auto simp: ntyWorkerThread_def split: option.splits)
  have I: "jobs_ok (n_added s) (n_jobs s) (n_ran s @ n_dropped s) (nheld s)" "no_lost_wakeup s"
    using inv by (simp_all add: ninv_def)
  show ?thesis
  proof (cases "nw_pc k")
    case (N_Run j)
    let ?s = "s\<lparr>n_ran := n_ran s @ [j]\<rparr>"
    have "nheld s w = Some j" using k N_Run by (simp add: nheld_def)
    with I(1) have "jobs_ok (n_added s) (n_jobs s) ((n_ran s @ n_dropped s) @ [j]) ((nheld s)(w := None))" by (rule jobs_ok_done)
    then have "jobs_ok (n_added s) (n_jobs s) (n_ran s @ [j] @ n_dropped s) ((nheld s)(w := None))"
      using jobs_ok_perm [of _ _ "n_ran s" "n_dropped s" "[j]"] by simp
    moreover have "no_lost_wakeup (ngoto w N_Loop ?s)"
      using I(2) by (intro no_lost_wakeup_set) (auto simp: no_lost_wakeup_cong [of ?s s])
    moreover have "nheld ?s = nheld s" by (rule nheld_cong) simp
    ultimately show ?thesis using run k N_Run by (auto simp: ntyWorkerThread_def ninv_def nheld_set)
  next
    case N_Exit
    then have s': "s' = s\<lparr>n_state := (n_state s)(w := None)\<rparr>" using run k by (simp add: ntyWorkerThread_def)
    have "nheld s' = nheld s" using k N_Exit by (auto simp: s' nheld_def fun_eq_iff)
    moreover have "no_lost_wakeup s'" using I(2) by (auto simp: s' no_lost_wakeup_def split: if_splits)
    ultimately show ?thesis using I(1) by (simp add: ninv_def) (simp add: s')
  qed (use run k section_inv [OF inv k] in \<open>auto simp: ntyWorkerThread_def\<close>)
qed

lemma shutdown_inv:
  assumes inv: "ninv s" and run: "ntyThreadPoolShutdown s = Some (Inr s')"
  shows "ninv s'"
proof -
  have I: "jobs_ok (n_added s) (n_jobs s) (n_ran s @ n_dropped s) (nheld s)" "no_lost_wakeup s"
    using inv by (simp_all add: ninv_def)
  have at: "shutdown_at w \<noteq> S_Idle" "shutdown_at w \<noteq> S_Done" for w by (simp_all add: shutdown_at_def)
  have moved: "no_lost_wakeup (s\<lparr>n_cursor := c\<rparr>)" "nheld (s\<lparr>n_cursor := c\<rparr>) = nheld s" if "c \<notin> {S_Idle, S_Done}" for c
    using I(2) that by (auto simp: no_lost_wakeup_def intro: nheld_cong)
  show ?thesis
  proof (cases "n_cursor s")
    case S_Clear
    let ?s = "s\<lparr>n_workers := (0, snd (n_workers s)), n_dropped := n_dropped s @ n_jobs s, n_jobs := [], n_cursor := S_Done\<rparr>"
    have s': "s' = nwake (nwaiting s) ?s" using run S_Clear by (simp add: ntyThreadPoolShutdown_def)
    have W: "nwaiting ?s = nwaiting s" by (simp add: nwaiting_def)
    then have "nheld s' = nheld ?s" unfolding s' by (intro nheld_wake) simp
    also have "\<dots> = nheld s" by (rule nheld_cong) simp
    finally have "jobs_ok (n_added s') (n_jobs s') (n_ran s' @ n_dropped s') (nheld s')"
      using jobs_ok_drop [OF I(1)] by (simp add: s')
    moreover have "no_lost_wakeup s'" by (auto simp: s' no_lost_wakeup_def nwake_def nwaiting_def split: if_splits)
    ultimately show ?thesis by (simp add: ninv_def)
  next
    case (S_Write w)
    then obtain k where k: "n_state s w = Some k"
      and s': "s' = set_nworker w (\<lambda>k. k\<lparr>nw_terminate := 1\<rparr>) (s\<lparr>n_cursor := S_Next w\<rparr>)"
      using run by (auto simp: ntyThreadPoolShutdown_def split: option.splits)
    have "no_lost_wakeup s'" unfolding s' using moved(1) [of "S_Next w"] by (intro no_lost_wakeup_set) auto
    moreover have "nheld s' = nheld s" using k moved(2) [of "S_Next w"] by (auto simp: s' nheld_set nheld_def fun_eq_iff)
    ultimately show ?thesis using I(1) by (simp add: ninv_def) (simp add: s')
  qed (use run I moved [of "shutdown_at _"] at in \<open>auto simp: ntyThreadPoolShutdown_def ninv_def split: option.splits\<close>)
qed

lemma queue_inv:
  assumes inv: "ninv s" and "j \<notin> set (n_added s)" and W: "W \<subseteq> nwaiting s"
  shows "ninv (ntyThreadPoolQueue W j s)"
proof -
  let ?s = "s\<lparr>n_jobs := j # n_jobs s, n_added := n_added s @ [j]\<rparr>"
  have "W \<subseteq> nwaiting ?s" using W by (simp add: nwaiting_def)
  then have "nheld (nwake W ?s) = nheld s" using nheld_cong [of ?s s] by (simp add: nheld_wake)
  moreover have "no_lost_wakeup (nwake W ?s)"
    using inv no_lost_wakeup_cong [of ?s s] by (intro no_lost_wakeup_wake) (simp add: ninv_def)
  ultimately show ?thesis using inv jobs_ok_add assms(2) by (auto simp: ninv_def ntyThreadPoolQueue_def)
qed

lemma nstep_inv:
  assumes inv: "ninv s" and step: "nstep s s'"
  shows "ninv s'"
  using step
proof cases
  case (nwork w)
  with inv show ?thesis by (blast intro: worker_inv)
next
  case (nspurious w)
  then have "nheld s' = nheld s" by (simp add: nheld_wake)
  then show ?thesis using inv nspurious by (simp add: ninv_def no_lost_wakeup_wake)
next
  case (nqueue j W)
  with inv show ?thesis by (simp add: queue_inv)
next
  case (nspawn w)
  then have "nheld s' = nheld s" by (auto simp: nheld_def nspawn_def fun_eq_iff)
  moreover have "no_lost_wakeup s'" using inv nspawn by (auto simp: ninv_def no_lost_wakeup_def nspawn_def split: if_splits)
  ultimately show ?thesis using inv by (simp add: ninv_def) (simp add: nspawn nspawn_def)
next
  case (nenlist w)
  then have "nheld s' = nheld s" "no_lost_wakeup s' = no_lost_wakeup s"
    by (simp_all add: nenlist_def nheld_def no_lost_wakeup_def fun_eq_iff)
  then show ?thesis using inv by (simp add: ninv_def) (simp add: nenlist nenlist_def)
next
  case nshutdown
  with inv show ?thesis by (blast intro: shutdown_inv)
qed

lemma ninit_inv: "ninit s \<Longrightarrow> ninv s"
  by (auto simp: ninit_def ninv_def empty_nqueue_def jobs_ok_def nheld_def no_lost_wakeup_def)

interpretation wq: invariant_system ninit nstep ninv
  by unfold_locales (auto intro: ninit_inv nstep_inv)

subsection \<open>Properties\<close>

text \<open>
  C11. In every reachable state of the pool of \<open>tp.c\<close>, under every interleaving, each job that was handed in is in exactly one
  place: queued, with one worker, or done or discarded by the shutdown, and none is done
  twice; and once the shutdown is over no worker that was told to stop waits on the condition
  variable, so that no wake-up is lost.
\<close>

theorem work_queue_accounts_jobs:
  assumes "reachable ninit nstep s"
  shows "set (n_added s) = set (n_jobs s) \<union> set (n_ran s) \<union> set (n_dropped s) \<union> {j. \<exists>w. nheld s w = Some j} \<and>
    distinct (n_jobs s @ n_ran s @ n_dropped s) \<and>
    (\<forall>w w' j. nheld s w = Some j \<and> nheld s w' = Some j \<longrightarrow> w = w') \<and>
    (\<forall>w j. nheld s w = Some j \<longrightarrow> j \<notin> set (n_jobs s @ n_ran s @ n_dropped s)) \<and>
    (n_cursor s = S_Done \<longrightarrow> (\<forall>w k. n_state s w = Some k \<and> nw_terminate k \<noteq> 0 \<longrightarrow> nw_pc k \<noteq> N_Wait))"
proof -
  have "ninv s" using assms by (rule wq.reachable_inv)
  then have "jobs_ok (n_added s) (n_jobs s) (n_ran s @ n_dropped s) (nheld s)" "no_lost_wakeup s"
    by (simp_all add: ninv_def)
  then show ?thesis unfolding jobs_ok_def no_lost_wakeup_def by auto
qed

lemmas nreach_step = reachable.extend [of ninit nstep]

fun run_nworker :: "nat \<Rightarrow> addr \<Rightarrow> nThreadPool \<Rightarrow> nThreadPool" where
  "run_nworker 0 w s = s"
| "run_nworker (Suc n) w s = (case ntyWorkerThread w s of None \<Rightarrow> s | Some s' \<Rightarrow> run_nworker n w s')"

lemma run_nworker_reachable:
  "reachable ninit nstep s \<Longrightarrow> reachable ninit nstep (run_nworker n w s)"
proof (induction n arbitrary: s)
  case (Suc n)
  show ?case
  proof (cases "ntyWorkerThread w s")
    case (Some s')
    from Suc.IH [OF nreach_step [OF Suc.prems nstep.nwork [OF Some]]] Some show ?thesis by simp
  qed (use Suc.prems in simp)
qed simp

definition example_h :: qheap where
  "example_h = \<lparr>q_next = (\<lambda>_. 0), q_prev = (\<lambda>_. 0)\<rparr>"

definition example_nq :: nThreadPool where
  "example_nq = snd (ntyThreadPoolCreate [(1, True)] example_h 0)"

lemma example_nq_eq: "example_nq = nenlist 1 (nspawn 1 (empty_nqueue example_h))"
  by (simp add: example_nq_def ntyThreadPoolCreate_def)

lemmas example_nq_defs = example_nq_eq nenlist_def nspawn_def empty_nqueue_def example_h_def LL_ADD_def set_next_def set_prev_def

lemma example_nq_reachable: "reachable ninit nstep example_nq"
proof -
  have "ninit (empty_nqueue example_h)" by (auto simp: ninit_def)
  then have "reachable ninit nstep (empty_nqueue example_h)" by (rule reachable.start)
  moreover have "nstep (empty_nqueue example_h) (nspawn 1 (empty_nqueue example_h))"
    by (rule nstep.nspawn) (simp_all add: empty_nqueue_def)
  ultimately have "reachable ninit nstep (nspawn 1 (empty_nqueue example_h))" by (rule nreach_step)
  moreover have "nstep (nspawn 1 (empty_nqueue example_h)) example_nq"
    unfolding example_nq_eq by (rule nstep.nenlist) (simp_all add: nspawn_def empty_nqueue_def)
  ultimately show ?thesis by (rule nreach_step)
qed

text \<open>One job, queued and run.\<close>

lemma example_nq_busy:
  "reachable ninit nstep (run_nworker 2 1 (ntyThreadPoolQueue {} 7 example_nq))"
proof -
  have "nwaiting example_nq = {}" by (auto simp: nwaiting_def example_nq_defs split: if_splits)
  then have "nstep example_nq (ntyThreadPoolQueue {} 7 example_nq)"
    by (intro nstep.nqueue) (auto simp: example_nq_defs)
  from nreach_step [OF example_nq_reachable this] show ?thesis by (rule run_nworker_reachable)
qed

theorem work_queue_accounts_jobs_witness:
  "let s = run_nworker 2 1 (ntyThreadPoolQueue {} 7 example_nq)
   in n_ran s = [7] \<and> set (n_added s) = set (n_jobs s) \<union> set (n_ran s) \<union> set (n_dropped s) \<union> {j. \<exists>w. nheld s w = Some j}"
proof -
  have "n_ran (run_nworker 2 1 (ntyThreadPoolQueue {} 7 example_nq)) = [7]"
    by (simp add: numeral_2_eq_2 ntyWorkerThread_def worker_section_def ntyThreadPoolQueue_def nwake_def set_nworker_def example_nq_defs)
  then show ?thesis using work_queue_accounts_jobs [OF example_nq_busy] unfolding Let_def by blast
qed

text \<open>How many steps of its own a worker that was told to stop needs at most until it is gone.\<close>

definition steps_left :: "nThreadPool \<Rightarrow> addr \<Rightarrow> nat" where
  "steps_left s w =
     (case n_state s w of
        None \<Rightarrow> 0
      | Some k \<Rightarrow> (case nw_pc k of N_Run j \<Rightarrow> 3 | N_Exit \<Rightarrow> 1 | _ \<Rightarrow> 2))"

definition stopping :: "nThreadPool \<Rightarrow> addr \<Rightarrow> bool" where
  "stopping s w \<longleftrightarrow> n_cursor s = S_Done \<and> (\<forall>k. n_state s w = Some k \<longrightarrow> nw_terminate k \<noteq> 0)"

lemma stopping_own_step:
  assumes "ninv s" and "stopping s w" and k: "n_state s w = Some k"
  shows "\<exists>s'. ntyWorkerThread w s = Some s' \<and> stopping s' w \<and> steps_left s' w < steps_left s w"
proof -
  have "nw_terminate k \<noteq> 0" "nw_pc k \<noteq> N_Wait"
    using assms by (auto simp: ninv_def no_lost_wakeup_def stopping_def)
  then show ?thesis using assms(2) k
    by (cases "nw_pc k") (auto simp: ntyWorkerThread_def worker_section_def stopping_def steps_left_def nstate_set)
qed

lemma stopping_other_worker:
  assumes "ntyWorkerThread v s = Some s'" and "v \<noteq> w"
  shows "n_state s' w = n_state s w \<and> n_cursor s' = n_cursor s"
  using assms
  by (auto simp: ntyWorkerThread_def worker_section_def nstate_set Let_def split: option.splits npc.splits if_splits)

lemma stopping_wake: "W \<subseteq> nwaiting s \<Longrightarrow> stopping (nwake W s) w = stopping s w \<and> steps_left (nwake W s) w = steps_left s w"
  by (cases "n_state s w") (auto simp: stopping_def steps_left_def nwake_def nwaiting_def)

lemma stopping_step:
  assumes inv: "ninv s" and stop: "stopping s w" and step: "nstep s s'"
  shows "stopping s' w \<and> steps_left s' w \<le> steps_left s w"
  using step
proof cases
  case (nwork v)
  show ?thesis
  proof (cases "v = w")
    case True
    then obtain k where k: "n_state s w = Some k" using nwork by (auto simp: ntyWorkerThread_def split: option.splits)
    from stopping_own_step [OF inv stop k] show ?thesis using nwork True by auto
  next
    case False
    from stopping_other_worker [OF nwork this] stop show ?thesis by (simp add: stopping_def steps_left_def)
  qed
next
  case (nspurious v)
  then show ?thesis using stop by (simp add: stopping_wake)
next
  case (nqueue j W)
  let ?s = "s\<lparr>n_jobs := j # n_jobs s, n_added := n_added s @ [j]\<rparr>"
  have "W \<subseteq> nwaiting ?s" "stopping ?s w" "steps_left ?s w = steps_left s w"
    using nqueue stop by (simp_all add: nwaiting_def stopping_def steps_left_def)
  then show ?thesis using nqueue by (simp add: ntyThreadPoolQueue_def stopping_wake)
qed (use stop in \<open>simp_all add: stopping_def ntyThreadPoolShutdown_def\<close>)

text \<open>
  C19. After the shutdown of the pool of \<open>tp.c\<close> every worker that was told to stop ends: in every reachable state it
  can take a step, each step of its own brings it closer to its end, no step of anybody
  else takes it further away, and three steps of its own are enough.
\<close>

theorem work_queue_stops:
  assumes "reachable ninit nstep s" and "n_cursor s = S_Done" and "n_state s w = Some k" and "nw_terminate k \<noteq> 0"
  shows "(\<exists>s'. ntyWorkerThread w s = Some s' \<and> steps_left s' w < steps_left s w) \<and> steps_left s w \<le> 3 \<and>
    (\<forall>s'. nstep s s' \<longrightarrow> stopping s' w \<and> steps_left s' w \<le> steps_left s w) \<and>
    n_state (run_nworker 3 w s) w = None"
proof -
  have inv: "ninv s" using assms(1) by (rule wq.reachable_inv)
  have stop: "stopping s w" using assms by (simp add: stopping_def)
  have gone: "steps_left s w \<le> n \<Longrightarrow> ninv s \<Longrightarrow> stopping s w \<Longrightarrow> n_state (run_nworker n w s) w = None" for n s
  proof (induction n arbitrary: s)
    case 0
    then show ?case by (auto simp: steps_left_def split: option.splits npc.splits)
  next
    case (Suc n)
    show ?case
    proof (cases "n_state s w")
      case None
      then show ?thesis by (simp add: ntyWorkerThread_def)
    next
      case (Some k)
      from stopping_own_step [OF Suc.prems(2,3) Some] obtain s' where
        s': "ntyWorkerThread w s = Some s'" "stopping s' w" "steps_left s' w < steps_left s w" by blast
      then show ?thesis using Suc.IH [OF _ worker_inv [OF Suc.prems(2) s'(1)] s'(2)] Suc.prems(1) by simp
    qed
  qed
  have three: "steps_left s w \<le> 3" by (auto simp: steps_left_def split: option.splits npc.splits)
  then show ?thesis
    using gone [OF three inv stop] stopping_own_step [OF inv stop assms(3)] stopping_step [OF inv stop] by blast
qed

fun run_shutdown :: "nat \<Rightarrow> nThreadPool \<Rightarrow> nThreadPool" where
  "run_shutdown 0 s = s"
| "run_shutdown (Suc n) s = (case ntyThreadPoolShutdown s of Some (Inr s') \<Rightarrow> run_shutdown n s' | _ \<Rightarrow> s)"

lemma run_shutdown_reachable:
  "reachable ninit nstep s \<Longrightarrow> reachable ninit nstep (run_shutdown n s)"
proof (induction n arbitrary: s)
  case (Suc n)
  then show ?case using nreach_step [OF Suc.prems nstep.nshutdown]
    by (auto split: option.splits sum.splits)
qed simp

lemmas run_defs = ntyWorkerThread_def worker_section_def ntyThreadPoolShutdown_def shutdown_at_def nwake_def nwaiting_def set_nworker_def

text \<open>The worker waits; the shutdown runs as a whole.\<close>

theorem work_queue_stops_witness:
  "let s = run_shutdown 4 (run_nworker 1 1 example_nq)
   in nwaiting (run_nworker 1 1 example_nq) = {1} \<and> n_cursor s = S_Done \<and> n_state (run_nworker 3 1 s) 1 = None"
proof -
  let ?s = "run_shutdown 4 (run_nworker 1 1 example_nq)"
  have r: "reachable ninit nstep ?s"
    by (intro run_shutdown_reachable run_nworker_reachable example_nq_reachable)
  have fin: "n_cursor ?s = S_Done" and k: "n_state ?s 1 = Some \<lparr>nw_pc = N_Woken, nw_terminate = 1\<rparr>"
    by (simp_all add: eval_nat_numeral run_defs example_nq_defs)
  have w: "nwaiting (run_nworker 1 1 example_nq) = {1}"
    by (auto simp: run_defs example_nq_defs)
  from work_queue_stops [OF r fin k] have "n_state (run_nworker 3 1 ?s) 1 = None" by simp
  then show ?thesis using w fin unfolding Let_def by blast
qed

definition shutdown_race :: nThreadPool where
  "shutdown_race = run_nworker 2 1 (run_shutdown 2 example_nq)"

text \<open>
  The walk of \<open>ntyThreadPoolShutdown\<close> over the workers races with their end: there is a reachable state in which
  the worker it has just told to stop has already freed itself, and the load of
  \<open>worker->next\<close> reads freed memory.
\<close>

theorem work_queue_shutdown_race:
  "reachable ninit nstep shutdown_race \<and> ntyThreadPoolShutdown shutdown_race = Some (Inl Wild_Pointer)"
proof
  show "reachable ninit nstep shutdown_race" unfolding shutdown_race_def
    by (intro run_nworker_reachable run_shutdown_reachable example_nq_reachable)
  show "ntyThreadPoolShutdown shutdown_race = Some (Inl Wild_Pointer)"
    by (simp add: shutdown_race_def numeral_2_eq_2 run_defs example_nq_defs)
qed

end
