(* ===== verification/EpollServers.thy ===== *)
theory EpollServers
  imports EventLoop "HOL-Library.Sublist"
begin

text \<open>
  The servers built on \<open>EventLoop\<close> that do no protocol work of their own: \<open>epoll/epoll_v1.c\<close>
  answers every message with a constant, \<open>epoll/epoll_v2.c\<close> and \<open>c10M/server.c\<close> echo it (the latter on a hundred ports),
  and \<open>websocket/websocket.c\<close> is the skeleton of a WebSocket server whose handshake is empty. Each has its
  three callbacks and its \<open>main\<close>. The creation of the epoll instance is taken to succeed.
\<close>

subsection \<open>epoll\_v1.c\<close>

definition accept_callback_v1 :: "fd \<Rightarrow> sockitem os \<Rightarrow> sockitem server \<Rightarrow> (int \<times> sockitem server) cresult" where
  "accept_callback_v1 listen_fd o' s =
     (let client_fd = os_accept o'; (p, junk) = os_malloc o'
      in if client_fd < 0 then Inr (-1, s)
         else rbind (add_item (os_ctl o') (EPOLLIN OR EPOLLET) client_fd p (junk\<lparr>sock_fd := client_fd, callback := Recv_CB\<rparr>) (open_fd client_fd s))
                (\<lambda>s. Inr (client_fd, s)))"

definition recv_callback_v1 :: "fd \<Rightarrow> ptr \<Rightarrow> sockitem os \<Rightarrow> sockitem server \<Rightarrow> (int \<times> sockitem server) cresult" where
  "recv_callback_v1 fd p o' s =
     (case os_recv o' of
        Recv_Again \<Rightarrow> Inr (-1, s)
      | Recv_Failed \<Rightarrow> rbind (drop_client fd p s) (\<lambda>s. Inr (0, s))
      | Recv_Data d \<Rightarrow>
          if d = [] then rbind (drop_client fd p s) (\<lambda>s. Inr (0, s))
          else rbind (c_string (memcpy_at (replicate BUFFER_SIZE 0) 0 d)) (\<lambda>_.
               rbind (rearm Send_CB (EPOLLOUT OR EPOLLET) fd p (log_in fd d s)) (\<lambda>s. Inr (0, s))))"

text \<open>The five bytes of the literal \<open>"ok!!"\<close>, the final zero included.\<close>

definition ok_reply :: bytes where
  "ok_reply = [0x6F, 0x6B, 0x21, 0x21, 0]"

definition send_callback_v1 :: "fd \<Rightarrow> ptr \<Rightarrow> sockitem os \<Rightarrow> sockitem server \<Rightarrow> (int \<times> sockitem server) cresult" where
  "send_callback_v1 fd p o' s =
     rbind (rearm Recv_CB (EPOLLIN OR EPOLLET) fd p (send fd ok_reply o' s)) (\<lambda>s. Inr (0, s))"

fun call_v1 :: "handler \<Rightarrow> fd \<Rightarrow> ptr \<Rightarrow> sockitem os \<Rightarrow> sockitem server \<Rightarrow> (int \<times> sockitem server) cresult" where
  "call_v1 Accept_CB fd p o' s = accept_callback_v1 fd o' s"
| "call_v1 Recv_CB fd p o' s = recv_callback_v1 fd p o' s"
| "call_v1 Send_CB fd p o' s = send_callback_v1 fd p o' s"

text \<open>The results of the calls that set up a listening socket.\<close>

record listen_os =
  l_socket :: int
  l_bind :: int
  l_listen :: int
  l_ctl :: int

definition main_v1 ::
  "int \<Rightarrow> listen_os \<Rightarrow> ptr \<times> sockitem \<Rightarrow> (int \<times> sockitem event list) list \<Rightarrow> sockitem server \<Rightarrow> (int \<times> sockitem server) cresult" where
  "main_v1 argc l m bs s =
     (if argc < 2 then Inr (-1, s)
      else if l_socket l < 0 then Inr (-1, s)
      else let s = open_fd (l_socket l) s
      in if l_bind l < 0 then Inr (-2, s)
      else if l_listen l < 0 then Inr (-3, s)
      else rbind (add_item (l_ctl l) EPOLLIN (l_socket l) (fst m) ((snd m)\<lparr>sock_fd := l_socket l, callback := Accept_CB\<rparr>) s) (\<lambda>s.
           rbind (event_loop (handle_event call_v1) bs s) (\<lambda>s. Inr (0, s))))"

subsection \<open>epoll\_v2.c\<close>

definition accept_callback_v2 :: "fd \<Rightarrow> sockitem_len os \<Rightarrow> sockitem_len server \<Rightarrow> (int \<times> sockitem_len server) cresult" where
  "accept_callback_v2 listen_fd o' s =
     (let client_fd = os_accept o'; (p, junk) = os_malloc o'
      in if client_fd < 0 then Inr (-1, s)
         else rbind (add_item (os_ctl o') (EPOLLIN OR EPOLLET) client_fd p (junk\<lparr>sock_fd := client_fd, callback := Recv_CB\<rparr>) (open_fd client_fd s))
                (\<lambda>s. Inr (client_fd, s)))"

definition recv_callback_v2 :: "fd \<Rightarrow> ptr \<Rightarrow> sockitem_len os \<Rightarrow> sockitem_len server \<Rightarrow> (int \<times> sockitem_len server) cresult" where
  "recv_callback_v2 fd p o' s =
     (case os_recv o' of
        Recv_Again \<Rightarrow> Inr (-1, s)
      | Recv_Failed \<Rightarrow> rbind (drop_client fd p s) (\<lambda>s. Inr (0, s))
      | Recv_Data d \<Rightarrow>
          if d = [] then rbind (drop_client fd p s) (\<lambda>s. Inr (0, s))
          else rbind (update_item p (\<lambda>it. it\<lparr>recv_buffer := memcpy_at (recv_buffer it) 0 d\<rparr>) (log_in fd d s)) (\<lambda>s.
               rbind (print_buffer p s) (\<lambda>s.
               rbind (update_item p (\<lambda>it. it\<lparr>rlength := int (length d)\<rparr>) s) (\<lambda>s.
               rbind (update_item p (\<lambda>it. it\<lparr>send_buffer := memcpy_at (send_buffer it) 0 (take (nat (rlength it)) (recv_buffer it)),
                                               slength := rlength it\<rparr>) s) (\<lambda>s.
               rbind (rearm Send_CB (EPOLLOUT OR EPOLLET) fd p s) (\<lambda>s. Inr (0, s)))))))"

definition send_callback_v2 :: "fd \<Rightarrow> ptr \<Rightarrow> sockitem_len os \<Rightarrow> sockitem_len server \<Rightarrow> (int \<times> sockitem_len server) cresult" where
  "send_callback_v2 fd p o' s =
     (case items s p of
        None \<Rightarrow> Inl Wild_Pointer
      | Some it \<Rightarrow>
          if slength it < 0 \<or> length (send_buffer it) < nat (slength it) then Inl Out_Of_Bounds
          else rbind (rearm Recv_CB (EPOLLIN OR EPOLLET) fd p (send fd (take (nat (slength it)) (send_buffer it)) o' s)) (\<lambda>s. Inr (0, s)))"

fun call_v2 :: "handler \<Rightarrow> fd \<Rightarrow> ptr \<Rightarrow> sockitem_len os \<Rightarrow> sockitem_len server \<Rightarrow> (int \<times> sockitem_len server) cresult" where
  "call_v2 Accept_CB fd p o' s = accept_callback_v2 fd o' s"
| "call_v2 Recv_CB fd p o' s = recv_callback_v2 fd p o' s"
| "call_v2 Send_CB fd p o' s = send_callback_v2 fd p o' s"

text \<open>\<open>r\<close> is the block of the global \<open>event_loop\<close>, whose allocation is not tested either.\<close>

definition main_v2 ::
  "int \<Rightarrow> listen_os \<Rightarrow> ptr \<Rightarrow> ptr \<times> sockitem_len \<Rightarrow> (int \<times> sockitem_len event list) list \<Rightarrow> sockitem_len server \<Rightarrow>
   (int \<times> sockitem_len server) cresult" where
  "main_v2 argc l r m bs s =
     (if argc < 2 then Inr (-1, s)
      else if l_socket l < 0 then Inr (-1, s)
      else let s = open_fd (l_socket l) s
      in if l_bind l < 0 then Inr (-2, s)
      else if l_listen l < 0 then Inr (-3, s)
      else if r = 0 then Inl Null_Deref
      else rbind (add_item (l_ctl l) EPOLLIN (l_socket l) (fst m) ((snd m)\<lparr>sock_fd := l_socket l, callback := Accept_CB\<rparr>) s) (\<lambda>s.
           rbind (event_loop (handle_event call_v2) bs s) (\<lambda>s. Inr (0, s))))"

subsection \<open>c10M/server.c\<close>



definition recv_callback_c10M :: "fd \<Rightarrow> ptr \<Rightarrow> sockitem_len os \<Rightarrow> sockitem_len server \<Rightarrow> (int \<times> sockitem_len server) cresult" where
  "recv_callback_c10M fd p o' s =
     (case os_recv o' of
        Recv_Again \<Rightarrow> Inr (-1, s)
      | Recv_Failed \<Rightarrow> rbind (drop_client fd p s) (\<lambda>s. Inr (0, s))
      | Recv_Data d \<Rightarrow>
          if d = [] then rbind (drop_client fd p s) (\<lambda>s. Inr (0, s))
          else rbind (update_item p (\<lambda>it. it\<lparr>recv_buffer := memcpy_at (recv_buffer it) 0 d\<rparr>) (log_in fd d s)) (\<lambda>s.
               rbind (print_buffer p s) (\<lambda>s.
               rbind (update_item p (\<lambda>it. it\<lparr>rlength := int (length d)\<rparr>) s) (\<lambda>s.
               rbind (update_item p (\<lambda>it. it\<lparr>send_buffer := memcpy_at (send_buffer it) 0 (take (nat (rlength it)) (recv_buffer it)),
                                               slength := rlength it\<rparr>) s) (\<lambda>s.
               rbind (rearm Send_CB (EPOLLOUT OR EPOLLET) fd p s) (\<lambda>s. Inr (0, s)))))))"






subsection \<open>websocket.c\<close>

datatype ws_status = WS_INIT | WS_HANDSHAKE | WS_DATATTRANSFROM | WS_DATAEND

record ws_sockitem = sockitem_len +
  status :: ws_status

definition accept_callback_ws :: "fd \<Rightarrow> ws_sockitem os \<Rightarrow> ws_sockitem server \<Rightarrow> (int \<times> ws_sockitem server) cresult" where
  "accept_callback_ws listen_fd o' s =
     (let client_fd = os_accept o'; (p, junk) = os_malloc o'
      in if client_fd < 0 then Inr (-1, s)
         else rbind (add_item (os_ctl o') (EPOLLIN OR EPOLLET) client_fd p
                       (junk\<lparr>sock_fd := client_fd, status := WS_HANDSHAKE, callback := Recv_CB\<rparr>) (open_fd client_fd s))
                (\<lambda>s. Inr (client_fd, s)))"

text \<open>\<open>ws_handshake\<close> has no effect.\<close>

definition ws_handshake :: "ptr \<Rightarrow> ws_sockitem server \<Rightarrow> int \<times> ws_sockitem server" where
  "ws_handshake p s = (0, s)"

definition recv_callback_ws :: "fd \<Rightarrow> ptr \<Rightarrow> ws_sockitem os \<Rightarrow> ws_sockitem server \<Rightarrow> (int \<times> ws_sockitem server) cresult" where
  "recv_callback_ws fd p o' s =
     (case os_recv o' of
        Recv_Again \<Rightarrow> Inr (-1, s)
      | Recv_Failed \<Rightarrow> rbind (drop_client fd p s) (\<lambda>s. Inr (0, s))
      | Recv_Data d \<Rightarrow>
          if d = [] then rbind (drop_client fd p s) (\<lambda>s. Inr (0, s))
          else rbind (update_item p (\<lambda>it. it\<lparr>recv_buffer := memcpy_at (recv_buffer it) 0 d\<rparr>) (log_in fd d s)) (\<lambda>s.
               rbind (print_buffer p s) (\<lambda>s.
            let s = (case map_option status (items s p) of Some WS_HANDSHAKE \<Rightarrow> snd (ws_handshake p s) | _ \<Rightarrow> s)
            in rbind (rearm Send_CB (EPOLLOUT OR EPOLLET) fd p s) (\<lambda>s. Inr (0, s)))))"

definition send_callback_ws :: "fd \<Rightarrow> ptr \<Rightarrow> ws_sockitem os \<Rightarrow> ws_sockitem server \<Rightarrow> (int \<times> ws_sockitem server) cresult" where
  "send_callback_ws fd p o' s =
     (case items s p of
        None \<Rightarrow> Inl Wild_Pointer
      | Some it \<Rightarrow>
          if slength it < 0 \<or> length (send_buffer it) < nat (slength it) then Inl Out_Of_Bounds
          else rbind (rearm Recv_CB (EPOLLIN OR EPOLLET) fd p (send fd (take (nat (slength it)) (send_buffer it)) o' s)) (\<lambda>s. Inr (0, s)))"

fun call_ws :: "handler \<Rightarrow> fd \<Rightarrow> ptr \<Rightarrow> ws_sockitem os \<Rightarrow> ws_sockitem server \<Rightarrow> (int \<times> ws_sockitem server) cresult" where
  "call_ws Accept_CB fd p o' s = accept_callback_ws fd o' s"
| "call_ws Recv_CB fd p o' s = recv_callback_ws fd p o' s"
| "call_ws Send_CB fd p o' s = send_callback_ws fd p o' s"

definition main_ws ::
  "int \<Rightarrow> listen_os \<Rightarrow> ptr \<Rightarrow> ptr \<times> ws_sockitem \<Rightarrow> (int \<times> ws_sockitem event list) list \<Rightarrow> ws_sockitem server \<Rightarrow>
   (int \<times> ws_sockitem server) cresult" where
  "main_ws argc l r m bs s =
     (if argc < 2 then Inr (-1, s)
      else if l_socket l < 0 then Inr (-1, s)
      else let s = open_fd (l_socket l) s
      in if l_bind l < 0 then Inr (-2, s)
      else if l_listen l < 0 then Inr (-3, s)
      else if r = 0 then Inl Null_Deref
      else rbind (add_item (l_ctl l) EPOLLIN (l_socket l) (fst m)
                   ((snd m)\<lparr>sock_fd := l_socket l, status := WS_INIT, callback := Accept_CB\<rparr>) s) (\<lambda>s.
           rbind (event_loop (handle_event call_ws) bs s) (\<lambda>s. Inr (0, s))))"

subsection \<open>The contracts of the callbacks\<close>

text \<open>
  \<open>send\<close> may take any part of what it is given, or fail. Whatever it does the servers keep their items and
  buffers intact and send no other bytes than they should; when it always takes the whole buffer
  (\<open>full\<close>), they also send all of them.
\<close>

definition full_send :: "bool \<Rightarrow> 'i os \<Rightarrow> bool" where
  "full_send full o' \<longleftrightarrow> (full \<longrightarrow> int BUFFER_SIZE \<le> os_send o')"

definition buffers_ok :: "'a sockitem_scheme \<Rightarrow> bool" where
  "buffers_ok it \<longleftrightarrow> length (recv_buffer it) = BUFFER_SIZE \<and> length (send_buffer it) = BUFFER_SIZE"

definition replies_ok :: "bool \<Rightarrow> bytes \<Rightarrow> bytes \<Rightarrow> sockitem \<Rightarrow> bool" where
  "replies_ok full i u it \<longleftrightarrow> (\<exists>rs. u = concat rs \<and> (\<forall>r\<in>set rs. prefix r ok_reply \<and> (full \<longrightarrow> r = ok_reply)))"




lemma os_okD:
  assumes "os_ok J s o'"
  shows "0 \<le> os_accept o' \<Longrightarrow> os_accept o' \<notin> opened s" "fst (os_malloc o') \<noteq> 0" "items s (fst (os_malloc o')) = None"
    "J (snd (os_malloc o'))" "os_recv o' = Recv_Data d \<Longrightarrow> length d \<le> BUFFER_SIZE"
  using assms by (auto simp: os_ok_def)

lemma memcpy_at_0 [simp]: "take (length d) (memcpy_at b 0 d) = d"
  by (simp add: memcpy_at_def)

lemma unprinted_message: "c_string (memcpy_at b 0 d) = Inl x \<Longrightarrow> x = Out_Of_Bounds \<and> 0 \<notin> set d"
  by (auto simp: c_string_def memcpy_at_def split: if_splits)

lemma v1_recv_ok:
  assumes inv: "server_inv (replies_ok full) s" and reg: "interest s fd = Some (ev, p)"
  shows "returns_ok (replies_ok full) (overread o') fd s (recv_callback_v1 fd p o' s)"
proof -
  obtain it where it: "items s p = Some it" "sock_fd it = fd" "replies_ok full (in_bytes s fd) (out_bytes s fd) it"
    using server_inv_conn [OF inv reg] by (auto simp: conn_ok_def)
  have run: "returns_ok (replies_ok full) (overread o') fd s (rbind (rearm Send_CB (EPOLLOUT OR EPOLLET) fd p (log_in fd d s)) (\<lambda>s. Inr (0, s)))" for d
    by (intro returns_ok_const switch_rearm [OF inv reg, where it = it and i = "in_bytes s fd @ d" and u = "out_bytes s fd"])
      (use it in \<open>auto simp: log_in_def replies_ok_def map_upd_triv\<close>)
  show ?thesis
  proof (cases "os_recv o'")
    case (Recv_Data d)
    show ?thesis
    proof (cases "c_string (memcpy_at (replicate BUFFER_SIZE 0) 0 d)")
      case (Inl x)
      then have "returns_ok (replies_ok full) (overread o') fd s (Inl x)"
        using Recv_Data unprinted_message [OF Inl] by (simp add: returns_ok_def overread_def)
      then show ?thesis using Recv_Data Inl drop_step [OF inv reg] by (simp add: recv_callback_v1_def returns_ok_const)
    qed (use Recv_Data run drop_step [OF inv reg] in \<open>simp add: recv_callback_v1_def returns_ok_const\<close>)
  qed (use drop_step [OF inv reg] inv in \<open>simp_all add: recv_callback_v1_def returns_ok_const returns_ok_same\<close>)
qed

lemma v1_send_ok:
  assumes inv: "server_inv (replies_ok full) s" and reg: "interest s fd = Some (ev, p)" and "full_send full o'"
  shows "returns_ok (replies_ok full) P fd s (send_callback_v1 fd p o' s)"
proof -
  let ?r = "take (nat (os_send o')) ok_reply"
  obtain it rs where it: "items s p = Some it" "sock_fd it = fd" "out_bytes s fd = concat rs"
      "\<forall>r\<in>set rs. prefix r ok_reply \<and> (full \<longrightarrow> r = ok_reply)"
    using server_inv_conn [OF inv reg] by (auto simp: conn_ok_def replies_ok_def)
  have r: "prefix ?r ok_reply" "full \<longrightarrow> ?r = ok_reply"
    using assms(3) by (auto simp: take_is_prefix full_send_def BUFFER_SIZE_def ok_reply_def)
  have "replies_ok full i (out_bytes s fd @ ?r) x" for i x
    unfolding replies_ok_def by (rule exI [of _ "rs @ [?r]"]) (use it(3,4) r in auto)
  then have "\<exists>s'. rearm Recv_CB (EPOLLIN OR EPOLLET) fd p (send fd ok_reply o' s) = Inr s' \<and> server_inv (replies_ok full) s' \<and> others_kept fd s s'"
    by (intro switch_rearm [OF inv reg, where it = it and i = "in_bytes s fd" and u = "out_bytes s fd @ ?r"])
      (use it in \<open>auto simp: send_def map_upd_triv\<close>)
  then show ?thesis unfolding send_callback_v1_def by (rule returns_ok_const)
qed

lemma v1_accept_ok:
  assumes inv: "server_inv (replies_ok full) s" and os: "os_ok J s o'"
  shows "returns_ok (replies_ok full) P fd s (accept_callback_v1 fd o' s)"
proof (cases "os_accept o' < 0")
  case True
  then show ?thesis using inv by (simp add: accept_callback_v1_def Let_def split_beta returns_ok_same)
next
  case False
  have "replies_ok full [] [] ((snd (os_malloc o'))\<lparr>sock_fd := os_accept o', callback := Recv_CB\<rparr>)"
    by (auto simp: replies_ok_def intro: exI [of _ "[]"])
  with accept_step [OF inv os_okD(1) [OF os] _ os_okD(2,3) [OF os]] False show ?thesis
    by (auto simp: accept_callback_v1_def Let_def split_beta intro!: returns_ok_const)
qed

interpretation v1: callback_server call_v1 "replies_ok full" "\<lambda>_. True" "full_send full" overread for full
proof unfold_locales
  fix s fd it p o'
  assume A: "server_inv (replies_ok full) s" "interest s fd = Some (armed (callback it), p)" "os_ok (\<lambda>_. True) s o'" "full_send full o'"
  show "returns_ok (replies_ok full) (overread o') fd s (call_v1 (callback it) fd p o' s)"
    using v1_recv_ok [OF A(1,2)] v1_send_ok [OF A(1,2,4)] v1_accept_ok [OF A(1,3)] by (cases "callback it") simp_all
qed








subsection \<open>The servers as a whole\<close>

text \<open>The state in which \<open>main\<close> enters the loop.\<close>

definition listening :: "listen_os \<Rightarrow> ptr \<times> 'a sockitem_scheme \<Rightarrow> 'a sockitem_scheme server \<Rightarrow> 'a sockitem_scheme server" where
  "listening l m s =
     epoll_add (l_ctl l) (l_socket l) EPOLLIN (fst m)
       ((open_fd (l_socket l) s)\<lparr>items := (items s)(fst m \<mapsto> (snd m)\<lparr>sock_fd := l_socket l, callback := Accept_CB\<rparr>)\<rparr>)"

lemma listening_ok:
  assumes inv: "server_inv Q s" and l: "0 \<le> l_socket l" "l_socket l \<notin> opened s" and m: "fst m \<noteq> 0" "items s (fst m) = None"
    and q: "Q [] [] ((snd m)\<lparr>sock_fd := l_socket l, callback := Accept_CB\<rparr>)"
  shows "add_item (l_ctl l) EPOLLIN (l_socket l) (fst m) ((snd m)\<lparr>sock_fd := l_socket l, callback := Accept_CB\<rparr>) (open_fd (l_socket l) s) =
      Inr (listening l m s) \<and> server_inv Q (listening l m s)"
proof -
  let ?it = "(snd m)\<lparr>sock_fd := l_socket l, callback := Accept_CB\<rparr>" and ?s = "open_fd (l_socket l) s"
  have o1: "server_inv Q ?s" and n: "interest s (l_socket l) = None" using server_inv_open [OF inv l(2)] by simp_all
  have "interest ?s (l_socket l) = None" "items ?s (fst m) = None" "if 0 \<le> l_socket l then l_socket l \<in> opened ?s else l_socket l \<notin> opened ?s"
    "sock_fd ?it = l_socket l" "callback ?it = Accept_CB" "Q (in_bytes ?s (l_socket l)) (out_bytes ?s (l_socket l)) ?it"
    using n m l q by (simp_all add: open_fd_def)
  from listen_step [OF o1 this(1) m(1) this(2-6)] obtain s' where
    s': "add_item (l_ctl l) EPOLLIN (l_socket l) (fst m) ?it ?s = Inr s'" "server_inv Q s'" by blast
  moreover have "s' = listening l m s" using s'(1) m by (simp add: add_item_def listening_def open_fd_def)
  ultimately show ?thesis by simp
qed

definition fresh_process :: "'i server \<Rightarrow> bool" where
  "fresh_process s \<longleftrightarrow> items s = (\<lambda>_. None) \<and> interest s = (\<lambda>_. None) \<and> refused s = {}"

lemma fresh_inv: "fresh_process s \<Longrightarrow> server_inv Q s"
  by (simp add: fresh_process_def server_inv_def)


text \<open>
  A run: a client connects, sends the string \<open>hi\<close> with its zero byte, and gets it back. The listening
  socket 4 has the item \<open>lp\<close>; the state is one in which \<open>main\<close> enters the loop.
\<close>

definition blank_len :: sockitem_len where
  "blank_len = \<lparr>sock_fd = 0, callback = Accept_CB, recv_buffer = replicate 1024 255, send_buffer = replicate 1024 255, rlength = 0, slength = 0\<rparr>"

definition example_server :: "'i server" where
  "example_server = \<lparr>items = (\<lambda>_. None), interest = (\<lambda>_. None), opened = {0, 1, 2, 3}, in_bytes = (\<lambda>_. []), out_bytes = (\<lambda>_. []), refused = {}\<rparr>"

definition example_listen :: listen_os where
  "example_listen = \<lparr>l_socket = 4, l_bind = 0, l_listen = 0, l_ctl = 0\<rparr>"

definition example_os :: "int \<Rightarrow> ptr \<Rightarrow> bytes \<Rightarrow> sockitem_len os" where
  "example_os client p d = \<lparr>os_accept = client, os_malloc = (p, blank_len), os_recv = Recv_Data d, os_send = 1024, os_ctl = 0\<rparr>"

definition connect_event :: "ptr \<Rightarrow> sockitem_len event" where
  "connect_event lp = \<lparr>ev_ptr = lp, ev_events = EPOLLIN, ev_os1 = example_os 5 200 [0], ev_os2 = example_os 5 200 [0]\<rparr>"

definition data_event :: "u32 \<Rightarrow> bytes \<Rightarrow> sockitem_len event" where
  "data_event ev d = \<lparr>ev_ptr = 200, ev_events = ev, ev_os1 = example_os (-1) 300 d, ev_os2 = example_os (-1) 300 d\<rparr>"


lemmas example_server_defs = blank_len_def example_server_def example_listen_def example_os_def connect_event_def data_event_def epoll_defs

lemmas server_defs = handle_event_def dispatch_def accept_callback_v2_def recv_callback_v2_def send_callback_v2_def add_item_def epoll_add_def
  open_fd_def rearm_def update_item_def epoll_mod_def log_in_def send_def memcpy_at_def print_buffer_def c_string_def







text \<open>
  The two ways in which the echo is less than perfect. The result of \<open>send\<close> is ignored, and what it did not
  take is lost; and a message that fills the receive buffer and has no zero byte is read past its end by the \<open>printf\<close>.
\<close>

lemma short_send_loses_bytes:
  "\<exists>s'. main_v2 2 example_listen 1 (10, blank_len)
      [(1, [connect_event 10]), (1, [data_event EPOLLIN [104, 105, 0]]),
       (1, [(data_event EPOLLOUT [0])\<lparr>ev_os2 := (example_os (-1) 300 [0])\<lparr>os_send := 1\<rparr>\<rparr>])] example_server = Inr (0, s') \<and>
    in_bytes s' 5 = [104, 105, 0] \<and> out_bytes s' 5 = [104] \<and> (\<exists>it. items s' 200 = Some it \<and> callback it = Recv_CB)"
  by (simp add: main_v2_def Let_def server_defs example_server_defs)

lemma full_message_overread:
  assumes "items s p = Some it" and "buffers_ok it" and "os_recv o' = Recv_Data d" and "length d = BUFFER_SIZE" and "0 \<notin> set d"
  shows "recv_callback_v2 fd p o' s = Inl Out_Of_Bounds" and "recv_callback_c10M fd p o' s = Inl Out_Of_Bounds"
  using assms
  by (auto simp: recv_callback_v2_def recv_callback_c10M_def update_item_def log_in_def print_buffer_def c_string_def memcpy_at_def buffers_ok_def BUFFER_SIZE_def)

lemma full_message_overread_v1:
  assumes "os_recv o' = Recv_Data d" and "length d = BUFFER_SIZE" and "0 \<notin> set d"
  shows "recv_callback_v1 fd p o' s = Inl Out_Of_Bounds"
  using assms by (auto simp: recv_callback_v1_def c_string_def memcpy_at_def BUFFER_SIZE_def)

lemma full_message_overread_ws:
  assumes "items s p = Some it" and "buffers_ok it" and "os_recv o' = Recv_Data d" and "length d = BUFFER_SIZE" and "0 \<notin> set d"
  shows "recv_callback_ws fd p o' s = Inl Out_Of_Bounds"
  using assms
  by (auto simp: recv_callback_ws_def update_item_def log_in_def print_buffer_def c_string_def memcpy_at_def buffers_ok_def BUFFER_SIZE_def)












text \<open>
  The server of \<open>epoll_v1.c\<close>, under the same conditions as the echo server: each connection has been sent beginnings of the answer \<open>ok!!\<close>, and
  whole answers if every \<open>send\<close> takes all of it.
\<close>

theorem reply_server_v1:
  assumes s: "fresh_process s" and args: "2 \<le> argc" "0 \<le> l_socket l" "l_socket l \<notin> opened s" "0 \<le> l_bind l" "0 \<le> l_listen l" "fst m \<noteq> 0"
    and kernel: "loop_env (handle_event call_v1) (kernel_ok (\<lambda>_. True) (full_send full)) ready ev_ptr bs (listening l m s)"
  shows "(\<exists>s'. main_v1 argc l m bs s = Inr (0, s') \<and>
      (\<forall>fd ev p. interest s' fd = Some (ev, p) \<longrightarrow>
        (\<exists>rs. out_bytes s' fd = concat rs \<and> (\<forall>r\<in>set rs. prefix r ok_reply \<and> (full \<longrightarrow> r = ok_reply))))) \<or>
    main_v1 argc l m bs s = Inl Out_Of_Bounds \<and> (\<exists>d\<in>messages bs. 0 \<notin> set d)"
proof -
  have q: "replies_ok full [] [] ((snd m)\<lparr>sock_fd := l_socket l, callback := Accept_CB\<rparr>)"
    by (auto simp: replies_ok_def intro: exI [of _ "[]"])
  have "items s (fst m) = None" using s by (simp add: fresh_process_def)
  from listening_ok [of "replies_ok full", OF fresh_inv [OF s] args(2,3,6) this q]
  have start: "add_item (l_ctl l) EPOLLIN (l_socket l) (fst m) ((snd m)\<lparr>sock_fd := l_socket l, callback := Accept_CB\<rparr>) (open_fd (l_socket l) s) =
      Inr (listening l m s)" "server_inv (replies_ok full) (listening l m s)" by simp_all
  from v1.loop_safe [OF start(2) kernel]
  consider (ok) s' where "event_loop (handle_event call_v1) bs (listening l m s) = Inr s'" "server_inv (replies_ok full) s'"
    | (fault) x where "event_loop (handle_event call_v1) bs (listening l m s) = Inl x" "x = Out_Of_Bounds \<and> (\<exists>d\<in>messages bs. 0 \<notin> set d)"
    using overread_message by blast
  then show ?thesis
  proof cases
    case (ok s')
    have "main_v1 argc l m bs s = Inr (0, s')" using args start(1) ok(1) by (simp add: main_v1_def Let_def)
    moreover have "\<exists>rs. out_bytes s' fd = concat rs \<and> (\<forall>r\<in>set rs. prefix r ok_reply \<and> (full \<longrightarrow> r = ok_reply))"
      if "interest s' fd = Some (ev, p)" for fd ev p
      using server_inv_conn [OF ok(2) that] by (auto simp: conn_ok_def replies_ok_def)
    ultimately show ?thesis by blast
  next
    case (fault x)
    then have "main_v1 argc l m bs s = Inl Out_Of_Bounds" using args start(1) by (simp add: main_v1_def Let_def)
    then show ?thesis using fault(2) by blast
  qed
qed

text \<open>
  The server of \<open>websocket.c\<close> never answers a handshake: whatever request arrives on a new connection, (printed, and with a zero byte in it) the answer consists of
  the bytes that \<open>malloc\<close> left in the send buffer, as many as it left in the field \<open>slength\<close>, and
  when that number is not within the buffer the server reads outside of it.
\<close>

theorem websocket_sends_junk:
  assumes "os_accept oa = fd" "0 \<le> fd" "fd \<notin> opened s" "interest s fd = None" "os_malloc oa = (p, junk)" "p \<noteq> 0"
    "os_recv ob = Recv_Data d" "0 \<in> set d"
  shows "\<exists>s1 s2. call_ws Accept_CB lfd lp oa s = Inr (fd, s1) \<and> call_ws Recv_CB fd p ob s1 = Inr (0, s2) \<and>
    (if 0 \<le> slength junk \<and> nat (slength junk) \<le> length (send_buffer junk)
     then \<exists>s3. call_ws Send_CB fd p oc s2 = Inr (0, s3) \<and>
            out_bytes s3 fd = take (nat (os_send oc)) (take (nat (slength junk)) (send_buffer junk))
     else call_ws Send_CB fd p oc s2 = Inl Out_Of_Bounds)"
  using assms
  by (auto simp: accept_callback_ws_def recv_callback_ws_def send_callback_ws_def ws_handshake_def add_item_def epoll_add_def open_fd_def
      rearm_def update_item_def epoll_mod_def log_in_def send_def print_buffer_def c_string_def memcpy_at_def)

definition junk_ws :: ws_sockitem where
  "junk_ws = \<lparr>sock_fd = 0, callback = Accept_CB, recv_buffer = replicate 1024 0, send_buffer = replicate 1024 0, rlength = 0,
     slength = 2000, status = WS_INIT\<rparr>"

definition junk_os :: "ws_sockitem os" where
  "junk_os = \<lparr>os_accept = 5, os_malloc = (20, junk_ws), os_recv = Recv_Data [71, 69, 84, 0], os_send = 0, os_ctl = 0\<rparr>"

theorem websocket_sends_junk_witness:
  "\<exists>s1 s2. call_ws Accept_CB 4 10 junk_os example_server = Inr (5, s1) \<and> call_ws Recv_CB 5 20 junk_os s1 = Inr (0, s2) \<and>
    call_ws Send_CB 5 20 junk_os s2 = Inl Out_Of_Bounds"
proof -
  have "os_accept junk_os = 5" "(0 :: int) \<le> 5" "5 \<notin> opened (example_server :: ws_sockitem server)"
    "interest (example_server :: ws_sockitem server) 5 = None" "os_malloc junk_os = (20, junk_ws)" "(20 :: nat) \<noteq> 0"
    "os_recv junk_os = Recv_Data [71, 69, 84, 0]" "0 \<in> set [71, 69, 84, 0 :: u8]"
    by (simp_all add: junk_os_def example_server_def)
  from websocket_sends_junk [OF this, of 4 10 junk_os] show ?thesis by (simp add: junk_ws_def)
qed

end
