(* ===== verification/WebSocket.thy ===== *)
theory WebSocket
  imports EpollServers
begin

text \<open>
  The WebSocket server of \<open>websocket/epoll_websocket.c\<close>: the opening handshake, the frame codec and the callbacks on
  the event loop. Items are those of \<open>EventLoop\<close> with the state of the protocol. SHA-1 and the
  Base64 filter of OpenSSL are arguments: \<open>sha1\<close> maps the bytes hashed to the digest, \<open>b64\<close> the bytes
  written to what the memory BIO then holds (the code relies on a final newline). Accesses outside of
  the arrays \<open>linebuf\<close>, \<open>sec_accept\<close>, \<open>head\<close> and of the two buffers are errors, those of a \<open>printf\<close> with \<open>%s\<close> included. Header fields are read
  and written in the little-endian order of the target.
\<close>

subsection \<open>Data\<close>

definition BUFFER_LENGTH :: nat where "BUFFER_LENGTH = 1024"

datatype WEBSOCKET_STATUS = WS_HANDSHARK | WS_DATATRANSFORM | WS_TRANSFER_END

record nty_sockitem = sockitem_len +
  nstatus :: WEBSOCKET_STATUS

definition ascii :: "string \<Rightarrow> bytes" where
  "ascii cs = map (\<lambda>c. of_nat (of_char c)) cs"

definition GUID :: bytes where
  "GUID = ascii ''258EAFA5-E914-47DA-95CA-C5AB0DC85B11''"

abbreviation CR :: u8 where "CR \<equiv> 13"
abbreviation LF :: u8 where "LF \<equiv> 10"

subsection \<open>C strings\<close>

fun occurs_in :: "bytes \<Rightarrow> bytes \<Rightarrow> bool" where
  "occurs_in pat [] \<longleftrightarrow> pat = []"
| "occurs_in pat (c # cs) \<longleftrightarrow> take (length pat) (c # cs) = pat \<or> occurs_in pat cs"

definition strcat :: "bytes \<Rightarrow> bytes \<Rightarrow> bytes cresult" where
  "strcat b t =
     rbind (c_string b) (\<lambda>x. if length x + length t < length b then Inr (memcpy_at b (length x) (t @ [0])) else Inl Out_Of_Bounds)"

subsection \<open>Handshake\<close>

definition base64_encode :: "(bytes \<Rightarrow> bytes) \<Rightarrow> bytes option \<Rightarrow> nat \<Rightarrow> bytes option \<Rightarrow> (int \<times> bytes option) cresult" where
  "base64_encode b64 in_str in_len out_str =
     (case (in_str, out_str) of
        (Some i, Some u) \<Rightarrow>
          (let d = b64 (take in_len i)
           in if length u < length d \<or> d = [] then Inl Out_Of_Bounds
              else Inr (int (length d), Some ((memcpy_at u 0 d)[length d - 1 := 0])))
      | _ \<Rightarrow> Inr (-1, out_str))"

text \<open>The loop of \<open>readline\<close>: \<open>k\<close> is the offset of the pointer \<open>linebuf\<close> in its array.\<close>

function readline_loop :: "bytes \<Rightarrow> nat \<Rightarrow> nat \<Rightarrow> bytes \<Rightarrow> nat \<Rightarrow> (int \<times> bytes) cresult" where
  "readline_loop allbuf len level linebuf k =
     (if level < len then
        if allbuf ! level = CR \<and> allbuf ! (level + 1) = LF then Inr (int level + 2, linebuf)
        else rbind (store linebuf k (allbuf ! level)) (\<lambda>linebuf. readline_loop allbuf len (level + 1) linebuf (k + 1))
      else Inr (-1, linebuf))"
  by pat_completeness auto
termination by (relation "measure (\<lambda>(allbuf, len, level, linebuf, k). len - level)") auto

declare readline_loop.simps [simp del]

definition readline :: "bytes \<Rightarrow> nat \<Rightarrow> bytes \<Rightarrow> (int \<times> bytes) cresult" where
  "readline allbuf level linebuf = rbind (c_string allbuf) (\<lambda>x. readline_loop allbuf (length x) level linebuf 0)"

definition response :: "bytes \<Rightarrow> bytes" where
  "response sec_accept =
     ascii ''HTTP/1.1 101 Switching Protocols'' @ [CR, LF] @ ascii ''Upgrade: websocket'' @ [CR, LF] @
     ascii ''Connection: Upgrade'' @ [CR, LF] @ ascii ''Sec-WebSocket-Accept: '' @ sec_accept @ [CR, LF] @ [CR, LF]"

text \<open>The body for the line with the key: the string that \<open>sprintf\<close> leaves in \<open>head\<close>.\<close>

definition answer :: "(bytes \<Rightarrow> bytes) \<Rightarrow> (bytes \<Rightarrow> bytes) \<Rightarrow> bytes \<Rightarrow> bytes \<Rightarrow> bytes cresult" where
  "answer sha1 b64 junk linebuf =
     rbind (strcat linebuf GUID) (\<lambda>linebuf.
     rbind (c_string (drop 19 linebuf)) (\<lambda>key.
     let sha1_data = sha1 key @ [0]
     in rbind (c_string sha1_data) (\<lambda>digest.
        rbind (base64_encode b64 (Some sha1_data) (length digest) (Some junk)) (\<lambda>(_, sec_accept).
        rbind (c_string (the sec_accept)) (\<lambda>sec_accept.
        if length (response sec_accept) < BUFFER_LENGTH then Inr (response sec_accept) else Inl Out_Of_Bounds)))))"

text \<open>
  The \<open>do\<close> loop: \<open>None\<close> when it ends at the empty line without having seen the key. The
  condition reads \<open>recvbuffer[level]\<close> before it tests \<open>level\<close> for -1.
\<close>

function handshark_loop :: "(bytes \<Rightarrow> bytes) \<Rightarrow> (bytes \<Rightarrow> bytes) \<Rightarrow> bytes \<Rightarrow> bytes \<Rightarrow> nat \<Rightarrow> bytes option cresult" where
  "handshark_loop sha1 b64 junk buf level =
     (case readline buf level (replicate 256 0) of
        Inl e \<Rightarrow> Inl e
      | Inr (next_level, linebuf) \<Rightarrow>
          rbind (c_string linebuf) (\<lambda>line.
          if occurs_in (ascii ''Sec-WebSocket-Key'') line then rbind (answer sha1 b64 junk linebuf) (\<lambda>h. Inr (Some h))
          else if next_level < 0 then Inl Out_Of_Bounds
          else if \<not> nat next_level < length buf then Inl Out_Of_Bounds
          else if buf ! nat next_level \<noteq> CR then handshark_loop sha1 b64 junk buf (nat next_level)
          else if \<not> nat next_level + 1 < length buf then Inl Out_Of_Bounds
          else if buf ! (nat next_level + 1) \<noteq> LF then handshark_loop sha1 b64 junk buf (nat next_level)
          else Inr None))"
  by pat_completeness auto

lemma readline_loop_advances:
  "readline_loop allbuf len level linebuf k = Inr (n, l) \<Longrightarrow> n \<noteq> -1 \<Longrightarrow> int level + 2 \<le> n"
proof (induction allbuf len level linebuf k rule: readline_loop.induct)
  case (1 allbuf len level linebuf k)
  then show ?case by (subst (asm) (2) readline_loop.simps) (fastforce simp: rbind_Inr_iff split: if_splits)
qed

lemma readline_advances: "readline buf level line = Inr (n, l) \<Longrightarrow> 0 \<le> n \<Longrightarrow> level < nat n"
  using readline_loop_advances by (fastforce simp: readline_def rbind_Inr_iff)

termination handshark_loop
  by (relation "measure (\<lambda>(sha1, b64, junk, buf, level). length buf - level)") (auto dest!: readline_advances)

declare handshark_loop.simps [simp del]

text \<open>
  The results of the external functions: the digest, the filter, and what the stack holds in \<open>sec_accept\<close>.
\<close>

record crypto =
  c_sha1 :: "bytes \<Rightarrow> bytes"
  c_b64 :: "bytes \<Rightarrow> bytes"
  c_junk :: bytes

definition handshark :: "crypto \<Rightarrow> ptr \<Rightarrow> nty_sockitem server \<Rightarrow> nty_sockitem server cresult" where
  "handshark c p s =
     (case items s p of
        None \<Rightarrow> Inl Wild_Pointer
      | Some si \<Rightarrow>
          rbind (handshark_loop (c_sha1 c) (c_b64 c) (c_junk c) (recv_buffer si) 0) (\<lambda>h.
          case h of
            None \<Rightarrow> Inr s
          | Some head \<Rightarrow>
              rbind (update_item p (\<lambda>si. si\<lparr>recv_buffer := replicate BUFFER_LENGTH 0, send_buffer := memcpy_at (send_buffer si) 0 head,
                        slength := int (length head), callback := Send_CB, nstatus := WS_DATATRANSFORM\<rparr>) s) (\<lambda>s.
              Inr (epoll_mod (sock_fd si) (EPOLLOUT OR EPOLLET) p s))))"

subsection \<open>Frames\<close>

text \<open>The bit fields of \<open>nty_ophdr\<close>, from the least significant bit of its two bytes.\<close>

record nty_ophdr =
  h_opcode :: u8
  h_fin :: u8
  h_payload_length :: u8
  h_mask :: u8

definition read_ophdr :: "bytes \<Rightarrow> nty_ophdr" where
  "read_ophdr b = \<lparr>h_opcode = b ! 0 AND 0x0F, h_fin = drop_bit 7 (b ! 0), h_payload_length = b ! 1 AND 0x7F, h_mask = drop_bit 7 (b ! 1)\<rparr>"

definition write_ophdr :: "nty_ophdr \<Rightarrow> bytes" where
  "write_ophdr h = [h_opcode h OR push_bit 7 (h_fin h), h_payload_length h OR push_bit 7 (h_mask h)]"

text \<open>Unsigned integers in memory, least significant byte first.\<close>

definition le_value :: "bytes \<Rightarrow> int" where
  "le_value bs = (\<Sum>i < length bs. uint (bs ! i) * 256 ^ i)"

definition le_bytes :: "nat \<Rightarrow> int \<Rightarrow> bytes" where
  "le_bytes n x = map (\<lambda>i. word_of_int (x div 256 ^ i)) [0..<n]"

text \<open>\<open>umask\<close> on the \<open>len\<close> bytes of an array from offset \<open>start\<close>.\<close>

fun umask :: "bytes \<Rightarrow> nat \<Rightarrow> nat \<Rightarrow> bytes \<Rightarrow> bytes cresult" where
  "umask b start 0 key = Inr b"
| "umask b start (Suc i) key =
     rbind (umask b start i key) (\<lambda>b.
     rbind (load b (start + i)) (\<lambda>x. rbind (load key (i mod 4)) (\<lambda>m. store b (start + i) (x XOR m))))"

text \<open>The key, the size, the offset of the payload and the array after unmasking.\<close>

definition decode_packet :: "bytes \<Rightarrow> (bytes \<times> int \<times> nat \<times> bytes) cresult" where
  "decode_packet stream =
     (let hdr = read_ophdr stream; dat = drop 2 stream;
          (key, sz, start) =
            (if h_mask hdr AND 0x7F = 126 then (take 4 (drop 2 dat), le_value (take 2 dat), 8)
             else if h_mask hdr AND 0x7F = 127 then (take 4 (drop 8 dat), wrap_i32 (le_value (take 8 dat)), 14)
             else (take 4 dat, uint (h_payload_length hdr), 6))
      in rbind (umask stream start (nat sz) key) (\<lambda>stream. Inr (key, sz, start, stream)))"

text \<open>\<open>stream\<close> is the array from the payload on. A negative length would be a huge size for \<open>memcpy\<close>.\<close>

definition encode_packet :: "bytes \<Rightarrow> bytes \<Rightarrow> bytes \<Rightarrow> int \<Rightarrow> (int \<times> bytes) cresult" where
  "encode_packet buffer key stream len =
     (let head = \<lparr>h_opcode = 1, h_fin = 1, h_payload_length = 0, h_mask = 0\<rparr>;
          buffer =
            (if len < 126 then memcpy_at buffer 0 (write_ophdr (head\<lparr>h_payload_length := word_of_int len AND 0x7F\<rparr>))
             else if len < 0xFFFF then
               memcpy_at (memcpy_at buffer 0 (write_ophdr head)) 2 (le_bytes 2 len @ key @ replicate 8 0)
             else memcpy_at (memcpy_at buffer 0 (write_ophdr head)) 2 (le_bytes 8 len @ key @ replicate 8 0))
      in if len < 0 \<or> length stream < nat len \<or> length buffer < 2 + nat len then Inl Out_Of_Bounds
         else Inr (len + 2, memcpy_at buffer 2 (take (nat len) stream)))"

definition transform :: "ptr \<Rightarrow> nty_sockitem server \<Rightarrow> nty_sockitem server cresult" where
  "transform p s =
     (case items s p of
        None \<Rightarrow> Inl Wild_Pointer
      | Some si \<Rightarrow>
          rbind (decode_packet (recv_buffer si)) (\<lambda>(key, ret, start, stream).
          rbind (c_string (drop start stream)) (\<lambda>_.
          rbind (encode_packet (send_buffer si) key (drop start stream) ret) (\<lambda>(ret, buffer).
          rbind (update_item p (\<lambda>si. si\<lparr>send_buffer := buffer, slength := ret, recv_buffer := replicate BUFFER_LENGTH 0,
                    callback := Send_CB, nstatus := WS_DATATRANSFORM\<rparr>) s) (\<lambda>s.
          Inr (epoll_mod (sock_fd si) (EPOLLOUT OR EPOLLET) p s))))))"

subsection \<open>Callbacks\<close>

text \<open>The two results of \<open>fcntl\<close> in \<open>set_nonblock\<close>; its own result is not used.\<close>

definition set_nonblock :: "int \<Rightarrow> int \<Rightarrow> int" where
  "set_nonblock getfl setfl = (if getfl < 0 then getfl else if setfl < 0 then -1 else 0)"

definition nty_send_cb :: "fd \<Rightarrow> ptr \<Rightarrow> nty_sockitem os \<Rightarrow> nty_sockitem server \<Rightarrow> nty_sockitem server cresult" where
  "nty_send_cb fd p o' s =
     (case items s p of
        None \<Rightarrow> Inl Wild_Pointer
      | Some si \<Rightarrow>
          if slength si < 0 \<or> length (send_buffer si) < nat (slength si) then Inl Out_Of_Bounds
          else rbind (update_item p (\<lambda>si. si\<lparr>sock_fd := fd, callback := Recv_CB, send_buffer := replicate BUFFER_LENGTH 0\<rparr>)
                  (send fd (take (nat (slength si)) (send_buffer si)) o' s)) (\<lambda>s.
               Inr (epoll_mod fd (EPOLLIN OR EPOLLET) p s)))"

definition nty_recv_cb :: "crypto \<Rightarrow> fd \<Rightarrow> ptr \<Rightarrow> nty_sockitem os \<Rightarrow> nty_sockitem server \<Rightarrow> (int \<times> nty_sockitem server) cresult" where
  "nty_recv_cb c fd p o' s =
     (case os_recv o' of
        Recv_Again \<Rightarrow> Inr (-1, s)
      | Recv_Failed \<Rightarrow> rbind (drop_client fd p s) (\<lambda>s. Inr (0, s))
      | Recv_Data d \<Rightarrow>
          if d = [] then rbind (drop_client fd p s) (\<lambda>s. Inr (0, s))
          else rbind (update_item p (\<lambda>si. si\<lparr>recv_buffer := memcpy_at (recv_buffer si) 0 d, rlength := 0\<rparr>) (log_in fd d s)) (\<lambda>s.
               rbind (case map_option nstatus (items s p) of
                        Some WS_HANDSHARK \<Rightarrow> rbind (print_buffer p s) (handshark c p)
                      | Some WS_DATATRANSFORM \<Rightarrow> transform p s
                      | _ \<Rightarrow> Inr s) (\<lambda>s. Inr (0, s))))"

definition nty_accept_cb :: "fd \<Rightarrow> nty_sockitem os \<Rightarrow> nty_sockitem server \<Rightarrow> (int \<times> nty_sockitem server) cresult" where
  "nty_accept_cb fd o' s =
     (let clientfd = os_accept o'; (p, junk) = os_malloc o'
      in if clientfd < 0 then Inr (-1, s)
         else if clientfd = 0 then Inr (-1, open_fd clientfd s)
         else rbind (add_item (os_ctl o') (EPOLLIN OR EPOLLET) clientfd p
                       (junk\<lparr>sock_fd := clientfd, callback := Recv_CB, nstatus := WS_HANDSHARK\<rparr>) (open_fd clientfd s))
                (\<lambda>s. Inr (clientfd, s)))"

fun call_nty :: "crypto \<Rightarrow> handler \<Rightarrow> fd \<Rightarrow> ptr \<Rightarrow> nty_sockitem os \<Rightarrow> nty_sockitem server \<Rightarrow> (int \<times> nty_sockitem server) cresult" where
  "call_nty c Accept_CB fd p o' s = nty_accept_cb fd o' s"
| "call_nty c Recv_CB fd p o' s = nty_recv_cb c fd p o' s"
| "call_nty c Send_CB fd p o' s = rbind (nty_send_cb fd p o' s) (\<lambda>s. Inr (0, s))"

definition main_nty ::
  "crypto \<Rightarrow> int \<Rightarrow> listen_os \<Rightarrow> ptr \<Rightarrow> ptr \<times> nty_sockitem \<Rightarrow> (int \<times> nty_sockitem event list) list \<Rightarrow> nty_sockitem server \<Rightarrow>
   (int \<times> nty_sockitem server) cresult" where
  "main_nty c argc l r m bs s =
     (if argc < 2 then Inr (-1, s)
      else if l_socket l < 0 then Inr (-1, s)
      else let s = open_fd (l_socket l) s
      in if l_bind l < 0 then Inr (-2, s)
      else if l_listen l < 0 then Inr (-3, s)
      else if r = 0 then Inl Null_Deref
      else rbind (add_item (l_ctl l) EPOLLIN (l_socket l) (fst m) ((snd m)\<lparr>sock_fd := l_socket l, callback := Accept_CB\<rparr>) s) (\<lambda>s.
           rbind (event_loop (handle_event (call_nty c)) bs s) (\<lambda>s. Inr (0, s))))"

subsection \<open>The frame codec\<close>

definition masked :: "bytes \<Rightarrow> bytes \<Rightarrow> bytes" where
  "masked key xs = map (\<lambda>i. xs ! i XOR key ! (i mod 4)) [0..<length xs]"

lemma length_masked [simp]: "length (masked key xs) = length xs"
  by (simp add: masked_def)

lemma masked_masked [simp]: "masked key (masked key xs) = xs"
  by (rule nth_equalityI) (simp_all add: masked_def xor.assoc)

text \<open>
  The frames of RFC 6455 with a payload of less than 126 bytes: from the client, masked; from the server, not.
\<close>

definition client_frame :: "bytes \<Rightarrow> bytes \<Rightarrow> bytes" where
  "client_frame key payload = [0x81, 0x80 OR of_nat (length payload)] @ key @ masked key payload"

definition server_frame :: "bytes \<Rightarrow> bytes" where
  "server_frame payload = [0x81, of_nat (length payload)] @ payload"

lemma masked_take_Suc:
  assumes "n < length xs"
  shows "masked key (take (Suc n) xs) = masked key (take n xs) @ [xs ! n XOR key ! (n mod 4)]"
  using assms by (auto simp: masked_def min_absorb2)

lemma umask_spec:
  assumes "start + n \<le> length b" and "length key = 4"
  shows "umask b start n key = Inr (take start b @ masked key (take n (drop start b)) @ drop (start + n) b)"
  using assms(1)
proof (induction n)
  case (Suc n)
  let ?b = "take start b @ masked key (take n (drop start b)) @ drop (start + n) b"
  have IH: "umask b start n key = Inr ?b" using Suc by simp
  have len: "length (masked key (take n (drop start b))) = n" using Suc.prems by simp
  have drop: "drop (start + n) b = b ! (start + n) # drop (start + Suc n) b"
    using Suc.prems by (simp add: Cons_nth_drop_Suc)
  have nth: "?b ! (start + n) = b ! (start + n)"
    using Suc.prems len by (simp add: drop nth_append)
  have upd: "?b[start + n := v] = take start b @ masked key (take n (drop start b)) @ v # drop (start + Suc n) b" for v
    using Suc.prems len by (simp add: drop list_update_append)
  have "n mod 4 < length key" "start + n < length ?b" using assms(2) Suc.prems by simp_all
  then have "umask b start (Suc n) key = Inr (?b[start + n := b ! (start + n) XOR key ! (n mod 4)])"
    using IH nth by simp
  also have "masked key (take (Suc n) (drop start b)) = masked key (take n (drop start b)) @ [b ! (start + n) XOR key ! (n mod 4)]"
    using masked_take_Suc [of n "drop start b" key] Suc.prems by simp
  then have "?b[start + n := b ! (start + n) XOR key ! (n mod 4)] =
      take start b @ masked key (take (Suc n) (drop start b)) @ drop (start + Suc n) b"
    unfolding upd by simp
  finally show ?case .
qed (simp add: masked_def)

lemma mask_bit_small:
  "drop_bit 7 (x :: u8) AND 0x7F \<noteq> 126" "drop_bit 7 (x :: u8) AND 0x7F \<noteq> 127"
proof -
  have "drop_bit 7 x = 0 \<or> drop_bit 7 x = 1"
  proof -
    have "unat (drop_bit 7 x) < 2" using unsigned_less [of x, where 'a = nat] by (simp add: drop_bit_eq_div unat_div)
    then have "unat (drop_bit 7 x) = 0 \<or> unat (drop_bit 7 x) = 1" by linarith
    then show ?thesis by (auto simp: word_unat_eq_iff)
  qed
  then show "drop_bit 7 x AND 0x7F \<noteq> 126" "drop_bit 7 x AND 0x7F \<noteq> 127" by auto
qed

lemma payload_length_bound: "uint ((x :: u8) AND 0x7F) \<le> 127"
  using word_and_le1 [of x "0x7F"] by (simp add: word_le_def)

text \<open>The extended forms are never recognised, so that decoding is what the last branch says.\<close>

lemma decode_packet_spec:
  assumes "length b = BUFFER_LENGTH"
  shows "decode_packet b = (let key = take 4 (drop 2 b); n = nat (uint (b ! 1 AND 0x7F))
     in Inr (key, int n, 6, take 6 b @ masked key (take n (drop 6 b)) @ drop (6 + n) b))"
proof -
  have "nat (uint (b ! 1 AND 0x7F)) \<le> 127" using payload_length_bound [of "b ! 1"] by linarith
  then show ?thesis
    using umask_spec [of 6 "nat (uint (b ! 1 AND 0x7F))" b "take 4 (drop 2 b)"] assms mask_bit_small [of "b ! 1"]
    by (simp add: decode_packet_def read_ophdr_def Let_def BUFFER_LENGTH_def of_nat_unat)
qed

lemma low_seven_bits:
  assumes "unat (w :: u8) < 128"
  shows "w AND 0x7F = w" "(0x80 OR w) AND 0x7F = w"
proof -
  have low: "x AND 0x7F = take_bit 7 x" for x :: u8
    using take_bit_eq_mask [of 7 x] by (simp add: mask_eq_exp_minus_1)
  have "unat (drop_bit 7 w) = 0" using assms by (simp add: drop_bit_eq_div unat_div)
  then have "drop_bit 7 w = 0" using unat_eq_0 by blast
  then have t: "take_bit 7 w = w" by (simp add: take_bit_eq_self_iff_drop_bit_eq_0)
  then show "w AND 0x7F = w" by (simp add: low)
  have "(0x80 OR w) AND 0x7F = take_bit 7 (0x80 :: u8) OR take_bit 7 w" by (simp add: low take_bit_or)
  then show "(0x80 OR w) AND 0x7F = w" using t by simp
qed

lemma encode_short:
  assumes "n < 126" and "n \<le> length stream" and "length b = BUFFER_LENGTH"
  shows "encode_packet b key stream (int n) = Inr (int n + 2, [0x81, of_nat n] @ take n stream @ drop (2 + n) b)"
proof -
  have "unat (word_of_nat n :: u8) < 128" using assms(1) by (simp add: unat_of_nat)
  then have "(word_of_nat n :: u8) AND 0x7F = word_of_nat n" by (rule low_seven_bits)
  then show ?thesis using assms
    by (simp add: encode_packet_def Let_def write_ophdr_def memcpy_at_def BUFFER_LENGTH_def min_absorb2)
qed

lemma encode_long:
  assumes "126 \<le> n" "n < 0xFFFF" and "n \<le> length stream" and "n + 2 \<le> length b" and "length key = 4"
  shows "encode_packet b key stream (int n) = Inr (int n + 2, [0x81, 0] @ take n stream @ drop (2 + n) b)"
proof -
  let ?h = "le_bytes 2 (int n) @ key @ replicate 8 0"
  have "length ?h = 14" using assms(5) by (simp add: le_bytes_def)
  then have "memcpy_at (memcpy_at (memcpy_at b 0 [0x81, 0]) 2 h) 2 (take n stream) = [0x81, 0] @ take n stream @ drop (2 + n) b"
    if "h = ?h" for h
    using assms that by (auto simp: memcpy_at_def min_absorb2 drop_Cons')
  then show ?thesis using assms
    by (simp add: encode_packet_def Let_def write_ophdr_def le_bytes_def)
qed

text \<open>What \<open>transform\<close> does on any contents of the receive buffer, \<open>n\<close> being the length in the header.\<close>

definition announced :: "nty_sockitem \<Rightarrow> nat" where
  "announced si = nat (uint (recv_buffer si ! 1 AND 0x7F))"

lemma transform_spec:
  assumes "items s p = Some si" and "buffers_ok si"
  shows "if 0 \<in> set (masked (take 4 (drop 2 (recv_buffer si))) (take (announced si) (drop 6 (recv_buffer si)))) \<union> set (drop (6 + announced si) (recv_buffer si))
    then \<exists>s' si'. transform p s = Inr s' \<and> items s' p = Some si' \<and> buffers_ok si' \<and> callback si' = Send_CB \<and>
      slength si' = int (announced si) + 2 \<and> recv_buffer si' = replicate BUFFER_LENGTH 0 \<and>
      take 2 (send_buffer si') = [0x81, if announced si < 126 then of_nat (announced si) else 0] \<and>
      (interest s (sock_fd si) \<noteq> None \<longrightarrow> interest s' (sock_fd si) = Some (EPOLLOUT OR EPOLLET, p))
    else transform p s = Inl Out_Of_Bounds"
proof -
  let ?b = "recv_buffer si" and ?n = "announced si"
  let ?key = "take 4 (drop 2 ?b)"
  let ?pay = "masked ?key (take ?n (drop 6 ?b)) @ drop (6 + ?n) ?b"
  have len: "length ?b = BUFFER_LENGTH" "length (send_buffer si) = BUFFER_LENGTH"
    using assms(2) by (simp_all add: buffers_ok_def BUFFER_SIZE_def BUFFER_LENGTH_def)
  have n: "?n \<le> 127" using payload_length_bound [of "?b ! 1"] by (simp add: announced_def del: nat_uint_eq)
  have dec: "decode_packet ?b = Inr (?key, int ?n, 6, take 6 ?b @ ?pay)"
    using decode_packet_spec [OF len(1)] unfolding announced_def [symmetric] by (simp add: Let_def)
  have pay: "drop 6 (take 6 ?b @ ?pay) = ?pay" "length ?pay = 1018" using len(1) n by (simp_all add: BUFFER_LENGTH_def)
  have "\<exists>buffer. encode_packet (send_buffer si) ?key ?pay (int ?n) = Inr (int ?n + 2, buffer) \<and> length buffer = BUFFER_LENGTH \<and>
      take 2 buffer = [0x81, if ?n < 126 then of_nat ?n else 0]"
    using encode_short [of ?n ?pay "send_buffer si" ?key] encode_long [of ?n ?pay "send_buffer si" ?key] len n pay(2)
    by (cases "?n < 126") (auto simp: BUFFER_LENGTH_def)
  then obtain buffer where enc: "encode_packet (send_buffer si) ?key ?pay (int ?n) = Inr (int ?n + 2, buffer)" "length buffer = BUFFER_LENGTH"
    "take 2 buffer = [0x81, if ?n < 126 then of_nat ?n else 0]" by blast
  have run: "transform p s = rbind (c_string ?pay) (\<lambda>_. Inr (epoll_mod (sock_fd si) (EPOLLOUT OR EPOLLET) p
      (s\<lparr>items := (items s)(p \<mapsto> si\<lparr>send_buffer := buffer, slength := int ?n + 2, recv_buffer := replicate BUFFER_LENGTH 0,
        callback := Send_CB, nstatus := WS_DATATRANSFORM\<rparr>)\<rparr>)))"
    by (simp only: transform_def assms(1) option.case dec rbind_simps prod.case pay(1) enc(1)) (simp add: assms(1) update_item_def)
  have "0 \<in> set ?pay \<longleftrightarrow> 0 \<in> set (masked ?key (take ?n (drop 6 ?b))) \<union> set (drop (6 + ?n) ?b)" by simp
  then show ?thesis using enc(2,3)
    by (auto simp: run c_string_def epoll_mod_def buffers_ok_def BUFFER_LENGTH_def BUFFER_SIZE_def)
qed

text \<open>
  C25. The transfer state of the WebSocket server: whatever bytes are in the
  receive buffer, \<open>transform\<close> returns, arms the connection for sending, clears the buffer, and leaves for \<open>send_cb\<close> the number of bytes that the
  header announces and two more, at most 129; the one exception is that the \<open>printf\<close> of the payload runs past the buffer, which
  can happen only when the buffer has no zero byte from offset 133 on, that is, when a message filled it.
\<close>

theorem transform_total:
  assumes "items s p = Some si" and "buffers_ok si"
  shows "(\<exists>s' si'. transform p s = Inr s' \<and> items s' p = Some si' \<and> buffers_ok si' \<and> callback si' = Send_CB \<and>
      slength si' = int (announced si) + 2 \<and> slength si' \<le> 129 \<and> recv_buffer si' = replicate BUFFER_LENGTH 0 \<and>
      (interest s (sock_fd si) \<noteq> None \<longrightarrow> interest s' (sock_fd si) = Some (EPOLLOUT OR EPOLLET, p))) \<or>
    transform p s = Inl Out_Of_Bounds \<and> 0 \<notin> set (drop 133 (recv_buffer si))"
proof -
  have n: "announced si \<le> 127" using payload_length_bound [of "recv_buffer si ! 1"] by (simp add: announced_def del: nat_uint_eq)
  then have "set (drop 133 (recv_buffer si)) \<subseteq> set (drop (6 + announced si) (recv_buffer si))" by (intro set_drop_subset_set_drop) simp
  then show ?thesis using transform_spec [OF assms] n by (auto split: if_splits)
qed

definition blank_nty :: nty_sockitem where
  "blank_nty = \<lparr>sock_fd = 5, callback = Recv_CB, recv_buffer = replicate 1024 0, send_buffer = replicate 1024 0, rlength = 0,
     slength = 0, nstatus = WS_DATATRANSFORM\<rparr>"

definition noisy_nty :: nty_sockitem where
  "noisy_nty = blank_nty\<lparr>recv_buffer := replicate 1000 255 @ replicate 24 0\<rparr>"

definition example_nty :: "nty_sockitem \<Rightarrow> nty_sockitem server" where
  "example_nty si = example_server\<lparr>items := [20 \<mapsto> si], interest := [5 \<mapsto> (EPOLLIN OR EPOLLET, 20)]\<rparr>"

theorem transform_total_witness:
  "\<exists>s' si'. transform 20 (example_nty noisy_nty) = Inr s' \<and> items s' 20 = Some si' \<and> slength si' \<le> 129 \<and> callback si' = Send_CB"
proof -
  have "items (example_nty noisy_nty) 20 = Some noisy_nty" "buffers_ok noisy_nty" "0 \<in> set (drop 133 (recv_buffer noisy_nty))"
    by (simp_all add: example_nty_def noisy_nty_def blank_nty_def buffers_ok_def BUFFER_SIZE_def)
  with transform_total [OF this(1,2)] show ?thesis by blast
qed

text \<open>A message that fills the buffer and has no zero byte behind its payload is read past the end.\<close>

lemma transform_overread:
  "transform 20 (example_nty (blank_nty\<lparr>recv_buffer := [0x81, 0] @ replicate 1022 255\<rparr>)) = Inl Out_Of_Bounds"
proof -
  let ?si = "blank_nty\<lparr>recv_buffer := [0x81, 0] @ replicate 1022 255\<rparr>"
  have "items (example_nty ?si) 20 = Some ?si" "buffers_ok ?si" "announced ?si = 0"
    by (simp_all add: example_nty_def blank_nty_def buffers_ok_def BUFFER_SIZE_def announced_def)
  then show ?thesis using transform_spec [of "example_nty ?si" 20 ?si] by (simp add: masked_def)
qed

text \<open>
  C18. The WebSocket server answers a masked frame of less than 126 bytes, received whole after the handshake, with the frame that carries
  the same payload: the receive callback leaves the answer in the send buffer and arms the
  connection, and the send callback hands exactly this frame to \<open>send\<close>, which is taken to accept all of it, and arms it for input again. The receive buffer
  is to have a zero byte behind the frame; the handshake and every earlier frame leave it filled with zeros, as this one does.
\<close>

theorem websocket_echo:
  assumes si: "items s p = Some si" "buffers_ok si" "nstatus si = WS_DATATRANSFORM" "sock_fd si = fd" "interest s fd = Some x"
      "0 \<in> set (drop 131 (recv_buffer si))"
    and frame: "length payload < 126" "length key = 4" "os_recv o' = Recv_Data (client_frame key payload)"
    and sent: "int BUFFER_LENGTH \<le> os_send ob"
  shows "\<exists>s1 s2 si2. call_nty c Recv_CB fd p o' s = Inr (0, s1) \<and> interest s1 fd = Some (EPOLLOUT OR EPOLLET, p) \<and>
    call_nty c Send_CB fd p ob s1 = Inr (0, s2) \<and> interest s2 fd = Some (EPOLLIN OR EPOLLET, p) \<and>
    items s2 p = Some si2 \<and> callback si2 = Recv_CB \<and> buffers_ok si2 \<and> nstatus si2 = WS_DATATRANSFORM \<and>
    recv_buffer si2 = replicate BUFFER_LENGTH 0 \<and> out_bytes s2 fd = out_bytes s fd @ server_frame payload"
proof -
  let ?n = "length payload" and ?b = "memcpy_at (recv_buffer si) 0 (client_frame key payload)"
  have len: "length (recv_buffer si) = 1024" "length (send_buffer si) = 1024"
    using si(2) by (simp_all add: buffers_ok_def BUFFER_SIZE_def)
  have b: "length ?b = BUFFER_LENGTH" "?b ! 1 = 0x80 OR of_nat ?n" "take 4 (drop 2 ?b) = key" "take ?n (drop 6 ?b) = masked key payload"
    using len frame by (simp_all add: client_frame_def BUFFER_LENGTH_def memcpy_at_def nth_append min_absorb2)
  have "unat (word_of_nat ?n :: u8) < 128" using frame(1) by (simp add: unat_of_nat)
  then have "?b ! 1 AND 0x7F = word_of_nat ?n" unfolding b(2) by (rule low_seven_bits)
  then have n: "nat (uint (?b ! 1 AND 0x7F)) = ?n" using frame(1) by (simp add: unat_of_nat)
  have dec: "decode_packet ?b = Inr (key, int ?n, 6, take 6 ?b @ payload @ drop (6 + ?n) ?b)"
    using decode_packet_spec [OF b(1)] unfolding Let_def n b(3,4) by simp
  have "length (take 6 ?b) = 6" using b(1) by (simp add: BUFFER_LENGTH_def)
  then have pay: "drop 6 (take 6 ?b @ payload @ drop (6 + ?n) ?b) = payload @ drop (6 + ?n) ?b" by simp
  have "drop (6 + ?n) ?b = drop (6 + ?n) (recv_buffer si)" proof -
    have "length (client_frame key payload) = 6 + ?n" using frame by (simp add: client_frame_def)
    then show ?thesis unfolding memcpy_at_def by simp
  qed
  moreover have "0 \<in> set (drop (6 + ?n) (recv_buffer si))"
    using si(6) set_drop_subset_set_drop [of "6 + ?n" 131 "recv_buffer si"] frame(1) by auto
  ultimately have zero: "\<exists>t. c_string (payload @ drop (6 + ?n) ?b) = Inr t" by (simp add: c_string_def)
  have enc: "encode_packet (send_buffer si) key (payload @ drop (6 + ?n) ?b) (int ?n) =
      Inr (int ?n + 2, server_frame payload @ drop (2 + ?n) (send_buffer si))"
    using encode_short [of ?n "payload @ drop (6 + ?n) ?b" "send_buffer si" key] frame(1) len(2)
    by (simp add: server_frame_def BUFFER_LENGTH_def)
  let ?si = "si\<lparr>rlength := 0, send_buffer := server_frame payload @ drop (2 + ?n) (send_buffer si),
    slength := int ?n + 2, recv_buffer := replicate BUFFER_LENGTH 0, callback := Send_CB, nstatus := WS_DATATRANSFORM\<rparr>"
  let ?s1 = "(log_in fd (client_frame key payload) s)\<lparr>items := (items s)(p \<mapsto> ?si), interest := (interest s)(fd \<mapsto> (EPOLLOUT OR EPOLLET, p))\<rparr>"
  have "client_frame key payload \<noteq> []" by (simp add: client_frame_def)
  then have r: "call_nty c Recv_CB fd p o' s = Inr (0, ?s1)"
    using si frame(3) dec pay enc zero by (auto simp: nty_recv_cb_def transform_def update_item_def log_in_def epoll_mod_def)
  have "nat (int ?n + 2) = ?n + 2" "length (server_frame payload) = ?n + 2" "?n + 2 \<le> nat (os_send ob)"
    using frame(1) sent by (simp_all add: server_frame_def BUFFER_LENGTH_def)
  then show ?thesis using r si(5) len
    by (auto simp: nty_send_cb_def update_item_def log_in_def send_def epoll_mod_def buffers_ok_def BUFFER_LENGTH_def BUFFER_SIZE_def)
qed

definition echo_os :: "nty_sockitem os" where
  "echo_os = \<lparr>os_accept = -1, os_malloc = (30, blank_nty), os_recv = Recv_Data (client_frame [1, 2, 3, 4] [104, 105]), os_send = 1024, os_ctl = 0\<rparr>"

definition no_crypto :: crypto where
  "no_crypto = \<lparr>c_sha1 = (\<lambda>_. replicate 20 1), c_b64 = (\<lambda>_. replicate 28 65 @ [LF]), c_junk = replicate 32 0\<rparr>"

theorem websocket_echo_witness:
  "\<exists>s1 s2. call_nty no_crypto Recv_CB 5 20 echo_os (example_nty blank_nty) = Inr (0, s1) \<and>
     call_nty no_crypto Send_CB 5 20 echo_os s1 = Inr (0, s2) \<and> out_bytes s2 5 = [0x81, 2, 104, 105]"
proof -
  have si: "items (example_nty blank_nty) 20 = Some blank_nty" "buffers_ok blank_nty" "nstatus blank_nty = WS_DATATRANSFORM" "sock_fd blank_nty = 5"
    "interest (example_nty blank_nty) 5 = Some (EPOLLIN OR EPOLLET, 20)" "0 \<in> set (drop 131 (recv_buffer blank_nty))"
    by (simp_all add: example_nty_def blank_nty_def buffers_ok_def BUFFER_SIZE_def)
  have fr: "length [104, 105 :: u8] < 126" "length [1, 2, 3, 4 :: u8] = 4"
    "os_recv echo_os = Recv_Data (client_frame [1, 2, 3, 4] [104, 105])" "int BUFFER_LENGTH \<le> os_send echo_os"
    by (simp_all add: echo_os_def BUFFER_LENGTH_def)
  from websocket_echo [OF si fr, of no_crypto] show ?thesis by (auto simp: example_nty_def example_server_def server_frame_def)
qed

text \<open>
  Frames with an extended length are answered wrongly: the server tests the one-bit field \<open>mask\<close> for 126 and 127
  in place of the length field, and \<open>encode_packet\<close> copies the payload over the extended header. So
  a frame that announces 126 or 127 (a payload of 126 bytes or more) is taken to have that many bytes, and the
  answer announces an empty payload while 126 or 127 bytes follow.
\<close>

lemma websocket_extended_frames:
  assumes "items s p = Some si" and "buffers_ok si" and "announced si \<in> {126, 127}" and "0 \<in> set (drop 133 (recv_buffer si))"
  shows "\<exists>s' si'. transform p s = Inr s' \<and> items s' p = Some si' \<and> slength si' = int (announced si) + 2 \<and> take 2 (send_buffer si') = [0x81, 0]"
proof -
  have "set (drop 133 (recv_buffer si)) \<subseteq> set (drop (6 + announced si) (recv_buffer si))" using assms(3) by (intro set_drop_subset_set_drop) auto
  then have "0 \<in> set (drop (6 + announced si) (recv_buffer si))" using assms(4) by blast
  then show ?thesis using transform_spec [OF assms(1,2)] assms(3) by auto
qed

subsection \<open>The handshake\<close>

lemma readline_loop_line:
  assumes "CR \<notin> set line" and "length pre + length line + 2 \<le> len" and "k + length line \<le> length linebuf"
  shows "readline_loop (pre @ line @ [CR, LF] @ rest) len (length pre) linebuf k =
    Inr (int (length pre + length line) + 2, memcpy_at linebuf k line)"
  using assms
proof (induction line arbitrary: pre linebuf k)
  case Nil
  then show ?case by (subst readline_loop.simps) (simp add: memcpy_at_def nth_append)
next
  case (Cons c line)
  have "readline_loop (pre @ (c # line) @ [CR, LF] @ rest) len (length pre) linebuf k =
      readline_loop ((pre @ [c]) @ line @ [CR, LF] @ rest) len (length (pre @ [c])) (linebuf[k := c]) (k + 1)"
    using Cons.prems by (subst readline_loop.simps) (auto simp: nth_append)
  also have "\<dots> = Inr (int (length (pre @ [c]) + length line) + 2, memcpy_at (linebuf[k := c]) (k + 1) line)"
    using Cons.prems by (intro Cons.IH) simp_all
  also have "memcpy_at (linebuf[k := c]) (k + 1) line = memcpy_at linebuf k (c # line)"
    using Cons.prems by (simp add: memcpy_at_def take_Suc_conv_app_nth drop_update_cancel)
  finally show ?case by simp
qed

lemma readline_loop_overflow:
  assumes "CR \<notin> set line" and "length pre + length line \<le> len" and "length linebuf < k + length line" "k \<le> length linebuf"
  shows "readline_loop (pre @ line @ rest) len (length pre) linebuf k = Inl Out_Of_Bounds"
  using assms
proof (induction line arbitrary: pre linebuf k)
  case (Cons c line)
  show ?case
  proof (cases "k < length linebuf")
    case True
    then have "readline_loop (pre @ (c # line) @ rest) len (length pre) linebuf k =
        readline_loop ((pre @ [c]) @ line @ rest) len (length (pre @ [c])) (linebuf[k := c]) (k + 1)"
      using Cons.prems by (subst readline_loop.simps) (auto simp: nth_append)
    also have "\<dots> = Inl Out_Of_Bounds" using Cons.prems True by (intro Cons.IH) simp_all
    finally show ?thesis .
  next
    case False
    then show ?thesis using Cons.prems by (subst readline_loop.simps) (auto simp: nth_append store_def)
  qed
qed simp

text \<open>
  A request with a long line overflows the stack: when one of its lines (here the first) has more than 256 bytes before its end, \<open>readline\<close>
  writes behind the array \<open>linebuf\<close> of \<open>handshark\<close>; the handshake is the first thing any client can trigger.
\<close>

theorem handshake_overflow:
  assumes "items s p = Some si" and "recv_buffer si = line @ rest" and "CR \<notin> set line" "0 \<notin> set line" "256 < length line" and "0 \<in> set rest"
  shows "handshark c p s = Inl Out_Of_Bounds"
proof -
  have "c_string (line @ rest) = Inr (line @ takeWhile (\<lambda>c. c \<noteq> 0) rest)"
    using assms(4,6) by (auto simp: c_string_def takeWhile_append)
  moreover have "readline_loop ([] @ line @ rest) (length line + length (takeWhile (\<lambda>c. c \<noteq> 0) rest)) (length ([] :: bytes)) (replicate 256 0) 0 = Inl Out_Of_Bounds"
    by (rule readline_loop_overflow) (use assms(3,5) in simp_all)
  ultimately have "readline (line @ rest) 0 (replicate 256 0) = Inl Out_Of_Bounds" by (simp add: readline_def)
  then show ?thesis using assms(1,2) by (subst handshark_def) (simp add: handshark_loop.simps)
qed

theorem handshake_overflow_witness:
  "handshark no_crypto 20 (example_nty (blank_nty\<lparr>recv_buffer := replicate 300 65 @ replicate 724 0\<rparr>)) = Inl Out_Of_Bounds"
  by (rule handshake_overflow [where si = "blank_nty\<lparr>recv_buffer := replicate 300 65 @ replicate 724 0\<rparr>" and line = "replicate 300 65" and rest = "replicate 724 0"]) (simp_all add: example_nty_def)

text \<open>A request: lines, the line with the key, and what follows it.\<close>

definition lines :: "bytes list \<Rightarrow> bytes" where
  "lines ls = concat (map (\<lambda>l. l @ [CR, LF]) ls)"

definition header_line :: "bytes \<Rightarrow> bool" where
  "header_line l \<longleftrightarrow> l \<noteq> [] \<and> CR \<notin> set l \<and> 0 \<notin> set l \<and> length l < 256 \<and> \<not> occurs_in (ascii ''Sec-WebSocket-Key'') l"

definition key_line :: "bytes \<Rightarrow> bytes" where
  "key_line key = ascii ''Sec-WebSocket-Key: '' @ key"

lemma lines_simps [simp]: "lines [] = []" "lines (l # ls) = l @ [CR, LF] @ lines ls"
  by (simp_all add: lines_def)

lemma c_string_zeros: "0 \<notin> set x \<Longrightarrow> c_string (x @ 0 # y) = Inr x"
  by (auto simp: c_string_def takeWhile_append)

lemma line_in_buffer:
  assumes "0 \<notin> set x" and "length x < 256"
  shows "c_string (memcpy_at (replicate 256 0) 0 x) = Inr x"
proof -
  have "256 - length x = Suc (255 - length x)" using assms(2) by simp
  then have "memcpy_at (replicate 256 0) 0 x = x @ 0 # replicate (255 - length x) 0"
    by (simp add: memcpy_at_def)
  then show ?thesis using assms(1) by (simp add: c_string_zeros)
qed

lemma readline_line:
  assumes "CR \<notin> set l" "0 \<notin> set pre" "0 \<notin> set l" "0 \<in> set rest" "length l \<le> 256"
  shows "readline (pre @ l @ [CR, LF] @ rest) (length pre) (replicate 256 0) =
    Inr (int (length pre + length l + 2), memcpy_at (replicate 256 0) 0 l)"
proof -
  let ?b = "pre @ l @ [CR, LF] @ rest"
  have "c_string ?b = Inr (pre @ l @ [CR, LF] @ takeWhile (\<lambda>c. c \<noteq> 0) rest)"
    using assms(2-4) by (auto simp: c_string_def takeWhile_append)
  then show ?thesis using readline_loop_line [OF assms(1), of pre "length (pre @ l @ [CR, LF] @ takeWhile (\<lambda>c. c \<noteq> 0) rest)" 0 "replicate 256 0" rest] assms(5)
    by (simp add: readline_def)
qed

lemma handshark_skips_lines:
  assumes "\<forall>l \<in> set ls. header_line l" and "0 \<notin> set pre" and "rest \<noteq> []" "hd rest \<noteq> CR" "hd rest \<noteq> 0" and "0 \<in> set rest"
  shows "handshark_loop sha1 b64 junk (pre @ lines ls @ rest) (length pre) =
    handshark_loop sha1 b64 junk ((pre @ lines ls) @ rest) (length (pre @ lines ls))"
  using assms(1,2)
proof (induction ls arbitrary: pre)
  case (Cons l ls)
  let ?b = "pre @ l @ [CR, LF] @ lines ls @ rest"
  have l: "l \<noteq> []" "CR \<notin> set l" "0 \<notin> set l" "length l < 256" "\<not> occurs_in (ascii ''Sec-WebSocket-Key'') l"
    using Cons.prems(1) by (simp_all add: header_line_def)
  have z: "0 \<in> set (lines ls @ rest)" using assms(6) by simp
  have r: "readline ?b (length pre) (replicate 256 0) = Inr (int (length pre + length l + 2), memcpy_at (replicate 256 0) 0 l)"
    by (rule readline_line) (use l z Cons.prems(2) in simp_all)
  have "lines ls @ rest \<noteq> []" using assms(3) by simp
  moreover have "hd (lines ls @ rest) \<noteq> CR"
    using Cons.prems(1) assms(3,4) by (cases ls) (auto simp: header_line_def hd_append dest: hd_in_set)
  ultimately have n: "length pre + length l + 2 < length ?b" "?b ! (length pre + length l + 2) \<noteq> CR"
    by (auto simp: nth_append hd_conv_nth neq_Nil_conv)
  have "handshark_loop sha1 b64 junk ?b (length pre) = handshark_loop sha1 b64 junk ?b (length pre + length l + 2)"
    using r line_in_buffer [OF l(3,4)] l(5) n by (subst handshark_loop.simps) (simp add: nat_add_distrib)
  also have "\<dots> = handshark_loop sha1 b64 junk ((pre @ l @ [CR, LF]) @ lines ls @ rest) (length (pre @ l @ [CR, LF]))" by simp
  also have "\<dots> = handshark_loop sha1 b64 junk (((pre @ l @ [CR, LF]) @ lines ls) @ rest) (length ((pre @ l @ [CR, LF]) @ lines ls))"
    by (rule Cons.IH) (use Cons.prems l(3) in simp_all)
  finally show ?case by simp
qed simp

lemma ascii_nonzero: "list_all (\<lambda>c. c \<noteq> (0 :: u8)) xs \<Longrightarrow> 0 \<notin> set xs"
  by (auto simp: list_all_iff)

lemma literals [simp]:
  "0 \<notin> set GUID" "length GUID = 36" "0 \<notin> set (ascii ''Sec-WebSocket-Key: '')" "CR \<notin> set (ascii ''Sec-WebSocket-Key: '')"
  "length (ascii ''Sec-WebSocket-Key: '') = 19"
  by (simp_all add: GUID_def ascii_def)

lemma key_line_found: "occurs_in (ascii ''Sec-WebSocket-Key'') (key_line key)"
  by (simp add: key_line_def ascii_def)

lemma response_length: "length (response token) = 101 + length token"
  by (simp add: response_def ascii_def)

text \<open>The answer to the line with the key; only the part of the digest before its first zero byte is encoded.\<close>

lemma answer_key:
  assumes key: "0 \<notin> set key" "length key \<le> 200" and junk: "length junk = 32"
    and b64: "b64 (takeWhile (\<lambda>c. c \<noteq> 0) (sha1 (key @ GUID))) = token @ [LF]" "length token < 32" "0 \<notin> set token"
  shows "answer sha1 b64 junk (memcpy_at (replicate 256 0) 0 (key_line key)) = Inr (response token)"
proof -
  let ?l = "key_line key" and ?b = "memcpy_at (replicate 256 0) 0 (key_line key)" and ?d = "sha1 (key @ GUID)"
  have len: "length ?l = 19 + length key" "0 \<notin> set ?l" using key(1) by (simp_all add: key_line_def)
  have "c_string ?b = Inr ?l" using len key(2) by (intro line_in_buffer) simp_all
  moreover have "memcpy_at ?b (length ?l) (GUID @ [0]) = ?l @ GUID @ 0 # drop (56 + length key) (replicate 256 0)"
    using len(1) key(2) by (simp add: memcpy_at_def)
  ultimately have cat: "strcat ?b GUID = Inr (?l @ GUID @ 0 # drop (56 + length key) (replicate 256 0))"
    using len(1) key(2) by (simp add: strcat_def)
  have "drop 19 (?l @ GUID @ 0 # drop (56 + length key) (replicate 256 0)) = (key @ GUID) @ 0 # drop (56 + length key) (replicate 256 0)"
    by (simp add: key_line_def)
  then have str: "c_string (drop 19 (?l @ GUID @ 0 # drop (56 + length key) (replicate 256 0))) = Inr (key @ GUID)"
    using key(1) by (simp only:) (intro c_string_zeros, simp)
  have dig: "c_string (?d @ [0]) = Inr (takeWhile (\<lambda>c. c \<noteq> 0) ?d)"
    by (auto simp: c_string_def takeWhile_append intro!: takeWhile_eq_all_conv [THEN iffD2, symmetric])
  have take: "take (length (takeWhile (\<lambda>c. c \<noteq> 0) ?d)) (?d @ [0]) = takeWhile (\<lambda>c. c \<noteq> 0) ?d"
    by (simp add: length_takeWhile_le takeWhile_eq_take [symmetric])
  have "(memcpy_at junk 0 (token @ [LF]))[length token := 0] = token @ 0 # drop (Suc (length token)) junk"
    by (simp add: memcpy_at_def list_update_append)
  then have enc: "base64_encode b64 (Some (?d @ [0])) (length (takeWhile (\<lambda>c. c \<noteq> 0) ?d)) (Some junk) =
      Inr (int (length token) + 1, Some (token @ 0 # drop (Suc (length token)) junk))"
    unfolding base64_encode_def prod.case option.case take b64(1) Let_def using b64(2) junk by simp
  show ?thesis using cat str dig enc c_string_zeros [OF b64(3)] b64(2)
    by (simp add: answer_def response_length BUFFER_LENGTH_def Let_def)
qed

text \<open>
  C17. The handshake: on a request whose lines fit the line buffer and whose key comes before the end of the
  headers, the server stores the response 101 with the encoded digest of the key and the GUID, and turns to the
  transfer state. The token is the encoding of the digest up to its first zero byte; it is the
  one the client expects when the digest has none.
\<close>

theorem handshake_correct:
  assumes si: "items s p = Some si" "buffers_ok si" "recv_buffer si = lines ls @ key_line key @ [CR, LF] @ rest" "interest s (sock_fd si) = Some x"
    and req: "\<forall>l \<in> set ls. header_line l" "CR \<notin> set key" "0 \<notin> set key" "length key \<le> 200" "0 \<in> set rest"
    and ext: "length (c_junk c) = 32" "length token < 32" "0 \<notin> set token"
      "c_b64 c (takeWhile (\<lambda>b. b \<noteq> 0) (c_sha1 c (key @ GUID))) = token @ [LF]"
  shows "\<exists>s' si'. handshark c p s = Inr s' \<and> items s' p = Some si' \<and> nstatus si' = WS_DATATRANSFORM \<and> callback si' = Send_CB \<and>
    buffers_ok si' \<and> recv_buffer si' = replicate BUFFER_LENGTH 0 \<and>
    take (nat (slength si')) (send_buffer si') = response token \<and> interest s' (sock_fd si) = Some (EPOLLOUT OR EPOLLET, p)"
proof -
  let ?rest = "key_line key @ [CR, LF] @ rest" and ?loop = "handshark_loop (c_sha1 c) (c_b64 c) (c_junk c)"
  have hd: "hd ?rest \<noteq> CR" "hd ?rest \<noteq> 0" "?rest \<noteq> []" by (simp_all add: key_line_def ascii_def)
  have z: "0 \<in> set ?rest" "0 \<notin> set (lines ls)" using req(1,5) by (auto simp: lines_def header_line_def)
  have "?loop ([] @ lines ls @ ?rest) (length ([] :: bytes)) = ?loop (([] @ lines ls) @ ?rest) (length ([] @ lines ls))"
    by (rule handshark_skips_lines) (use req(1) hd z(1) in simp_all)
  then have skip: "?loop (recv_buffer si) 0 = ?loop (lines ls @ key_line key @ [CR, LF] @ rest) (length (lines ls))"
    by (simp add: si(3))
  have k: "CR \<notin> set (key_line key)" "0 \<notin> set (key_line key)" "length (key_line key) < 256"
    using req by (simp_all add: key_line_def)
  have "?loop (recv_buffer si) 0 = Inr (Some (response token))"
    unfolding skip
    using readline_line [OF k(1) z(2) k(2) req(5)] k(3) line_in_buffer [OF k(2,3)] key_line_found [of key]
      answer_key [of key "c_junk c" "c_b64 c" "c_sha1 c" token, OF req(3,4) ext(1,4,2,3)]
    by (subst handshark_loop.simps) simp
  moreover have "length (response token) \<le> 1024" using ext(2) by (simp add: response_length)
  ultimately show ?thesis using si(1,2,4)
    by (auto simp: handshark_def update_item_def epoll_mod_def buffers_ok_def BUFFER_SIZE_def BUFFER_LENGTH_def)
qed

definition example_request :: bytes where
  "example_request = lines [ascii ''GET / HTTP/1.1'', ascii ''Host: example''] @ key_line (ascii ''dGhlIHNhbXBsZQ'') @ [CR, LF] @ replicate 958 0"

theorem handshake_correct_witness:
  "\<exists>s' si'. handshark no_crypto 20 (example_nty (blank_nty\<lparr>recv_buffer := example_request\<rparr>)) = Inr s' \<and> items s' 20 = Some si' \<and>
     nstatus si' = WS_DATATRANSFORM \<and> take (nat (slength si')) (send_buffer si') = response (replicate 28 65)"
proof -
  let ?si = "blank_nty\<lparr>recv_buffer := example_request\<rparr>"
  have si: "items (example_nty ?si) 20 = Some ?si" "buffers_ok ?si"
    "recv_buffer ?si = lines [ascii ''GET / HTTP/1.1'', ascii ''Host: example''] @ key_line (ascii ''dGhlIHNhbXBsZQ'') @ [CR, LF] @ replicate 958 0"
    "interest (example_nty ?si) (sock_fd ?si) = Some (EPOLLIN OR EPOLLET, 20)"
    by (simp_all add: example_nty_def buffers_ok_def BUFFER_SIZE_def blank_nty_def) (simp_all add: example_request_def ascii_def key_line_def)
  have req: "\<forall>l \<in> set [ascii ''GET / HTTP/1.1'', ascii ''Host: example'']. header_line l"
    "CR \<notin> set (ascii ''dGhlIHNhbXBsZQ'')" "0 \<notin> set (ascii ''dGhlIHNhbXBsZQ'')" "length (ascii ''dGhlIHNhbXBsZQ'') \<le> 200"
    "0 \<in> set (replicate 958 (0 :: u8))"
    by (simp_all add: header_line_def ascii_def)
  have ext: "length (c_junk no_crypto) = 32" "length (replicate 28 (65 :: u8)) < 32" "0 \<notin> set (replicate 28 (65 :: u8))"
    "c_b64 no_crypto (takeWhile (\<lambda>b. b \<noteq> 0) (c_sha1 no_crypto (ascii ''dGhlIHNhbXBsZQ'' @ GUID))) = replicate 28 65 @ [LF]"
    by (simp_all add: no_crypto_def)
  from handshake_correct [OF si req ext] show ?thesis by blast
qed

end
