(* ===== verification/Reactor.thy ===== *)
theory Reactor
  imports EpollServers
begin

text \<open>
  The reactor of \<open>c10M/reactor.c\<close>: an array of event structures indexed by the descriptor, each with a
  callback, a copy of its registration and a buffer, and an echo server on a hundred ports on top of
  it. The kernel is the one of \<open>EventLoop\<close>; \<open>items\<close> is the array (an index without an entry is outside of it), and
  the pointer of a registration is the index. The block of \<open>malloc\<close> has unspecified
  contents. \<open>MAX_EPOLL_EVENTS\<close> is the size of the array.
\<close>

definition MAX_EPOLL_EVENTS :: nat where "MAX_EPOLL_EVENTS = 1024 * 1024"
definition LISTEN_PORT_COUNT :: nat where "LISTEN_PORT_COUNT = 100"

record ntyevent =
  e_fd :: fd
  e_events :: u32
  e_arg :: ptr
  e_callback :: handler
  e_status :: int
  e_buffer :: bytes
  e_length :: int
  e_last_active :: int

record ntyreactor =
  r_epfd :: int
  r_events :: ptr

text \<open>The results of the system calls of one callback.\<close>

record rx_os =
  rx_accept :: int
  rx_fcntl :: int
  rx_recv :: received
  rx_send :: int
  rx_ctl :: int \<comment> \<open>the result of \<open>epoll_ctl\<close> for a new registration\<close>
  rx_time :: int

record rx_event =
  rx_ptr :: ptr
  rx_events :: u32
  rx_os1 :: rx_os
  rx_os2 :: rx_os

subsection \<open>Events\<close>

definition event_at :: "fd \<Rightarrow> ntyevent server \<Rightarrow> ntyevent cresult" where
  "event_at fd s = (if fd < 0 then Inl Out_Of_Bounds else case items s (nat fd) of None \<Rightarrow> Inl Out_Of_Bounds | Some ev \<Rightarrow> Inr ev)"

definition put_event :: "fd \<Rightarrow> ntyevent \<Rightarrow> ntyevent server \<Rightarrow> ntyevent server" where
  "put_event fd ev s = s\<lparr>items := (items s)(nat fd \<mapsto> ev)\<rparr>"

definition nty_event_set :: "ntyevent \<Rightarrow> fd \<Rightarrow> handler \<Rightarrow> ptr \<Rightarrow> int \<Rightarrow> ntyevent" where
  "nty_event_set ev fd cb arg t = ev\<lparr>e_fd := fd, e_callback := cb, e_events := 0, e_arg := arg, e_last_active := t\<rparr>"

text \<open>The structure at index \<open>i\<close> is added or modified, by its status; \<open>ctl\<close> is what \<open>epoll_ctl\<close> says to an addition.\<close>

definition nty_event_add :: "int \<Rightarrow> u32 \<Rightarrow> fd \<Rightarrow> ntyevent server \<Rightarrow> (int \<times> ntyevent server) cresult" where
  "nty_event_add ctl events i s =
     rbind (event_at i s) (\<lambda>ev.
       let ev' = ev\<lparr>e_events := events\<rparr>
       in if e_status ev = 1
          then let s' = put_event i ev' s
               in if interest s (e_fd ev) = None then Inr (-1, s') else Inr (0, epoll_mod (e_fd ev) events (nat i) s')
          else let s' = put_event i (ev'\<lparr>e_status := 1\<rparr>) s;
                   r = (if 0 \<le> ctl \<and> e_fd ev \<in> opened s \<and> interest s (e_fd ev) = None then 0 else -1)
               in Inr (r, epoll_add ctl (e_fd ev) events (nat i) s'))"

definition nty_event_del :: "fd \<Rightarrow> ntyevent server \<Rightarrow> (int \<times> ntyevent server) cresult" where
  "nty_event_del i s =
     rbind (event_at i s) (\<lambda>ev.
       if e_status ev \<noteq> 1 then Inr (-1, s)
       else Inr (0, epoll_del (e_fd ev) (put_event i (ev\<lparr>e_status := 0\<rparr>) s)))"

subsection \<open>Callbacks\<close>

definition rx_recv_cb :: "fd \<Rightarrow> ptr \<Rightarrow> rx_os \<Rightarrow> ntyevent server \<Rightarrow> (int \<times> ntyevent server) cresult" where
  "rx_recv_cb fd arg o' s =
     (if arg = 0 then Inl Null_Deref
      else rbind (event_at fd s) (\<lambda>ev.
        let (len, ev, s) =
          (case rx_recv o' of
             Recv_Data d \<Rightarrow> (int (length d), ev\<lparr>e_buffer := memcpy_at (e_buffer ev) 0 d\<rparr>, log_in fd d s)
           | _ \<Rightarrow> (-1, ev, s))
        in rbind (nty_event_del fd (put_event fd ev s)) (\<lambda>(_, s).
           rbind (event_at fd s) (\<lambda>ev.
           if len > 0 then
             rbind (store (e_buffer ev) (nat len) 0) (\<lambda>b.
             rbind (c_string b) (\<lambda>_.
             rbind (nty_event_add (rx_ctl o') EPOLLOUT fd
                     (put_event fd (nty_event_set (ev\<lparr>e_length := len, e_buffer := b\<rparr>) fd Send_CB arg (rx_time o')) s))
               (\<lambda>(_, s). Inr (len, s))))
           else Inr (len, close (e_fd ev) s)))))"

definition rx_send_cb :: "fd \<Rightarrow> ptr \<Rightarrow> rx_os \<Rightarrow> ntyevent server \<Rightarrow> (int \<times> ntyevent server) cresult" where
  "rx_send_cb fd arg o' s =
     (if arg = 0 then Inl Null_Deref
      else rbind (event_at fd s) (\<lambda>ev.
        if e_length ev < 0 \<or> length (e_buffer ev) < nat (e_length ev) then Inl Out_Of_Bounds
        else let d = take (nat (rx_send o')) (take (nat (e_length ev)) (e_buffer ev));
                 len = (if rx_send o' < 0 then -1 else int (length d));
                 s = s\<lparr>out_bytes := (out_bytes s)(fd := out_bytes s fd @ d)\<rparr>
        in if len > 0 then
             rbind (c_string (e_buffer ev)) (\<lambda>_.
             rbind (nty_event_del fd s) (\<lambda>(_, s).
             rbind (event_at fd s) (\<lambda>ev.
             rbind (nty_event_add (rx_ctl o') EPOLLIN fd (put_event fd (nty_event_set ev fd Recv_CB arg (rx_time o')) s)) (\<lambda>(_, s). Inr (len, s)))))
           else rbind (nty_event_del fd (close (e_fd ev) s)) (\<lambda>(_, s). Inr (len, s))))"

definition rx_accept_cb :: "fd \<Rightarrow> ptr \<Rightarrow> rx_os \<Rightarrow> ntyevent server \<Rightarrow> (int \<times> ntyevent server) cresult" where
  "rx_accept_cb fd arg o' s =
     (if arg = 0 then Inr (-1, s)
      else let clientfd = rx_accept o'
      in if clientfd = -1 then Inr (-1, s)
      else let s = open_fd clientfd s
      in if rx_fcntl o' < 0 then Inr (0, s)
      else rbind (event_at clientfd s) (\<lambda>ev.
           rbind (nty_event_add (rx_ctl o') EPOLLIN clientfd (put_event clientfd (nty_event_set ev clientfd Recv_CB arg (rx_time o')) s)) (\<lambda>(_, s).
           Inr (0, s))))"

fun call_rx :: "handler \<Rightarrow> fd \<Rightarrow> ptr \<Rightarrow> rx_os \<Rightarrow> ntyevent server \<Rightarrow> (int \<times> ntyevent server) cresult" where
  "call_rx Accept_CB fd arg o' s = rx_accept_cb fd arg o' s"
| "call_rx Recv_CB fd arg o' s = rx_recv_cb fd arg o' s"
| "call_rx Send_CB fd arg o' s = rx_send_cb fd arg o' s"

subsection \<open>The reactor\<close>

text \<open>One round of the inner loop of \<open>ntyreactor_run\<close>.\<close>

definition rx_dispatch :: "u32 \<Rightarrow> rx_event \<Rightarrow> rx_os \<Rightarrow> ntyevent server \<Rightarrow> ntyevent server cresult" where
  "rx_dispatch bits e o' s =
     rbind (event_at (int (rx_ptr e)) s) (\<lambda>ev.
       if rx_events e AND bits \<noteq> 0 \<and> e_events ev AND bits \<noteq> 0
       then rbind (call_rx (e_callback ev) (e_fd ev) (e_arg ev) o' s) (\<lambda>(_, s). Inr s)
       else Inr s)"

definition rx_handle :: "rx_event \<Rightarrow> ntyevent server \<Rightarrow> ntyevent server cresult" where
  "rx_handle e s = rbind (rx_dispatch EPOLLIN e (rx_os1 e) s) (\<lambda>s. rx_dispatch EPOLLOUT e (rx_os2 e) s)"

text \<open>The result of the loop, which does not end: the state when the kernel's answers \<open>bs\<close> have been handled.\<close>

fun rx_loop :: "(int \<times> rx_event list) list \<Rightarrow> ntyevent server \<Rightarrow> ntyevent server cresult" where
  "rx_loop [] s = Inr s"
| "rx_loop ((nready, es) # bs) s =
     (if nready < 0 then rx_loop bs s else rbind (handle_events rx_handle (take (nat nready) es) s) (rx_loop bs))"

definition ntyreactor_run :: "ptr \<Rightarrow> ntyreactor \<Rightarrow> (int \<times> rx_event list) list \<Rightarrow> ntyevent server \<Rightarrow> (int option \<times> ntyevent server) cresult" where
  "ntyreactor_run p r bs s =
     (if p = 0 then Inr (Some (-1), s)
      else if r_epfd r < 0 then Inr (Some (-1), s)
      else if r_events r = 0 then Inr (Some (-1), s)
      else rbind (rx_loop bs s) (\<lambda>s. Inr (None, s)))"

text \<open>\<open>init_sock\<close> ignores every failure.\<close>

definition init_sock :: "(u16 \<Rightarrow> listen_os) \<Rightarrow> u16 \<Rightarrow> 'i server \<Rightarrow> int \<times> 'i server" where
  "init_sock net port s = (let fd = l_socket (net port) in (fd, if fd < 0 then s else open_fd fd s))"

text \<open>The initialisation; on success the end of the function is reached without a \<open>return\<close> (\<open>None\<close>).\<close>

definition ntyreactor_init ::
  "ptr \<Rightarrow> int \<Rightarrow> ptr \<Rightarrow> (nat \<Rightarrow> ntyevent) \<Rightarrow> ntyevent server \<Rightarrow> int option \<times> ntyreactor \<times> ntyevent server" where
  "ntyreactor_init p epfd evp junk s =
     (let r = \<lparr>r_epfd = 0, r_events = 0\<rparr>
      in if p = 0 then (Some (-1), r, s)
      else if epfd \<le> 0 then (Some (-2), r\<lparr>r_epfd := epfd\<rparr>, s)
      else if evp = 0 then (Some (-3), r\<lparr>r_epfd := epfd\<rparr>, s)
      else (None, r\<lparr>r_epfd := epfd, r_events := evp\<rparr>,
            s\<lparr>items := (\<lambda>i. if i < MAX_EPOLL_EVENTS then Some (junk i) else None)\<rparr>))"

definition ntyreactor_destory :: "ptr \<Rightarrow> ntyevent server \<Rightarrow> ntyevent server cresult" where
  "ntyreactor_destory p s = (if p = 0 then Inl Null_Deref else Inr (s\<lparr>items := (\<lambda>_. None), interest := (\<lambda>_. None)\<rparr>))"

definition ntyreactor_addlistener ::
  "ptr \<Rightarrow> ntyreactor \<Rightarrow> fd \<Rightarrow> int \<Rightarrow> int \<Rightarrow> ntyevent server \<Rightarrow> (int \<times> ntyevent server) cresult" where
  "ntyreactor_addlistener p r sockfd ctl t s =
     (if p = 0 then Inr (-1, s)
      else if r_events r = 0 then Inr (-1, s)
      else rbind (event_at sockfd s) (\<lambda>ev.
           rbind (nty_event_add ctl EPOLLIN sockfd (put_event sockfd (nty_event_set ev sockfd Accept_CB p t) s)) (\<lambda>(_, s). Inr (0, s))))"

fun add_listeners ::
  "(u16 \<Rightarrow> listen_os) \<Rightarrow> ptr \<Rightarrow> ntyreactor \<Rightarrow> u16 \<Rightarrow> int \<Rightarrow> nat \<Rightarrow> ntyevent server \<Rightarrow> (int list \<times> ntyevent server) cresult" where
  "add_listeners net p r port t 0 s = Inr ([], s)"
| "add_listeners net p r port t (Suc i) s =
     rbind (add_listeners net p r port t i s) (\<lambda>(fds, s).
       let (fd, s) = init_sock net (port + of_nat i) s
       in rbind (ntyreactor_addlistener p r fd (l_ctl (net (port + of_nat i))) t s) (\<lambda>(_, s). Inr (fds @ [fd], s)))"

definition main_reactor ::
  "(u16 \<Rightarrow> listen_os) \<Rightarrow> ptr \<Rightarrow> int \<Rightarrow> ptr \<Rightarrow> (nat \<Rightarrow> ntyevent) \<Rightarrow> u16 \<Rightarrow> int \<Rightarrow> (int \<times> rx_event list) list \<Rightarrow> ntyevent server \<Rightarrow>
   (int option \<times> ntyevent server) cresult" where
  "main_reactor net p epfd evp junk port t bs s =
     (let (_, r, s) = ntyreactor_init p epfd evp junk s
      in rbind (add_listeners net p r port t LISTEN_PORT_COUNT s) (\<lambda>(fds, s).
         rbind (ntyreactor_run p r bs s) (\<lambda>(ret, s).
         case ret of
           None \<Rightarrow> Inr (None, s)
         | Some _ \<Rightarrow> rbind (ntyreactor_destory p s) (\<lambda>s. Inr (Some 0, fold close fds s)))))"

subsection \<open>Invariant\<close>

fun rx_armed :: "handler \<Rightarrow> u32" where
  "rx_armed Send_CB = EPOLLOUT"
| "rx_armed _ = EPOLLIN"

text \<open>
  The data of an echo connection: what went out and what is in the buffer are bytes that came in, in order; and all of them if no
  \<open>send\<close> takes less than it is given (\<open>full\<close>). The buffer is terminated.
\<close>

definition rx_data_ok :: "bool \<Rightarrow> bytes \<Rightarrow> bytes \<Rightarrow> ntyevent \<Rightarrow> bool" where
  "rx_data_ok full i u ev \<longleftrightarrow>
     (case e_callback ev of
        Accept_CB \<Rightarrow> True
      | Recv_CB \<Rightarrow> subseq u i \<and> (full \<longrightarrow> i = u)
      | Send_CB \<Rightarrow>
          let d = take (nat (e_length ev)) (e_buffer ev)
          in 0 < e_length ev \<and> e_length ev < 1024 \<and> e_buffer ev ! nat (e_length ev) = 0 \<and> subseq (u @ d) i \<and> (full \<longrightarrow> i = u @ d))"

text \<open>The event structure of a registered descriptor.\<close>

definition rx_event_ok :: "bool \<Rightarrow> ntyevent server \<Rightarrow> fd \<Rightarrow> u32 \<Rightarrow> ntyevent \<Rightarrow> bool" where
  "rx_event_ok full s fd m ev \<longleftrightarrow>
     e_fd ev = fd \<and> e_status ev = 1 \<and> e_events ev = m \<and> m = rx_armed (e_callback ev) \<and> e_arg ev \<noteq> 0 \<and>
     length (e_buffer ev) = 1024 \<and> rx_data_ok full (in_bytes s fd) (out_bytes s fd) ev"

definition rx_inv :: "bool \<Rightarrow> ntyevent server \<Rightarrow> bool" where
  "rx_inv full s \<longleftrightarrow>
     (\<forall>i. items s i \<noteq> None \<longleftrightarrow> i < MAX_EPOLL_EVENTS) \<and>
     (\<forall>i ev. items s i = Some ev \<longrightarrow> length (e_buffer ev) = 1024) \<and>
     (\<forall>fd m q. interest s fd = Some (m, q) \<longrightarrow>
        0 \<le> fd \<and> fd \<in> opened s \<and> q = nat fd \<and> (\<exists>ev. items s q = Some ev \<and> rx_event_ok full s fd m ev))"

lemma rx_invD:
  assumes "rx_inv full s"
  shows "items s i \<noteq> None \<longleftrightarrow> i < MAX_EPOLL_EVENTS"
    and "items s i = Some ev \<Longrightarrow> length (e_buffer ev) = 1024"
    and "interest s fd = Some (m, q) \<Longrightarrow> 0 \<le> fd \<and> fd \<in> opened s \<and> q = nat fd \<and> (\<exists>ev. items s q = Some ev \<and> rx_event_ok full s fd m ev)"
  using assms unfolding rx_inv_def by blast+

text \<open>A change of one structure, of its traffic and of its registration, which is there afterwards if \<open>c\<close> holds.\<close>

lemma rx_switch:
  assumes inv: "rx_inv full s" and fd: "0 \<le> fd" "nat fd < MAX_EPOLL_EVENTS" "opened s - {fd} \<subseteq> opened s'" "c \<longrightarrow> fd \<in> opened s'"
    and s': "items s' = (items s)(nat fd \<mapsto> ev)" "interest s' = (interest s)(fd := if c then Some (m, nat fd) else None)"
      "\<And>x. x \<noteq> fd \<Longrightarrow> in_bytes s' x = in_bytes s x \<and> out_bytes s' x = out_bytes s x"
    and ev: "length (e_buffer ev) = 1024" "c \<longrightarrow> rx_event_ok full s' fd m ev"
  shows "rx_inv full s'"
  unfolding rx_inv_def
proof (intro conjI allI impI)
  show "items s' i \<noteq> None \<longleftrightarrow> i < MAX_EPOLL_EVENTS" for i using rx_invD(1) [OF inv, of i] fd(2) by (auto simp: s'(1))
  show "length (e_buffer v) = 1024" if "items s' i = Some v" for i v
    using that ev(1) rx_invD(2) [OF inv, of i v] by (auto simp: s'(1) split: if_splits)
next
  fix x m' q assume reg: "interest s' x = Some (m', q)"
  have "0 \<le> x \<and> x \<in> opened s' \<and> q = nat x \<and> (\<exists>ev. items s' q = Some ev \<and> rx_event_ok full s' x m' ev)"
  proof (cases "x = fd")
    case True
    then show ?thesis using reg fd ev by (auto simp: s' split: if_splits)
  next
    case False
    then have old: "0 \<le> x" "x \<in> opened s" "q = nat x" "\<exists>ev. items s q = Some ev \<and> rx_event_ok full s x m' ev"
      using rx_invD(3) [OF inv, of x m' q] reg by (auto simp: s'(2))
    moreover have "nat x \<noteq> nat fd" using False old(1) fd(1) by simp
    ultimately show ?thesis using False fd(3) s'(3) by (auto simp: s'(1) rx_event_ok_def)
  qed
  then show "0 \<le> x" "x \<in> opened s'" "q = nat x" "\<exists>ev. items s' q = Some ev \<and> rx_event_ok full s' x m' ev" by blast+
qed

lemma switch_others: "interest s' = (interest s)(fd := y) \<Longrightarrow> others_kept fd s s'"
  by (simp add: others_kept_def)

subsection \<open>The callbacks keep the invariant\<close>

text \<open>
  What the kernel returns, as documented: a new descriptor is not one that is open, and \<open>recv\<close> returns no more bytes than it is
  asked for. With \<open>full\<close>, a \<open>send\<close> takes the whole buffer or fails.
\<close>

definition rx_ok :: "bool \<Rightarrow> ntyevent server \<Rightarrow> rx_os \<Rightarrow> bool" where
  "rx_ok full s o' \<longleftrightarrow>
     (rx_accept o' \<noteq> -1 \<longrightarrow> 0 \<le> rx_accept o' \<and> rx_accept o' \<notin> opened s) \<and>
     (full \<longrightarrow> rx_send o' \<le> 0 \<or> 1024 \<le> rx_send o') \<and>
     (case rx_recv o' of Recv_Data d \<Rightarrow> length d \<le> 1024 | _ \<Rightarrow> True)"

text \<open>The two results at which the code leaves an array: a message that fills the buffer, and a descriptor behind the last structure.\<close>

definition rx_bad :: "rx_os \<Rightarrow> c_error \<Rightarrow> bool" where
  "rx_bad o' x \<longleftrightarrow>
     x = Out_Of_Bounds \<and> ((\<exists>d. rx_recv o' = Recv_Data d \<and> length d = 1024) \<or> int MAX_EPOLL_EVENTS \<le> rx_accept o')"

definition rx_returns :: "bool \<Rightarrow> rx_os \<Rightarrow> fd \<Rightarrow> ntyevent server \<Rightarrow> (int \<times> ntyevent server) cresult \<Rightarrow> bool" where
  "rx_returns full o' fd s m \<longleftrightarrow>
     (\<exists>r s'. m = Inr (r, s') \<and> rx_inv full s' \<and> others_kept fd s s') \<or> (\<exists>x. m = Inl x \<and> rx_bad o' x)"

definition rx_env :: "bool \<Rightarrow> ntyevent server \<Rightarrow> rx_event \<Rightarrow> bool" where
  "rx_env full s e \<longleftrightarrow> rx_ok full s (rx_os1 e) \<and> rx_ok full s (rx_os2 e)"

definition rx_event_os :: "rx_event \<Rightarrow> rx_os set" where
  "rx_event_os e =
     (if rx_events e AND EPOLLIN \<noteq> 0 then {rx_os1 e} else {}) \<union> (if rx_events e AND EPOLLOUT \<noteq> 0 then {rx_os2 e} else {})"

definition rx_fault :: "rx_event \<Rightarrow> c_error \<Rightarrow> bool" where
  "rx_fault e x \<longleftrightarrow> (\<exists>o'\<in>rx_event_os e. rx_bad o' x)"

definition rx_ready :: "ntyevent server \<Rightarrow> rx_event \<Rightarrow> bool" where
  "rx_ready s e \<longleftrightarrow>
     (\<exists>fd m. interest s fd = Some (m, rx_ptr e) \<and> rx_events e AND NOT (m OR EPOLLERR OR EPOLLHUP) = 0)"

lemmas rx_defs = event_at_def put_event_def nty_event_set_def nty_event_add_def nty_event_del_def epoll_add_def epoll_mod_def epoll_del_def
  close_def log_in_def open_fd_def

lemma rx_recv_ok:
  assumes inv: "rx_inv full s" and reg: "interest s fd = Some (m, q)" and ev: "items s q = Some ev" "e_callback ev = Recv_CB" and os: "rx_ok full s o'"
  shows "rx_returns full o' fd s (rx_recv_cb fd (e_arg ev) o' s)"
proof -
  have q: "0 \<le> fd" "fd \<in> opened s" "q = nat fd" and ok: "rx_event_ok full s fd m ev"
    using rx_invD(3) [OF inv reg] ev(1) by auto
  have e: "e_fd ev = fd" "e_status ev = 1" "e_arg ev \<noteq> 0" "length (e_buffer ev) = 1024"
    and data: "subseq (out_bytes s fd) (in_bytes s fd)" "full \<longrightarrow> in_bytes s fd = out_bytes s fd"
    using ok ev(2) by (simp_all add: rx_event_ok_def rx_data_ok_def)
  have max: "nat fd < MAX_EPOLL_EVENTS" using rx_invD(1) [OF inv, of "nat fd"] ev(1) q(3) by simp
  consider (drop) "rx_recv o' = Recv_Data [] \<or> rx_recv o' \<in> {Recv_Again, Recv_Failed}"
    | (data) d where "rx_recv o' = Recv_Data d" "d \<noteq> []" "length d < 1024"
    | (fill) d where "rx_recv o' = Recv_Data d" "length d = 1024"
    using os by (cases "rx_recv o'") (auto simp: rx_ok_def le_less)
  then show ?thesis
  proof cases
    case drop
    let ?s' = "s\<lparr>items := (items s)(nat fd \<mapsto> ev\<lparr>e_status := 0\<rparr>), interest := (interest s)(fd := None), opened := opened s - {fd}\<rparr>"
    have "\<exists>r. rx_recv_cb fd (e_arg ev) o' s = Inr (r, ?s')"
      using drop ev q e by (auto simp: rx_recv_cb_def rx_defs memcpy_at_def)
    moreover have "rx_inv full ?s'"
      by (rule rx_switch [OF inv q(1) max, where ev = "ev\<lparr>e_status := 0\<rparr>" and c = False]) (use e in auto)
    ultimately show ?thesis by (auto simp: rx_returns_def others_kept_def)
  next
    case (data d)
    define b where "b = (memcpy_at (e_buffer ev) 0 d)[length d := 0]"
    define v where "v = ev\<lparr>e_length := int (length d), e_buffer := b, e_fd := fd, e_callback := Send_CB, e_last_active := rx_time o',
      e_events := EPOLLOUT, e_status := 1\<rparr>"
    have b: "length b = 1024" "take (length d) b = d" "b ! length d = 0" using data(3) e(4) by (simp_all add: b_def)
    then have "0 \<in> set b" using data(3) nth_mem [of "length d" b] by simp
    then have "\<exists>s'. rx_recv_cb fd (e_arg ev) o' s = Inr (int (length d), s') \<and> items s' = (items s)(nat fd \<mapsto> v) \<and> opened s' = opened s \<and>
        interest s' = (interest s)(fd := if 0 \<le> rx_ctl o' then Some (EPOLLOUT, nat fd) else None) \<and>
        in_bytes s' = (in_bytes s)(fd := in_bytes s fd @ d) \<and> out_bytes s' = out_bytes s"
      using data ev q e by (simp add: rx_recv_cb_def rx_defs v_def b_def [symmetric] c_string_def)
    then obtain s' where s': "rx_recv_cb fd (e_arg ev) o' s = Inr (int (length d), s')" "items s' = (items s)(nat fd \<mapsto> v)"
      "opened s' = opened s" "interest s' = (interest s)(fd := if 0 \<le> rx_ctl o' then Some (EPOLLOUT, nat fd) else None)"
      "in_bytes s' = (in_bytes s)(fd := in_bytes s fd @ d)" "out_bytes s' = out_bytes s" by blast
    have "rx_event_ok full s' fd EPOLLOUT v"
      using e b data(2,3) \<open>subseq (out_bytes s fd) (in_bytes s fd)\<close> \<open>full \<longrightarrow> in_bytes s fd = out_bytes s fd\<close>
      by (simp add: v_def rx_event_ok_def rx_data_ok_def s')
    then have "rx_inv full s'"
      by (intro rx_switch [OF inv q(1) max _ _ s'(2,4)]) (use q b(1) s' in \<open>auto simp: v_def\<close>)
    then show ?thesis using s'(1) switch_others [OF s'(4)] by (auto simp: rx_returns_def)
  next
    case (fill d)
    then have "rx_recv_cb fd (e_arg ev) o' s = Inl Out_Of_Bounds"
      using ev q e by (auto simp: rx_recv_cb_def rx_defs store_def memcpy_at_def)
    then show ?thesis using fill by (simp add: rx_returns_def rx_bad_def)
  qed
qed

lemma rx_send_ok:
  assumes inv: "rx_inv full s" and reg: "interest s fd = Some (m, q)" and ev: "items s q = Some ev" "e_callback ev = Send_CB" and os: "rx_ok full s o'"
  shows "rx_returns full o' fd s (rx_send_cb fd (e_arg ev) o' s)"
proof -
  have q: "0 \<le> fd" "fd \<in> opened s" "q = nat fd" and ok: "rx_event_ok full s fd m ev"
    using rx_invD(3) [OF inv reg] ev(1) by auto
  define d where "d = take (nat (e_length ev)) (e_buffer ev)"
  have e: "e_fd ev = fd" "e_status ev = 1" "e_arg ev \<noteq> 0" "length (e_buffer ev) = 1024" "0 < e_length ev" "e_length ev < 1024"
    "e_buffer ev ! nat (e_length ev) = 0"
    and data: "subseq (out_bytes s fd @ d) (in_bytes s fd)" "full \<longrightarrow> in_bytes s fd = out_bytes s fd @ d"
    using ok ev(2) by (simp_all add: rx_event_ok_def rx_data_ok_def Let_def d_def)
  have max: "nat fd < MAX_EPOLL_EVENTS" using rx_invD(1) [OF inv, of "nat fd"] ev(1) q(3) by simp
  show ?thesis
  proof (cases "rx_send o' \<le> 0")
    case True
    let ?s' = "s\<lparr>out_bytes := (out_bytes s)(fd := out_bytes s fd @ []), items := (items s)(nat fd \<mapsto> ev\<lparr>e_status := 0\<rparr>),
      interest := (interest s)(fd := None), opened := opened s - {fd}\<rparr>"
    have "\<exists>r. rx_send_cb fd (e_arg ev) o' s = Inr (r, ?s')"
      using True ev q e by (auto simp: rx_send_cb_def rx_defs)
    moreover have "rx_inv full ?s'"
      by (rule rx_switch [OF inv q(1) max, where ev = "ev\<lparr>e_status := 0\<rparr>" and c = False]) (use e in auto)
    ultimately show ?thesis by (auto simp: rx_returns_def others_kept_def)
  next
    case False
    define u where "u = take (nat (rx_send o')) d"
    have len: "length d = nat (e_length ev)" using e by (simp add: d_def)
    then have u: "u \<noteq> []" "full \<longrightarrow> u = d" using False os e(5,6) by (auto simp: u_def rx_ok_def)
    have "subseq u d" by (simp add: u_def prefix_imp_subseq take_is_prefix)
    then have sub: "subseq (out_bytes s fd @ u) (in_bytes s fd)" using data(1)
      by (meson list_emb_append_mono subseq_order.refl subseq_order.trans)
    define v where "v = ev\<lparr>e_fd := fd, e_callback := Recv_CB, e_last_active := rx_time o', e_events := EPOLLIN, e_status := 1\<rparr>"
    have "0 \<in> set (e_buffer ev)" using e(4-7) nth_mem [of "nat (e_length ev)" "e_buffer ev"] by simp
    then have "\<exists>s'. rx_send_cb fd (e_arg ev) o' s = Inr (int (length u), s') \<and> items s' = (items s)(nat fd \<mapsto> v) \<and> opened s' = opened s \<and>
        interest s' = (interest s)(fd := if 0 \<le> rx_ctl o' then Some (EPOLLIN, nat fd) else None) \<and>
        in_bytes s' = in_bytes s \<and> out_bytes s' = (out_bytes s)(fd := out_bytes s fd @ u)"
      using ev q e len u(1) False unfolding rx_send_cb_def d_def [symmetric] u_def [symmetric]
      by (simp add: rx_defs v_def Let_def d_def [symmetric] u_def [symmetric] c_string_def del: take_take)
    then obtain s' where s': "rx_send_cb fd (e_arg ev) o' s = Inr (int (length u), s')" "items s' = (items s)(nat fd \<mapsto> v)"
      "opened s' = opened s" "interest s' = (interest s)(fd := if 0 \<le> rx_ctl o' then Some (EPOLLIN, nat fd) else None)"
      "in_bytes s' = in_bytes s" "out_bytes s' = (out_bytes s)(fd := out_bytes s fd @ u)" by blast
    have "rx_event_ok full s' fd EPOLLIN v" using e sub u(2) data(2) by (simp add: v_def rx_event_ok_def rx_data_ok_def s')
    then have "rx_inv full s'"
      by (intro rx_switch [OF inv q(1) max _ _ s'(2,4)]) (use q e s' in \<open>auto simp: v_def\<close>)
    then show ?thesis using s'(1) switch_others [OF s'(4)] by (auto simp: rx_returns_def)
  qed
qed

text \<open>
  Registering a new descriptor, for a connection or for a listening socket. It is registered afterwards unless \<open>epoll_ctl\<close> refuses or the
  structure happens to hold the status of a registered one.
\<close>

lemma rx_register:
  assumes inv: "rx_inv full s" and fd: "0 \<le> fd" "nat fd < MAX_EPOLL_EVENTS" "fd \<notin> opened s" and cb: "cb \<noteq> Send_CB" and arg: "arg \<noteq> 0"
  shows "\<exists>ev r s'. event_at fd (open_fd fd s) = Inr ev \<and>
    nty_event_add ctl EPOLLIN fd (put_event fd (nty_event_set ev fd cb arg t) (open_fd fd s)) = Inr (r, s') \<and> rx_inv full s' \<and>
    others_kept x s s' \<and> opened s' = insert fd (opened s)"
proof -
  obtain ev where ev: "items s (nat fd) = Some ev" using rx_invD(1) [OF inv, of "nat fd"] fd(2) by auto
  have none: "interest s fd = None" using rx_invD(3) [OF inv, of fd] fd(3) by (cases "interest s fd") auto
  have len: "length (e_buffer ev) = 1024" using rx_invD(2) [OF inv ev] .
  define v where "v = ev\<lparr>e_fd := fd, e_callback := cb, e_arg := arg, e_last_active := t, e_events := EPOLLIN, e_status := 1\<rparr>"
  define c where "c \<longleftrightarrow> e_status ev \<noteq> 1 \<and> 0 \<le> ctl"
  have "\<exists>r s'. nty_event_add ctl EPOLLIN fd (put_event fd (nty_event_set ev fd cb arg t) (open_fd fd s)) = Inr (r, s') \<and>
      items s' = (items s)(nat fd \<mapsto> v) \<and> opened s' = insert fd (opened s) \<and>
      interest s' = (interest s)(fd := if c then Some (EPOLLIN, nat fd) else None) \<and>
      in_bytes s' = (in_bytes s)(fd := []) \<and> out_bytes s' = (out_bytes s)(fd := [])"
    using fd(1) none by (cases "e_status ev = 1") (auto simp: rx_defs v_def c_def fun_eq_iff)
  then obtain r s' where s': "nty_event_add ctl EPOLLIN fd (put_event fd (nty_event_set ev fd cb arg t) (open_fd fd s)) = Inr (r, s')"
      "items s' = (items s)(nat fd \<mapsto> v)" "opened s' = insert fd (opened s)"
      "interest s' = (interest s)(fd := if c then Some (EPOLLIN, nat fd) else None)"
      "in_bytes s' = (in_bytes s)(fd := [])" "out_bytes s' = (out_bytes s)(fd := [])" by blast
  have "rx_event_ok full s' fd EPOLLIN v" using len arg cb by (cases cb) (simp_all add: v_def rx_event_ok_def rx_data_ok_def s')
  then have "rx_inv full s'"
    by (intro rx_switch [OF inv fd(1,2) _ _ s'(2,4)]) (use s' len in \<open>auto simp: v_def\<close>)
  moreover have "event_at fd (open_fd fd s) = Inr ev" using ev fd(1) by (simp add: event_at_def open_fd_def)
  moreover have "others_kept x s s'" using none by (auto simp: others_kept_def s'(4))
  ultimately show ?thesis using s'(1,3) by blast
qed

lemma rx_open: "rx_inv full s \<Longrightarrow> fd \<notin> opened s \<Longrightarrow> rx_inv full (open_fd fd s)"
proof -
  assume inv: "rx_inv full s" and fd: "fd \<notin> opened s"
  have ev: "rx_event_ok full (open_fd fd s) x m v = rx_event_ok full s x m v" if "x \<noteq> fd" for x m v
    using that by (simp add: rx_event_ok_def open_fd_def)
  have "0 \<le> x \<and> x \<in> opened (open_fd fd s) \<and> q = nat x \<and> (\<exists>v. items (open_fd fd s) q = Some v \<and> rx_event_ok full (open_fd fd s) x m v)"
    if "interest (open_fd fd s) x = Some (m, q)" for x m q
  proof -
    have "interest s x = Some (m, q)" using that by (simp add: open_fd_def)
    with rx_invD(3) [OF inv this] fd have "x \<noteq> fd" by auto
    with rx_invD(3) [OF inv \<open>interest s x = Some (m, q)\<close>] show ?thesis by (auto simp: ev) (simp_all add: open_fd_def)
  qed
  then show ?thesis using inv unfolding rx_inv_def by (simp add: open_fd_def)
qed

lemma rx_accept_ok:
  assumes inv: "rx_inv full s" and "arg \<noteq> 0" and os: "rx_ok full s o'"
  shows "rx_returns full o' fd s (rx_accept_cb fd arg o' s)"
proof -
  let ?c = "rx_accept o'"
  consider "?c = -1" | (keep) "?c \<noteq> -1" "rx_fcntl o' < 0" | (far) "0 \<le> rx_fcntl o'" "int MAX_EPOLL_EVENTS \<le> ?c"
    | (new) "?c \<noteq> -1" "0 \<le> rx_fcntl o'" "?c < int MAX_EPOLL_EVENTS" by linarith
  then show ?thesis
  proof cases
    case 1
    then show ?thesis using inv assms(2) by (auto simp: rx_accept_cb_def rx_returns_def)
  next
    case keep
    have "others_kept fd s (open_fd ?c s)" by (simp add: others_kept_def open_fd_def)
    then show ?thesis using keep rx_open [OF inv, of ?c] os assms(2) by (simp add: rx_accept_cb_def rx_ok_def Let_def rx_returns_def)
  next
    case far
    then have "items s (nat ?c) = None" using rx_invD(1) [OF inv, of "nat ?c"] by (auto simp: le_nat_iff)
    then have "rx_accept_cb fd arg o' s = Inl Out_Of_Bounds"
      using far assms(2) by (simp add: rx_accept_cb_def Let_def event_at_def open_fd_def)
    then show ?thesis using far by (simp add: rx_returns_def rx_bad_def)
  next
    case new
    then have c: "0 \<le> ?c" "nat ?c < MAX_EPOLL_EVENTS" "?c \<notin> opened s" using os by (auto simp: rx_ok_def)
    from rx_register [OF inv c, of Recv_CB arg "rx_ctl o'" "rx_time o'" fd] assms(2) new show ?thesis
      by (auto simp: rx_accept_cb_def Let_def rx_returns_def)
  qed
qed

lemma rx_handled:
  assumes inv: "rx_inv full s" and rdy: "rx_ready s e" and env: "rx_env full s e"
  shows "(\<exists>s'. rx_handle e s = Inr s' \<and> rx_inv full s' \<and> (\<forall>e'. rx_ptr e' \<noteq> rx_ptr e \<longrightarrow> rx_ready s e' \<longrightarrow> rx_ready s' e')) \<or>
    (\<exists>x. rx_handle e s = Inl x \<and> rx_fault e x)"
proof -
  obtain fd m where reg: "interest s fd = Some (m, rx_ptr e)" "rx_events e AND NOT (m OR EPOLLERR OR EPOLLHUP) = 0"
    using rdy by (auto simp: rx_ready_def)
  obtain ev where ev: "items s (rx_ptr e) = Some ev" "rx_event_ok full s fd m ev" "rx_ptr e = nat fd" "0 \<le> fd"
    using rx_invD(3) [OF inv reg(1)] by auto
  have at: "event_at (int (rx_ptr e)) s = Inr ev" using ev(1) by (simp add: event_at_def)
  have e: "e_fd ev = fd" "m = rx_armed (e_callback ev)" "e_arg ev \<noteq> 0" using ev(2) by (simp_all add: rx_event_ok_def)
  have some: "\<exists>v. event_at (int (rx_ptr e)) s' = Inr v" if "rx_inv full s'" for s'
    using rx_invD(1) [OF that, of "rx_ptr e"] rx_invD(1) [OF inv, of "rx_ptr e"] ev(1) by (auto simp: event_at_def)
  have cb: "rx_returns full o' fd s (call_rx (e_callback ev) fd (e_arg ev) o' s)" if "rx_ok full s o'" for o'
    using rx_recv_ok [OF inv reg(1) ev(1) _ that] rx_send_ok [OF inv reg(1) ev(1) _ that] rx_accept_ok [OF inv e(3) that, of fd]
    by (cases "e_callback ev") simp_all
  have run: "(\<exists>s'. rx_dispatch bits e o' s = Inr s' \<and> rx_inv full s' \<and> others_kept fd s s') \<or> (\<exists>x. rx_dispatch bits e o' s = Inl x \<and> rx_bad o' x)"
    if "rx_ok full s o'" for bits o'
    using cb [OF that] at e(1) inv by (auto simp: rx_dispatch_def rx_returns_def)
  have idle: "rx_dispatch bits e o' s' = Inr s'" if "rx_inv full s'" "rx_events e AND bits = 0" for bits o' s'
    using some [OF that(1)] that(2) by (auto simp: rx_dispatch_def)
  have one: "rx_events e AND EPOLLIN = 0 \<or> rx_events e AND EPOLLOUT = 0"
  proof (cases "e_callback ev = Send_CB")
    case True
    then have "(m OR EPOLLERR OR EPOLLHUP) AND EPOLLIN = 0" by (simp add: e(2) epoll_defs)
    then show ?thesis using reported_subset [OF reg(2)] by blast
  next
    case False
    then have "(m OR EPOLLERR OR EPOLLHUP) AND EPOLLOUT = 0" by (cases "e_callback ev") (simp_all add: e(2) epoll_defs)
    then show ?thesis using reported_subset [OF reg(2)] by blast
  qed
  have ready: "rx_ready s' e'" if s': "others_kept fd s s'" and ne: "rx_ptr e' \<noteq> rx_ptr e" and r: "rx_ready s e'" for s' e'
  proof -
    obtain x m' where x: "interest s x = Some (m', rx_ptr e')" "rx_events e' AND NOT (m' OR EPOLLERR OR EPOLLHUP) = 0"
      using r by (auto simp: rx_ready_def)
    then have "x \<noteq> fd" using reg(1) ne by auto
    then have "interest s' x = Some (m', rx_ptr e')" using s' x(1) by (simp add: others_kept_def)
    then show ?thesis using x(2) unfolding rx_ready_def by blast
  qed
  have "(\<exists>s'. rx_handle e s = Inr s' \<and> rx_inv full s' \<and> others_kept fd s s') \<or> (\<exists>x. rx_handle e s = Inl x \<and> rx_fault e x)"
  proof (cases "rx_events e AND EPOLLIN = 0")
    case True
    then have h: "rx_handle e s = rx_dispatch EPOLLOUT e (rx_os2 e) s" using idle [OF inv] by (simp add: rx_handle_def)
    show ?thesis
    proof (cases "rx_events e AND EPOLLOUT = 0")
      case False
      then show ?thesis using run [of "rx_os2 e" EPOLLOUT] env True by (auto simp: h rx_env_def rx_fault_def rx_event_os_def)
    qed (use idle [OF inv] inv in \<open>auto simp: h\<close>)
  next
    case False
    then have "rx_events e AND EPOLLOUT = 0" using one by simp
    then show ?thesis using run [of "rx_os1 e" EPOLLIN] env False idle
      by (auto simp: rx_handle_def rx_env_def rx_fault_def rx_event_os_def)
  qed
  then show ?thesis using ready by blast
qed

interpretation rx: event_driven "rx_inv full" "rx_env full" rx_ready rx_ptr rx_handle rx_fault for full
  by unfold_locales (rule rx_handled)

lemma rx_loop_event_loop:
  "loop_env rx_handle (rx_env full) rx_ready rx_ptr bs s \<Longrightarrow> rx_loop bs s = event_loop rx_handle bs s"
proof (induction bs arbitrary: s)
  case (Cons b bs)
  obtain n es where b: "b = (n, es)" by (cases b)
  show ?case
  proof (cases "handle_events rx_handle (take (nat n) es) s")
    case (Inl e)
    then show ?thesis using Cons.prems b by auto
  next
    case (Inr s')
    then have "rx_loop bs s' = event_loop rx_handle bs s'" using Cons b by auto
    then show ?thesis using Cons.prems b Inr by auto
  qed
qed simp

subsection \<open>The server\<close>

definition sock_of :: "(u16 \<Rightarrow> listen_os) \<Rightarrow> u16 \<Rightarrow> nat \<Rightarrow> int" where
  "sock_of net port i = l_socket (net (port + of_nat i))"

lemma add_listeners_ok:
  assumes inv: "rx_inv full s" and p: "p \<noteq> 0" "r_events r \<noteq> 0"
    and socks: "\<forall>i < n. 0 \<le> sock_of net port i \<longrightarrow> sock_of net port i \<notin> opened s \<and> (\<forall>j < i. sock_of net port i \<noteq> sock_of net port j)"
  shows "(\<exists>s'. add_listeners net p r port t n s = Inr (map (sock_of net port) [0..<n], s') \<and> rx_inv full s' \<and>
      opened s' = opened s \<union> sock_of net port ` {..<n}) \<or>
    add_listeners net p r port t n s = Inl Out_Of_Bounds \<and> (\<exists>i < n. sock_of net port i \<notin> {0..<int MAX_EPOLL_EVENTS})"
  using socks
proof (induction n)
  case (Suc n)
  let ?fd = "sock_of net port n"
  have init: "init_sock net (port + of_nat n) u = (?fd, if ?fd < 0 then u else open_fd ?fd u)" for u
    by (simp add: init_sock_def sock_of_def Let_def)
  from Suc consider (ok) u where "add_listeners net p r port t n s = Inr (map (sock_of net port) [0..<n], u)" "rx_inv full u"
      "opened u = opened s \<union> sock_of net port ` {..<n}"
    | (fault) "add_listeners net p r port t n s = Inl Out_Of_Bounds" "\<exists>i < n. sock_of net port i \<notin> {0..<int MAX_EPOLL_EVENTS}" by force
  then show ?case
  proof cases
    case (ok u)
    show ?thesis
    proof (cases "?fd \<in> {0..<int MAX_EPOLL_EVENTS}")
      case True
      then have fd: "0 \<le> ?fd" "nat ?fd < MAX_EPOLL_EVENTS" "?fd \<notin> opened u" using Suc.prems ok(3) by auto
      from rx_register [OF ok(2) fd, of Accept_CB p "l_ctl (net (port + of_nat n))" t] p obtain ev x s' where s': "event_at ?fd (open_fd ?fd u) = Inr ev"
        "nty_event_add (l_ctl (net (port + of_nat n))) EPOLLIN ?fd (put_event ?fd (nty_event_set ev ?fd Accept_CB p t) (open_fd ?fd u)) = Inr (x, s')"
        "rx_inv full s'" "opened s' = insert ?fd (opened u)" by blast
      have "ntyreactor_addlistener p r ?fd (l_ctl (net (port + of_nat n))) t (open_fd ?fd u) = Inr (0, s')"
        using p s'(1,2) by (simp add: ntyreactor_addlistener_def)
      then have "add_listeners net p r port t (Suc n) s = Inr (map (sock_of net port) [0..<Suc n], s')" using ok(1) fd(1) by (simp add: init)
      moreover have "opened s' = opened s \<union> sock_of net port ` {..<Suc n}" using s'(4) ok(3) by (auto simp: lessThan_Suc)
      ultimately show ?thesis using s'(3) by blast
    next
      case False
      then have "event_at ?fd (if ?fd < 0 then u else open_fd ?fd u) = Inl Out_Of_Bounds"
        using rx_invD(1) [OF ok(2), of "nat ?fd"] by (auto simp: event_at_def open_fd_def le_nat_iff split: option.splits)
      then have "add_listeners net p r port t (Suc n) s = Inl Out_Of_Bounds"
        using ok(1) p by (simp add: init ntyreactor_addlistener_def)
      then show ?thesis using False by blast
    qed
  next
    case fault
    then show ?thesis by (auto intro: less_SucI)
  qed
qed (use inv in simp)

text \<open>
  C13. The reactor server, from its start in memory of any contents, and for every sequence of events and results that
  the calls are documented to give, as long as the two allocations succeed. It runs without a fault unless one of the hundred sockets cannot be made or a
  descriptor lies behind the array of structures, or a message fills the whole receive buffer; then it
  leaves an array. Otherwise every registration is that of the descriptor's own structure, open and
  in agreement with its copy of the events; what each connection has sent, with what is in its buffer, is a
  subsequence of what it has received; and all of that, if no \<open>send\<close> takes only a part (\<open>full\<close>).
\<close>

theorem reactor_echo:
  assumes s: "interest s = (\<lambda>_. None)" and mem: "p \<noteq> 0" "0 < epfd" "evp \<noteq> 0" "\<forall>i. length (e_buffer (junk i)) = 1024"
    and socks: "\<forall>i < LISTEN_PORT_COUNT. 0 \<le> sock_of net port i \<longrightarrow>
      sock_of net port i \<notin> opened s \<and> (\<forall>j < i. sock_of net port i \<noteq> sock_of net port j)"
    and kernel: "\<And>r s0 fds s1. ntyreactor_init p epfd evp junk s = (None, r, s0) \<Longrightarrow>
      add_listeners net p r port t LISTEN_PORT_COUNT s0 = Inr (fds, s1) \<Longrightarrow> loop_env rx_handle (rx_env full) rx_ready rx_ptr bs s1"
  shows "(\<exists>s'. main_reactor net p epfd evp junk port t bs s = Inr (None, s') \<and>
      (\<forall>fd m q. interest s' fd = Some (m, q) \<longrightarrow> q = nat fd \<and> fd \<in> opened s' \<and>
         (\<exists>ev. items s' q = Some ev \<and> e_fd ev = fd \<and> e_events ev = m \<and> e_status ev = 1 \<and>
            (e_callback ev \<noteq> Accept_CB \<longrightarrow>
              (let wait = if e_callback ev = Send_CB then take (nat (e_length ev)) (e_buffer ev) else []
               in subseq (out_bytes s' fd @ wait) (in_bytes s' fd) \<and> (full \<longrightarrow> in_bytes s' fd = out_bytes s' fd @ wait)))))) \<or>
    main_reactor net p epfd evp junk port t bs s = Inl Out_Of_Bounds \<and>
      ((\<exists>i < LISTEN_PORT_COUNT. sock_of net port i \<notin> {0..<int MAX_EPOLL_EVENTS}) \<or>
       (\<exists>b\<in>set bs. \<exists>e\<in>set (take (nat (fst b)) (snd b)). \<exists>o'\<in>rx_event_os e.
          (\<exists>d. rx_recv o' = Recv_Data d \<and> length d = 1024) \<or> int MAX_EPOLL_EVENTS \<le> rx_accept o'))"
proof -
  let ?r = "\<lparr>r_epfd = epfd, r_events = evp\<rparr>" and ?s0 = "s\<lparr>items := (\<lambda>i. if i < MAX_EPOLL_EVENTS then Some (junk i) else None)\<rparr>"
  let ?fds = "map (sock_of net port) [0..<LISTEN_PORT_COUNT]"
  have init: "ntyreactor_init p epfd evp junk s = (None, ?r, ?s0)" using mem by (simp add: ntyreactor_init_def)
  have inv: "rx_inv full ?s0" using s mem(4) by (auto simp: rx_inv_def split: if_splits)
  from add_listeners_ok [OF inv mem(1), of ?r LISTEN_PORT_COUNT net port t] mem(3) socks
  consider (bad) "add_listeners net p ?r port t LISTEN_PORT_COUNT ?s0 = Inl Out_Of_Bounds" "\<exists>i < LISTEN_PORT_COUNT. sock_of net port i \<notin> {0..<int MAX_EPOLL_EVENTS}"
    | (ok) s1 where "add_listeners net p ?r port t LISTEN_PORT_COUNT ?s0 = Inr (?fds, s1)" "rx_inv full s1" by auto
  then show ?thesis
  proof cases
    case bad
    then have "main_reactor net p epfd evp junk port t bs s = Inl Out_Of_Bounds" using init by (simp add: main_reactor_def)
    then show ?thesis using bad(2) by blast
  next
    case (ok s1)
    note env = kernel [OF init ok(1)]
    have main: "main_reactor net p epfd evp junk port t bs s = rbind (event_loop rx_handle bs s1) (\<lambda>s. Inr (None, s))"
      using init ok(1) mem rx_loop_event_loop [OF env] by (cases "event_loop rx_handle bs s1") (simp_all add: main_reactor_def ntyreactor_run_def)
    from rx.loop_safe [OF ok(2) env]
    consider (run) s' where "event_loop rx_handle bs s1 = Inr s'" "rx_inv full s'"
      | (fault) x where "event_loop rx_handle bs s1 = Inl x" "\<exists>b\<in>set bs. \<exists>e\<in>set (take (nat (fst b)) (snd b)). rx_fault e x" by blast
    then show ?thesis
    proof cases
      case (run s')
      have "q = nat fd \<and> fd \<in> opened s' \<and> (\<exists>ev. items s' q = Some ev \<and> rx_event_ok full s' fd m ev)" if "interest s' fd = Some (m, q)" for fd m q
        using rx_invD(3) [OF run(2) that] by blast
      then have "q = nat fd \<and> fd \<in> opened s' \<and>
         (\<exists>ev. items s' q = Some ev \<and> e_fd ev = fd \<and> e_events ev = m \<and> e_status ev = 1 \<and>
            (e_callback ev \<noteq> Accept_CB \<longrightarrow>
              (let wait = if e_callback ev = Send_CB then take (nat (e_length ev)) (e_buffer ev) else []
               in subseq (out_bytes s' fd @ wait) (in_bytes s' fd) \<and> (full \<longrightarrow> in_bytes s' fd = out_bytes s' fd @ wait))))"
        if "interest s' fd = Some (m, q)" for fd m q
        using that by (force simp: rx_event_ok_def rx_data_ok_def Let_def split: handler.splits)
      then show ?thesis using main run(1) by simp
    next
      case (fault x)
      then have "x = Out_Of_Bounds" by (auto simp: rx_fault_def rx_bad_def)
      then show ?thesis using main fault by (fastforce simp: rx_fault_def rx_bad_def)
    qed
  qed
qed

definition clean_event :: ntyevent where
  "clean_event = \<lparr>e_fd = 0, e_events = 0, e_arg = 0, e_callback = Accept_CB, e_status = 0, e_buffer = replicate 1024 255, e_length = 0, e_last_active = 0\<rparr>"

definition hundred_socks :: "u16 \<Rightarrow> listen_os" where
  "hundred_socks port = \<lparr>l_socket = 100 + int (unat port), l_bind = 0, l_listen = 0, l_ctl = 0\<rparr>"

lemma hundred_socks_fd: "i < 100 \<Longrightarrow> sock_of hundred_socks 8888 i = 8988 + int i"
proof -
  assume "i < 100"
  then have "unat (8888 + word_of_nat i :: u16) = 8888 + i"
    by (simp add: unat_word_ariths unat_of_nat)
  then show ?thesis by (simp add: sock_of_def hundred_socks_def)
qed

text \<open>A run: a client connects to the first port, sends two bytes and gets them back.\<close>

definition rx_example_os :: "ptr \<Rightarrow> rx_os" where
  "rx_example_os q =
     \<lparr>rx_accept = if q = 8988 then 9999 else -1, rx_fcntl = 0, rx_recv = Recv_Data [104, 105], rx_send = 1024, rx_ctl = 0, rx_time = 7\<rparr>"

definition rx_example :: "ptr \<Rightarrow> u32 \<Rightarrow> rx_event" where
  "rx_example q bits = \<lparr>rx_ptr = q, rx_events = bits, rx_os1 = rx_example_os q, rx_os2 = rx_example_os q\<rparr>"

definition rx_run :: "(int \<times> rx_event list) list" where
  "rx_run = [(1, [rx_example 8988 EPOLLIN]), (-1, []), (1, [rx_example 9999 EPOLLIN]), (1, [rx_example 9999 EPOLLOUT])]"

definition rx_start :: "ntyevent server" where
  "rx_start = example_server\<lparr>items := (\<lambda>i. if i < MAX_EPOLL_EVENTS then Some clean_event else None)\<rparr>"

definition rx_at_loop :: "nat \<Rightarrow> ntyevent server \<Rightarrow> bool" where
  "rx_at_loop n s \<longleftrightarrow> interest s 8988 = Some (EPOLLIN, 8988) \<and>
     (\<exists>ev. items s 8988 = Some ev \<and> e_fd ev = 8988 \<and> e_events ev = EPOLLIN \<and> e_callback ev = Accept_CB \<and> e_arg ev = 1) \<and>
     (\<forall>i \<in> {8988 + n..9999}. items s i = Some clean_event \<and> interest s (int i) = None) \<and> 9999 \<notin> opened s"

lemma rx_listeners:
  assumes "r_events r \<noteq> 0"
  shows "n < 100 \<Longrightarrow> \<exists>fds s. add_listeners hundred_socks 1 r 8888 0 (Suc n) rx_start = Inr (fds, s) \<and> rx_at_loop (Suc n) s"
proof (induction n)
  case 0
  show ?case using assms
    by (simp add: rx_at_loop_def init_sock_def hundred_socks_def ntyreactor_addlistener_def rx_start_def rx_defs clean_event_def example_server_def
        MAX_EPOLL_EVENTS_def)
next
  case (Suc m)
  define n where "n = Suc m"
  obtain fds u where u: "add_listeners hundred_socks 1 r 8888 0 n rx_start = Inr (fds, u)" "rx_at_loop n u" using Suc by (auto simp: n_def)
  have n: "0 < n" "n < 100" using Suc.prems by (simp_all add: n_def)
  have "8988 + n \<in> {8988 + n..9999}" using n by simp
  then have i: "items u (8988 + n) = Some clean_event" "interest u (8988 + int n) = None" using u(2) unfolding rx_at_loop_def by fastforce+
  have "init_sock hundred_socks (8888 + of_nat n) u = (8988 + int n, open_fd (8988 + int n) u)"
    using hundred_socks_fd [OF n(2)] by (simp add: init_sock_def sock_of_def Let_def)
  moreover have "nat (8988 + int n) = 8988 + n" by simp
  ultimately have "\<exists>s. add_listeners hundred_socks 1 r 8888 0 (Suc n) rx_start = Inr (fds @ [8988 + int n], s) \<and> rx_at_loop (Suc n) s"
    using u i n assms
    by (auto simp: ntyreactor_addlistener_def rx_defs rx_at_loop_def clean_event_def hundred_socks_def)
  then show ?case unfolding n_def by blast
qed

lemma rx_ready_by_item:
  "interest s fd = Some (m, rx_ptr e) \<Longrightarrow> rx_events e AND NOT (m OR EPOLLERR OR EPOLLHUP) = 0 \<Longrightarrow> rx_ready s e"
  unfolding rx_ready_def by blast

lemmas rx_run_defs = rx_handle_def rx_dispatch_def rx_accept_cb_def rx_recv_cb_def rx_send_cb_def rx_defs store_def c_string_def memcpy_at_def
  rx_example_def rx_example_os_def clean_event_def epoll_defs set_update_memI Let_def

lemma rx_run_ok:
  assumes "rx_at_loop n s" and "n \<le> 1000"
  shows "loop_env rx_handle (rx_env True) rx_ready rx_ptr rx_run s \<and>
    (\<exists>s'. event_loop rx_handle rx_run s = Inr s' \<and> in_bytes s' 9999 = [104, 105] \<and> out_bytes s' 9999 = [104, 105])"
proof -
  have "9999 \<in> {8988 + n..9999}" using assms(2) by simp
  then have "items s 9999 = Some clean_event" "interest s 9999 = None" using assms(1) unfolding rx_at_loop_def by fastforce+
  then obtain ev where s: "interest s 8988 = Some (EPOLLIN, 8988)" "items s 8988 = Some ev" "e_fd ev = 8988" "e_events ev = EPOLLIN"
      "e_callback ev = Accept_CB" "e_arg ev = 1" "items s 9999 = Some clean_event" "interest s 9999 = None" "9999 \<notin> opened s"
    using assms(1) by (auto simp: rx_at_loop_def)
  let ?c = "rx_example 8988 EPOLLIN" and ?d = "rx_example 9999 EPOLLIN" and ?e = "rx_example 9999 EPOLLOUT"
  define s1 where "s1 = projr (rx_handle ?c s)"
  have s1: "rx_handle ?c s = Inr s1" by (simp add: s1_def s rx_run_defs)
  define s2 where "s2 = projr (rx_handle ?d s1)"
  have s2: "rx_handle ?d s1 = Inr s2" by (simp add: s1_def s2_def s rx_run_defs)
  define s3 where "s3 = projr (rx_handle ?e s2)"
  have s3: "rx_handle ?e s2 = Inr s3" by (simp add: s1_def s2_def s3_def s rx_run_defs)
  have out: "in_bytes s3 9999 = [104, 105]" "out_bytes s3 9999 = [104, 105]" by (simp_all add: s1_def s2_def s3_def s rx_run_defs)
  have r0: "rx_ready s ?c" by (rule rx_ready_by_item [of _ 8988 EPOLLIN]) (simp_all add: s rx_run_defs)
  have r1: "rx_ready s1 ?d" by (rule rx_ready_by_item [of _ 9999 EPOLLIN]) (simp_all add: s1_def s rx_run_defs)
  have r2: "rx_ready s2 ?e" by (rule rx_ready_by_item [of _ 9999 EPOLLOUT]) (simp_all add: s1_def s2_def s rx_run_defs)
  have k: "rx_env True s ?c" "rx_env True s1 ?d" "rx_env True s2 ?e"
    using s(9) by (simp_all add: rx_env_def rx_ok_def rx_example_def rx_example_os_def)
  show ?thesis using r0 r1 r2 k s1 s2 s3 out by (auto simp: rx_run_def split: sum.split)
qed

theorem reactor_echo_witness:
  "\<exists>s'. main_reactor hundred_socks 1 3 1 (\<lambda>_. clean_event) 8888 0 rx_run example_server = Inr (None, s') \<and>
    in_bytes s' 9999 = [104, 105] \<and> out_bytes s' 9999 = [104, 105] \<and>
    (\<forall>fd m q. interest s' fd = Some (m, q) \<longrightarrow> q = nat fd \<and> fd \<in> opened s')"
proof -
  let ?r = "\<lparr>r_epfd = 3, r_events = 1\<rparr>"
  obtain fds s1 where s1: "add_listeners hundred_socks 1 ?r 8888 0 LISTEN_PORT_COUNT rx_start = Inr (fds, s1)" "rx_at_loop 100 s1"
    using rx_listeners [of ?r 99] by (auto simp: LISTEN_PORT_COUNT_def)
  have init: "ntyreactor_init 1 3 1 (\<lambda>_. clean_event) example_server = (None, ?r, rx_start)" by (simp add: ntyreactor_init_def rx_start_def)
  note run = rx_run_ok [OF s1(2), simplified]
  have s: "interest (example_server :: ntyevent server) = (\<lambda>_. None)" by (simp add: example_server_def)
  have mem: "(1 :: nat) \<noteq> 0" "(0 :: int) < 3" "\<forall>i :: nat. length (e_buffer clean_event) = 1024" by (simp_all add: clean_event_def)
  have range: "sock_of hundred_socks 8888 i \<in> {0..<int MAX_EPOLL_EVENTS}" if "i < LISTEN_PORT_COUNT" for i
    using that by (simp add: LISTEN_PORT_COUNT_def hundred_socks_fd MAX_EPOLL_EVENTS_def)
  have socks: "\<forall>i < LISTEN_PORT_COUNT. 0 \<le> sock_of hundred_socks 8888 i \<longrightarrow>
      sock_of hundred_socks 8888 i \<notin> opened (example_server :: ntyevent server) \<and>
      (\<forall>j < i. sock_of hundred_socks 8888 i \<noteq> sock_of hundred_socks 8888 j)"
    by (auto simp: LISTEN_PORT_COUNT_def hundred_socks_fd example_server_def)
  have kernel: "loop_env rx_handle (rx_env True) rx_ready rx_ptr rx_run t1"
    if "ntyreactor_init 1 3 1 (\<lambda>_. clean_event) example_server = (None, r, t0)" "add_listeners hundred_socks 1 r 8888 0 LISTEN_PORT_COUNT t0 = Inr (f, t1)"
    for r t0 f t1 using that init s1(1) run by simp
  obtain s' where out: "in_bytes s' 9999 = [104, 105]" "out_bytes s' 9999 = [104, 105]"
    and main: "main_reactor hundred_socks 1 3 1 (\<lambda>_. clean_event) 8888 0 rx_run example_server = Inr (None, s')"
    using run init s1(1) rx_loop_event_loop [of True rx_run s1] by (auto simp: main_reactor_def ntyreactor_run_def)
  have "\<forall>fd m q. interest s' fd = Some (m, q) \<longrightarrow> q = nat fd \<and> fd \<in> opened s'"
  proof (rule disjE [OF reactor_echo [where t = 0 and full = True and bs = rx_run, OF s mem(1,2,1,3) socks]], goal_cases)
    case (1 r s0 fds s1)
    then show ?case by (rule kernel)
  next
    case 2
    then show ?case using main by auto
  qed (use main in simp)
  then show ?thesis using main out by blast
qed

text \<open>
  A message that fills the receive buffer overflows it: when \<open>recv\<close> returns as many bytes as it was asked for,
  \<open>recv_cb\<close> stores its terminating zero one byte behind the array.
\<close>

theorem reactor_recv_overflow:
  assumes "rx_inv full s" and "interest s fd = Some (m, q)" and "items s q = Some ev" and "rx_recv o' = Recv_Data d" "length d = 1024"
  shows "rx_recv_cb fd (e_arg ev) o' s = Inl Out_Of_Bounds"
proof -
  have q: "0 \<le> fd" "q = nat fd" and ok: "rx_event_ok full s fd m ev" using rx_invD(3) [OF assms(1,2)] assms(3) by auto
  then show ?thesis using assms(3-5)
    by (auto simp: rx_recv_cb_def rx_defs store_def rx_event_ok_def memcpy_at_def)
qed

definition full_os :: rx_os where
  "full_os = \<lparr>rx_accept = -1, rx_fcntl = 0, rx_recv = Recv_Data (replicate 1024 65), rx_send = 0, rx_ctl = 0, rx_time = 0\<rparr>"

theorem reactor_recv_overflow_witness:
  "let ev = clean_event\<lparr>e_fd := 5, e_events := EPOLLIN, e_arg := 7, e_callback := Recv_CB, e_status := 1\<rparr>
   in rx_recv_cb 5 7 full_os (example_server\<lparr>items := (\<lambda>i. if i = 5 then Some ev else if i < MAX_EPOLL_EVENTS then Some clean_event else None),
        interest := [5 \<mapsto> (EPOLLIN, 5)], opened := {5}\<rparr>) = Inl Out_Of_Bounds"
proof -
  let ?ev = "clean_event\<lparr>e_fd := 5, e_events := EPOLLIN, e_arg := 7, e_callback := Recv_CB, e_status := 1\<rparr>"
  let ?s = "example_server\<lparr>items := (\<lambda>i. if i = 5 then Some ?ev else if i < MAX_EPOLL_EVENTS then Some clean_event else None),
        interest := [5 \<mapsto> (EPOLLIN, 5)], opened := {5}\<rparr>"
  have inv: "rx_inv True ?s"
    unfolding rx_inv_def
    by (auto simp: rx_event_ok_def rx_data_ok_def clean_event_def example_server_def MAX_EPOLL_EVENTS_def split: if_splits)
  have "interest ?s 5 = Some (EPOLLIN, 5)" "items ?s 5 = Some ?ev" "rx_recv full_os = Recv_Data (replicate 1024 65)" "length (replicate 1024 (65 :: u8)) = 1024"
    by (simp_all add: full_os_def)
  from reactor_recv_overflow [OF inv this] show ?thesis by simp
qed

text \<open>A structure that happens to hold a status of 1 in fresh memory is never registered: the call is a modification, which fails.\<close>

lemma reactor_junk_status:
  assumes "items s (nat fd) = Some ev" "e_status ev = 1" "interest s fd = None" "0 \<le> fd" "p \<noteq> 0" "r_events r \<noteq> 0"
  shows "\<exists>s'. ntyreactor_addlistener p r fd ctl t s = Inr (0, s') \<and> interest s' fd = None"
  using assms by (auto simp: ntyreactor_addlistener_def rx_defs)

end
