(* ===== verification/LoadClient.thy ===== *)
theory LoadClient
  imports EventLoop
begin

text \<open>
  The load generator \<open>src/c10M/client.c\<close>: it opens one connection per round on the hundred ports of the server, and
  after every thousand looks at the events of all of them.

  Shown is that its counter is the number of open connections, whatever the kernel reports, and that the
  loop over the events works on the connection opened last instead of the one the event is for.
\<close>

definition MAX_EPOLLSIZE :: int where "MAX_EPOLLSIZE = 384 * 1024"
definition MAX_PORT :: int where "MAX_PORT = 100"

text \<open>The two texts the program sends, each with the number in it.\<close>

datatype load_text = Hello int | Data_From fd

record load_client =
  lc_index :: int
  lc_connections :: int
  lc_opened :: "fd set"
  lc_registered :: "fd set"
  lc_ports :: "u16 list"
  lc_sent :: "(fd \<times> load_text) list"

text \<open>An event, with what \<open>recv\<close> returns for it: the length and whether \<open>errno\<close> says to try again.\<close>

record load_event =
  lv_fd :: fd
  lv_events :: u32
  lv_recv :: int
  lv_again :: bool

record load_os =
  lo_socket :: int
  lo_connect :: int
  lo_ctl :: int
  lo_wait :: "int \<times> load_event list"

definition close_client :: "fd \<Rightarrow> load_client \<Rightarrow> load_client" where
  "close_client fd s =
     s\<lparr>lc_connections := lc_connections s - 1, lc_opened := lc_opened s - {fd}, lc_registered := lc_registered s - {fd}\<rparr>"

definition load_handle :: "fd \<Rightarrow> load_event \<Rightarrow> load_client \<Rightarrow> load_client cresult" where
  "load_handle sockfd e s =
     (let clientfd = lv_fd e in
      if lv_events e AND EPOLLOUT \<noteq> 0 then Inr (s\<lparr>lc_sent := lc_sent s @ [(sockfd, Data_From clientfd)]\<rparr>)
      else if lv_events e AND EPOLLIN \<noteq> 0 then
        if lv_recv e = 0 then Inr (close_client clientfd s)
        else if lv_recv e < 0 then if lv_again e then Inr s else Inr (close_client clientfd s)
        else Inr s
      else Inr (close_client clientfd s))"

text \<open>The look at the events; \<open>epoll_wait\<close> fills an array of \<open>MAX_EPOLLSIZE\<close> but is told to fill up to \<open>connections\<close>.\<close>

definition load_poll :: "load_os \<Rightarrow> fd \<Rightarrow> load_client \<Rightarrow> load_client cresult" where
  "load_poll e sockfd s =
     (case lo_wait e of (nfds, es) \<Rightarrow>
        rbind (rguard (nfds \<le> MAX_EPOLLSIZE) Out_Of_Bounds) (\<lambda>_.
        handle_events (load_handle sockfd) (take (nat nfds) es) s))"

text \<open>One round of the loop; the first component is the value \<open>main\<close> returns, if it does.\<close>

definition load_round :: "int \<Rightarrow> load_os \<Rightarrow> load_client \<Rightarrow> (int option \<times> load_client) cresult" where
  "load_round port e s =
     (let s = s\<lparr>lc_index := (if lc_index s + 1 \<ge> MAX_PORT then 0 else lc_index s + 1)\<rparr>;
          sockfd = lo_socket e
      in
      if sockfd = -1 then Inr (Some (-1), s)
      else
        let s = s\<lparr>lc_opened := insert sockfd (lc_opened s), lc_ports := lc_ports s @ [word_of_int (port + lc_index s)]\<rparr> in
        if lo_connect e < 0 then Inr (Some (-2), s)
        else
          let s = s\<lparr>lc_sent := lc_sent s @ [(sockfd, Hello (lc_connections s))],
                    lc_registered := (if lo_ctl e < 0 then lc_registered s else insert sockfd (lc_registered s)),
                    lc_connections := lc_connections s + 1\<rparr>
          in if lc_connections s mod 1000 = 0 then rbind (load_poll e sockfd s) (\<lambda>s. Inr (None, s))
             else Inr (None, s))"

fun load_rounds :: "int \<Rightarrow> load_os list \<Rightarrow> load_client \<Rightarrow> (int option \<times> load_client) cresult" where
  "load_rounds port [] s = Inr (None, s)"
| "load_rounds port (e # es) s =
     rbind (load_round port e s) (\<lambda>(r, s). case r of None \<Rightarrow> load_rounds port es s | Some c \<Rightarrow> Inr (Some c, s))"

definition load_start :: load_client where
  "load_start = \<lparr>lc_index = 0, lc_connections = 0, lc_opened = {}, lc_registered = {}, lc_ports = [], lc_sent = []\<rparr>"

definition main_load :: "int \<Rightarrow> int \<Rightarrow> load_os list \<Rightarrow> (int option \<times> load_client) cresult" where
  "main_load argc port es = (if argc < 3 then Inr (Some 0, load_start) else load_rounds port es load_start)"

subsection \<open>The counter\<close>

text \<open>The hundred ports from \<open>port\<close> on, as 16-bit numbers; and the invariant, with at most \<open>n\<close> connections.\<close>

definition port_range :: "int \<Rightarrow> u16 set" where
  "port_range port = {word_of_int (port + i) |i. 0 \<le> i \<and> i < MAX_PORT}"

definition load_inv :: "int \<Rightarrow> int \<Rightarrow> load_client \<Rightarrow> bool" where
  "load_inv port n s \<longleftrightarrow>
     finite (lc_opened s) \<and> lc_connections s = int (card (lc_opened s)) \<and> lc_connections s \<le> n \<and> lc_registered s \<subseteq> lc_opened s \<and>
     0 \<le> lc_index s \<and> lc_index s < MAX_PORT \<and> set (lc_ports s) \<subseteq> port_range port"

lemma close_client_inv:
  assumes "load_inv port n s" and "fd \<in> lc_registered s" shows "load_inv port n (close_client fd s)"
proof -
  have "Suc (card (lc_opened s - {fd})) = card (lc_opened s)"
    using assms by (intro card_Suc_Diff1) (auto simp: load_inv_def)
  then show ?thesis using assms by (auto simp: load_inv_def close_client_def)
qed

lemma load_handle_ok:
  assumes "load_inv port n s" and "lv_fd e \<in> lc_registered s"
  shows "\<exists>s'. load_handle sockfd e s = Inr s' \<and> load_inv port n s' \<and>
    (\<forall>e'. lv_fd e' \<noteq> lv_fd e \<longrightarrow> lv_fd e' \<in> lc_registered s \<longrightarrow> lv_fd e' \<in> lc_registered s')"
proof -
  have "load_handle sockfd e s \<in> {Inr s, Inr (s\<lparr>lc_sent := lc_sent s @ [(sockfd, Data_From (lv_fd e))]\<rparr>), Inr (close_client (lv_fd e) s)}"
    by (simp add: load_handle_def Let_def)
  moreover have "load_inv port n (s\<lparr>lc_sent := l\<rparr>)" for l using assms(1) by (simp add: load_inv_def)
  moreover have "lc_registered (close_client (lv_fd e) s) = lc_registered s - {lv_fd e}" by (simp add: close_client_def)
  ultimately show ?thesis using assms close_client_inv [OF assms] by auto
qed

interpretation load: event_driven "load_inv port n" "\<lambda>_ _. True" "\<lambda>s e. lv_fd e \<in> lc_registered s" lv_fd "load_handle sockfd" "\<lambda>_ _. False"
  by unfold_locales (rule disjI1, rule load_handle_ok)

text \<open>
  What the kernel promises in a round: a new descriptor is not open already, and \<open>epoll_wait\<close> reports registered
  descriptors, each once and no more than it is asked for.
\<close>

definition load_os_ok :: "load_client \<Rightarrow> load_os \<Rightarrow> bool" where
  "load_os_ok s e \<longleftrightarrow>
     lo_socket e \<notin> lc_opened s \<and>
     (case lo_wait e of (nfds, es) \<Rightarrow>
        nfds = -1 \<or>
        nfds = int (length es) \<and> nfds \<le> lc_connections s + 1 \<and> distinct (map lv_fd es) \<and>
        lv_fd ` set es \<subseteq> (if lo_ctl e < 0 then lc_registered s else insert (lo_socket e) (lc_registered s)))"

fun load_kernel :: "int \<Rightarrow> load_os list \<Rightarrow> load_client \<Rightarrow> bool" where
  "load_kernel port [] s \<longleftrightarrow> True"
| "load_kernel port (e # es) s \<longleftrightarrow>
     load_os_ok s e \<and> (case load_round port e s of Inr (None, s') \<Rightarrow> load_kernel port es s' | _ \<Rightarrow> True)"

lemma env_along_True: "env_along h (\<lambda>_ _. True) es s"
  by (induction es arbitrary: s) (simp_all split: sum.split)

lemma load_poll_ok:
  assumes inv: "load_inv port n s" and n: "n \<le> MAX_EPOLLSIZE"
    and es: "nfds = -1 \<or> nfds = int (length es) \<and> nfds \<le> lc_connections s \<and> distinct (map lv_fd es) \<and> lv_fd ` set es \<subseteq> lc_registered s"
    and wait: "lo_wait e = (nfds, es)"
  shows "\<exists>s'. load_poll e sockfd s = Inr s' \<and> load_inv port n s'"
proof (cases "nfds = -1")
  case True
  then show ?thesis using inv wait by (simp add: load_poll_def MAX_EPOLLSIZE_def)
next
  case False
  then have es': "list_all (\<lambda>e. lv_fd e \<in> lc_registered s) es" "distinct (map lv_fd es)" "take (nat nfds) es = es" "nfds \<le> MAX_EPOLLSIZE"
    using es inv n by (auto simp: list_all_iff load_inv_def)
  have "\<exists>s'. handle_events (load_handle sockfd) es s = Inr s' \<and> load_inv port n s'"
    by (rule load.batch_total [OF _ inv es'(1,2) env_along_True]) simp
  with es' wait show ?thesis by (simp add: load_poll_def)
qed

lemma load_round_ok:
  assumes inv: "load_inv port n s" and n: "n + 1 \<le> MAX_EPOLLSIZE" and os: "load_os_ok s e"
  shows "\<exists>r s'. load_round port e s = Inr (r, s') \<and> (r = None \<longrightarrow> load_inv port (n + 1) s') \<and> (r \<noteq> None \<longrightarrow> r = Some (-1) \<or> r = Some (-2))"
proof -
  let ?i = "if lc_index s + 1 \<ge> MAX_PORT then 0 else lc_index s + 1" and ?fd = "lo_socket e"
  define s' where "s' = s\<lparr>lc_index := ?i, lc_opened := insert ?fd (lc_opened s), lc_ports := lc_ports s @ [word_of_int (port + ?i)],
    lc_sent := lc_sent s @ [(?fd, Hello (lc_connections s))],
    lc_registered := (if lo_ctl e < 0 then lc_registered s else insert ?fd (lc_registered s)), lc_connections := lc_connections s + 1\<rparr>"
  have new: "?fd \<notin> lc_opened s" using os by (simp add: load_os_ok_def)
  have i: "0 \<le> ?i \<and> ?i < MAX_PORT" using inv by (auto simp: load_inv_def MAX_PORT_def)
  then have "word_of_int (port + ?i) \<in> port_range port" unfolding port_range_def by blast
  then have inv': "load_inv port (n + 1) s'"
    using inv new i by (auto simp: load_inv_def s'_def simp del: of_int_add)
  obtain nfds es where wait: "lo_wait e = (nfds, es)" by (cases "lo_wait e")
  obtain s'' where s'': "load_poll e ?fd s' = Inr s''" "load_inv port (n + 1) s''"
    using load_poll_ok [OF inv' n _ wait, of ?fd] os by (auto simp: load_os_ok_def wait s'_def split: if_splits)
  have run: "load_round port e s =
      (if ?fd = -1 then Inr (Some (-1), s\<lparr>lc_index := ?i\<rparr>)
       else if lo_connect e < 0 then Inr (Some (-2), s\<lparr>lc_index := ?i, lc_opened := insert ?fd (lc_opened s), lc_ports := lc_ports s @ [word_of_int (port + ?i)]\<rparr>)
       else if lc_connections s' mod 1000 = 0 then rbind (load_poll e ?fd s') (\<lambda>s. Inr (None, s)) else Inr (None, s'))"
    by (simp add: load_round_def Let_def s'_def)
  show ?thesis unfolding run using s'' inv' by simp
qed

lemma load_rounds_ok:
  assumes "load_inv port n s" and "n + int (length es) \<le> MAX_EPOLLSIZE" and "load_kernel port es s"
  shows "\<exists>r s'. load_rounds port es s = Inr (r, s') \<and>
    (if r = None then load_inv port (n + int (length es)) s' else r = Some (-1) \<or> r = Some (-2))"
  using assms
proof (induction es arbitrary: n s)
  case (Cons e es)
  have n: "n + 1 \<le> MAX_EPOLLSIZE" "n + 1 + int (length es) \<le> MAX_EPOLLSIZE" using Cons.prems(2) by simp_all
  have os: "load_os_ok s e" using Cons.prems(3) by simp
  obtain r s' where s': "load_round port e s = Inr (r, s')" "r = None \<longrightarrow> load_inv port (n + 1) s'" "r \<noteq> None \<longrightarrow> r = Some (-1) \<or> r = Some (-2)"
    using load_round_ok [OF Cons.prems(1) n(1) os] by blast
  show ?case
  proof (cases r)
    case None
    then obtain r' s'' where "load_rounds port es s' = Inr (r', s'')"
      "if r' = None then load_inv port (n + 1 + int (length es)) s'' else r' = Some (-1) \<or> r' = Some (-2)"
      using Cons.IH [of "n + 1" s'] Cons.prems(3) n(2) s' by auto
    with None s'(1) show ?thesis by (intro exI [of _ r'] exI [of _ s'']) (auto simp: algebra_simps split: if_splits)
  qed (use s' in auto)
qed auto

text \<open>
  C40. The load generator counts its connections. For up to 393216 rounds and whatever the kernel answers, \<open>main\<close> does not
  leave the array of events; while it runs, \<open>connections\<close> is the number of open sockets, and every connection was made to one of the
  hundred ports from \<open>port\<close> on, counted modulo $2^{16}$ as \<open>htons\<close> does. It ends only when a socket cannot be made or connected, with -1 or -2.
\<close>

theorem load_client_counts:
  assumes "3 \<le> argc" and "int (length es) \<le> MAX_EPOLLSIZE" and "load_kernel port es load_start"
  shows "\<exists>r s. main_load argc port es = Inr (r, s) \<and>
    (if r = None then lc_connections s = int (card (lc_opened s)) \<and> lc_registered s \<subseteq> lc_opened s \<and>
       set (lc_ports s) \<subseteq> {word_of_int (port + i) |i. 0 \<le> i \<and> i < 100}
     else r = Some (-1) \<or> r = Some (-2))"
proof -
  have "load_inv port 0 load_start" by (simp add: load_inv_def load_start_def MAX_PORT_def)
  from load_rounds_ok [OF this _ assms(3), unfolded add_0, OF assms(2)] obtain r s where "load_rounds port es load_start = Inr (r, s)"
    "if r = None then load_inv port (int (length es)) s else r = Some (-1) \<or> r = Some (-2)" by blast
  then show ?thesis using assms(1)
    by (intro exI [of _ r] exI [of _ s]) (auto simp: main_load_def load_inv_def port_range_def MAX_PORT_def simp del: of_int_add split: if_splits)
qed

text \<open>
  A run of a thousand connections, after the last of which the program looks at the events and closes the two
  that are reported.
\<close>

definition plain_round :: "nat \<Rightarrow> load_os" where
  "plain_round i = \<lparr>lo_socket = 5 + int i, lo_connect = 0, lo_ctl = 0, lo_wait = (-1, [])\<rparr>"

definition last_round :: load_os where
  "last_round = (plain_round 999)\<lparr>lo_wait := (2, [\<lparr>lv_fd = 7, lv_events = EPOLLIN, lv_recv = 0, lv_again = False\<rparr>,
     \<lparr>lv_fd = 9, lv_events = EPOLLERR, lv_recv = 0, lv_again = False\<rparr>])\<rparr>"

lemma load_rounds_snoc:
  "load_rounds port es s = Inr (None, s') \<Longrightarrow> load_round port e s' = Inr (None, t) \<Longrightarrow> load_rounds port (es @ [e]) s = Inr (None, t)"
  by (induction es arbitrary: s) (auto simp: rbind_Inr_iff split: option.splits)

lemma load_kernel_snoc:
  "load_kernel port es s \<Longrightarrow> load_rounds port es s = Inr (None, s') \<Longrightarrow> load_os_ok s' e \<Longrightarrow> load_kernel port (es @ [e]) s"
proof (induction es arbitrary: s)
  case (Cons a es)
  then obtain r t where t: "load_round port a s = Inr (r, t)" "r = None" "load_rounds port es t = Inr (None, s')"
    by (auto simp: rbind_Inr_iff split: option.splits)
  then show ?case using Cons by simp
qed (auto split: sum.splits option.splits)

definition thousand :: "nat \<Rightarrow> load_client \<Rightarrow> bool" where
  "thousand n s \<longleftrightarrow> lc_connections s = int n \<and> lc_opened s = {5..<5 + int n} \<and> lc_registered s = {5..<5 + int n}"

lemma thousand_rounds:
  "n < 1000 \<Longrightarrow> load_kernel 9000 (map plain_round [0..<n]) load_start \<and>
     (\<exists>s. load_rounds 9000 (map plain_round [0..<n]) load_start = Inr (None, s) \<and> thousand n s)"
proof (induction n)
  case (Suc n)
  then obtain s where s: "load_kernel 9000 (map plain_round [0..<n]) load_start"
    "load_rounds 9000 (map plain_round [0..<n]) load_start = Inr (None, s)" "thousand n s" by auto
  have ok: "load_os_ok s (plain_round n)" using s(3) by (simp add: thousand_def load_os_ok_def plain_round_def)
  have m: "(int n + 1) mod 1000 \<noteq> 0" using Suc.prems by simp
  have "\<exists>t. load_round 9000 (plain_round n) s = Inr (None, t) \<and> thousand (Suc n) t"
    using s(3) m by (auto simp: thousand_def load_round_def plain_round_def Let_def)
  then obtain t where "load_round 9000 (plain_round n) s = Inr (None, t)" "thousand (Suc n) t" by blast
  then show ?case using load_rounds_snoc [OF s(2)] load_kernel_snoc [OF s(1,2) ok] by auto
qed (simp add: load_start_def thousand_def)

theorem load_client_counts_witness:
  "\<exists>s. main_load 3 9000 (map plain_round [0..<999] @ [last_round]) = Inr (None, s) \<and> lc_connections s = 998 \<and> card (lc_opened s) = 998"
proof -
  let ?es = "map plain_round [0..<999] @ [last_round]"
  obtain s where s: "load_kernel 9000 (map plain_round [0..<999]) load_start"
    "load_rounds 9000 (map plain_round [0..<999]) load_start = Inr (None, s)" "thousand 999 s" using thousand_rounds [of 999] by auto
  have ok: "load_os_ok s last_round" using s(3) by (auto simp: thousand_def load_os_ok_def last_round_def plain_round_def)
  have "\<exists>t. load_round 9000 last_round s = Inr (None, t) \<and> lc_connections t = 998"
    using s(3) by (auto simp: thousand_def load_round_def last_round_def plain_round_def Let_def load_poll_def MAX_EPOLLSIZE_def
        load_handle_def close_client_def epoll_defs)
  then obtain t where t: "load_round 9000 last_round s = Inr (None, t)" "lc_connections t = 998" by blast
  have run: "main_load 3 9000 ?es = Inr (None, t)" using load_rounds_snoc [OF s(2) t(1)] by (simp add: main_load_def)
  have "int (length ?es) \<le> MAX_EPOLLSIZE" by (simp add: MAX_EPOLLSIZE_def)
  with load_client_counts [OF _ this load_kernel_snoc [OF s(1,2) ok], of 3] show ?thesis using run t(2) by auto
qed

subsection \<open>The wrong socket\<close>

text \<open>
  The loop over the events sends to and receives from \<open>sockfd\<close>, the connection made last, in place of \<open>clientfd\<close>: the data for
  a client go to another one, and when the last connection has been closed by the server, the client of the event is closed.
\<close>

lemma load_sends_to_last:
  "lv_events e AND EPOLLOUT \<noteq> 0 \<Longrightarrow> load_handle sockfd e s = Inr (s\<lparr>lc_sent := lc_sent s @ [(sockfd, Data_From (lv_fd e))]\<rparr>)"
  by (simp add: load_handle_def)

lemma load_closes_live:
  "lv_events e = EPOLLIN \<Longrightarrow> lv_recv e = 0 \<Longrightarrow> sockfd \<in> lc_opened s \<Longrightarrow> sockfd \<noteq> lv_fd e \<Longrightarrow>
   \<exists>s'. load_handle sockfd e s = Inr s' \<and> sockfd \<in> lc_opened s' \<and> lv_fd e \<notin> lc_opened s'"
  by (simp add: load_handle_def epoll_defs close_client_def Let_def)

end
