(* ===== verification/CopyOnUpdate.thy ===== *)
theory CopyOnUpdate
  imports CPrelude
begin

text \<open>
  The class \<open>UserData\<close> of \<open>src/muduo/copy_on_update.cc\<close>: a map shared between threads through a \<open>shared_ptr\<close>. A reader takes
  the mutex only to copy the pointer and then reads without it; a writer holds the mutex, and when the
  pointer is shared it puts a new map in place of the old one before it writes.

  The statements of \<open>getData\<close>, \<open>query\<close> and \<open>update\<close> are steps of their own and any number of threads interleave them; the
  pointers are reference counted as \<open>shared_ptr\<close> does, each count changing atomically. Shown is that no assertion fails and no
  freed map is read, that a map is never changed while a reader holds it, that the counters say how many pointers
  there are, so that every map is freed, and what the new map keeps of the old one: nothing.
\<close>

subsection \<open>The state\<close>

type_synonym data_map = "string \<rightharpoonup> u64"

text \<open>A map allocated with \<open>new\<close> and the count of the \<open>shared_ptr\<close>s to it.\<close>

record map_cell =
  use_count :: nat
  content :: data_map

type_synonym map_heap = "nat \<rightharpoonup> map_cell"

text \<open>
  Where a thread is in \<open>query\<close> or \<open>update\<close>, with its local variables. \<open>Crashed\<close> is a failed assertion or the use of a freed
  map.
\<close>

datatype data_thread =
    Idle
  | Q_Lock string | Q_Count string | Q_Copy string | Q_Unlock string nat | Q_Find string nat | Q_Drop nat
  | U_Lock string u64 | U_Test string u64 | U_Alloc string u64 | U_Swap string u64 nat
  | U_Times string u64 nat | U_Drop string u64 nat | U_Assert string u64 | U_Write string u64 | U_Unlock
  | Crashed

record user_data =
  u_mutex :: "nat option"
  u_data :: nat
  u_readTimes :: u64
  u_swapTimes :: u64
  u_maps :: map_heap
  u_next :: nat
  u_threads :: "data_thread list"

text \<open>The object after its constructor, with \<open>n\<close> threads that have not called anything.\<close>

definition UserData :: "nat \<Rightarrow> user_data" where
  "UserData n = \<lparr>u_mutex = None, u_data = 0, u_readTimes = 0, u_swapTimes = 0,
     u_maps = [0 \<mapsto> \<lparr>use_count = 1, content = Map.empty\<rparr>], u_next = 1, u_threads = replicate n Idle\<rparr>"

subsection \<open>Shared pointers\<close>

text \<open>Copying, destroying and testing a \<open>shared_ptr\<close>; there is no result when its map has been freed.\<close>

definition sp_copy :: "nat \<Rightarrow> map_heap \<Rightarrow> map_heap option" where
  "sp_copy p h = (case h p of None \<Rightarrow> None | Some c \<Rightarrow> Some (h(p \<mapsto> c\<lparr>use_count := Suc (use_count c)\<rparr>)))"

definition sp_drop :: "nat \<Rightarrow> map_heap \<Rightarrow> map_heap option" where
  "sp_drop p h =
     (case h p of None \<Rightarrow> None
      | Some c \<Rightarrow> Some (if use_count c \<le> 1 then h(p := None) else h(p \<mapsto> c\<lparr>use_count := use_count c - 1\<rparr>)))"

definition sp_unique :: "nat \<Rightarrow> map_heap \<Rightarrow> bool option" where
  "sp_unique p h = (case h p of None \<Rightarrow> None | Some c \<Rightarrow> Some (use_count c = 1))"

definition map_write :: "nat \<Rightarrow> string \<Rightarrow> u64 \<Rightarrow> map_heap \<Rightarrow> map_heap option" where
  "map_write p k e h =
     (case h p of None \<Rightarrow> None | Some c \<Rightarrow> Some (h(p \<mapsto> c\<lparr>content := (content c)(k \<mapsto> e)\<rparr>)))"

subsection \<open>The statements\<close>

definition goto :: "nat \<Rightarrow> data_thread \<Rightarrow> user_data \<Rightarrow> user_data" where
  "goto t pc s = s\<lparr>u_threads := (u_threads s)[t := pc]\<rparr>"

text \<open>A statement that works on the maps, and crashes when it uses one that is not there.\<close>

definition on_maps :: "nat \<Rightarrow> map_heap option \<Rightarrow> data_thread \<Rightarrow> user_data \<Rightarrow> user_data" where
  "on_maps t r pc s = (case r of None \<Rightarrow> goto t Crashed s | Some h \<Rightarrow> goto t pc (s\<lparr>u_maps := h\<rparr>))"

text \<open>The constructor of \<open>LockGuard\<close>: the thread waits while the mutex is taken.\<close>

definition lock_guard :: "nat \<Rightarrow> data_thread \<Rightarrow> user_data \<Rightarrow> user_data option" where
  "lock_guard t pc s = (if u_mutex s = None then Some (goto t pc (s\<lparr>u_mutex := Some t\<rparr>)) else None)"

text \<open>\<open>getData\<close>, up to the end of its critical section.\<close>

fun getData_step :: "nat \<Rightarrow> data_thread \<Rightarrow> user_data \<Rightarrow> user_data option" where
  "getData_step t (Q_Lock k) s = lock_guard t (Q_Count k) s"
| "getData_step t (Q_Count k) s = Some (goto t (Q_Copy k) (s\<lparr>u_readTimes := u_readTimes s + 1\<rparr>))"
| "getData_step t (Q_Copy k) s = Some (on_maps t (sp_copy (u_data s) (u_maps s)) (Q_Unlock k (u_data s)) s)"
| "getData_step t (Q_Unlock k p) s = Some (goto t (Q_Find k p) (s\<lparr>u_mutex := None\<rparr>))"
| "getData_step t _ s = None"

text \<open>\<open>query\<close>: the call of \<open>getData\<close>, \<open>find\<close>, whose result is not used, and the destructor of the pointer.\<close>

fun query_step :: "nat \<Rightarrow> data_thread \<Rightarrow> user_data \<Rightarrow> user_data option" where
  "query_step t (Q_Find k p) s = Some (goto t (if u_maps s p = None then Crashed else Q_Drop p) s)"
| "query_step t (Q_Drop p) s = Some (on_maps t (sp_drop p (u_maps s)) Idle s)"
| "query_step t pc s = getData_step t pc s"

text \<open>\<open>update\<close>: \<open>newData\<close> is the third component from \<open>U_Swap\<close> on, and holds the old map after the swap.\<close>

fun update_step :: "nat \<Rightarrow> data_thread \<Rightarrow> user_data \<Rightarrow> user_data option" where
  "update_step t (U_Lock k e) s = lock_guard t (U_Test k e) s"
| "update_step t (U_Test k e) s =
     Some (goto t (case sp_unique (u_data s) (u_maps s) of None \<Rightarrow> Crashed
                   | Some u \<Rightarrow> if \<not> u then U_Alloc k e else U_Assert k e) s)"
| "update_step t (U_Alloc k e) s =
     Some (goto t (U_Swap k e (u_next s))
       (s\<lparr>u_maps := (u_maps s)(u_next s \<mapsto> \<lparr>use_count = 1, content = Map.empty\<rparr>), u_next := Suc (u_next s)\<rparr>))"
| "update_step t (U_Swap k e n) s = Some (goto t (U_Times k e (u_data s)) (s\<lparr>u_data := n\<rparr>))"
| "update_step t (U_Times k e q) s = Some (goto t (U_Drop k e q) (s\<lparr>u_swapTimes := u_swapTimes s + 1\<rparr>))"
| "update_step t (U_Drop k e q) s = Some (on_maps t (sp_drop q (u_maps s)) (U_Assert k e) s)"
| "update_step t (U_Assert k e) s =
     Some (goto t (if sp_unique (u_data s) (u_maps s) = Some True then U_Write k e else Crashed) s)"
| "update_step t (U_Write k e) s = Some (on_maps t (map_write (u_data s) k e (u_maps s)) U_Unlock s)"
| "update_step t U_Unlock s = Some (goto t Idle (s\<lparr>u_mutex := None\<rparr>))"
| "update_step t _ s = None"

text \<open>
  The threads: one that is idle may call either operation, with any arguments, and every other one executes its next
  statement when it is not waiting for the mutex.
\<close>

inductive data_step :: "user_data \<Rightarrow> user_data \<Rightarrow> bool" where
  call_query: "t < length (u_threads s) \<Longrightarrow> u_threads s ! t = Idle \<Longrightarrow> data_step s (goto t (Q_Lock k) s)"
| call_update: "t < length (u_threads s) \<Longrightarrow> u_threads s ! t = Idle \<Longrightarrow> data_step s (goto t (U_Lock k e) s)"
| in_query: "t < length (u_threads s) \<Longrightarrow> query_step t (u_threads s ! t) s = Some s' \<Longrightarrow> data_step s s'"
| in_update: "t < length (u_threads s) \<Longrightarrow> update_step t (u_threads s ! t) s = Some s' \<Longrightarrow> data_step s s'"

definition data_init :: "user_data \<Rightarrow> bool" where
  "data_init s \<longleftrightarrow> (\<exists>n. s = UserData n)"

abbreviation data_reachable :: "user_data \<Rightarrow> bool" where
  "data_reachable \<equiv> reachable data_init data_step"

subsection \<open>The invariant\<close>

text \<open>The pointer a thread owns, and whether it is between taking and giving back the mutex.\<close>

fun held_ptr :: "data_thread \<Rightarrow> nat option" where
  "held_ptr (Q_Unlock k p) = Some p"
| "held_ptr (Q_Find k p) = Some p"
| "held_ptr (Q_Drop p) = Some p"
| "held_ptr (U_Swap k e n) = Some n"
| "held_ptr (U_Times k e q) = Some q"
| "held_ptr (U_Drop k e q) = Some q"
| "held_ptr _ = None"

fun in_lock :: "data_thread \<Rightarrow> bool" where
  "in_lock Idle = False"
| "in_lock (Q_Lock k) = False"
| "in_lock (Q_Find k p) = False"
| "in_lock (Q_Drop p) = False"
| "in_lock (U_Lock k e) = False"
| "in_lock _ = True"

text \<open>The number of pointers to a map, and counters that agree with such a number.\<close>

definition pins :: "data_thread list \<Rightarrow> nat \<Rightarrow> nat" where
  "pins ts p = (\<Sum>pc\<leftarrow>ts. of_bool (held_ptr pc = Some p))"

definition owners :: "user_data \<Rightarrow> nat \<Rightarrow> nat" where
  "owners s p = of_bool (u_data s = p) + pins (u_threads s) p"

definition counts_ok :: "map_heap \<Rightarrow> (nat \<Rightarrow> nat) \<Rightarrow> bool" where
  "counts_ok h f \<longleftrightarrow> (\<forall>p. case h p of None \<Rightarrow> f p = 0 | Some c \<Rightarrow> use_count c = f p \<and> 0 < f p)"

text \<open>What a thread in \<open>update\<close> relies on: its new map is its own, and so is the map it will write to.\<close>

definition alone :: "user_data \<Rightarrow> nat \<Rightarrow> nat \<Rightarrow> bool" where
  "alone s t p \<longleftrightarrow> (\<forall>i < length (u_threads s). i \<noteq> t \<longrightarrow> held_ptr (u_threads s ! i) \<noteq> Some p)"

fun phase_ok :: "user_data \<Rightarrow> nat \<Rightarrow> data_thread \<Rightarrow> bool" where
  "phase_ok s t (U_Swap k e n) \<longleftrightarrow> alone s t n \<and> n \<noteq> u_data s"
| "phase_ok s t (U_Times k e q) \<longleftrightarrow> alone s t (u_data s) \<and> q \<noteq> u_data s"
| "phase_ok s t (U_Drop k e q) \<longleftrightarrow> alone s t (u_data s) \<and> q \<noteq> u_data s"
| "phase_ok s t (U_Assert k e) \<longleftrightarrow> alone s t (u_data s)"
| "phase_ok s t (U_Write k e) \<longleftrightarrow> alone s t (u_data s)"
| "phase_ok s t Crashed \<longleftrightarrow> False"
| "phase_ok s t _ \<longleftrightarrow> True"

definition data_inv :: "user_data \<Rightarrow> bool" where
  "data_inv s \<longleftrightarrow>
     counts_ok (u_maps s) (owners s) \<and> (\<forall>p \<in> dom (u_maps s). p < u_next s) \<and>
     (\<forall>t < length (u_threads s).
        (in_lock (u_threads s ! t) \<longleftrightarrow> u_mutex s = Some t) \<and> phase_ok s t (u_threads s ! t))"

subsection \<open>Counting the pointers\<close>

lemma pins_simps [simp]: "pins [] p = 0" "pins (pc # ts) p = of_bool (held_ptr pc = Some p) + pins ts p"
  by (simp_all add: pins_def)

lemma pins_update:
  "t < length ts \<Longrightarrow>
   pins (ts[t := pc]) p + of_bool (held_ptr (ts ! t) = Some p) = pins ts p + of_bool (held_ptr pc = Some p)"
proof (induction ts arbitrary: t)
  case (Cons a ts)
  then show ?case by (cases t) (auto simp del: of_bool_eq_0_iff)
qed simp

lemma pins_zero: "pins ts p = 0 \<longleftrightarrow> (\<forall>t < length ts. held_ptr (ts ! t) \<noteq> Some p)"
  by (simp add: pins_def) (simp add: all_set_conv_all_nth)

lemma pins_pos: "0 < pins ts p \<longleftrightarrow> (\<exists>pc \<in> set ts. held_ptr pc = Some p)"
  by (induction ts) auto

lemma pins_replicate [simp]: "pins (replicate n Idle) p = 0"
  by (simp add: pins_zero)

lemma countedD:
  assumes "counts_ok h f"
  shows "h p = None \<Longrightarrow> f p = 0" "h p = Some c \<Longrightarrow> use_count c = f p \<and> 0 < f p"
  using assms [unfolded counts_ok_def, rule_format, of p] by simp_all

lemma counted_cell: "counts_ok h f \<Longrightarrow> 0 < f p \<Longrightarrow> \<exists>c. h p = Some c \<and> use_count c = f p"
  using countedD [of h f p] by (cases "h p") auto

lemma counted_live: "counts_ok h f \<Longrightarrow> h p \<noteq> None \<longleftrightarrow> 0 < f p"
  using countedD [of h f p] by (cases "h p") auto

lemma counted_upd:
  "counts_ok h f \<Longrightarrow> (case x of None \<Rightarrow> n = 0 | Some c \<Rightarrow> use_count c = n \<and> 0 < n) \<Longrightarrow> counts_ok (h(p := x)) (f(p := n))"
  unfolding counts_ok_def by (simp cong: option.case_cong)

lemma counted_copy:
  assumes "counts_ok h f" "0 < f p"
  shows "\<exists>h'. sp_copy p h = Some h' \<and> counts_ok h' (f(p := Suc (f p))) \<and> dom h' = dom h"
  using counted_cell [OF assms] by (auto simp: sp_copy_def intro!: counted_upd [OF assms(1)])

lemma counted_drop:
  assumes "counts_ok h f" "0 < f p"
  shows "\<exists>h'. sp_drop p h = Some h' \<and> counts_ok h' (f(p := f p - 1)) \<and> dom h' \<subseteq> dom h"
  using counted_cell [OF assms] assms(2) by (auto simp: sp_drop_def intro!: counted_upd [OF assms(1)])

lemma counted_unique: "counts_ok h f \<Longrightarrow> 0 < f p \<Longrightarrow> sp_unique p h = Some (f p = 1)"
  using counted_cell [of h f p] by (auto simp: sp_unique_def)

lemma counted_write:
  assumes "counts_ok h f" "0 < f p"
  shows "\<exists>h'. map_write p k e h = Some h' \<and> counts_ok h' f \<and> dom h' = dom h"
proof -
  from counted_cell [OF assms] obtain c where c: "h p = Some c" "use_count c = f p" by blast
  have "counts_ok (h(p \<mapsto> c\<lparr>content := (content c)(k \<mapsto> e)\<rparr>)) (f(p := f p))"
    using c assms(2) by (intro counted_upd [OF assms(1)]) simp
  with c show ?thesis by (auto simp: map_write_def)
qed

lemma owners_data [simp]: "0 < owners s (u_data s)"
  by (simp add: owners_def)

lemma owners_held: "t < length (u_threads s) \<Longrightarrow> held_ptr (u_threads s ! t) = Some p \<Longrightarrow> 0 < owners s p"
  using pins_zero [of "u_threads s" p] by (auto simp: owners_def)

lemma owners_one: "owners s (u_data s) = 1 \<longleftrightarrow> (\<forall>t < length (u_threads s). held_ptr (u_threads s ! t) \<noteq> Some (u_data s))"
  by (simp add: owners_def pins_zero)

text \<open>How the owners change when thread \<open>t\<close> goes on to \<open>pc\<close>.\<close>

lemma owners_move:
  assumes "t < length (u_threads s)" "u_threads s' = (u_threads s)[t := pc]" "u_data s' = u_data s"
  shows "held_ptr pc = held_ptr (u_threads s ! t) \<Longrightarrow> owners s' = owners s"
    and "held_ptr (u_threads s ! t) = None \<Longrightarrow> held_ptr pc = Some q \<Longrightarrow> owners s' = (owners s)(q := Suc (owners s q))"
    and "held_ptr (u_threads s ! t) = Some q \<Longrightarrow> held_ptr pc = None \<Longrightarrow> owners s' = (owners s)(q := owners s q - 1)"
proof -
  have *: "owners s' p + of_bool (held_ptr (u_threads s ! t) = Some p) = owners s p + of_bool (held_ptr pc = Some p)" for p
    using pins_update [OF assms(1), of pc p] by (simp add: owners_def assms(2,3))
  show "held_ptr pc = held_ptr (u_threads s ! t) \<Longrightarrow> owners s' = owners s" using * by fastforce
  show "held_ptr (u_threads s ! t) = None \<Longrightarrow> held_ptr pc = Some q \<Longrightarrow> owners s' = (owners s)(q := Suc (owners s q))"
  proof (intro ext)
    fix p assume "held_ptr (u_threads s ! t) = None" "held_ptr pc = Some q"
    then show "owners s' p = ((owners s)(q := Suc (owners s q))) p" using * [of p] by auto
  qed
  show "held_ptr (u_threads s ! t) = Some q \<Longrightarrow> held_ptr pc = None \<Longrightarrow> owners s' = (owners s)(q := owners s q - 1)"
  proof (intro ext)
    fix p assume "held_ptr (u_threads s ! t) = Some q" "held_ptr pc = None"
    then show "owners s' p = ((owners s)(q := owners s q - 1)) p" using * [of p] by auto
  qed
qed

lemma owners_swap:
  assumes "t < length (u_threads s)" "u_threads s' = (u_threads s)[t := pc]"
    and "held_ptr (u_threads s ! t) = Some (u_data s')" "held_ptr pc = Some (u_data s)"
  shows "owners s' = owners s"
proof
  fix p show "owners s' p = owners s p"
    using pins_update [OF assms(1), of pc p] assms(3,4) by (auto simp: owners_def assms(2))
qed

subsection \<open>The invariant holds\<close>

lemma data_invD:
  assumes "data_inv s"
  shows "counts_ok (u_maps s) (owners s)" "\<And>p c. u_maps s p = Some c \<Longrightarrow> p < u_next s"
    and "\<And>t. t < length (u_threads s) \<Longrightarrow> in_lock (u_threads s ! t) \<longleftrightarrow> u_mutex s = Some t"
    and "\<And>t. t < length (u_threads s) \<Longrightarrow> phase_ok s t (u_threads s ! t)"
  using assms by (auto simp: data_inv_def)

lemma phase_out_of_lock: "\<not> in_lock pc \<Longrightarrow> phase_ok s t pc"
  by (cases pc) auto

text \<open>
  What a thread has to keep so that the others keep theirs: the mutex is theirs as before, and only with the mutex does it
  change \<open>data_\<close> or take a pointer.
\<close>

lemma phase_of_others:
  assumes "phase_ok s i pc" "u_data s' = u_data s" "\<And>p. alone s i p \<Longrightarrow> alone s' i p"
  shows "phase_ok s' i pc"
  using assms by (cases pc) auto

lemma data_inv_move:
  assumes inv: "data_inv s" and t: "t < length (u_threads s)" and ts: "u_threads s' = (u_threads s)[t := pc]"
    and maps: "counts_ok (u_maps s') (owners s')" "\<forall>p \<in> dom (u_maps s'). p < u_next s'"
    and mutex: "\<And>i. i \<noteq> t \<Longrightarrow> u_mutex s' = Some i \<longleftrightarrow> u_mutex s = Some i" "in_lock pc \<longleftrightarrow> u_mutex s' = Some t"
    and phase: "phase_ok s' t pc"
    and take_lock: "u_mutex s \<noteq> Some t \<Longrightarrow> u_data s' = u_data s \<and> (held_ptr pc = None \<or> held_ptr pc = held_ptr (u_threads s ! t))"
  shows "data_inv s'"
proof -
  have "phase_ok s' i (u_threads s ! i)" if i: "i < length (u_threads s)" "i \<noteq> t" for i
  proof (cases "in_lock (u_threads s ! i)")
    case True
    then have "u_mutex s \<noteq> Some t" using data_invD(3) [OF inv i(1)] i(2) by simp
    from take_lock [OF this] have *: "u_data s' = u_data s" "held_ptr pc = None \<or> held_ptr pc = held_ptr (u_threads s ! t)" by auto
    have "alone s' i p" if "alone s i p" for p
      using that *(2) t i by (auto simp: alone_def ts nth_list_update)
    with data_invD(4) [OF inv i(1)] *(1) show ?thesis by (rule phase_of_others)
  qed (rule phase_out_of_lock)
  with data_invD(3) [OF inv] maps mutex phase t show ?thesis
    by (auto simp: data_inv_def ts nth_list_update)
qed

text \<open>A statement that leaves the maps and the pointers alone.\<close>

lemma data_inv_keep:
  assumes "data_inv s" "t < length (u_threads s)" "u_threads s' = (u_threads s)[t := pc]"
    and "u_maps s' = u_maps s" "u_next s' = u_next s" "u_data s' = u_data s" "held_ptr pc = held_ptr (u_threads s ! t)"
    and "\<And>i. i \<noteq> t \<Longrightarrow> u_mutex s' = Some i \<longleftrightarrow> u_mutex s = Some i" "in_lock pc \<longleftrightarrow> u_mutex s' = Some t"
    and "phase_ok s' t pc"
  shows "data_inv s'"
  using assms(1-3) data_invD(1,2) [OF assms(1)] owners_move(1) [OF assms(2,3,6,7)] assms
  by (intro data_inv_move [of s t s' pc]) auto

lemma goto_simps [simp]:
  "u_threads (goto t pc s) = (u_threads s)[t := pc]" "u_mutex (goto t pc s) = u_mutex s"
  "u_data (goto t pc s) = u_data s" "u_maps (goto t pc s) = u_maps s" "u_next (goto t pc s) = u_next s"
  "u_readTimes (goto t pc s) = u_readTimes s" "u_swapTimes (goto t pc s) = u_swapTimes s"
  by (simp_all add: goto_def)

lemma lock_guard_inv:
  assumes "data_inv s" "t < length (u_threads s)" "lock_guard t pc s = Some s'"
    and "held_ptr (u_threads s ! t) = None" "held_ptr pc = None" "in_lock pc" "\<And>s. phase_ok s t pc"
  shows "data_inv s'"
  using assms by (intro data_inv_keep [of s t s' pc]) (auto simp: lock_guard_def split: if_splits)

text \<open>Destroying the pointer that the thread holds.\<close>

lemma drop_inv:
  assumes inv: "data_inv s" and t: "t < length (u_threads s)" and q: "held_ptr (u_threads s ! t) = Some q" "held_ptr pc = None"
    and lock: "in_lock pc \<longleftrightarrow> in_lock (u_threads s ! t)"
    and phase: "\<And>s'. u_threads s' = (u_threads s)[t := pc] \<Longrightarrow> u_data s' = u_data s \<Longrightarrow> phase_ok s' t pc"
  shows "data_inv (on_maps t (sp_drop q (u_maps s)) pc s)"
proof -
  from counted_drop [OF data_invD(1) [OF inv] owners_held [OF t q(1)]] obtain h
    where h: "sp_drop q (u_maps s) = Some h" "counts_ok h ((owners s)(q := owners s q - 1))" "dom h \<subseteq> dom (u_maps s)" by blast
  let ?s = "goto t pc (s\<lparr>u_maps := h\<rparr>)"
  have "owners ?s = (owners s)(q := owners s q - 1)" by (rule owners_move(3) [OF t _ _ q]) simp_all
  with h data_invD(2,3) [OF inv] t lock phase [of ?s] q have "data_inv ?s"
    by (intro data_inv_move [OF inv t, of ?s pc]) auto
  with h(1) show ?thesis by (simp add: on_maps_def)
qed

lemma copy_inv:
  assumes inv: "data_inv s" and t: "t < length (u_threads s)" and pc: "u_threads s ! t = Q_Copy k"
  shows "data_inv (on_maps t (sp_copy (u_data s) (u_maps s)) (Q_Unlock k (u_data s)) s)"
proof -
  let ?q = "u_data s"
  from counted_copy [OF data_invD(1) [OF inv] owners_data] obtain h
    where h: "sp_copy ?q (u_maps s) = Some h" "counts_ok h ((owners s)(?q := Suc (owners s ?q)))" "dom h = dom (u_maps s)" by blast
  let ?s = "goto t (Q_Unlock k ?q) (s\<lparr>u_maps := h\<rparr>)"
  have "owners ?s = (owners s)(?q := Suc (owners s ?q))" by (rule owners_move(2) [OF t, of _ "Q_Unlock k ?q"]) (simp_all add: pc)
  with h data_invD(2) [OF inv] data_invD(3) [OF inv t] t have "data_inv ?s"
    by (intro data_inv_move [OF inv t, of ?s "Q_Unlock k ?q"]) (auto simp: pc)
  with h(1) show ?thesis by (simp add: on_maps_def)
qed

lemma query_inv:
  assumes "data_inv s" "t < length (u_threads s)" "query_step t (u_threads s ! t) s = Some s'"
  shows "data_inv s'"
proof (cases "u_threads s ! t")
  case (Q_Lock k)
  with assms show ?thesis by (auto intro: lock_guard_inv)
next
  case (Q_Count k)
  with assms data_invD(3) [OF assms(1,2)] show ?thesis by (intro data_inv_keep [OF assms(1,2), of s' "Q_Copy k"]) auto
next
  case (Q_Copy k)
  with assms show ?thesis by (auto intro: copy_inv)
next
  case (Q_Unlock k p)
  with assms data_invD(3) [OF assms(1,2)] show ?thesis by (intro data_inv_keep [OF assms(1,2), of s' "Q_Find k p"]) auto
next
  case (Q_Find k p)
  then have "u_maps s p \<noteq> None"
    using counted_live [OF data_invD(1) [OF assms(1)]] owners_held [OF assms(2), of p] by simp
  with Q_Find assms data_invD(3) [OF assms(1,2)] show ?thesis by (intro data_inv_keep [OF assms(1,2), of s' "Q_Drop p"]) auto
next
  case (Q_Drop p)
  with assms show ?thesis by (auto intro!: drop_inv)
qed (use assms in auto)

lemma alloc_inv:
  assumes inv: "data_inv s" and t: "t < length (u_threads s)" and pc: "u_threads s ! t = U_Alloc k e"
    and s': "update_step t (U_Alloc k e) s = Some s'"
  shows "data_inv s'"
proof -
  let ?n = "u_next s"
  have "u_maps s ?n = None" using data_invD(2) [OF inv, of ?n] by (cases "u_maps s ?n") auto
  then have n: "owners s ?n = 0" using counted_live [OF data_invD(1) [OF inv], of ?n] by simp
  moreover have "0 < owners s (u_data s)" by simp
  ultimately have alone: "?n \<noteq> u_data s" "alone s' t ?n"
    using owners_held [of _ s ?n] s' by (metis less_irrefl, auto simp: alone_def)
  have "owners s' = (owners s)(?n := Suc (owners s ?n))"
    using s' by (intro owners_move(2) [OF t, of _ "U_Swap k e ?n"]) (auto simp: pc)
  with n have "counts_ok (u_maps s') (owners s')"
    using counted_upd [OF data_invD(1) [OF inv], of 1 "Some \<lparr>use_count = 1, content = Map.empty\<rparr>" ?n] s' by auto
  with alone s' data_invD(2) [OF inv] data_invD(3) [OF inv t] t show ?thesis
    by (intro data_inv_move [OF inv t, of s' "U_Swap k e ?n"]) (auto simp: pc less_Suc_eq)
qed

lemma write_inv:
  assumes inv: "data_inv s" and t: "t < length (u_threads s)" and pc: "u_threads s ! t = U_Write k e"
  shows "data_inv (on_maps t (map_write (u_data s) k e (u_maps s)) U_Unlock s)"
proof -
  from counted_write [OF data_invD(1) [OF inv] owners_data] obtain h
    where h: "map_write (u_data s) k e (u_maps s) = Some h" "counts_ok h (owners s)" "dom h = dom (u_maps s)" by blast
  let ?s = "goto t U_Unlock (s\<lparr>u_maps := h\<rparr>)"
  have "owners ?s = owners s" by (rule owners_move(1) [OF t, of _ U_Unlock]) (simp_all add: pc)
  with h data_invD(2) [OF inv] data_invD(3) [OF inv t] t have "data_inv ?s"
    by (intro data_inv_move [OF inv t, of ?s U_Unlock]) (auto simp: pc)
  with h(1) show ?thesis by (simp add: on_maps_def)
qed

lemma alone_own: "held_ptr (u_threads s ! t) \<noteq> Some p \<Longrightarrow> alone s t p \<longleftrightarrow> (\<forall>i < length (u_threads s). held_ptr (u_threads s ! i) \<noteq> Some p)"
  by (auto simp: alone_def)

lemma alone_move: "u_threads s' = (u_threads s)[t := pc] \<Longrightarrow> alone s' t p \<longleftrightarrow> alone s t p"
  by (auto simp: alone_def)

lemma unique_alone:
  assumes "data_inv s" "held_ptr (u_threads s ! t) = None"
  shows "sp_unique (u_data s) (u_maps s) = Some (alone s t (u_data s))"
  using counted_unique [OF data_invD(1) [OF assms(1)] owners_data] owners_one [of s] alone_own [of s t "u_data s"] assms(2)
  by simp

lemma update_inv:
  assumes inv: "data_inv s" and t: "t < length (u_threads s)" and s': "update_step t (u_threads s ! t) s = Some s'"
  shows "data_inv s'"
proof (cases "u_threads s ! t")
  case (U_Lock k e)
  with assms show ?thesis by (auto intro: lock_guard_inv)
next
  case (U_Test k e)
  let ?pc = "if alone s t (u_data s) then U_Assert k e else U_Alloc k e"
  show ?thesis
    using U_Test s' data_invD(3) [OF inv t] t unique_alone [OF inv, of t]
    by (intro data_inv_keep [OF inv t, of s' ?pc]) (auto simp: alone_move)
next
  case (U_Alloc k e)
  with assms show ?thesis by (auto intro: alloc_inv)
next
  case (U_Swap k e n)
  with s' have s'_eq: "s' = goto t (U_Times k e (u_data s)) (s\<lparr>u_data := n\<rparr>)" by simp
  have "owners s' = owners s" using U_Swap by (intro owners_swap [OF t]) (auto simp: s'_eq)
  with U_Swap data_invD [OF inv] data_invD(3,4) [OF inv t] t show ?thesis
    by (intro data_inv_move [OF inv t, of s' "U_Times k e (u_data s)"]) (auto simp: s'_eq alone_move)
next
  case (U_Times k e q)
  with s' data_invD(3,4) [OF inv t] show ?thesis
    by (intro data_inv_keep [OF inv t, of s' "U_Drop k e q"]) (auto simp: alone_move)
next
  case (U_Drop k e q)
  with assms data_invD(4) [OF inv t] show ?thesis by (auto simp: alone_move intro!: drop_inv)
next
  case (U_Assert k e)
  with s' data_invD(3,4) [OF inv t] unique_alone [OF inv, of t] show ?thesis
    by (intro data_inv_keep [OF inv t, of s' "U_Write k e"]) (auto simp: alone_move)
next
  case (U_Write k e)
  with assms show ?thesis by (auto intro: write_inv)
next
  case U_Unlock
  with s' data_invD(3) [OF inv t] show ?thesis by (intro data_inv_keep [OF inv t, of s' Idle]) auto
qed (use assms in auto)

lemma data_init_inv: "data_init s \<Longrightarrow> data_inv s"
  by (auto simp: data_init_def data_inv_def UserData_def counts_ok_def owners_def) (metis option.distinct(1))

lemma call_inv:
  assumes "data_inv s" "t < length (u_threads s)" "u_threads s ! t = Idle" "held_ptr pc = None" "\<not> in_lock pc"
  shows "data_inv (goto t pc s)"
  using assms(3-5) data_invD(3) [OF assms(1,2)]
  by (intro data_inv_keep [OF assms(1,2), of "goto t pc s" pc]) (simp_all add: phase_out_of_lock)

lemma data_step_inv: "data_step s s' \<Longrightarrow> data_inv s \<Longrightarrow> data_inv s'"
  by (induction rule: data_step.induct) (auto intro: call_inv query_inv update_inv)

interpretation cow: invariant_system data_init data_step data_inv
  by unfold_locales (rule data_init_inv, assumption, rule data_step_inv)

subsection \<open>Schedules\<close>

text \<open>The steps as a function of the thread that moves and of what it calls, so that an interleaving can be computed.\<close>

datatype data_action = Call_Query nat string | Call_Update nat string u64 | Statement nat

fun acting :: "data_action \<Rightarrow> nat" where
  "acting (Call_Query t k) = t"
| "acting (Call_Update t k e) = t"
| "acting (Statement t) = t"

definition begin_call :: "nat \<Rightarrow> data_thread \<Rightarrow> user_data \<Rightarrow> user_data option" where
  "begin_call t pc s = (if t < length (u_threads s) \<and> u_threads s ! t = Idle then Some (goto t pc s) else None)"

fun data_act :: "data_action \<Rightarrow> user_data \<Rightarrow> user_data option" where
  "data_act (Call_Query t k) s = begin_call t (Q_Lock k) s"
| "data_act (Call_Update t k e) s = begin_call t (U_Lock k e) s"
| "data_act (Statement t) s =
     (if t < length (u_threads s)
      then case query_step t (u_threads s ! t) s of Some s' \<Rightarrow> Some s' | None \<Rightarrow> update_step t (u_threads s ! t) s
      else None)"

fun data_run :: "data_action list \<Rightarrow> user_data \<Rightarrow> user_data option" where
  "data_run [] s = Some s"
| "data_run (a # as) s = (case data_act a s of None \<Rightarrow> None | Some s' \<Rightarrow> data_run as s')"

lemmas data_act_defs = begin_call_def lock_guard_def on_maps_def

lemma query_or_update: "query_step t pc s = None \<or> update_step t pc s = None"
  by (cases pc) auto

lemma data_act_step: "data_act a s = Some s' \<Longrightarrow> data_step s s'"
  by (cases a) (auto simp: begin_call_def split: if_splits option.splits intro: data_step.intros)

text \<open>Every step is one of a schedule and conversely.\<close>

lemma data_step_iff: "data_step s s' \<longleftrightarrow> (\<exists>a. data_act a s = Some s')"
proof
  assume "data_step s s'"
  then show "\<exists>a. data_act a s = Some s'"
  proof cases
    case (call_query t k)
    then have "data_act (Call_Query t k) s = Some s'" by (simp add: begin_call_def)
    then show ?thesis ..
  next
    case (call_update t k e)
    then have "data_act (Call_Update t k e) s = Some s'" by (simp add: begin_call_def)
    then show ?thesis ..
  next
    case (in_query t)
    then have "data_act (Statement t) s = Some s'" by simp
    then show ?thesis ..
  next
    case (in_update t)
    with query_or_update [of t "u_threads s ! t" s] have "data_act (Statement t) s = Some s'" by simp
    then show ?thesis ..
  qed
qed (blast intro: data_act_step)

lemma data_run_steps: "data_run as s = Some s' \<Longrightarrow> data_step\<^sup>*\<^sup>* s s'"
  by (induction as arbitrary: s)
    (auto split: option.splits intro: converse_rtranclp_into_rtranclp dest: data_act_step)

lemma data_run_reachable:
  assumes "data_run as (UserData n) = Some s"
  shows "data_reachable s"
  using data_run_steps [OF assms]
proof (induction rule: rtranclp_induct)
  case base
  show ?case by (rule reachable.start) (auto simp: data_init_def)
qed (rule reachable.extend)

lemma data_act_other: "data_act a s = Some s' \<Longrightarrow> t \<noteq> acting a \<Longrightarrow> u_threads s' ! t = u_threads s ! t"
  by (cases a; cases "u_threads s ! acting a")
    (auto simp: data_act_defs split: if_splits option.splits)

lemma data_act_length: "data_act a s = Some s' \<Longrightarrow> length (u_threads s') = length (u_threads s)"
  by (cases a; cases "u_threads s ! acting a")
    (auto simp: data_act_defs split: if_splits option.splits)

subsection \<open>What the readers see\<close>

definition content_at :: "user_data \<Rightarrow> nat \<Rightarrow> data_map option" where
  "content_at s p = map_option content (u_maps s p)"

text \<open>A map that stays allocated is changed by the assignment of \<open>update\<close> only, and only when it is the current one.\<close>

lemma content_changes:
  assumes "data_act a s = Some s'" "u_maps s p \<noteq> None" "u_maps s' p \<noteq> None" "u_maps s (u_next s) = None"
    and "content_at s' p \<noteq> content_at s p"
  shows "\<exists>k e. u_threads s ! acting a = U_Write k e \<and> p = u_data s \<and>
    content_at s' p = map_option (\<lambda>m. m(k \<mapsto> e)) (content_at s p)"
proof (cases a)
  case (Statement t)
  with assms show ?thesis
    by (cases "u_threads s ! t")
      (auto simp: content_at_def data_act_defs sp_copy_def sp_drop_def map_write_def
        split: if_splits option.splits)
qed (use assms in \<open>auto simp: begin_call_def content_at_def split: if_splits\<close>)

lemma data_inv_fresh: "data_inv s \<Longrightarrow> u_maps s (u_next s) = None"
  using data_invD(2) [of s "u_next s"] by (cases "u_maps s (u_next s)") auto

lemma held_live: "data_inv s \<Longrightarrow> t < length (u_threads s) \<Longrightarrow> held_ptr (u_threads s ! t) = Some p \<Longrightarrow> u_maps s p \<noteq> None"
  by (metis counted_live data_invD(1) owners_held)

lemma data_act_inv: "data_inv s \<Longrightarrow> data_act a s = Some s' \<Longrightarrow> data_inv s'"
  by (blast intro: data_step_inv data_act_step)

text \<open>The assignment never is to a map that a thread holds.\<close>

lemma held_not_written:
  assumes "data_inv s" "i < length (u_threads s)" "u_threads s ! i = U_Write k e"
    and "t < length (u_threads s)" "held_ptr (u_threads s ! t) = Some p"
  shows "p \<noteq> u_data s"
  using data_invD(4) [OF assms(1,2)] assms by (cases "t = i") (auto simp: alone_def)

lemma data_act_acting: "data_act a s = Some s' \<Longrightarrow> acting a < length (u_threads s)"
  by (cases a) (auto simp: begin_call_def split: if_splits)

lemma held_kept:
  assumes inv: "data_inv s" and t: "t < length (u_threads s)" "held_ptr (u_threads s ! t) = Some p"
    and a: "data_act a s = Some s'" "t \<noteq> acting a"
  shows "content_at s' p = content_at s p"
proof (rule ccontr)
  assume *: "content_at s' p \<noteq> content_at s p"
  have "u_maps s' p \<noteq> None"
    using held_live [OF data_act_inv [OF inv a(1)]] data_act_other [OF a] data_act_length [OF a(1)] t by simp
  from content_changes [OF a(1) held_live [OF inv t] this data_inv_fresh [OF inv] *]
  obtain k e where "u_threads s ! acting a = U_Write k e" "p = u_data s" by blast
  with held_not_written [OF inv data_act_acting [OF a(1)] _ t] show False by simp
qed

lemma held_kept_run:
  "data_run as s = Some s' \<Longrightarrow> data_inv s \<Longrightarrow> t < length (u_threads s) \<Longrightarrow> held_ptr (u_threads s ! t) = Some p \<Longrightarrow>
   t \<notin> acting ` set as \<Longrightarrow> content_at s' p = content_at s p \<and> u_maps s' p \<noteq> None"
proof (induction as arbitrary: s)
  case Nil
  then show ?case using held_live [of s t p] by simp
next
  case (Cons a as)
  then obtain s1 where s1: "data_act a s = Some s1" "data_run as s1 = Some s'" by (auto split: option.splits)
  with Cons.prems have "content_at s1 p = content_at s p" by (intro held_kept [of s t p a]) auto
  with Cons.IH [OF s1(2)] Cons.prems s1(1) show ?case
    by (simp add: data_act_inv [of s a] data_act_other [of a s] data_act_length [of a s])
qed

subsection \<open>Updates of one key\<close>

text \<open>The key a thread in \<open>update\<close> works on, and whether it may have swapped the maps and not written yet.\<close>

fun update_key :: "data_thread \<Rightarrow> string option" where
  "update_key (U_Lock k e) = Some k"
| "update_key (U_Test k e) = Some k"
| "update_key (U_Alloc k e) = Some k"
| "update_key (U_Swap k e n) = Some k"
| "update_key (U_Times k e q) = Some k"
| "update_key (U_Drop k e q) = Some k"
| "update_key (U_Assert k e) = Some k"
| "update_key (U_Write k e) = Some k"
| "update_key _ = None"

fun unwritten :: "data_thread \<Rightarrow> bool" where
  "unwritten (U_Times k e q) = True"
| "unwritten (U_Drop k e q) = True"
| "unwritten (U_Assert k e) = True"
| "unwritten (U_Write k e) = True"
| "unwritten _ = False"

definition updates_key :: "string \<Rightarrow> user_data \<Rightarrow> bool" where
  "updates_key k s \<longleftrightarrow> (\<forall>pc \<in> set (u_threads s). update_key pc \<in> {None, Some k})"

fun calls_key :: "string \<Rightarrow> data_action \<Rightarrow> bool" where
  "calls_key k (Call_Update t k' e) \<longleftrightarrow> k' = k"
| "calls_key k _ \<longleftrightarrow> True"

definition has_key :: "string \<Rightarrow> user_data \<Rightarrow> bool" where
  "has_key k s \<longleftrightarrow> (\<exists>m. content_at s (u_data s) = Some m \<and> m k \<noteq> None)"

definition key_kept :: "string \<Rightarrow> user_data \<Rightarrow> bool" where
  "key_kept k s \<longleftrightarrow> has_key k s \<or> (\<exists>t < length (u_threads s). unwritten (u_threads s ! t))"

lemma updates_key_act: "data_act a s = Some s' \<Longrightarrow> updates_key k s \<Longrightarrow> calls_key k a \<Longrightarrow> updates_key k s'"
proof -
  assume a: "data_act a s = Some s'" and k: "updates_key k s" and c: "calls_key k a"
  have "update_key (u_threads s ! acting a) \<in> {None, Some k}"
    using k data_act_acting [OF a] by (simp add: updates_key_def)
  with a k c show "updates_key k s'"
    by (cases a; cases "u_threads s ! acting a")
      (auto simp: updates_key_def data_act_defs split: if_splits option.splits
        dest!: set_update_subset_insert [THEN subsetD])
qed

lemma data_act_data:
  "data_act a s = Some s' \<Longrightarrow> u_data s' \<noteq> u_data s \<Longrightarrow> unwritten (u_threads s' ! acting a)"
  by (cases a; cases "u_threads s ! acting a")
    (auto simp: data_act_defs split: if_splits option.splits)

lemma unwritten_act:
  assumes "data_act a s = Some s'" "unwritten (u_threads s ! acting a)" "update_key (u_threads s ! acting a) = Some k"
    and "u_maps s (u_data s) \<noteq> None" "\<not> unwritten (u_threads s' ! acting a)" "u_threads s' ! acting a \<noteq> Crashed"
  shows "has_key k s'"
  using assms
  by (cases a; cases "u_threads s ! acting a")
    (auto simp: has_key_def content_at_def data_act_defs map_write_def split: if_splits option.splits)

lemma key_kept_act:
  assumes inv: "data_inv s" and a: "data_act a s = Some s'" and k: "updates_key k s" and kept: "key_kept k s"
  shows "key_kept k s'"
proof (cases "unwritten (u_threads s' ! acting a)")
  case True
  with data_act_acting [OF a] data_act_length [OF a] show ?thesis by (auto simp: key_kept_def)
next
  case False
  note inv' = data_act_inv [OF inv a]
  have same: "u_data s' = u_data s" using data_act_data [OF a] False by blast
  have live: "u_maps s (u_data s) \<noteq> None" "u_maps s' (u_data s) \<noteq> None"
    using counted_live [OF data_invD(1) [OF inv]] counted_live [OF data_invD(1) [OF inv']] owners_data [of s] owners_data [of s'] same
    by simp_all
  from kept consider "has_key k s" | t where "t < length (u_threads s)" "unwritten (u_threads s ! t)"
    by (auto simp: key_kept_def)
  then show ?thesis
  proof cases
    case 1
    then have "has_key k s'"
      using content_changes [OF a live data_inv_fresh [OF inv]] same by (fastforce simp: has_key_def)
    then show ?thesis by (simp add: key_kept_def)
  next
    case (2 t)
    show ?thesis
    proof (cases "t = acting a")
      case True
      have "update_key (u_threads s ! t) = Some k"
        using 2 k nth_mem [OF 2(1)] by (cases "u_threads s ! t") (auto simp: updates_key_def)
      moreover have "u_threads s' ! t \<noteq> Crashed" using data_invD(4) [OF inv', of t] data_act_length [OF a] 2(1) by auto
      ultimately show ?thesis using unwritten_act [OF a _ _ live(1) False] 2 True by (simp add: key_kept_def)
    next
      case False
      with 2 data_act_other [OF a] data_act_length [OF a] show ?thesis by (auto simp: key_kept_def)
    qed
  qed
qed

lemma key_kept_run:
  "data_run as s = Some s' \<Longrightarrow> data_inv s \<Longrightarrow> updates_key k s \<Longrightarrow> key_kept k s \<Longrightarrow> list_all (calls_key k) as \<Longrightarrow>
   data_inv s' \<and> key_kept k s'"
  by (induction as arbitrary: s)
    (auto split: option.splits intro: data_act_inv updates_key_act key_kept_act)

lemma unwritten_in_lock: "unwritten pc \<Longrightarrow> in_lock pc"
  by (cases pc) auto

text \<open>
  The whole of \<open>update\<close>, when no other thread runs meanwhile: with the pointer to itself it adds the entry to the map; otherwise
  the readers keep the old map, and the new one has no other entry than this.
\<close>

lemma update_alone:
  assumes inv: "data_inv s" and t: "t < length (u_threads s)" "u_threads s ! t = U_Test k e" and alone: "alone s t (u_data s)"
  shows "\<exists>s' m. data_run (replicate 3 (Statement t)) s = Some s' \<and> u_data s' = u_data s \<and>
    content_at s (u_data s) = Some m \<and> content_at s' (u_data s) = Some (m(k \<mapsto> e))"
proof -
  have "sp_unique (u_data s) (u_maps s) = Some True" using unique_alone [OF inv, of t] t alone by simp
  with t show ?thesis
    by (auto simp: eval_nat_numeral on_maps_def map_write_def sp_unique_def content_at_def split: option.splits)
qed

lemma update_shared:
  assumes inv: "data_inv s" and t: "t < length (u_threads s)" "u_threads s ! t = U_Test k e" and shared: "\<not> alone s t (u_data s)"
  shows "\<exists>s'. data_run (replicate 7 (Statement t)) s = Some s' \<and> content_at s' (u_data s') = Some [k \<mapsto> e] \<and>
    content_at s' (u_data s) = content_at s (u_data s) \<and> u_swapTimes s' = u_swapTimes s + 1"
proof -
  have u: "sp_unique (u_data s) (u_maps s) = Some False" using unique_alone [OF inv, of t] t shared by simp
  from counted_cell [OF data_invD(1) [OF inv] owners_data] obtain c
    where c: "u_maps s (u_data s) = Some c" "use_count c = owners s (u_data s)" by blast
  then have "use_count c \<noteq> 1" "0 < use_count c" using u owners_data [of s] by (simp_all add: sp_unique_def)
  then have "1 < use_count c" by simp
  moreover have "u_next s \<noteq> u_data s" using data_inv_fresh [OF inv] c(1) by auto
  ultimately show ?thesis using t c(1) u
    by (simp add: eval_nat_numeral on_maps_def map_write_def sp_drop_def sp_unique_def content_at_def)
qed

text \<open>
  A schedule of two threads: the second writes a key, the first gets the pointer, and the second updates once more, on a
  new map.
\<close>

definition read_then_update :: "data_action list" where
  "read_then_update =
     Call_Update 1 ''temparature'' 20 # replicate 5 (Statement 1) @ Call_Query 0 ''temparature'' # replicate 4 (Statement 0)"

definition reader_inside :: user_data where
  "reader_inside = \<lparr>u_mutex = None, u_data = 0, u_readTimes = 1, u_swapTimes = 0,
     u_maps = [0 \<mapsto> \<lparr>use_count = 2, content = [''temparature'' \<mapsto> 20]\<rparr>], u_next = 1,
     u_threads = [Q_Find ''temparature'' 0, Idle]\<rparr>"

lemma reader_inside_reachable: "data_reachable reader_inside"
proof (rule data_run_reachable [of read_then_update 2])
  show "data_run read_then_update (UserData 2) = Some reader_inside"
    by (simp add: read_then_update_def reader_inside_def UserData_def eval_nat_numeral data_act_defs goto_def
        sp_unique_def sp_copy_def map_write_def)
qed

subsection \<open>The properties\<close>

text \<open>
  C16. However the threads interleave \<open>query\<close> and \<open>update\<close>, no assertion fails and no freed map is used; the map of \<open>data_\<close> and the
  maps held by threads are the ones allocated, so that the others have been freed; every counter is the number of
  pointers to its map; and when a thread writes, no other holds the map.
\<close>

theorem user_data_safe:
  assumes "data_reachable s"
  shows "Crashed \<notin> set (u_threads s) \<and>
    (\<forall>p. u_maps s p \<noteq> None \<longleftrightarrow> p = u_data s \<or> (\<exists>pc \<in> set (u_threads s). held_ptr pc = Some p)) \<and>
    (\<forall>p c. u_maps s p = Some c \<longrightarrow> use_count c = owners s p) \<and>
    (\<forall>k e. U_Write k e \<in> set (u_threads s) \<longrightarrow> owners s (u_data s) = 1)"
proof (intro conjI allI impI)
  note inv = cow.reachable_inv [OF assms]
  show "Crashed \<notin> set (u_threads s)" using data_invD(4) [OF inv] by (force simp: in_set_conv_nth)
  show "u_maps s p \<noteq> None \<longleftrightarrow> p = u_data s \<or> (\<exists>pc \<in> set (u_threads s). held_ptr pc = Some p)" for p
    using counted_live [OF data_invD(1) [OF inv], of p] pins_pos [of "u_threads s" p] by (auto simp: owners_def)
  show "use_count c = owners s p" if "u_maps s p = Some c" for p c
    using countedD(2) [OF data_invD(1) [OF inv] that] by blast
  fix k e assume "U_Write k e \<in> set (u_threads s)"
  then obtain t where "t < length (u_threads s)" "u_threads s ! t = U_Write k e" by (auto simp: in_set_conv_nth)
  with data_invD(4) [OF inv, of t] alone_own [of s t "u_data s"] owners_one [of s]
  show "owners s (u_data s) = 1" by simp
qed

theorem user_data_safe_witness:
  "data_reachable reader_inside \<and> Crashed \<notin> set (u_threads reader_inside) \<and> owners reader_inside 0 = 2"
proof -
  have "u_maps reader_inside 0 = Some \<lparr>use_count = 2, content = [''temparature'' \<mapsto> 20]\<rparr>" by (simp add: reader_inside_def)
  with user_data_safe [OF reader_inside_reachable] have "Crashed \<notin> set (u_threads reader_inside)" "owners reader_inside 0 = 2"
    by fastforce+
  then show ?thesis using reader_inside_reachable by blast
qed

text \<open>
  C15. A reader sees one state of the data: whatever the other threads do while it holds the pointer it got from
  \<open>getData\<close>, the map stays allocated and its contents stay what they were.
\<close>

theorem snapshot_isolation:
  assumes "data_reachable s" "t < length (u_threads s)" "u_threads s ! t = Q_Find k p"
    and "t \<notin> acting ` set as" "data_run as s = Some s'"
  shows "content_at s' p = content_at s p \<and> u_maps s' p \<noteq> None"
  using held_kept_run [OF assms(5) cow.reachable_inv [OF assms(1)] assms(2) _ assms(4), of p] assms(3) by simp

theorem snapshot_isolation_witness:
  "\<exists>s'. data_run (Call_Update 1 ''temparature'' 21 # replicate 9 (Statement 1)) reader_inside = Some s' \<and>
     content_at s' 0 = Some [''temparature'' \<mapsto> 20] \<and> content_at s' (u_data s') = Some [''temparature'' \<mapsto> 21]"
proof -
  let ?as = "Call_Update 1 ''temparature'' 21 # replicate 9 (Statement 1)"
  obtain s' where s': "data_run ?as reader_inside = Some s'" and "content_at s' (u_data s') = Some [''temparature'' \<mapsto> 21]"
    by (simp add: reader_inside_def eval_nat_numeral data_act_defs goto_def content_at_def
        sp_unique_def sp_drop_def map_write_def)
  moreover have "content_at s' 0 = content_at reader_inside 0 \<and> u_maps s' 0 \<noteq> None"
    by (rule snapshot_isolation [OF reader_inside_reachable, of 0 "''temparature''" 0 ?as, OF _ _ _ s'])
      (auto simp: reader_inside_def)
  ultimately show ?thesis by (auto simp: reader_inside_def content_at_def)
qed

text \<open>
  C36. Where the threads update one key only, as the program does, a key that has been written is there for every later
  query: whenever a thread is about to copy the pointer, the map has an entry for the key, although \<open>update\<close> puts an
  empty map in place first.
\<close>

theorem written_key_found:
  assumes "data_reachable s" "updates_key k s" "has_key k s"
    and "list_all (calls_key k) as" "data_run as s = Some s'"
    and "t < length (u_threads s')" "u_threads s' ! t = Q_Copy k'"
  shows "has_key k s'"
proof -
  have "key_kept k s" using assms(3) by (simp add: key_kept_def)
  with key_kept_run [OF assms(5) cow.reachable_inv [OF assms(1)] assms(2) _ assms(4)]
  have inv: "data_inv s'" and kept: "key_kept k s'" by blast+
  have "\<not> unwritten (u_threads s' ! i)" if "i < length (u_threads s')" for i
    using data_invD(3) [OF inv that] data_invD(3) [OF inv assms(6)] assms(7) unwritten_in_lock [of "u_threads s' ! i"]
    by auto
  with kept show ?thesis by (auto simp: key_kept_def)
qed

theorem written_key_found_witness:
  "\<exists>s'. data_run (Call_Update 1 ''temparature'' 21 # replicate 9 (Statement 1) @ [Statement 0, Statement 0] @
       Call_Query 0 ''temparature'' # replicate 2 (Statement 0)) reader_inside = Some s' \<and>
     u_threads s' ! 0 = Q_Copy ''temparature'' \<and> has_key ''temparature'' s'"
proof -
  let ?as = "Call_Update 1 ''temparature'' 21 # replicate 9 (Statement 1) @ [Statement 0, Statement 0] @
       Call_Query 0 ''temparature'' # replicate 2 (Statement 0)"
  obtain s' where s': "data_run ?as reader_inside = Some s'" and pc: "0 < length (u_threads s')" "u_threads s' ! 0 = Q_Copy ''temparature''"
    by (simp add: reader_inside_def eval_nat_numeral data_act_defs goto_def sp_unique_def sp_drop_def map_write_def)
  have "has_key ''temparature'' s'"
    by (rule written_key_found [OF reader_inside_reachable _ _ _ s' pc])
      (auto simp: reader_inside_def updates_key_def has_key_def content_at_def list_all_iff)
  with s' pc show ?thesis by blast
qed

end
