(* ===== verification/Spec2Isabelle.thy ===== *)
theory Spec2Isabelle
  imports KcpTest TcpLatency IQueue PagePool WorkQueue WebSocket Reactor LoadClient CopyOnUpdate
begin

text \<open>
  A verification of the code of CppMisc: the KCP protocol (\<open>kcp_learn/\<close>), two memory pools (\<open>mempool/\<close>), two thread
  pools (\<open>threadpool/\<close>), a map shared by threads (\<open>muduo/\<close>), and the servers on epoll (\<open>epoll/\<close>, \<open>c10M/\<close>, \<open>websocket/\<close>). These parts are
  independent programs; what they share is the layer \<open>CPrelude\<close> and, within a family, the theories
  named below.

  \<^bold>\<open>Shared layer.\<close> \<open>CPrelude\<close>: unsigned integers as words, the outcomes of a C function (\<open>c_error + 'a\<close>; a third value \<open>None\<close> of
  type \<open>option\<close> stands for not returning), memory blocks and array accesses, sequence-number arithmetic, and
  the locales \<open>invariant_system\<close> for reachable states and their invariants and \<open>simulation\<close> for systems seen as an abstract one.

  \<^bold>\<open>KCP.\<close> \<open>ikcp.c\<close> and \<open>ikcp.h\<close> in the order of the file.
  \<open>KcpCodec\<close>: the integer and header codecs. \<open>KcpState\<close>: \<open>IKCPCB\<close> as the record \<open>ikcpcb\<close>, creation, release, configuration,
  and the invariant \<open>kcp_inv\<close>. \<open>KcpSend\<close>, \<open>KcpRecv\<close>, \<open>KcpAck\<close>, \<open>KcpInput\<close>, \<open>KcpFlush\<close>, \<open>KcpUpdate\<close>: \<open>ikcp_send\<close>; \<open>ikcp_recv\<close>, \<open>ikcp_peeksize\<close> and
  \<open>ikcp_parse_data\<close>; the processing of acknowledgements and the estimate of the timeout; \<open>ikcp_input\<close>; \<open>ikcp_flush\<close>; \<open>ikcp_update\<close> and \<open>ikcp_check\<close>. Each
  operation is shown to return without an access outside its buffers and to keep the invariant, and its
  effect is given on every branch; the reassembly of \<open>ikcp_parse_data\<close> refines a map from sequence numbers to
  segments, the array of \<open>ikcp_ack_push\<close> a list. \<open>KcpProtocol\<close> relates the datagrams of \<open>ikcp_flush\<close> to what \<open>ikcp_input\<close>
  does with them, and \<open>KcpNetwork\<close> composes two control blocks over a network that loses, duplicates and reorders
  datagrams: what one side receives is a prefix of what the other sent.

  \<^bold>\<open>Programs on KCP.\<close> \<open>KcpServer\<close> (\<open>server.c\<close>) survives whatever datagrams it is sent; the locale \<open>receive_side\<close> carries facts on the receive
  queue through \<open>ikcp_input\<close>. \<open>KcpClient\<close> (\<open>client.c\<close>, \<open>delay.c\<close>) is a machine of atomic steps. \<open>KcpEcho\<close> lets the two run together: either direction
  of the conversation is a view of it as the network of \<open>KcpNetwork\<close>, by interpretation of the locale \<open>simulation\<close>, and the client gets back what it sent.
  \<open>LatencySim\<close> is the simulated network of \<open>test.h\<close>, which loses exactly the share it was given, and \<open>KcpTest\<close> the test program \<open>test.cpp\<close> on top of it, which
  never reports an error; its loops are one combinator (\<open>while_true\<close>) with one rule for invariant and termination.

  \<^bold>\<open>TCP test.\<close> \<open>TcpLatency\<close> (\<open>kcp_learn/tcp/\<close>): the echo server is an instance of \<open>event_driven\<close> below; of the client's tests the first is shown to measure
  correctly, the second to leave its array.

  \<^bold>\<open>Queues.\<close> The segments are lists in these theories;
  \<open>IQueue\<close> shows that the pointer macros of \<open>ikcp.h\<close> implement lists, through the locales \<open>node_container\<close>, \<open>node_queue\<close> and \<open>node_stack\<close>.

  \<^bold>\<open>Memory pools.\<close> \<open>MemPool\<close> models \<open>mmpool.c\<close> on 64-bit addresses over a system allocator that is a parameter with the documented
  contract \<open>sys_alloc_ok\<close>; \<open>mp_alloc\<close> and \<open>mp_alloc_large\<close> call each other and are a partial function, whose
  termination is part of the theorems. The invariant \<open>pool_ok\<close> says which memory is in use and which blocks the pool owns;
  the locale \<open>region_allocator\<close> gives disjointness for sequences of requests. \<open>PagePool\<close> models \<open>mem_pool.c\<close> on the same heap.

  \<^bold>\<open>Thread pools.\<close> \<open>LinkList\<close>: the list macros, a stack by interpretation of \<open>node_stack\<close>. \<open>ThreadPool\<close> (\<open>thread_pool.c\<close>) and \<open>WorkQueue\<close> (\<open>tp.c\<close>): a worker is
  a position in its loop, each critical section and each access outside of one is a step, the calls of the user are
  steps; the theorems hold in every reachable state of the interleaving, with spurious wake-ups.

  \<^bold>\<open>Shared map.\<close> \<open>CopyOnUpdate\<close> (\<open>muduo/copy_on_update.cc\<close>): readers and writers of a reference-counted map, one step per statement, as an instance of
  \<open>invariant_system\<close>; readers see a snapshot, every map is freed, and an update of a map in use starts from an empty one.

  \<^bold>\<open>Servers.\<close> \<open>EventLoop\<close>: items, registrations and the loop. The locale \<open>event_driven\<close> is the contract of a server (an event on a
  registered descriptor is handled without a fault, keeps the invariant and the other registrations) and gives the
  safety of the whole loop; \<open>callback_server\<close> derives it from a contract of the callbacks. \<open>EpollServers\<close>: \<open>epoll_v1.c\<close>, \<open>epoll_v2.c\<close>, \<open>c10M/server.c\<close> and
  \<open>websocket.c\<close>; the locale \<open>echo_policy\<close> serves the echo servers with two invariants, one for safety and one for the
  data. \<open>Reactor\<close>: \<open>c10M/reactor.c\<close> as another instance of \<open>event_driven\<close>. \<open>LoadClient\<close> (\<open>c10M/client.c\<close>), the load generator, is a third. \<open>WebSocket\<close>: \<open>epoll_websocket.c\<close>, with the handshake and the frame codec. The kernel
  is an argument of these models: the results of the system calls and the lists of ready events are given, and the hypotheses \<open>ready\<close>, \<open>os_ok\<close>, \<open>kernel_ok\<close>,
  \<open>rx_ready\<close>, \<open>rx_ok\<close>, \<open>tcp_ready\<close>, \<open>tcp_os_ok\<close>, \<open>load_kernel\<close> state what its documentation promises. The endless loops are run on the list of the kernel's answers up to the
  moment of observation.

  \<^bold>\<open>Recursion and fuel.\<close> Loops are structural recursions or functions with a termination proof. \<open>mp_alloc\<close>, \<open>flag_loop\<close>, \<open>stop_loop\<close>, \<open>while_true\<close> are
  partial functions, with a theorem that they return where they do. The loop that empties a list (\<open>drain_loop\<close>) has fuel; the length of the list is shown to be enough.

  \<^bold>\<open>Not modelled.\<close> Text printed or logged; \<open>main\<close> of the pools; single-call exercises on processes, signals,
  message queues and files; the other C++ exercises; generated build files.
\<close>

end
